(* ===== verification/Prelude.thy ===== *)
theory Prelude
  imports Main "HOL-Library.Word"
begin

text \<open>
  Shared vocabulary of the development: the machine integer types, Rust's \<open>Result\<close> with an extra
  outcome for a panic, a state passing monad over it, arithmetic with and without overflow checks,
  little-endian byte encodings and byte-addressed memories (flash contents).
\<close>

unbundle bit_operations_syntax

named_theorems exec_simps \<open>unfolding rules for the state passing monad\<close>
named_theorems mem_simps \<open>rewrite rules for byte-addressed memories\<close>

section \<open>Machine integers\<close>

type_synonym u8 = "8 word"
type_synonym u16 = "16 word"
type_synonym u32 = "32 word"
type_synonym u64 = "64 word"

section \<open>Results, panics and state passing\<close>

text \<open>
  \<open>Ok\<close> and \<open>Err\<close> are the constructors of Rust's \<open>Result\<close>. \<open>Panic\<close> is the outcome of a failed
  assertion, of an out of range slice index and of an arithmetic overflow in a build with overflow
  checks.
\<close>

datatype ('e, 'a) result = Ok 'a | Err 'e | Panic

primrec is_ok :: "('e, 'a) result \<Rightarrow> bool" where
  "is_ok (Ok x) = True"
| "is_ok (Err e) = False"
| "is_ok Panic = False"

primrec map_err :: "('e \<Rightarrow> 'f) \<Rightarrow> ('e, 'a) result \<Rightarrow> ('f, 'a) result" where
  "map_err f (Ok x) = Ok x"
| "map_err f (Err e) = Err (f e)"
| "map_err f Panic = Panic"

primrec bind_result :: "('e, 'a) result \<Rightarrow> ('a \<Rightarrow> ('e, 'b) result) \<Rightarrow> ('e, 'b) result" where
  "bind_result (Ok x) k = k x"
| "bind_result (Err e) k = Err e"
| "bind_result Panic k = Panic"

type_synonym ('s, 'e, 'a) exec = "'s \<Rightarrow> ('e, 'a) result \<times> 's"

definition ret :: "'a \<Rightarrow> ('s, 'e, 'a) exec" where
  [exec_simps]: "ret x s = (Ok x, s)"

definition fail :: "'e \<Rightarrow> ('s, 'e, 'a) exec" where
  [exec_simps]: "fail e s = (Err e, s)"

definition panic :: "('s, 'e, 'a) exec" where
  [exec_simps]: "panic s = (Panic, s)"

text \<open>A pure computation that does not touch the state.\<close>

definition lift :: "('e, 'a) result \<Rightarrow> ('s, 'e, 'a) exec" where
  [exec_simps]: "lift r s = (r, s)"

text \<open>The \<open>?\<close> operator: the first failure ends the computation in the state it left behind.\<close>

definition bind_exec :: "('s, 'e, 'a) exec \<Rightarrow> ('a \<Rightarrow> ('s, 'e, 'b) exec) \<Rightarrow> ('s, 'e, 'b) exec" where
  "bind_exec m k s = (case m s of
      (Ok x, s') \<Rightarrow> k x s'
    | (Err e, s') \<Rightarrow> (Err e, s')
    | (Panic, s') \<Rightarrow> (Panic, s'))"

lemma bind_result_eq_Ok [simp]:
  "bind_result r k = Ok y \<longleftrightarrow> (\<exists>x. r = Ok x \<and> k x = Ok y)"
  by (cases r) auto

lemma map_err_eq_Ok [simp]: "map_err f r = Ok y \<longleftrightarrow> r = Ok y"
  by (cases r) auto

lemma bind_exec_step [exec_simps]:
  "m s = (Ok x, s') \<Longrightarrow> bind_exec m k s = k x s'"
  "m s = (Err e, s') \<Longrightarrow> bind_exec m k s = (Err e, s')"
  "m s = (Panic, s') \<Longrightarrow> bind_exec m k s = (Panic, s')"
  by (simp_all add: bind_exec_def)

lemma bind_exec_lift [exec_simps]:
  "bind_exec (lift (Ok x)) k = k x"
  "bind_exec (lift (Err e)) k = fail e"
  "bind_exec (lift Panic) k = panic"
  by (simp_all add: bind_exec_def lift_def fail_def panic_def fun_eq_iff)

lemma bind_exec_ret [exec_simps]: "bind_exec (ret x) k = k x"
  by (simp add: bind_exec_def ret_def fun_eq_iff)

lemma bind_exec_fail [exec_simps]: "bind_exec (fail e) k = fail e"
  by (simp add: bind_exec_def fail_def fun_eq_iff)

lemma bind_exec_panic [exec_simps]: "bind_exec panic k = panic"
  by (simp add: bind_exec_def panic_def fun_eq_iff)

lemma bind_exec_OkE:
  assumes "bind_exec m k s = (Ok y, t)"
  obtains x s' where "m s = (Ok x, s')" and "k x s' = (Ok y, t)"
  using assms by (auto simp: bind_exec_def split: prod.splits result.splits)

text \<open>
  Frame rule: a relation between the state before and after that is reflexive and transitive holds
  of a sequence when it holds of both parts, whatever their outcome.
\<close>

lemma bind_exec_frame:
  assumes "\<And>r s'. m s = (r, s') \<Longrightarrow> P s s'"
    and "\<And>x s' r t. m s = (Ok x, s') \<Longrightarrow> k x s' = (r, t) \<Longrightarrow> P s' t"
    and "\<And>a b c. P a b \<Longrightarrow> P b c \<Longrightarrow> P a c"
    and "bind_exec m k s = (r, t)"
  shows "P s t"
proof (cases "m s")
  case (Pair q s')
  show ?thesis
  proof (cases q)
    case (Ok x)
    with Pair assms(4) have "k x s' = (r, t)" by (simp add: exec_simps)
    with Pair Ok assms(1-3) show ?thesis by blast
  next
    case (Err e)
    with Pair assms(1,4) show ?thesis by (simp add: exec_simps)
  next
    case Panic
    with Pair assms(1,4) show ?thesis by (simp add: exec_simps)
  qed
qed

section \<open>Arithmetic with and without overflow checks\<close>

text \<open>
  Rust adds and subtracts with a panic on overflow when the profile enables overflow checks, and
  with wrap-around otherwise. The flag \<open>oc\<close> is that profile setting; every theorem that does not
  name a value for it holds for both.
\<close>

definition add_ovf :: "bool \<Rightarrow> 'l::len word \<Rightarrow> 'l word \<Rightarrow> ('e, 'l word) result" where
  "add_ovf oc a b = (if oc \<and> unat a + unat b \<ge> 2 ^ LENGTH('l) then Panic else Ok (a + b))"

definition sub_ovf :: "bool \<Rightarrow> 'l::len word \<Rightarrow> 'l word \<Rightarrow> ('e, 'l word) result" where
  "sub_ovf oc a b = (if oc \<and> unat a < unat b then Panic else Ok (a - b))"

lemma unat_add_small: "unat a + unat b < 2 ^ LENGTH('l) \<Longrightarrow> unat (a + b) = unat a + unat b"
  for a b :: "'l::len word"
  by (simp add: unat_word_ariths)

lemma unat_sub_small: "unat b \<le> unat a \<Longrightarrow> unat (a - b) = unat a - unat b"
  for a b :: "'l::len word"
  by (simp add: unat_sub word_le_nat_alt)

lemma add_ovf_small [simp]:
  "unat a + unat b < 2 ^ LENGTH('l) \<Longrightarrow> add_ovf oc a b = Ok (a + b)" for a b :: "'l::len word"
  by (simp add: add_ovf_def)

lemma sub_ovf_small [simp]: "unat b \<le> unat a \<Longrightarrow> sub_ovf oc a b = Ok (a - b)"
  by (simp add: sub_ovf_def)

lemma add_ovf_eq_Ok:
  "add_ovf oc a b = Ok c \<Longrightarrow> c = a + b"
  by (simp add: add_ovf_def split: if_splits)

lemma unat_u32_bound: "unat (a :: u32) < 4294967296"
  using unsigned_less [of a] by simp

lemma unat_of_nat_u32 [simp]: "n < 4294967296 \<Longrightarrow> unat (word_of_nat n :: u32) = n"
  by (simp add: unat_of_nat)

text \<open>The error kinds of the \<open>embedded-storage\<close> traits.\<close>

datatype NorFlashErrorKind = KindNotAligned | KindOutOfBounds | KindOther

section \<open>Little-endian encodings\<close>

primrec le_nat :: "u8 list \<Rightarrow> nat" where
  "le_nat [] = 0"
| "le_nat (b # bs) = unat b + 256 * le_nat bs"

primrec nat_le :: "nat \<Rightarrow> nat \<Rightarrow> u8 list" where
  "nat_le 0 n = []"
| "nat_le (Suc k) n = word_of_nat (n mod 256) # nat_le k (n div 256)"

definition u16_from_le_bytes :: "u8 list \<Rightarrow> u16" where
  "u16_from_le_bytes bs = word_of_nat (le_nat bs)"

definition u32_from_le_bytes :: "u8 list \<Rightarrow> u32" where
  "u32_from_le_bytes bs = word_of_nat (le_nat bs)"

definition u32_to_le_bytes :: "u32 \<Rightarrow> u8 list" where
  "u32_to_le_bytes w = nat_le 4 (unat w)"

lemma length_nat_le [simp]: "length (nat_le k n) = k"
  by (induction k arbitrary: n) auto

lemma unat_u8_bound: "unat (b :: u8) < 256"
  using unsigned_less [of b] by simp

lemma le_nat_nat_le: "le_nat (nat_le k n) = n mod 256 ^ k"
proof (induction k arbitrary: n)
  case 0
  then show ?case by simp
next
  case (Suc k)
  have "n mod 256 + 256 * (n div 256 mod 256 ^ k) = n mod 256 ^ Suc k"
    by (simp add: mod_mult2_eq)
  then show ?case by (simp add: Suc unat_of_nat)
qed

lemma le_nat_bound: "le_nat bs < 256 ^ length bs"
proof (induction bs)
  case Nil
  then show ?case by simp
next
  case (Cons b bs)
  have "unat b < 256" by (rule unat_u8_bound)
  moreover have "Suc (le_nat bs) \<le> 256 ^ length bs" using Cons by simp
  then have "256 * Suc (le_nat bs) \<le> 256 * 256 ^ length bs" by (rule mult_le_mono2)
  ultimately show ?case by simp
qed

lemma nat_le_le_nat: "nat_le (length bs) (le_nat bs) = bs"
proof (induction bs)
  case Nil
  then show ?case by simp
next
  case (Cons b bs)
  have "unat b < 256" by (rule unat_u8_bound)
  with Cons show ?case by simp
qed

lemma length_u32_to_le_bytes [simp]: "length (u32_to_le_bytes w) = 4"
  by (simp add: u32_to_le_bytes_def)

lemma u32_le_bytes_round_trip [simp]: "u32_from_le_bytes (u32_to_le_bytes w) = w"
proof -
  have "unat w < 256 ^ 4" using unat_u32_bound [of w] by simp
  then show ?thesis
    by (simp add: u32_from_le_bytes_def u32_to_le_bytes_def le_nat_nat_le)
qed

lemma u32_le_bytes_round_trip' [simp]:
  "length bs = 4 \<Longrightarrow> u32_to_le_bytes (u32_from_le_bytes bs) = bs"
  using le_nat_bound [of bs] nat_le_le_nat [of bs]
  by (simp add: u32_from_le_bytes_def u32_to_le_bytes_def)

section \<open>Byte slices\<close>

lemma find_SomeD: "find P xs = Some x \<Longrightarrow> P x"
  by (auto simp: find_Some_iff)

definition slice :: "nat \<Rightarrow> nat \<Rightarrow> 'a list \<Rightarrow> 'a list" where
  "slice i n xs = take n (drop i xs)"

lemma length_slice [simp]: "i + n \<le> length xs \<Longrightarrow> length (slice i n xs) = n"
  by (simp add: slice_def)

lemma slice_append_left: "i + n \<le> length xs \<Longrightarrow> slice i n (xs @ ys) = slice i n xs"
  by (simp add: slice_def)

lemma slice_append_right: "slice (length xs + i) n (xs @ ys) = slice i n ys"
  by (simp add: slice_def)

section \<open>Byte-addressed memories\<close>

type_synonym mem = "nat \<Rightarrow> u8"

definition mem_read :: "mem \<Rightarrow> nat \<Rightarrow> nat \<Rightarrow> u8 list" where
  "mem_read m a n = map m [a..<a + n]"

definition mem_write :: "mem \<Rightarrow> nat \<Rightarrow> u8 list \<Rightarrow> mem" where
  "mem_write m a bs = (\<lambda>x. if a \<le> x \<and> x < a + length bs then bs ! (x - a) else m x)"

definition mem_fill :: "mem \<Rightarrow> nat \<Rightarrow> nat \<Rightarrow> u8 \<Rightarrow> mem" where
  "mem_fill m a n v = (\<lambda>x. if a \<le> x \<and> x < a + n then v else m x)"

text \<open>Programming NOR flash can only clear bits.\<close>

definition mem_and :: "mem \<Rightarrow> nat \<Rightarrow> u8 list \<Rightarrow> mem" where
  "mem_and m a bs = (\<lambda>x. if a \<le> x \<and> x < a + length bs then m x AND bs ! (x - a) else m x)"

text \<open>Two memories agree outside the \<open>n\<close> bytes at \<open>a\<close>.\<close>

definition same_outside :: "nat \<Rightarrow> nat \<Rightarrow> (nat \<Rightarrow> 'v) \<Rightarrow> (nat \<Rightarrow> 'v) \<Rightarrow> bool" where
  "same_outside a n m m' \<longleftrightarrow> (\<forall>x. x < a \<or> a + n \<le> x \<longrightarrow> m' x = m x)"

lemma length_mem_read [simp]: "length (mem_read m a n) = n"
  by (simp add: mem_read_def)

lemma mem_read_nth [simp]: "i < n \<Longrightarrow> mem_read m a n ! i = m (a + i)"
  by (simp add: mem_read_def)

lemma mem_read_0 [simp]: "mem_read m a 0 = []"
  by (simp add: mem_read_def)

lemma mem_read_cong: "(\<And>x. a \<le> x \<Longrightarrow> x < a + n \<Longrightarrow> m' x = m x) \<Longrightarrow> mem_read m' a n = mem_read m a n"
  by (simp add: mem_read_def)

lemma mem_read_append: "mem_read m a (n + k) = mem_read m a n @ mem_read m (a + n) k"
  by (simp add: list_eq_iff_nth_eq nth_append)

lemma slice_mem_read: "i + k \<le> n \<Longrightarrow> slice i k (mem_read m a n) = mem_read m (a + i) k"
  by (simp add: slice_def list_eq_iff_nth_eq add.assoc)

lemma take_mem_read: "take k (mem_read m a n) = mem_read m a (min k n)"
  by (simp add: list_eq_iff_nth_eq)

lemma drop_mem_read: "drop k (mem_read m a n) = mem_read m (a + k) (n - k)"
  by (simp add: list_eq_iff_nth_eq add.assoc)

lemma mem_read_write_same [simp]: "length bs = n \<Longrightarrow> mem_read (mem_write m a bs) a n = bs"
  by (simp add: list_eq_iff_nth_eq mem_write_def)

lemma mem_read_write_apart:
  "a + length bs \<le> b \<or> b + n \<le> a \<Longrightarrow> mem_read (mem_write m a bs) b n = mem_read m b n"
  by (auto simp: list_eq_iff_nth_eq mem_write_def)

lemma mem_write_nil [simp]: "mem_write m a [] = m"
  by (auto simp: mem_write_def fun_eq_iff)

lemma mem_write_append: "mem_write m a (bs @ cs) = mem_write (mem_write m a bs) (a + length bs) cs"
  by (auto simp: mem_write_def fun_eq_iff nth_append)

lemma mem_and_nil [simp]: "mem_and m a [] = m"
  by (auto simp: mem_and_def fun_eq_iff)

lemma mem_and_append: "mem_and m a (bs @ cs) = mem_and (mem_and m a bs) (a + length bs) cs"
  by (auto simp: mem_and_def fun_eq_iff nth_append)

lemma mem_fill_0 [simp]: "mem_fill m a 0 v = m"
  by (auto simp: mem_fill_def fun_eq_iff)

lemma mem_fill_append: "mem_fill m a (n + k) v = mem_fill (mem_fill m a n v) (a + n) k v"
  by (auto simp: mem_fill_def fun_eq_iff)

lemma word_and_ff [simp]: "(255 :: u8) AND b = b"
proof -
  have "(255 :: u8) = - 1" by simp
  then show ?thesis by (simp only: and.left_neutral)
qed

text \<open>Programming erased cells stores the bytes themselves.\<close>

lemma mem_and_erased:
  assumes "\<And>x. a \<le> x \<Longrightarrow> x < a + length bs \<Longrightarrow> m x = 255"
  shows "mem_and m a bs = mem_write m a bs"
  using assms by (auto simp: mem_and_def mem_write_def fun_eq_iff)

lemma same_outside_refl [simp]: "same_outside a n m m"
  by (simp add: same_outside_def)

lemma same_outside_trans:
  "same_outside a n m m' \<Longrightarrow> same_outside a n m' m'' \<Longrightarrow> same_outside a n m m''"
  by (simp add: same_outside_def)

lemma same_outside_mono:
  "same_outside a n m m' \<Longrightarrow> b \<le> a \<Longrightarrow> a + n \<le> b + k \<Longrightarrow> same_outside b k m m'"
  by (auto simp: same_outside_def)

lemma same_outside_write [simp]: "same_outside a (length bs) m (mem_write m a bs)"
  by (auto simp: same_outside_def mem_write_def)

lemma same_outside_and [simp]: "same_outside a (length bs) m (mem_and m a bs)"
  by (auto simp: same_outside_def mem_and_def)

lemma same_outside_fill [simp]: "same_outside a n m (mem_fill m a n v)"
  by (auto simp: same_outside_def mem_fill_def)

lemma same_outside_read:
  "same_outside a n m m' \<Longrightarrow> b + k \<le> a \<or> a + n \<le> b \<Longrightarrow> mem_read m' b k = mem_read m b k"
  by (rule mem_read_cong) (auto simp: same_outside_def)

lemma same_outside_comp: "same_outside a n m m' \<Longrightarrow> same_outside a n (f \<circ> m) (f \<circ> m')"
  by (auto simp: same_outside_def)

lemma mem_eq_writeI:
  assumes "same_outside a (length bs) m m'" "mem_read m' a (length bs) = bs"
  shows "m' = mem_write m a bs"
proof
  fix x
  show "m' x = mem_write m a bs x"
  proof (cases "a \<le> x \<and> x < a + length bs")
    case True
    then have "mem_read m' a (length bs) ! (x - a) = m' x" by (subst mem_read_nth) auto
    with True assms(2) show ?thesis by (simp add: mem_write_def)
  next
    case False
    with assms(1) show ?thesis by (auto simp: mem_write_def same_outside_def)
  qed
qed

text \<open>Replacing a part of what was read and writing all of it back writes just that part.\<close>

lemma mem_write_splice:
  assumes "d + length xs \<le> n"
  shows "mem_write m a (take d (mem_read m a n) @ xs @ drop (d + length xs) (mem_read m a n))
    = mem_write m (a + d) xs"
proof
  fix x
  let ?w = "take d (mem_read m a n) @ xs @ drop (d + length xs) (mem_read m a n)"
  have len: "length ?w = n" using assms by simp
  show "mem_write m a ?w x = mem_write m (a + d) xs x"
  proof (cases "a \<le> x \<and> x < a + n")
    case True
    then have "?w ! (x - a) = (if a + d \<le> x \<and> x < a + d + length xs then xs ! (x - a - d) else m x)"
      using assms by (auto simp: nth_append)
    with True len show ?thesis by (auto simp: mem_write_def)
  next
    case False
    with len assms show ?thesis by (auto simp: mem_write_def)
  qed
qed

lemmas mem_splits = mem_read_append mem_write_append mem_and_append mem_fill_append

end
