(* ===== verification/Sector_Erase.thy ===== *)
theory Sector_Erase
  imports Prelude
begin

text \<open>
  The erase plan shared by \<open>esp-storage\<close> (\<open>nor_flash.rs\<close>), the \<open>esp-hal\<close> flash driver
  (\<open>flash/mod.rs\<close>) and the host flash (\<open>mock_flash.rs\<close>): single sectors up to a block boundary,
  then whole blocks, then the remaining sectors. The three loops take the sector and the block
  eraser as arguments. The locale \<open>sector_eraser\<close> is the contract of those two operations; inside
  it the plan is shown to erase exactly the requested range.
\<close>

definition SECTOR_SIZE :: nat where
  "SECTOR_SIZE = 4096"

definition BLOCK_SIZE :: nat where
  "BLOCK_SIZE = 65536"

section \<open>The three loops\<close>

function erase_head :: "(nat \<Rightarrow> ('s, 'e, unit) exec) \<Rightarrow> nat \<Rightarrow> nat \<Rightarrow> ('s, 'e, nat) exec" where
  "erase_head sector address to =
    (if address < to \<and> \<not> BLOCK_SIZE dvd address
     then bind_exec (sector address) (\<lambda>_. erase_head sector (address + SECTOR_SIZE) to)
     else ret address)"
  by pat_completeness auto
termination
  by (relation "measure (\<lambda>(f, a, t). t - a)") (auto simp: SECTOR_SIZE_def)

function erase_blocks :: "(nat \<Rightarrow> ('s, 'e, unit) exec) \<Rightarrow> nat \<Rightarrow> nat \<Rightarrow> ('s, 'e, nat) exec" where
  "erase_blocks block address to =
    (if address + BLOCK_SIZE \<le> to
     then bind_exec (block address) (\<lambda>_. erase_blocks block (address + BLOCK_SIZE) to)
     else ret address)"
  by pat_completeness auto
termination
  by (relation "measure (\<lambda>(f, a, t). t - a)") (auto simp: BLOCK_SIZE_def)

function erase_tail :: "(nat \<Rightarrow> ('s, 'e, unit) exec) \<Rightarrow> nat \<Rightarrow> nat \<Rightarrow> ('s, 'e, unit) exec" where
  "erase_tail sector address to =
    (if address < to
     then bind_exec (sector address) (\<lambda>_. erase_tail sector (address + SECTOR_SIZE) to)
     else ret ())"
  by pat_completeness auto
termination
  by (relation "measure (\<lambda>(f, a, t). t - a)") (auto simp: SECTOR_SIZE_def)

declare erase_head.simps [simp del] erase_blocks.simps [simp del] erase_tail.simps [simp del]

definition erase_plan ::
  "(nat \<Rightarrow> ('s, 'e, unit) exec) \<Rightarrow> (nat \<Rightarrow> ('s, 'e, unit) exec) \<Rightarrow> nat \<Rightarrow> nat \<Rightarrow> ('s, 'e, unit) exec"
where
  "erase_plan sector block from to =
     bind_exec (erase_head sector from to) (\<lambda>address.
     bind_exec (erase_blocks block address to) (\<lambda>address.
     erase_tail sector address to))"

lemma block_dvd_sector: "BLOCK_SIZE dvd a \<Longrightarrow> SECTOR_SIZE dvd a"
  by (rule dvd_trans [of _ BLOCK_SIZE]) (simp_all add: BLOCK_SIZE_def SECTOR_SIZE_def)

lemma sector_step_le: "a < t \<Longrightarrow> SECTOR_SIZE dvd a \<Longrightarrow> SECTOR_SIZE dvd t \<Longrightarrow> a + SECTOR_SIZE \<le> t"
  by (auto simp: SECTOR_SIZE_def elim!: dvdE)

section \<open>The contract of the erasers\<close>

text \<open>
  \<open>cells\<close> is the contents of the device and \<open>erased\<close> tells whether a cell is erased. Every call,
  successful or not, leaves the cells outside its sector or block alone; a successful call leaves
  the cells inside erased.
\<close>

locale sector_eraser =
  fixes sector :: "nat \<Rightarrow> ('s, 'e, unit) exec"
    and block :: "nat \<Rightarrow> ('s, 'e, unit) exec"
    and cells :: "'s \<Rightarrow> nat \<Rightarrow> 'c"
    and erased :: "'c \<Rightarrow> bool"
    and size :: nat
  assumes sector_frame: "SECTOR_SIZE dvd a \<Longrightarrow> a + SECTOR_SIZE \<le> size \<Longrightarrow> sector a s = (r, s') \<Longrightarrow>
      same_outside a SECTOR_SIZE (cells s) (cells s')"
    and sector_ok: "SECTOR_SIZE dvd a \<Longrightarrow> a + SECTOR_SIZE \<le> size \<Longrightarrow> sector a s = (Ok u, s') \<Longrightarrow>
      a \<le> x \<Longrightarrow> x < a + SECTOR_SIZE \<Longrightarrow> erased (cells s' x)"
    and block_frame: "BLOCK_SIZE dvd a \<Longrightarrow> a + BLOCK_SIZE \<le> size \<Longrightarrow> block a s = (r, s') \<Longrightarrow>
      same_outside a BLOCK_SIZE (cells s) (cells s')"
    and block_ok: "BLOCK_SIZE dvd a \<Longrightarrow> a + BLOCK_SIZE \<le> size \<Longrightarrow> block a s = (Ok u, s') \<Longrightarrow>
      a \<le> x \<Longrightarrow> x < a + BLOCK_SIZE \<Longrightarrow> erased (cells s' x)"
begin

definition erases :: "'s \<Rightarrow> 's \<Rightarrow> nat \<Rightarrow> nat \<Rightarrow> bool" where
  "erases s s' a b \<longleftrightarrow> same_outside a (b - a) (cells s) (cells s') \<and>
     (\<forall>x. a \<le> x \<and> x < b \<longrightarrow> erased (cells s' x))"

lemma erases_empty [simp]: "erases s s a a"
  by (auto simp: erases_def)

lemma erases_trans: "erases s s' a b \<Longrightarrow> erases s' s'' b c \<Longrightarrow> a \<le> b \<Longrightarrow> b \<le> c \<Longrightarrow> erases s s'' a c"
  unfolding erases_def same_outside_def by (metis diff_is_0_eq le_add_diff_inverse linorder_not_le order_trans)

lemma frame_trans:
  assumes "same_outside a (b - a) (cells s) (cells s')" "same_outside b (t - b) (cells s') (cells s'')"
    and "a \<le> b" "b \<le> t"
  shows "same_outside a (t - a) (cells s) (cells s'')"
  using assms by (auto simp: same_outside_def)

lemma sector_erases:
  assumes "SECTOR_SIZE dvd a" "a + SECTOR_SIZE \<le> size" "sector a s = (Ok u, s')"
  shows "erases s s' a (a + SECTOR_SIZE)"
  using sector_frame [OF assms] sector_ok [OF assms] by (simp add: erases_def)

lemma block_erases:
  assumes "BLOCK_SIZE dvd a" "a + BLOCK_SIZE \<le> size" "block a s = (Ok u, s')"
  shows "erases s s' a (a + BLOCK_SIZE)"
  using block_frame [OF assms] block_ok [OF assms] by (simp add: erases_def)

text \<open>Each loop erases what it passes over and stops at the point the next one expects.\<close>

lemma erase_head_ok:
  assumes "erase_head sector a t s = (Ok b, s')" "a \<le> t" "t \<le> size"
    and "SECTOR_SIZE dvd a" "SECTOR_SIZE dvd t"
  shows "a \<le> b \<and> b \<le> t \<and> SECTOR_SIZE dvd b \<and> (b = t \<or> BLOCK_SIZE dvd b) \<and> erases s s' a b"
  using assms
proof (induction "t - a" arbitrary: a s rule: less_induct)
  case less
  show ?case
  proof (cases "a < t \<and> \<not> BLOCK_SIZE dvd a")
    case False
    with less.prems show ?thesis by (auto simp: erase_head.simps [of _ a t] ret_def)
  next
    case True
    let ?a = "a + SECTOR_SIZE"
    from True less.prems obtain u s1
      where s1: "sector a s = (Ok u, s1)" and rest: "erase_head sector ?a t s1 = (Ok b, s')"
      by (auto simp: erase_head.simps [of _ a t] elim!: bind_exec_OkE)
    have a: "?a \<le> t" "SECTOR_SIZE dvd ?a" "t - ?a < t - a"
      using True less.prems sector_step_le by (auto simp: SECTOR_SIZE_def)
    from less.hyps [OF a(3) rest a(1) less.prems(3) a(2) less.prems(5)]
    have IH: "?a \<le> b \<and> b \<le> t \<and> SECTOR_SIZE dvd b \<and> (b = t \<or> BLOCK_SIZE dvd b) \<and> erases s1 s' ?a b" .
    moreover have "erases s s1 a ?a"
      using less.prems a(1) s1 by (intro sector_erases) auto
    ultimately show ?thesis by (auto intro: erases_trans)
  qed
qed

lemma erase_blocks_ok:
  assumes "erase_blocks block a t s = (Ok b, s')" "a \<le> t" "t \<le> size"
    and "SECTOR_SIZE dvd a" "a = t \<or> BLOCK_SIZE dvd a"
  shows "a \<le> b \<and> b \<le> t \<and> SECTOR_SIZE dvd b \<and> erases s s' a b"
  using assms
proof (induction "t - a" arbitrary: a s rule: less_induct)
  case less
  show ?case
  proof (cases "a + BLOCK_SIZE \<le> t")
    case False
    with less.prems show ?thesis by (auto simp: erase_blocks.simps [of _ a t] ret_def)
  next
    case True
    let ?a = "a + BLOCK_SIZE"
    from True less.prems obtain u s1
      where s1: "block a s = (Ok u, s1)" and rest: "erase_blocks block ?a t s1 = (Ok b, s')"
      by (auto simp: erase_blocks.simps [of _ a t] elim!: bind_exec_OkE)
    have a: "BLOCK_SIZE dvd a" "SECTOR_SIZE dvd ?a" "?a = t \<or> BLOCK_SIZE dvd ?a" "t - ?a < t - a"
      using True less.prems block_dvd_sector by (auto simp: BLOCK_SIZE_def)
    from less.hyps [OF a(4) rest True less.prems(3) a(2,3)]
    have "?a \<le> b \<and> b \<le> t \<and> SECTOR_SIZE dvd b \<and> erases s1 s' ?a b" .
    moreover have "erases s s1 a ?a"
      using less.prems True s1 a(1) by (intro block_erases) auto
    ultimately show ?thesis by (auto intro: erases_trans)
  qed
qed

lemma erase_tail_ok:
  assumes "erase_tail sector a t s = (Ok u, s')" "a \<le> t" "t \<le> size"
    and "SECTOR_SIZE dvd a" "SECTOR_SIZE dvd t"
  shows "erases s s' a t"
  using assms
proof (induction "t - a" arbitrary: a s rule: less_induct)
  case less
  show ?case
  proof (cases "a < t")
    case False
    with less.prems show ?thesis by (auto simp: erase_tail.simps [of _ a t] ret_def)
  next
    case True
    let ?a = "a + SECTOR_SIZE"
    from True less.prems obtain u1 s1
      where s1: "sector a s = (Ok u1, s1)" and rest: "erase_tail sector ?a t s1 = (Ok u, s')"
      by (auto simp: erase_tail.simps [of _ a t] elim!: bind_exec_OkE)
    have a: "?a \<le> t" "SECTOR_SIZE dvd ?a" "t - ?a < t - a"
      using True less.prems sector_step_le by (auto simp: SECTOR_SIZE_def)
    from less.hyps [OF a(3) rest a(1) less.prems(3) a(2) less.prems(5)] have "erases s1 s' ?a t" .
    moreover have "erases s s1 a ?a"
      using less.prems a(1) s1 by (intro sector_erases) auto
    ultimately show ?thesis using a(1) by (auto intro: erases_trans)
  qed
qed

theorem erase_plan_ok:
  assumes "erase_plan sector block from to s = (Ok u, s')" "from \<le> to" "to \<le> size"
    and "SECTOR_SIZE dvd from" "SECTOR_SIZE dvd to"
  shows "erases s s' from to"
proof -
  from assms(1) obtain a b s1 s2 where
      h: "erase_head sector from to s = (Ok a, s1)"
      and k: "erase_blocks block a to s1 = (Ok b, s2)"
      and t: "erase_tail sector b to s2 = (Ok u, s')"
    unfolding erase_plan_def by (auto elim!: bind_exec_OkE)
  from erase_head_ok [OF h assms(2-5)]
  have a: "from \<le> a" "a \<le> to" "SECTOR_SIZE dvd a" "a = to \<or> BLOCK_SIZE dvd a" "erases s s1 from a"
    by auto
  from erase_blocks_ok [OF k a(2) assms(3) a(3,4)]
  have b: "a \<le> b" "b \<le> to" "SECTOR_SIZE dvd b" "erases s1 s2 a b" by auto
  from erase_tail_ok [OF t b(2) assms(3) b(3) assms(5)] have "erases s2 s' b to" .
  with a b show ?thesis by (blast intro: erases_trans order_trans)
qed

text \<open>Whatever the outcome, no cell outside the requested range changes.\<close>

lemma sequence_frame:
  assumes "\<And>r s1. f s = (r, s1) \<Longrightarrow> same_outside a n (cells s) (cells s1)"
    and "\<And>x s1 r t. f s = (Ok x, s1) \<Longrightarrow> k x s1 = (r, t) \<Longrightarrow> same_outside b m (cells s1) (cells t)"
    and "bind_exec f k s = (r, s')" "a \<le> b" "b + m \<le> e" "a + n \<le> e"
  shows "same_outside a (e - a) (cells s) (cells s')"
proof (rule bind_exec_frame [where P = "\<lambda>x y. same_outside a (e - a) (cells x) (cells y)", OF _ _ _ assms(3)])
  show "same_outside a (e - a) (cells s) (cells s1)" if "f s = (r, s1)" for r s1
    using assms(1) [OF that] assms(4-6) by (auto elim: same_outside_mono)
  show "same_outside a (e - a) (cells s1) (cells t)" if "f s = (Ok x, s1)" "k x s1 = (r, t)" for x s1 r t
    using assms(2) [OF that] assms(4-6) by (auto elim: same_outside_mono)
qed (rule same_outside_trans)

lemma erase_head_frame:
  assumes "erase_head sector a t s = (r, s')" "a \<le> t" "t \<le> size"
    and "SECTOR_SIZE dvd a" "SECTOR_SIZE dvd t"
  shows "same_outside a (t - a) (cells s) (cells s')"
  using assms
proof (induction "t - a" arbitrary: a s r s' rule: less_induct)
  case less
  show ?case
  proof (cases "a < t \<and> \<not> BLOCK_SIZE dvd a")
    case False
    with less.prems show ?thesis by (auto simp: erase_head.simps [of _ a t] ret_def)
  next
    case True
    let ?a = "a + SECTOR_SIZE"
    have a: "?a \<le> t" "SECTOR_SIZE dvd ?a" "t - ?a < t - a"
      using True less.prems sector_step_le by (auto simp: SECTOR_SIZE_def)
    have bind: "bind_exec (sector a) (\<lambda>_. erase_head sector ?a t) s = (r, s')"
      using True less.prems(1) by (simp add: erase_head.simps [of _ a t])
    show ?thesis
    proof (rule sequence_frame [where e = t, OF _ _ bind])
      show "same_outside a SECTOR_SIZE (cells s) (cells s1)" if "sector a s = (q, s1)" for q s1
        using sector_frame [OF _ _ that] less.prems a(1) by simp
      show "same_outside ?a (t - ?a) (cells s1) (cells u)"
        if "erase_head sector ?a t s1 = (q, u)" for s1 q u
        by (rule less.hyps [OF a(3) that a(1) less.prems(3) a(2) less.prems(5)])
    qed (use a(1) in auto)
  qed
qed

lemma erase_blocks_frame:
  assumes "erase_blocks block a t s = (r, s')" "a \<le> t" "t \<le> size" "a = t \<or> BLOCK_SIZE dvd a"
  shows "same_outside a (t - a) (cells s) (cells s')"
  using assms
proof (induction "t - a" arbitrary: a s r s' rule: less_induct)
  case less
  show ?case
  proof (cases "a + BLOCK_SIZE \<le> t")
    case False
    with less.prems show ?thesis by (auto simp: erase_blocks.simps [of _ a t] ret_def)
  next
    case True
    let ?a = "a + BLOCK_SIZE"
    have a: "BLOCK_SIZE dvd a" "?a = t \<or> BLOCK_SIZE dvd ?a" "t - ?a < t - a"
      using True less.prems by (auto simp: BLOCK_SIZE_def)
    have bind: "bind_exec (block a) (\<lambda>_. erase_blocks block ?a t) s = (r, s')"
      using True less.prems(1) by (simp add: erase_blocks.simps [of _ a t])
    show ?thesis
    proof (rule sequence_frame [where e = t, OF _ _ bind])
      show "same_outside a BLOCK_SIZE (cells s) (cells s1)" if "block a s = (q, s1)" for q s1
        using block_frame [OF _ _ that] less.prems True a(1) by simp
      show "same_outside ?a (t - ?a) (cells s1) (cells u)"
        if "erase_blocks block ?a t s1 = (q, u)" for s1 q u
        by (rule less.hyps [OF a(3) that True less.prems(3) a(2)])
    qed (use True in auto)
  qed
qed

lemma erase_tail_frame:
  assumes "erase_tail sector a t s = (r, s')" "a \<le> t" "t \<le> size"
    and "SECTOR_SIZE dvd a" "SECTOR_SIZE dvd t"
  shows "same_outside a (t - a) (cells s) (cells s')"
  using assms
proof (induction "t - a" arbitrary: a s r s' rule: less_induct)
  case less
  show ?case
  proof (cases "a < t")
    case False
    with less.prems show ?thesis by (auto simp: erase_tail.simps [of _ a t] ret_def)
  next
    case True
    let ?a = "a + SECTOR_SIZE"
    have a: "?a \<le> t" "SECTOR_SIZE dvd ?a" "t - ?a < t - a"
      using True less.prems sector_step_le by (auto simp: SECTOR_SIZE_def)
    have bind: "bind_exec (sector a) (\<lambda>_. erase_tail sector ?a t) s = (r, s')"
      using True less.prems(1) by (simp add: erase_tail.simps [of _ a t])
    show ?thesis
    proof (rule sequence_frame [where e = t, OF _ _ bind])
      show "same_outside a SECTOR_SIZE (cells s) (cells s1)" if "sector a s = (q, s1)" for q s1
        using sector_frame [OF _ _ that] less.prems a(1) by simp
      show "same_outside ?a (t - ?a) (cells s1) (cells u)"
        if "erase_tail sector ?a t s1 = (q, u)" for s1 q u
        by (rule less.hyps [OF a(3) that a(1) less.prems(3) a(2) less.prems(5)])
    qed (use a(1) in auto)
  qed
qed

theorem erase_plan_frame:
  assumes plan: "erase_plan sector block from to s = (r, s')" and "from \<le> to" "to \<le> size"
    and "SECTOR_SIZE dvd from" "SECTOR_SIZE dvd to"
  shows "same_outside from (to - from) (cells s) (cells s')"
proof (rule sequence_frame [where e = to, OF _ _ plan [unfolded erase_plan_def]])
  show "same_outside from (to - from) (cells s) (cells s1)"
    if "erase_head sector from to s = (q, s1)" for q s1
    by (rule erase_head_frame [OF that assms(2-5)])
  show "same_outside from (to - from) (cells s1) (cells t)"
    if head: "erase_head sector from to s = (Ok a, s1)"
      and rest: "bind_exec (erase_blocks block a to) (\<lambda>b. erase_tail sector b to) s1 = (q, t)"
    for a s1 q t
  proof -
    from erase_head_ok [OF head assms(2-5)]
    have a: "from \<le> a" "a \<le> to" "SECTOR_SIZE dvd a" "a = to \<or> BLOCK_SIZE dvd a" by auto
    have "same_outside a (to - a) (cells s1) (cells t)"
    proof (rule sequence_frame [where e = to, OF _ _ rest])
      show "same_outside a (to - a) (cells s1) (cells s2)"
        if "erase_blocks block a to s1 = (q, s2)" for q s2
        by (rule erase_blocks_frame [OF that a(2) assms(3) a(4)])
      show "same_outside a (to - a) (cells s2) (cells u)"
        if blocks: "erase_blocks block a to s1 = (Ok b, s2)"
          and tail: "erase_tail sector b to s2 = (q, u)" for b s2 q u
      proof -
        from erase_blocks_ok [OF blocks a(2) assms(3) a(3,4)]
        have b: "a \<le> b" "b \<le> to" "SECTOR_SIZE dvd b" by auto
        from erase_tail_frame [OF tail b(2) assms(3) b(3) assms(5)] b show ?thesis
          by (auto elim: same_outside_mono)
      qed
    qed (use a in auto)
    with a show ?thesis by (auto elim: same_outside_mono)
  qed
qed (use assms(2) in auto)

end

section \<open>Erasers that do not fail\<close>

text \<open>\<open>ready\<close> is the state the device must be in, for instance that no other core is running.\<close>

locale reliable_eraser = sector_eraser sector block cells erased size
  for sector :: "nat \<Rightarrow> ('s, 'e, unit) exec" and block :: "nat \<Rightarrow> ('s, 'e, unit) exec"
    and cells :: "'s \<Rightarrow> nat \<Rightarrow> 'c" and erased :: "'c \<Rightarrow> bool" and size :: nat +
  fixes ready :: "'s \<Rightarrow> bool"
  assumes sector_total: "SECTOR_SIZE dvd a \<Longrightarrow> a + SECTOR_SIZE \<le> size \<Longrightarrow> ready s \<Longrightarrow>
      \<exists>s'. sector a s = (Ok (), s') \<and> ready s'"
    and block_total: "BLOCK_SIZE dvd a \<Longrightarrow> a + BLOCK_SIZE \<le> size \<Longrightarrow> ready s \<Longrightarrow>
      \<exists>s'. block a s = (Ok (), s') \<and> ready s'"
begin

lemma erase_head_total:
  assumes "ready s" "a \<le> t" "t \<le> size" "SECTOR_SIZE dvd a" "SECTOR_SIZE dvd t"
  shows "\<exists>b s'. erase_head sector a t s = (Ok b, s') \<and> ready s'"
  using assms
proof (induction "t - a" arbitrary: a s rule: less_induct)
  case less
  show ?case
  proof (cases "a < t \<and> \<not> BLOCK_SIZE dvd a")
    case False
    with less.prems show ?thesis by (auto simp: erase_head.simps [of _ a t] ret_def)
  next
    case True
    let ?a = "a + SECTOR_SIZE"
    have a: "?a \<le> t" "SECTOR_SIZE dvd ?a" "t - ?a < t - a"
      using True less.prems sector_step_le by (auto simp: SECTOR_SIZE_def)
    obtain s1 where "sector a s = (Ok (), s1)" "ready s1"
      using sector_total less.prems a(1) by (meson order_trans)
    with less.hyps [OF a(3) _ a(1) less.prems(3) a(2) less.prems(5)] True show ?thesis
      by (auto simp: erase_head.simps [of _ a t] bind_exec_step)
  qed
qed

lemma erase_blocks_total:
  assumes "ready s" "a \<le> t" "t \<le> size" "a = t \<or> BLOCK_SIZE dvd a"
  shows "\<exists>b s'. erase_blocks block a t s = (Ok b, s') \<and> ready s'"
  using assms
proof (induction "t - a" arbitrary: a s rule: less_induct)
  case less
  show ?case
  proof (cases "a + BLOCK_SIZE \<le> t")
    case False
    with less.prems show ?thesis by (auto simp: erase_blocks.simps [of _ a t] ret_def)
  next
    case True
    let ?a = "a + BLOCK_SIZE"
    have a: "BLOCK_SIZE dvd a" "?a = t \<or> BLOCK_SIZE dvd ?a" "t - ?a < t - a"
      using True less.prems by (auto simp: BLOCK_SIZE_def)
    obtain s1 where "block a s = (Ok (), s1)" "ready s1"
      using block_total less.prems True a(1) by (meson order_trans)
    with less.hyps [OF a(3) _ True less.prems(3) a(2)] True show ?thesis
      by (auto simp: erase_blocks.simps [of _ a t] bind_exec_step)
  qed
qed

lemma erase_tail_total:
  assumes "ready s" "a \<le> t" "t \<le> size" "SECTOR_SIZE dvd a" "SECTOR_SIZE dvd t"
  shows "\<exists>s'. erase_tail sector a t s = (Ok (), s') \<and> ready s'"
  using assms
proof (induction "t - a" arbitrary: a s rule: less_induct)
  case less
  show ?case
  proof (cases "a < t")
    case False
    with less.prems show ?thesis by (subst erase_tail.simps) (auto simp: ret_def)
  next
    case True
    let ?a = "a + SECTOR_SIZE"
    have a: "?a \<le> t" "SECTOR_SIZE dvd ?a" "t - ?a < t - a"
      using True less.prems sector_step_le by (auto simp: SECTOR_SIZE_def)
    obtain s1 where "sector a s = (Ok (), s1)" "ready s1"
      using sector_total less.prems a(1) by (meson order_trans)
    with less.hyps [OF a(3) _ a(1) less.prems(3) a(2) less.prems(5)] True show ?thesis
      by (auto simp: erase_tail.simps [of _ a t] bind_exec_step)
  qed
qed

theorem erase_plan_total:
  assumes "ready s" "from \<le> to" "to \<le> size" "SECTOR_SIZE dvd from" "SECTOR_SIZE dvd to"
  shows "\<exists>s'. erase_plan sector block from to s = (Ok (), s') \<and> ready s'"
proof -
  obtain a s1 where h: "erase_head sector from to s = (Ok a, s1)" "ready s1"
    using erase_head_total [OF assms] by blast
  from erase_head_ok [OF h(1) assms(2-5)]
  have a: "a \<le> to" "SECTOR_SIZE dvd a" "a = to \<or> BLOCK_SIZE dvd a" by auto
  obtain b s2 where k: "erase_blocks block a to s1 = (Ok b, s2)" "ready s2"
    using erase_blocks_total [OF h(2) a(1) assms(3) a(3)] by blast
  from erase_blocks_ok [OF k(1) a(1) assms(3) a(2,3)] have b: "b \<le> to" "SECTOR_SIZE dvd b" by auto
  from erase_tail_total [OF k(2) b(1) assms(3) b(2) assms(5)] h k show ?thesis
    by (auto simp: erase_plan_def bind_exec_step)
qed

end

end
