(* ===== verification/Flash_Access.thy ===== *)
theory Flash_Access
  imports Partition_Types Sector_Erase
begin

text \<open>
  \<open>esp-bootloader-esp-idf/src/flash\<close>: the trait \<open>FlashAccess\<close> as a record of operations, so that
  the partition and OTA code can be written over any implementation, as the generic Rust code is.
  The locale \<open>flash_device\<close> is the contract the partition code relies on; \<open>reliable_flash_device\<close>
  adds that well-formed requests succeed.
\<close>

definition WORD_SIZE :: nat where
  "WORD_SIZE = 4"

definition ENCRYPTED_WRITE_SIZE :: nat where
  "ENCRYPTED_WRITE_SIZE = 16"

text \<open>A read returns the bytes it would store in the caller's buffer.\<close>

record 'f flash_access =
  flash_read :: "u32 \<Rightarrow> nat \<Rightarrow> ('f, perror, u8 list) exec"
  flash_write :: "u32 \<Rightarrow> u8 list \<Rightarrow> ('f, perror, unit) exec"
  flash_erase :: "u32 \<Rightarrow> u32 \<Rightarrow> ('f, perror, unit) exec"
  flash_read_encrypted :: "u32 \<Rightarrow> nat \<Rightarrow> ('f, perror, u8 list) exec"
  flash_write_encrypted :: "u32 \<Rightarrow> u8 list \<Rightarrow> ('f, perror, unit) exec"

text \<open>The mode dispatch that \<open>image.rs\<close> names \<open>flash_read\<close> and \<open>region.rs\<close> writes inline.\<close>

definition dev_read :: "'f flash_access \<Rightarrow> bool \<Rightarrow> u32 \<Rightarrow> nat \<Rightarrow> ('f, perror, u8 list) exec" where
  "dev_read F encrypted address n =
     (if encrypted then flash_read_encrypted F address n else flash_read F address n)"

definition dev_write :: "'f flash_access \<Rightarrow> bool \<Rightarrow> u32 \<Rightarrow> u8 list \<Rightarrow> ('f, perror, unit) exec" where
  "dev_write F encrypted address bytes =
     (if encrypted then flash_write_encrypted F address bytes else flash_write F address bytes)"

text \<open>
  \<open>cells\<close> is the contents of the device, \<open>seen e c\<close> the byte that a plain (\<open>e = False\<close>) or a
  decrypting (\<open>e = True\<close>) read returns for the cell \<open>c\<close>, and \<open>erased\<close> tells whether a cell can be
  programmed. Nothing here says that an operation succeeds.
\<close>

locale flash_device =
  fixes F :: "'f flash_access"
    and cells :: "'f \<Rightarrow> nat \<Rightarrow> 'c"
    and seen :: "bool \<Rightarrow> 'c \<Rightarrow> u8"
    and erased :: "'c \<Rightarrow> bool"
  assumes read_frame: "dev_read F e a n s = (r, s') \<Longrightarrow> cells s' = cells s"
    and read_ok: "dev_read F e a n s = (Ok bs, s') \<Longrightarrow>
      bs = mem_read (seen e \<circ> cells s) (unat a) n"
    and write_frame: "dev_write F e a bs s = (q, s') \<Longrightarrow>
      same_outside (unat a) (length bs) (cells s) (cells s')"
    and write_ok: "dev_write F e a bs s = (Ok u, s') \<Longrightarrow>
      (\<And>x. unat a \<le> x \<Longrightarrow> x < unat a + length bs \<Longrightarrow> erased (cells s x)) \<Longrightarrow>
      mem_read (seen e \<circ> cells s') (unat a) (length bs) = bs"
    and erase_frame: "SECTOR_SIZE dvd unat from \<Longrightarrow> SECTOR_SIZE dvd unat to \<Longrightarrow>
      flash_erase F from to s = (q, s') \<Longrightarrow>
      same_outside (unat from) (unat to - unat from) (cells s) (cells s')"
    and erase_ok: "SECTOR_SIZE dvd unat from \<Longrightarrow> SECTOR_SIZE dvd unat to \<Longrightarrow>
      flash_erase F from to s = (Ok u, s') \<Longrightarrow> unat from \<le> x \<Longrightarrow> x < unat to \<Longrightarrow>
      erased (cells s' x)"
begin

lemma write_seen_outside:
  assumes "dev_write F e a bs s = (r, s')" "x < unat a \<or> unat a + length bs \<le> x"
  shows "cells s' x = cells s x"
  using write_frame [OF assms(1)] assms(2) by (auto simp: same_outside_def)

end

text \<open>\<open>ready\<close> is an invariant of the device under which requests inside \<open>size\<close> succeed.\<close>

locale reliable_flash_device = flash_device F cells seen erased
  for F :: "'f flash_access" and cells :: "'f \<Rightarrow> nat \<Rightarrow> 'c" and seen :: "bool \<Rightarrow> 'c \<Rightarrow> u8"
    and erased :: "'c \<Rightarrow> bool" +
  fixes size :: nat and ready :: "'f \<Rightarrow> bool"
  assumes read_total: "ready s \<Longrightarrow> unat a + n \<le> size \<Longrightarrow>
      \<exists>bs s'. dev_read F e a n s = (Ok bs, s') \<and> ready s'"
    and write_total: "ready s \<Longrightarrow> unat a + length bs \<le> size \<Longrightarrow>
      (if e then ENCRYPTED_WRITE_SIZE else WORD_SIZE) dvd unat a \<Longrightarrow>
      (if e then ENCRYPTED_WRITE_SIZE else WORD_SIZE) dvd length bs \<Longrightarrow>
      \<exists>s'. dev_write F e a bs s = (Ok (), s') \<and> ready s'"
    and erase_total: "ready s \<Longrightarrow> unat from \<le> unat to \<Longrightarrow> unat to \<le> size \<Longrightarrow>
      SECTOR_SIZE dvd unat from \<Longrightarrow> SECTOR_SIZE dvd unat to \<Longrightarrow>
      \<exists>s'. flash_erase F from to s = (Ok (), s') \<and> ready s'"

end
