(* ===== verification/Partition_Table.thy ===== *)
theory Partition_Table
  imports Flash_Access "HOL-Library.Sublist"
begin

text \<open>
  \<open>esp-bootloader-esp-idf/src/partitions/table.rs\<close>: parsing, checksum validation and lookup of the
  partition table. MD5 is a parameter (ROM code or the \<open>md5\<close> crate), as are the eFuse and MMU state
  that the non-host build consults. The lemmas characterise the parser completely, show that every
  entry it exposes is covered by the validated checksum, and that lookups return the first match.
\<close>

definition ENTRY_MAGIC :: u16 where
  "ENTRY_MAGIC = 0x50aa"

definition MD5_MAGIC :: u16 where
  "MD5_MAGIC = 0xebeb"

record PartitionTable =
  table_binary :: "u8 list list"
  table_entries :: nat

text \<open>\<open><[u8]>::as_chunks\<close>: the full chunks and the remainder.\<close>

definition as_chunks :: "nat \<Rightarrow> 'a list \<Rightarrow> 'a list list \<times> 'a list" where
  "as_chunks n xs =
     (map (\<lambda>i. slice (i * n) n xs) [0..<length xs div n], drop (length xs div n * n) xs)"

definition get_partition :: "PartitionTable \<Rightarrow> nat \<Rightarrow> (perror, PartitionEntry) result" where
  "get_partition t index =
     (if index \<ge> table_entries t then Err OutOfBounds
      else Ok \<lparr>binary = table_binary t ! index\<rparr>)"

lemma get_partition_Ok: "get_partition t i = Ok e \<Longrightarrow> i < table_entries t"
  by (simp add: get_partition_def split: if_splits)

text \<open>The \<open>loop\<close> that counts the entries.\<close>

function count_entries :: "PartitionTable \<Rightarrow> nat \<Rightarrow> (perror, nat) result" where
  "count_entries t i = (case get_partition t i of
      Ok entry \<Rightarrow>
        if entry_magic entry \<noteq> ENTRY_MAGIC then Ok i
        else if i + 1 = table_entries t then Ok (i + 1)
        else count_entries t (i + 1)
    | _ \<Rightarrow> Err Invalid)"
  by pat_completeness auto
termination
  by (relation "measure (\<lambda>(t, i). table_entries t - i)") (auto dest: get_partition_Ok)

declare count_entries.simps [simp del]

definition is_md5_entry :: "u8 list \<Rightarrow> bool" where
  "is_md5_entry entry \<longleftrightarrow> u16_from_le_bytes [entry ! 0, entry ! 1] = MD5_MAGIC"

fun position :: "('a \<Rightarrow> bool) \<Rightarrow> 'a list \<Rightarrow> nat option" where
  "position P [] = None"
| "position P (x # xs) = (if P x then Some 0 else map_option Suc (position P xs))"

text \<open>The block under \<open>feature = "validation"\<close>.\<close>

definition validate_md5 :: "(u8 list \<Rightarrow> u8 list) \<Rightarrow> u8 list list \<Rightarrow> (perror, unit) result" where
  "validate_md5 md5 chunks =
     bind_result (ok_or Invalid (position is_md5_entry chunks)) (\<lambda>index.
       let hash = slice 16 16 (chunks ! index);
           calculated_hash = md5 (concat (take index chunks))
       in if calculated_hash \<noteq> hash then Err Invalid else Ok ())"

definition table_new :: "bool \<Rightarrow> (u8 list \<Rightarrow> u8 list) \<Rightarrow> u8 list \<Rightarrow> (perror, PartitionTable) result" where
  "table_new validation md5 bytes =
    (if length bytes > PARTITION_TABLE_MAX_LEN then Err Invalid
     else case as_chunks RAW_ENTRY_LEN bytes of (chunks, rem) \<Rightarrow>
       if rem \<noteq> [] then Err Invalid
       else if chunks = [] then Ok \<lparr>table_binary = [], table_entries = 0\<rparr>
       else
         let raw_table = \<lparr>table_binary = chunks, table_entries = length chunks\<rparr> in
         bind_result (if validation then validate_md5 md5 chunks else Ok ()) (\<lambda>_.
         bind_result (count_entries raw_table 0) (\<lambda>entries.
           Ok (raw_table\<lparr>table_entries := entries\<rparr>))))"

definition table_len :: "PartitionTable \<Rightarrow> nat" where
  "table_len t = table_entries t"

definition table_is_empty :: "PartitionTable \<Rightarrow> bool" where
  "table_is_empty t \<longleftrightarrow> table_entries t = 0"

text \<open>The \<open>for\<close> loop of \<open>find_partition\<close>, over the remaining indices.\<close>

fun find_partition_in :: "PartitionTable \<Rightarrow> PartitionType \<Rightarrow> nat list \<Rightarrow> (perror, PartitionEntry option) result" where
  "find_partition_in t pt [] = Ok None"
| "find_partition_in t pt (i # is) =
     bind_result (get_partition t i) (\<lambda>entry.
       if partition_type entry = pt then Ok (Some entry) else find_partition_in t pt is)"

definition find_partition :: "PartitionTable \<Rightarrow> PartitionType \<Rightarrow> (perror, PartitionEntry option) result" where
  "find_partition t pt = find_partition_in t pt [0..<table_entries t]"

definition result_to_list :: "('e, 'a) result \<Rightarrow> 'a list" where
  "result_to_list r = (case r of Ok x \<Rightarrow> [x] | _ \<Rightarrow> [])"

definition table_iter :: "PartitionTable \<Rightarrow> PartitionEntry list" where
  "table_iter t = concat (map (\<lambda>i. result_to_list (get_partition t i)) [0..<table_entries t])"

text \<open>
  The MMU entry that maps the running image. \<open>drom\<close> is the entry range of the data window and
  \<open>mmu_entry_offset\<close> reads an MMU entry; both come from the hardware.
\<close>

definition booted_app_offset :: "bool \<Rightarrow> bool \<Rightarrow> u32 \<times> u32 \<Rightarrow> (u32 \<Rightarrow> u32 option) \<Rightarrow> u32 option" where
  "booted_app_offset esp32 esp32s31 drom mmu_entry_offset =
    (let entry = (if esp32 then fst drom else snd drom - 1);
         offset = mmu_entry_offset entry
     in if esp32s31 then (case offset of Some x \<Rightarrow> Some x | None \<Rightarrow> mmu_entry_offset 511) else offset)"

fun booted_in :: "PartitionTable \<Rightarrow> u32 \<Rightarrow> nat list \<Rightarrow> (perror, PartitionEntry option) result" where
  "booted_in t paddr [] = Ok None"
| "booted_in t paddr (i # is) =
     bind_result (get_partition t i) (\<lambda>entry.
       if entry_offset entry = paddr then Ok (Some entry) else booted_in t paddr is)"

definition booted_partition ::
  "bool \<Rightarrow> u32 option \<Rightarrow> PartitionTable \<Rightarrow> (perror, PartitionEntry option) result"
where
  "booted_partition std booted t =
    (if std then Err Invalid else case booted of None \<Rightarrow> Ok None | Some paddr \<Rightarrow> booted_in t paddr [0..<table_len t])"

definition read_partition_table ::
  "bool \<Rightarrow> (u8 list \<Rightarrow> u8 list) \<Rightarrow> bool \<Rightarrow> u32 \<Rightarrow> 'f flash_access \<Rightarrow> nat \<Rightarrow> ('f, perror, PartitionTable) exec"
where
  "read_partition_table validation md5 enabled table_offset F storage_len =
     bind_exec (if enabled then flash_read_encrypted F table_offset storage_len
                else flash_read F table_offset storage_len) (\<lambda>bytes.
     lift (table_new validation md5 bytes))"

section \<open>Parser facts\<close>

lemma position_None: "position P xs = None \<longleftrightarrow> (\<forall>x\<in>set xs. \<not> P x)"
  by (induction xs) auto

lemma position_Some:
  "position P xs = Some i \<Longrightarrow> i < length xs \<and> P (xs ! i) \<and> (\<forall>j<i. \<not> P (xs ! j))"
proof (induction xs arbitrary: i)
  case (Cons x xs)
  then show ?case by (cases i) (auto split: if_splits simp: less_Suc_eq_0_disj)
qed simp

lemma as_chunks_wf:
  assumes "as_chunks n xs = (chunks, rem)" "n > 0"
  shows "concat chunks @ rem = xs" "\<forall>c\<in>set chunks. length c = n" "length chunks = length xs div n"
    "rem = [] \<longleftrightarrow> n dvd length xs"
proof -
  have *: "concat (map (\<lambda>i. slice (i * n) n xs) [0..<k]) = take (k * n) xs" if "k * n \<le> length xs" for k
    using that
  proof (induction k)
    case (Suc k)
    then show ?case by (simp add: slice_def take_add add.commute [of n])
  qed simp
  have le: "length xs div n * n \<le> length xs" by simp
  show "concat chunks @ rem = xs"
    using assms(1) * [OF le] by (auto simp: as_chunks_def)
  show "\<forall>c\<in>set chunks. length c = n"
  proof -
    have "i * n + n \<le> length xs" if "i < length xs div n" for i
    proof -
      have "Suc i * n \<le> length xs div n * n" using that by (intro mult_le_mono1) simp
      with le show ?thesis unfolding mult_Suc by linarith
    qed
    with assms(1) show ?thesis by (auto simp: as_chunks_def)
  qed
  show "length chunks = length xs div n" using assms(1) by (auto simp: as_chunks_def)
  show "rem = [] \<longleftrightarrow> n dvd length xs"
  proof -
    have "rem = [] \<longleftrightarrow> length xs - length xs div n * n = 0" using assms by (auto simp: as_chunks_def)
    then show ?thesis by (simp only: minus_div_mult_eq_mod mod_eq_0_iff_dvd)
  qed
qed

definition has_entry_magic :: "u8 list \<Rightarrow> bool" where
  "has_entry_magic c \<longleftrightarrow> entry_magic \<lparr>binary = c\<rparr> = ENTRY_MAGIC"

lemma count_entries_from:
  assumes "i < table_entries t" "table_entries t = length (table_binary t)"
  shows "count_entries t i = Ok (i + length (takeWhile has_entry_magic (drop i (table_binary t))))"
  using assms
proof (induction "table_entries t - i" arbitrary: i rule: less_induct)
  case less
  let ?c = "table_binary t ! i"
  have "drop i (table_binary t) = ?c # drop (Suc i) (table_binary t)"
    using less.prems by (simp add: Cons_nth_drop_Suc)
  with less show ?case
    by (cases "i + 1 = table_entries t")
      (auto simp: count_entries.simps [of t i] get_partition_def has_entry_magic_def)
qed

definition md5_covers :: "(u8 list \<Rightarrow> u8 list) \<Rightarrow> u8 list list \<Rightarrow> nat \<Rightarrow> bool" where
  "md5_covers md5 chunks i \<longleftrightarrow> i < length chunks \<and> is_md5_entry (chunks ! i) \<and>
     (\<forall>j<i. \<not> is_md5_entry (chunks ! j)) \<and> md5 (concat (take i chunks)) = slice 16 16 (chunks ! i)"

lemma position_unique:
  assumes "i < length xs" "P (xs ! i)" "\<And>j. j < i \<Longrightarrow> \<not> P (xs ! j)"
  shows "position P xs = Some i"
proof (cases "position P xs")
  case None
  with assms(1,2) show ?thesis by (auto simp: position_None dest: nth_mem)
next
  case (Some k)
  from position_Some [OF Some] assms(2,3) have "\<not> i < k" "\<not> k < i" by auto
  with Some show ?thesis by simp
qed

lemma validate_md5_Ok: "validate_md5 md5 chunks = Ok u \<longleftrightarrow> (\<exists>i. md5_covers md5 chunks i)"
proof
  assume "validate_md5 md5 chunks = Ok u"
  then obtain i where "position is_md5_entry chunks = Some i"
    and "md5 (concat (take i chunks)) = slice 16 16 (chunks ! i)"
    by (auto simp: validate_md5_def ok_or_def Let_def split: option.splits if_splits)
  with position_Some show "\<exists>i. md5_covers md5 chunks i" unfolding md5_covers_def by blast
next
  assume "\<exists>i. md5_covers md5 chunks i"
  then obtain i where i: "md5_covers md5 chunks i" ..
  then have "position is_md5_entry chunks = Some i"
    unfolding md5_covers_def by (intro position_unique) auto
  with i show "validate_md5 md5 chunks = Ok u"
    by (simp add: validate_md5_def ok_or_def md5_covers_def)
qed

lemma md5_entry_not_entry:
  assumes "is_md5_entry c" "length c = RAW_ENTRY_LEN"
  shows "\<not> has_entry_magic c"
proof -
  have "slice 0 2 c = [c ! 0, c ! 1]"
    using assms(2) by (simp add: RAW_ENTRY_LEN_def slice_def list_eq_iff_nth_eq less_Suc_eq_0_disj numeral_2_eq_2)
  with assms(1) show ?thesis
    by (simp add: is_md5_entry_def has_entry_magic_def entry_magic_def MD5_MAGIC_def ENTRY_MAGIC_def)
qed

lemma chunks_unique:
  assumes "concat xs = concat ys" "\<forall>x\<in>set xs. length x = n" "\<forall>y\<in>set ys. length y = n" "n > 0"
  shows "xs = ys"
proof (rule concat_injective [OF assms(1)])
  have len: "length (concat zs) = n * length zs" if "\<forall>z\<in>set zs. length z = n" for zs :: "'a list list"
    using that by (induction zs) auto
  show "length xs = length ys"
    using len [OF assms(2)] len [OF assms(3)] assms(1,4) by simp
  show "\<forall>(x, y)\<in>set (zip xs ys). length x = length y"
    using assms(2,3) by (auto dest!: set_zip_leftD set_zip_rightD simp: set_zip)
qed

lemma table_new_chunks:
  assumes "as_chunks RAW_ENTRY_LEN bytes = (chunks, [])" "length bytes \<le> PARTITION_TABLE_MAX_LEN"
  shows "table_new validation md5 bytes = Ok t \<longleftrightarrow>
    (validation \<and> chunks \<noteq> [] \<longrightarrow> (\<exists>i. md5_covers md5 chunks i)) \<and>
    t = \<lparr>table_binary = chunks, table_entries = length (takeWhile has_entry_magic chunks)\<rparr>"
proof (cases "chunks = []")
  case True
  with assms show ?thesis by (auto simp: table_new_def)
next
  case False
  with count_entries_from [of 0 "\<lparr>table_binary = chunks, table_entries = length chunks\<rparr>"]
  have "count_entries \<lparr>table_binary = chunks, table_entries = length chunks\<rparr> 0
      = Ok (length (takeWhile has_entry_magic chunks))"
    by simp
  with False assms validate_md5_Ok [of md5 chunks "()"] show ?thesis
    by (auto simp: table_new_def Let_def)
qed

lemma table_new_Ok:
  "table_new validation md5 bytes = Ok t \<longleftrightarrow>
     (\<exists>chunks. concat chunks = bytes \<and> (\<forall>c\<in>set chunks. length c = RAW_ENTRY_LEN) \<and>
       length bytes \<le> PARTITION_TABLE_MAX_LEN \<and>
       (validation \<and> chunks \<noteq> [] \<longrightarrow> (\<exists>i. md5_covers md5 chunks i)) \<and>
       t = \<lparr>table_binary = chunks, table_entries = length (takeWhile has_entry_magic chunks)\<rparr>)"
proof (cases "length bytes \<le> PARTITION_TABLE_MAX_LEN \<and> snd (as_chunks RAW_ENTRY_LEN bytes) = []")
  case True
  define chunks where "chunks = fst (as_chunks RAW_ENTRY_LEN bytes)"
  with True have c: "as_chunks RAW_ENTRY_LEN bytes = (chunks, [])" by (simp add: prod_eq_iff)
  have pos: "RAW_ENTRY_LEN > 0" by (simp add: RAW_ENTRY_LEN_def)
  have "concat cs = bytes \<and> (\<forall>c\<in>set cs. length c = RAW_ENTRY_LEN) \<longleftrightarrow> cs = chunks" for cs
    using as_chunks_wf(1,2) [OF c pos] chunks_unique [of cs chunks RAW_ENTRY_LEN] pos by auto
  then have "(\<exists>cs. concat cs = bytes \<and> (\<forall>c\<in>set cs. length c = RAW_ENTRY_LEN) \<and> Q cs) \<longleftrightarrow> Q chunks" for Q
    by (metis (no_types, lifting))
  with True table_new_chunks [OF c, of validation md5 t] show ?thesis by simp
next
  case False
  obtain cs r where c: "as_chunks RAW_ENTRY_LEN bytes = (cs, r)" by force
  have "\<not> is_ok (table_new validation md5 bytes)"
    using False c by (auto simp: table_new_def)
  then have "table_new validation md5 bytes \<noteq> Ok t" by auto
  moreover have "RAW_ENTRY_LEN dvd length (concat chunks)"
    if "\<forall>c\<in>set chunks. length c = RAW_ENTRY_LEN" for chunks :: "u8 list list"
    using that by (induction chunks) auto
  moreover have "r = [] \<longleftrightarrow> RAW_ENTRY_LEN dvd length bytes"
    using as_chunks_wf(4) [OF c] by (simp add: RAW_ENTRY_LEN_def)
  ultimately show ?thesis using False c by auto
qed

lemma table_new_Err: "is_ok (table_new validation md5 bytes) \<or> table_new validation md5 bytes = Err Invalid"
proof (cases "as_chunks RAW_ENTRY_LEN bytes")
  case (Pair chunks r)
  have "is_ok (validate_md5 md5 chunks) \<or> validate_md5 md5 chunks = Err Invalid"
    by (auto simp: validate_md5_def ok_or_def Let_def split: option.splits)
  moreover have "chunks \<noteq> [] \<Longrightarrow>
      is_ok (count_entries \<lparr>table_binary = chunks, table_entries = length chunks\<rparr> 0)"
    by (subst count_entries_from) auto
  ultimately show ?thesis
    using Pair by (cases "validate_md5 md5 chunks";
        cases "count_entries \<lparr>table_binary = chunks, table_entries = length chunks\<rparr> 0")
      (auto simp: table_new_def Let_def)
qed


text \<open>A table of one factory application of one sector at \<open>0x10000\<close>, followed by an MD5 entry.\<close>

definition sample_entry :: "u8 list" where
  "sample_entry = [0xaa, 0x50, 0, 0, 0, 0, 1, 0, 0, 0x10, 0, 0] @ replicate 20 0"

definition sample_md5 :: "u8 list \<Rightarrow> u8 list" where
  "sample_md5 bs = replicate 16 (word_of_nat (length bs))"

definition sample_table :: "u8 list" where
  "sample_table = sample_entry @ [0xeb, 0xeb] @ replicate 14 0xff @ replicate 16 32"

definition sample_parsed :: PartitionTable where
  "sample_parsed = \<lparr>table_binary = [sample_entry, [0xeb, 0xeb] @ replicate 14 0xff @ replicate 16 32],
     table_entries = 1\<rparr>"

lemma sample_acceptable:
  "\<exists>chunks. concat chunks = sample_table \<and> (\<forall>c\<in>set chunks. length c = RAW_ENTRY_LEN) \<and>
     length sample_table \<le> PARTITION_TABLE_MAX_LEN \<and>
     (True \<and> chunks \<noteq> [] \<longrightarrow> (\<exists>i. md5_covers sample_md5 chunks i)) \<and>
     sample_parsed = \<lparr>table_binary = chunks, table_entries = length (takeWhile has_entry_magic chunks)\<rparr>"
proof -
  have "md5_covers sample_md5 [sample_entry, [0xeb, 0xeb] @ replicate 14 0xff @ replicate 16 32] 1"
    by (simp add: md5_covers_def sample_md5_def is_md5_entry_def MD5_MAGIC_def u16_from_le_bytes_def
        sample_entry_def slice_def nth_append)
  then show ?thesis
    by (intro exI [of _ "[sample_entry, [0xeb, 0xeb] @ replicate 14 0xff @ replicate 16 32]"])
      (auto simp: sample_table_def sample_entry_def RAW_ENTRY_LEN_def PARTITION_TABLE_MAX_LEN_def
        has_entry_magic_def entry_magic_def ENTRY_MAGIC_def u16_from_le_bytes_def slice_def sample_parsed_def)
qed


section \<open>Exposed entries\<close>

lemma find_partition_in_eq:
  assumes "\<forall>i\<in>set is. i < table_entries t"
  shows "find_partition_in t pt is =
    Ok (find (\<lambda>e. partition_type e = pt) (map (\<lambda>i. PartitionEntry.make (table_binary t ! i)) is))"
  using assms by (induction "is") (auto simp: get_partition_def PartitionEntry.make_def)

lemma booted_in_eq:
  assumes "\<forall>i\<in>set is. i < table_entries t"
  shows "booted_in t paddr is =
    Ok (find (\<lambda>e. entry_offset e = paddr) (map (\<lambda>i. PartitionEntry.make (table_binary t ! i)) is))"
  using assms by (induction "is") (auto simp: get_partition_def PartitionEntry.make_def)

lemma table_iter_map:
  "table_iter t = map (\<lambda>i. PartitionEntry.make (table_binary t ! i)) [0..<table_entries t]"
proof -
  have "table_iter t = concat (map (\<lambda>i. [PartitionEntry.make (table_binary t ! i)]) [0..<table_entries t])"
    unfolding table_iter_def by (intro arg_cong [where f = concat] map_cong)
      (auto simp: get_partition_def result_to_list_def PartitionEntry.make_def)
  then show ?thesis by (simp only: concat_map_singleton)
qed

lemma table_iter_eq:
  assumes "table_entries t \<le> length (table_binary t)"
  shows "table_iter t = map PartitionEntry.make (take (table_entries t) (table_binary t))"
  unfolding table_iter_map using assms by (intro nth_equalityI) auto

lemma find_partition_first: "find_partition t pt = Ok (find (\<lambda>e. partition_type e = pt) (table_iter t))"
  by (simp add: find_partition_def find_partition_in_eq table_iter_map)

lemma booted_partition_first:
  "booted_partition False (Some paddr) t = Ok (find (\<lambda>e. entry_offset e = paddr) (table_iter t))"
  by (simp add: booted_partition_def table_len_def booted_in_eq table_iter_map)

lemma booted_partition_total: "\<exists>bp. booted_partition False booted t = Ok bp"
  using booted_partition_first by (cases booted) (auto simp: booted_partition_def)

text \<open>Both lookups never fail and return the first exposed entry that matches, by type or by
  flash offset.\<close>

theorem lookup_first_match:
  "find_partition t pt = Ok (find (\<lambda>e. partition_type e = pt) (table_iter t)) \<and>
   booted_partition False (Some paddr) t = Ok (find (\<lambda>e. entry_offset e = paddr) (table_iter t))"
  using find_partition_first booted_partition_first by blast

text \<open>C19. With validation on, every entry that an accepted, non-empty table exposes lies before
  the first MD5 entry, so that it is covered by the checksum that was verified; and it is a whole
  entry with the entry magic.\<close>

theorem exposed_entries_checksummed:
  assumes "table_new True md5 bytes = Ok t" "bytes \<noteq> []"
  shows "\<exists>hashed checksum rest. bytes = hashed @ checksum @ rest \<and> length checksum = RAW_ENTRY_LEN \<and>
     is_md5_entry checksum \<and> md5 hashed = slice 16 16 checksum \<and>
     prefix (concat (map binary (table_iter t))) hashed \<and>
     (\<forall>e\<in>set (table_iter t). wf_entry e \<and> entry_magic e = ENTRY_MAGIC)"
proof -
  from assms(1) [unfolded table_new_Ok] obtain chunks where
    chunks: "concat chunks = bytes" "\<forall>c\<in>set chunks. length c = RAW_ENTRY_LEN"
    and md5: "chunks \<noteq> [] \<longrightarrow> (\<exists>i. md5_covers md5 chunks i)"
    and t: "t = \<lparr>table_binary = chunks, table_entries = length (takeWhile has_entry_magic chunks)\<rparr>"
    by blast
  from chunks(1) assms(2) md5 obtain i where i: "md5_covers md5 chunks i" by auto
  let ?n = "table_entries t"
  have iter: "table_iter t = map PartitionEntry.make (takeWhile has_entry_magic chunks)"
    by (simp add: table_iter_eq t length_takeWhile_le takeWhile_eq_take [symmetric])
  have "?n \<le> i"
  proof (rule ccontr)
    assume "\<not> ?n \<le> i"
    then have "has_entry_magic (chunks ! i)"
      using nth_length_takeWhile t by (metis (no_types, lifting) linorder_not_le nth_mem select_convs(2) set_takeWhileD takeWhile_nth)
    with i chunks(2) md5_entry_not_entry show False by (auto simp: md5_covers_def)
  qed
  then have pre: "prefix (takeWhile has_entry_magic chunks) (take i chunks)"
    by (metis t takeWhile_eq_take take_is_prefix min.absorb2 min_def select_convs(2) take_take)
  have "chunks = take i chunks @ chunks ! i # drop (Suc i) chunks"
    using i by (simp add: md5_covers_def id_take_nth_drop)
  then have split: "bytes = concat (take i chunks) @ chunks ! i @ concat (drop (Suc i) chunks)"
    using chunks(1) by (metis concat.simps(2) concat_append)
  show ?thesis
  proof (intro exI conjI)
    show "prefix (concat (map binary (table_iter t))) (concat (take i chunks))"
      using pre by (auto simp: iter prefix_def PartitionEntry.make_def comp_def)
    show "\<forall>e\<in>set (table_iter t). wf_entry e \<and> entry_magic e = ENTRY_MAGIC"
      using chunks(2) by (auto simp: iter wf_entry_def PartitionEntry.make_def has_entry_magic_def
          dest: set_takeWhileD)
    show "length (chunks ! i) = RAW_ENTRY_LEN" "is_md5_entry (chunks ! i)"
      "md5 (concat (take i chunks)) = slice 16 16 (chunks ! i)"
      using i chunks(2) by (auto simp: md5_covers_def)
  qed (rule split)
qed

theorem exposed_entries_checksummed_witness:
  "\<exists>hashed. table_new True sample_md5 sample_table = Ok sample_parsed \<and> table_iter sample_parsed \<noteq> [] \<and>
     prefix (concat (map binary (table_iter sample_parsed))) hashed \<and> prefix hashed sample_table"
proof -
  have *: "table_new True sample_md5 sample_table = Ok sample_parsed"
    by (rule table_new_Ok [THEN iffD2, OF sample_acceptable])
  moreover have "table_iter sample_parsed \<noteq> []" by (simp add: table_iter_map sample_parsed_def)
  moreover have "sample_table \<noteq> []" by (simp add: sample_table_def)
  ultimately show ?thesis
    using exposed_entries_checksummed [OF *] unfolding prefix_def by blast
qed

end
