(* ===== verification/Mock_Flash.thy ===== *)
theory Mock_Flash
  imports Flash_Access
begin

text \<open>
  \<open>esp-bootloader-esp-idf/src/flash/mock_flash.rs\<close>: the in-memory flash behind \<open>FlashAccess\<close> on the
  host. The state is the static array \<open>FLASH_DATA\<close>. The interpretation at the end shows that it is a
  reliable flash device: reads return the contents, writes clear bits only, erases set exactly the
  requested sectors to \<open>0xff\<close>, and nothing else changes.
\<close>

definition FLASH_SIZE :: nat where
  "FLASH_SIZE = BLOCK_SIZE * 4"

definition ERASE_BYTE :: u8 where
  "ERASE_BYTE = 0xff"

definition check_bounds :: "nat \<Rightarrow> nat \<Rightarrow> (perror, unit) result" where
  "check_bounds offset len =
     (if len > FLASH_SIZE \<or> offset > FLASH_SIZE - len then Err StorageError else Ok ())"

text \<open>\<open>MockFlash::write\<close> overwrites the contents, without NOR semantics.\<close>

definition mock_overwrite :: "u32 \<Rightarrow> u8 list \<Rightarrow> (mem, perror, unit) exec" where
  "mock_overwrite offset bytes =
     bind_exec (lift (check_bounds (unat offset) (length bytes)))
       (\<lambda>_ m. (Ok (), mem_write m (unat offset) bytes))"

text \<open>
  The read and write loops go sector by sector. \<open>data_offset\<close> starts below \<open>SECTOR_SIZE\<close> and is 0
  after the first round; a larger value would make \<open>SECTOR_SIZE - data_offset\<close> underflow. Slicing
  past the end of the array panics.
\<close>

function mock_read_loop :: "nat \<Rightarrow> nat \<Rightarrow> nat \<Rightarrow> (mem, perror, u8 list) exec" where
  "mock_read_loop aligned_offset data_offset remaining =
    (if remaining = 0 then ret []
     else if data_offset \<ge> SECTOR_SIZE then panic
     else let len = min remaining (SECTOR_SIZE - data_offset) in
       if aligned_offset + data_offset + len > FLASH_SIZE then panic
       else (\<lambda>m. bind_exec (mock_read_loop (aligned_offset + SECTOR_SIZE) 0 (remaining - len))
          (\<lambda>rest. ret (mem_read m (aligned_offset + data_offset) len @ rest)) m))"
  by pat_completeness auto
termination
  by (relation "measure (\<lambda>(a, d, r). r)") auto

function mock_write_loop :: "nat \<Rightarrow> nat \<Rightarrow> u8 list \<Rightarrow> (mem, perror, unit) exec" where
  "mock_write_loop aligned_offset data_offset bytes =
    (if bytes = [] then ret ()
     else if data_offset \<ge> SECTOR_SIZE then panic
     else let len = min (length bytes) (SECTOR_SIZE - data_offset) in
       if aligned_offset + data_offset + len > FLASH_SIZE then panic
       else (\<lambda>m. mock_write_loop (aligned_offset + SECTOR_SIZE) 0 (drop len bytes)
          (mem_and m (aligned_offset + data_offset) (take len bytes))))"
  by pat_completeness auto
termination
  by (relation "measure (\<lambda>(a, d, bs). length bs)") auto

declare mock_read_loop.simps [simp del] mock_write_loop.simps [simp del]

definition mock_flash_read :: "u32 \<Rightarrow> nat \<Rightarrow> (mem, perror, u8 list) exec" where
  "mock_flash_read offset n =
     bind_exec (lift (check_bounds (unat offset) n)) (\<lambda>_.
       let data_offset = unat offset mod SECTOR_SIZE in
       mock_read_loop (unat offset - data_offset) data_offset n)"

definition mock_flash_write :: "u32 \<Rightarrow> u8 list \<Rightarrow> (mem, perror, unit) exec" where
  "mock_flash_write offset bytes =
     bind_exec (lift (check_bounds (unat offset) (length bytes))) (\<lambda>_.
       let data_offset = unat offset mod SECTOR_SIZE in
       mock_write_loop (unat offset - data_offset) data_offset bytes)"

definition mock_fill :: "nat \<Rightarrow> nat \<Rightarrow> (mem, perror, unit) exec" where
  "mock_fill n address m =
     (if address + n > FLASH_SIZE then (Panic, m) else (Ok (), mem_fill m address n ERASE_BYTE))"

text \<open>
  When the head loop has run past \<open>to\<close>, which needs an unaligned range, \<open>to - address\<close> overflows.
  Without overflow checks it wraps to a huge distance, and blocks are erased until the slice index
  leaves the array.
\<close>

definition mock_erase_blocks :: "bool \<Rightarrow> nat \<Rightarrow> nat \<Rightarrow> (mem, perror, nat) exec" where
  "mock_erase_blocks oc address to =
     (if address \<le> to then erase_blocks (mock_fill BLOCK_SIZE) address to
      else if oc then panic
      else bind_exec (erase_blocks (mock_fill BLOCK_SIZE) address (address + FLASH_SIZE)) (\<lambda>_. panic))"

definition mock_flash_erase :: "bool \<Rightarrow> u32 \<Rightarrow> u32 \<Rightarrow> (mem, perror, unit) exec" where
  "mock_flash_erase oc from to =
     bind_exec (lift (sub_ovf oc to from)) (\<lambda>len.
     bind_exec (lift (check_bounds (unat from) (unat len))) (\<lambda>_.
     bind_exec (erase_head (mock_fill SECTOR_SIZE) (unat from) (unat to)) (\<lambda>address.
     bind_exec (mock_erase_blocks oc address (unat to)) (\<lambda>address.
     erase_tail (mock_fill SECTOR_SIZE) address (unat to)))))"

definition mock_flash :: "bool \<Rightarrow> mem flash_access" where
  "mock_flash oc = \<lparr>flash_read = mock_flash_read, flash_write = mock_flash_write,
     flash_erase = mock_flash_erase oc, flash_read_encrypted = mock_flash_read,
     flash_write_encrypted = mock_flash_write\<rparr>"

section \<open>The loops compute plain reads and writes\<close>

lemma mock_read_loop_ok:
  assumes "d < SECTOR_SIZE" "n = 0 \<or> a + d + n \<le> FLASH_SIZE"
  shows "mock_read_loop a d n m = (Ok (mem_read m (a + d) n), m)"
  using assms
proof (induction n arbitrary: a d rule: less_induct)
  case (less n)
  show ?case
  proof (cases "n = 0")
    case True
    then show ?thesis by (simp add: mock_read_loop.simps ret_def)
  next
    case False
    let ?len = "min n (SECTOR_SIZE - d)"
    have "?len > 0" "a + d + ?len \<le> FLASH_SIZE" using False less.prems by auto
    moreover have "mock_read_loop (a + SECTOR_SIZE) 0 (n - ?len) m
        = (Ok (mem_read m (a + SECTOR_SIZE) (n - ?len)), m)"
      using less.prems False by (intro less.IH [of _ 0 "a + SECTOR_SIZE", simplified])
        (auto simp: SECTOR_SIZE_def min_def)
    moreover have "mem_read m (a + d) n = mem_read m (a + d) ?len @ mem_read m (a + SECTOR_SIZE) (n - ?len)"
      using mem_read_append [of m "a + d" ?len "n - ?len"] less.prems by (auto simp: min_def)
    ultimately show ?thesis
      using False less.prems(1)
      by (simp add: mock_read_loop.simps [of a d n] Let_def bind_exec_step ret_def)
  qed
qed

lemma mock_write_loop_ok:
  assumes "d < SECTOR_SIZE" "bs = [] \<or> a + d + length bs \<le> FLASH_SIZE"
  shows "mock_write_loop a d bs m = (Ok (), mem_and m (a + d) bs)"
  using assms
proof (induction "length bs" arbitrary: a d bs m rule: less_induct)
  case less
  show ?case
  proof (cases "bs = []")
    case True
    then show ?thesis by (simp add: mock_write_loop.simps ret_def)
  next
    case False
    let ?len = "min (length bs) (SECTOR_SIZE - d)"
    have len: "?len > 0" "a + d + ?len \<le> FLASH_SIZE" using False less.prems by auto
    have "mock_write_loop (a + SECTOR_SIZE) 0 (drop ?len bs) m' = (Ok (), mem_and m' (a + SECTOR_SIZE) (drop ?len bs))" for m'
      using less.prems False len(1) by (intro less.hyps [of _ 0 "a + SECTOR_SIZE", simplified])
        (auto simp: SECTOR_SIZE_def min_def)
    moreover have "mem_and (mem_and m (a + d) (take ?len bs)) (a + SECTOR_SIZE) (drop ?len bs) = mem_and m (a + d) bs"
    proof (cases "length bs \<le> SECTOR_SIZE - d")
      case False
      then have len: "?len = SECTOR_SIZE - d" by simp
      show ?thesis
        using mem_and_append [of m "a + d" "take ?len bs" "drop ?len bs"] less.prems(1) False
        unfolding len by simp
    qed simp
    ultimately show ?thesis
      using False less.prems(1) len by (simp add: mock_write_loop.simps [of a d bs] Let_def)
  qed
qed

lemma check_bounds_iff: "check_bounds a n = (if a + n \<le> FLASH_SIZE then Ok () else Err StorageError)"
  by (auto simp: check_bounds_def)

lemma SECTOR_SIZE_pos [simp]: "0 < SECTOR_SIZE"
  by (simp add: SECTOR_SIZE_def)

theorem mock_flash_read_eq:
  "mock_flash_read a n m =
     (if unat a + n \<le> FLASH_SIZE then (Ok (mem_read m (unat a) n), m) else (Err StorageError, m))"
  using mock_read_loop_ok [where d = "unat a mod SECTOR_SIZE" and a = "unat a - unat a mod SECTOR_SIZE"]
  by (simp add: mock_flash_read_def check_bounds_iff exec_simps Let_def)

theorem mock_flash_write_eq:
  "mock_flash_write a bs m =
     (if unat a + length bs \<le> FLASH_SIZE then (Ok (), mem_and m (unat a) bs) else (Err StorageError, m))"
  using mock_write_loop_ok [where d = "unat a mod SECTOR_SIZE" and a = "unat a - unat a mod SECTOR_SIZE"]
  by (simp add: mock_flash_write_def check_bounds_iff exec_simps Let_def)

section \<open>A reliable flash device\<close>

interpretation mock_eraser: reliable_eraser "mock_fill SECTOR_SIZE" "mock_fill BLOCK_SIZE"
    "\<lambda>m. m" "\<lambda>b. b = ERASE_BYTE" FLASH_SIZE "\<lambda>_. True"
  by unfold_locales (auto simp: mock_fill_def mem_fill_def same_outside_def split: if_splits)

lemma sub_ovf_check_bounds:
  assumes "sub_ovf oc to from = Ok len" "check_bounds (unat from) (unat len) = Ok u"
  shows "unat (from :: u32) \<le> unat to \<and> unat to \<le> FLASH_SIZE"
proof (cases "unat from \<le> unat to")
  case True
  with assms show ?thesis by (auto simp: check_bounds_iff unat_sub_small split: if_splits)
next
  case False
  with assms(1) have "len = to - from" by (auto simp: sub_ovf_def split: if_splits)
  then have "unat len + unat from = 4294967296 + unat to"
    using False unat_u32_bound [of "from"] by (simp add: unat_sub_if')
  with assms(2) show ?thesis
    by (auto simp: check_bounds_iff FLASH_SIZE_def BLOCK_SIZE_def split: if_splits)
qed

lemma mock_erase_steps:
  assumes "SECTOR_SIZE dvd from" "SECTOR_SIZE dvd to" "from \<le> to" "to \<le> FLASH_SIZE"
  shows "bind_exec (erase_head (mock_fill SECTOR_SIZE) from to) (\<lambda>address.
      bind_exec (mock_erase_blocks oc address to) (\<lambda>address. erase_tail (mock_fill SECTOR_SIZE) address to)) m
    = erase_plan (mock_fill SECTOR_SIZE) (mock_fill BLOCK_SIZE) from to m"
  using mock_eraser.erase_head_ok [OF _ assms(3,4,1,2), of m]
  by (auto simp: erase_plan_def bind_exec_def mock_erase_blocks_def split: prod.splits result.splits)

lemma mock_flash_erase_cases:
  assumes "mock_flash_erase oc from to m = (r, m')" "SECTOR_SIZE dvd unat from" "SECTOR_SIZE dvd unat to"
  obtains "m' = m" "\<not> is_ok r"
  | "unat from \<le> unat to" "unat to \<le> FLASH_SIZE"
    "erase_plan (mock_fill SECTOR_SIZE) (mock_fill BLOCK_SIZE) (unat from) (unat to) m = (r, m')"
proof (cases "sub_ovf oc to from :: (perror, u32) result")
  case (Ok len)
  with assms that sub_ovf_check_bounds [OF Ok] mock_erase_steps [OF assms(2,3)] show ?thesis
    by (auto simp: mock_flash_erase_def exec_simps check_bounds_iff split: if_splits)
qed (use assms that in \<open>auto simp: mock_flash_erase_def exec_simps\<close>)

interpretation mock: reliable_flash_device "mock_flash oc" "\<lambda>m. m" "\<lambda>_ b. b" "\<lambda>b. b = ERASE_BYTE"
    FLASH_SIZE "\<lambda>_. True"
proof unfold_locales
  fix e a n s r s'
  assume "dev_read (mock_flash oc) e a n s = (r, s')"
  then show "s' = s" by (auto simp: dev_read_def mock_flash_def mock_flash_read_eq split: if_splits)
next
  fix e a n s bs s'
  assume "dev_read (mock_flash oc) e a n s = (Ok bs, s')"
  then show "bs = mem_read ((\<lambda>b. b) \<circ> s) (unat a) n"
    by (auto simp: dev_read_def mock_flash_def mock_flash_read_eq comp_def split: if_splits)
next
  fix e a bs s r s'
  assume "dev_write (mock_flash oc) e a bs s = (r, s')"
  then show "same_outside (unat a) (length bs) s s'"
    by (auto simp: dev_write_def mock_flash_def mock_flash_write_eq split: if_splits)
next
  fix e a bs s u s'
  assume "dev_write (mock_flash oc) e a bs s = (Ok u, s')"
    and "\<And>x. unat a \<le> x \<Longrightarrow> x < unat a + length bs \<Longrightarrow> s x = ERASE_BYTE"
  then show "mem_read ((\<lambda>b. b) \<circ> s') (unat a) (length bs) = bs"
    by (auto simp: dev_write_def mock_flash_def mock_flash_write_eq comp_def ERASE_BYTE_def
        mem_and_erased split: if_splits)
next
  fix "from" to s r s'
  assume "SECTOR_SIZE dvd unat from" "SECTOR_SIZE dvd unat to"
    and "flash_erase (mock_flash oc) from to s = (r, s')"
  then show "same_outside (unat from) (unat to - unat from) s s'"
    by (auto simp: mock_flash_def elim!: mock_flash_erase_cases intro: mock_eraser.erase_plan_frame)
next
  fix "from" to s u s' x
  assume "SECTOR_SIZE dvd unat from" "SECTOR_SIZE dvd unat to"
    and "flash_erase (mock_flash oc) from to s = (Ok u, s')" "unat from \<le> x" "x < unat to"
  then show "s' x = ERASE_BYTE"
    by (auto simp: mock_flash_def mock_eraser.erases_def elim!: mock_flash_erase_cases
        dest!: mock_eraser.erase_plan_ok)
next
  fix s and a :: u32 and n e
  assume "unat a + n \<le> FLASH_SIZE"
  then show "\<exists>bs s'. dev_read (mock_flash oc) e a n s = (Ok bs, s') \<and> True"
    by (simp add: dev_read_def mock_flash_def mock_flash_read_eq)
next
  fix s and a :: u32 and bs :: "u8 list" and e
  assume "unat a + length bs \<le> FLASH_SIZE"
  then show "\<exists>s'. dev_write (mock_flash oc) e a bs s = (Ok (), s') \<and> True"
    by (simp add: dev_write_def mock_flash_def mock_flash_write_eq)
next
  fix s and "from" to :: u32
  assume "unat from \<le> unat to" "unat to \<le> FLASH_SIZE"
    and "SECTOR_SIZE dvd unat from" "SECTOR_SIZE dvd unat to"
  then show "\<exists>s'. flash_erase (mock_flash oc) from to s = (Ok (), s') \<and> True"
    using mock_eraser.erase_plan_total [of "unat from" "unat to" s]
    by (simp add: mock_flash_def mock_flash_erase_def exec_simps check_bounds_iff unat_sub_small
        mock_erase_steps)
qed

end
