(* ===== verification/Flash_Region.thy ===== *)
theory Flash_Region
  imports Partition_Table Mock_Flash
begin

text \<open>
  \<open>esp-bootloader-esp-idf/src/partitions/region.rs\<close> and \<open>nor_flash.rs\<close>: partition views. A
  \<open>Region\<close> holds the bounds, alignment and write-protection checks; \<open>FlashRegion\<close>,
  \<open>EncryptedFlashRegion\<close> and \<open>AutoFlashRegion\<close> wrap it. The flash that a Rust region borrows is the
  state of the operations. The lemmas, proved for every \<open>flash_device\<close>, show that no operation
  changes a cell outside the partition whatever its outcome, that a write-protected partition never
  changes, and that data written to erased cells reads back.
\<close>

section \<open>Regions\<close>

record Region =
  region_offset :: u32
  region_len :: u32
  region_type :: PartitionType
  region_read_only :: bool

record FlashRegion =
  plain_region :: Region

record EncryptedFlashRegion =
  encrypted_region :: Region

datatype AutoFlashRegion = Plain FlashRegion | Encrypted EncryptedFlashRegion

text \<open>\<open>booted\<close> is \<open>booted_app_offset()\<close>; the host build, where no application runs, has \<open>None\<close>.\<close>

definition contains_running_app :: "bool \<Rightarrow> u32 option \<Rightarrow> PartitionEntry \<Rightarrow> (perror, bool) result" where
  "contains_running_app oc booted e = (case booted of
      None \<Rightarrow> Ok False
    | Some app \<Rightarrow> bind_result (add_ovf oc (entry_offset e) (entry_len e)) (\<lambda>end.
        Ok (entry_offset e \<le> app \<and> app < end)))"

definition entry_region :: "bool \<Rightarrow> u32 option \<Rightarrow> PartitionEntry \<Rightarrow> (perror, Region) result" where
  "entry_region oc booted e =
     bind_result (if is_read_only e then Ok True else contains_running_app oc booted e) (\<lambda>ro.
       Ok \<lparr>region_offset = entry_offset e, region_len = entry_len e,
           region_type = partition_type e, region_read_only = ro\<rparr>)"

definition as_flash_region ::
  "bool \<Rightarrow> bool \<Rightarrow> u32 option \<Rightarrow> PartitionEntry \<Rightarrow> (perror, FlashRegion) result"
where
  "as_flash_region oc enabled booted e =
     (if is_effectively_encrypted enabled e then Err NotSupported
      else bind_result (entry_region oc booted e) (\<lambda>r. Ok \<lparr>plain_region = r\<rparr>))"

definition as_encrypted_flash_region ::
  "bool \<Rightarrow> bool \<Rightarrow> u32 option \<Rightarrow> PartitionEntry \<Rightarrow> (perror, EncryptedFlashRegion) result"
where
  "as_encrypted_flash_region oc enabled booted e =
     (if \<not> is_effectively_encrypted enabled e then Err NotSupported
      else bind_result (entry_region oc booted e) (\<lambda>r. Ok \<lparr>encrypted_region = r\<rparr>))"

definition as_auto_flash_region ::
  "bool \<Rightarrow> bool \<Rightarrow> u32 option \<Rightarrow> PartitionEntry \<Rightarrow> (perror, AutoFlashRegion) result"
where
  "as_auto_flash_region oc enabled booted e =
     bind_result (entry_region oc booted e) (\<lambda>r.
       Ok (if is_effectively_encrypted enabled e then Encrypted \<lparr>encrypted_region = r\<rparr>
           else Plain \<lparr>plain_region = r\<rparr>))"

definition region_capacity :: "Region \<Rightarrow> nat" where
  "region_capacity r = unat (region_len r)"

text \<open>The end of \<open>Region::range\<close>; its start is \<open>region_offset\<close>.\<close>

definition region_end :: "bool \<Rightarrow> Region \<Rightarrow> (perror, u32) result" where
  "region_end oc r = add_ovf oc (region_offset r) (region_len r)"

definition in_range :: "bool \<Rightarrow> Region \<Rightarrow> u32 \<Rightarrow> nat \<Rightarrow> (perror, bool) result" where
  "in_range oc r start len =
     bind_result (region_end oc r) (\<lambda>end.
       if region_offset r \<le> start \<and> start < end
       then bind_result (add_ovf oc start (word_of_nat len)) (\<lambda>stop. Ok (stop \<le> end))
       else Ok False)"

definition region_read ::
  "bool \<Rightarrow> 'f flash_access \<Rightarrow> Region \<Rightarrow> u32 \<Rightarrow> nat \<Rightarrow> bool \<Rightarrow> ('f, perror, u8 list) exec"
where
  "region_read oc F r offset n encrypted =
     bind_exec (lift (add_ovf oc offset (region_offset r))) (\<lambda>address.
     bind_exec (lift (in_range oc r address n)) (\<lambda>inside.
     if \<not> inside then fail OutOfBounds else dev_read F encrypted address n))"

definition write_align :: "bool \<Rightarrow> nat" where
  "write_align encrypted = (if encrypted then ENCRYPTED_WRITE_SIZE else WORD_SIZE)"

definition region_write ::
  "bool \<Rightarrow> 'f flash_access \<Rightarrow> Region \<Rightarrow> u32 \<Rightarrow> u8 list \<Rightarrow> bool \<Rightarrow> ('f, perror, unit) exec"
where
  "region_write oc F r offset bytes encrypted =
     bind_exec (lift (add_ovf oc offset (region_offset r))) (\<lambda>address.
     if region_read_only r then fail WriteProtected
     else bind_exec (lift (in_range oc r address (length bytes))) (\<lambda>inside.
     if \<not> inside then fail OutOfBounds
     else if \<not> write_align encrypted dvd unat offset \<or> \<not> write_align encrypted dvd length bytes
     then fail NotAligned
     else dev_write F encrypted address bytes))"

definition region_erase ::
  "bool \<Rightarrow> 'f flash_access \<Rightarrow> Region \<Rightarrow> u32 \<Rightarrow> u32 \<Rightarrow> ('f, perror, unit) exec"
where
  "region_erase oc F r from to =
     bind_exec (lift (add_ovf oc from (region_offset r))) (\<lambda>address_from.
     bind_exec (lift (add_ovf oc to (region_offset r))) (\<lambda>address_to.
     if region_read_only r then fail WriteProtected
     else if from > to then fail OutOfBounds
     else bind_exec (lift (sub_ovf oc address_to address_from)) (\<lambda>len.
     bind_exec (lift (in_range oc r address_from (unat len))) (\<lambda>inside.
     if \<not> inside then fail OutOfBounds
     else if \<not> SECTOR_SIZE dvd unat from \<or> \<not> SECTOR_SIZE dvd unat to then fail NotAligned
     else flash_erase F address_from address_to))))"

section \<open>The public views\<close>

definition plain_capacity :: "FlashRegion \<Rightarrow> nat" where
  "plain_capacity r = region_capacity (plain_region r)"

definition plain_partition_size :: "FlashRegion \<Rightarrow> nat" where
  "plain_partition_size r = region_capacity (plain_region r)"

definition plain_read where
  "plain_read oc F r offset n = region_read oc F (plain_region r) offset n False"

definition plain_write where
  "plain_write oc F r offset bytes = region_write oc F (plain_region r) offset bytes False"

definition plain_erase where
  "plain_erase oc F r from to = region_erase oc F (plain_region r) from to"

definition encrypted_capacity :: "EncryptedFlashRegion \<Rightarrow> nat" where
  "encrypted_capacity r = region_capacity (encrypted_region r)"

definition encrypted_partition_size :: "EncryptedFlashRegion \<Rightarrow> nat" where
  "encrypted_partition_size r = region_capacity (encrypted_region r)"

definition encrypted_read where
  "encrypted_read oc F r offset n = region_read oc F (encrypted_region r) offset n True"

definition encrypted_write where
  "encrypted_write oc F r offset bytes = region_write oc F (encrypted_region r) offset bytes True"

definition encrypted_erase where
  "encrypted_erase oc F r from to = region_erase oc F (encrypted_region r) from to"

primrec auto_region :: "AutoFlashRegion \<Rightarrow> Region" where
  "auto_region (Plain r) = plain_region r"
| "auto_region (Encrypted r) = encrypted_region r"

definition auto_partition_type :: "AutoFlashRegion \<Rightarrow> PartitionType" where
  "auto_partition_type a = region_type (auto_region a)"

definition auto_capacity :: "AutoFlashRegion \<Rightarrow> nat" where
  "auto_capacity a = region_capacity (auto_region a)"

definition auto_partition_size :: "AutoFlashRegion \<Rightarrow> nat" where
  "auto_partition_size a = region_capacity (auto_region a)"

primrec auto_is_encrypted :: "AutoFlashRegion \<Rightarrow> bool" where
  "auto_is_encrypted (Plain r) = False"
| "auto_is_encrypted (Encrypted r) = True"

primrec auto_read :: "bool \<Rightarrow> 'f flash_access \<Rightarrow> AutoFlashRegion \<Rightarrow> u32 \<Rightarrow> nat \<Rightarrow> ('f, perror, u8 list) exec" where
  "auto_read oc F (Plain r) offset n = plain_read oc F r offset n"
| "auto_read oc F (Encrypted r) offset n = encrypted_read oc F r offset n"

primrec auto_write :: "bool \<Rightarrow> 'f flash_access \<Rightarrow> AutoFlashRegion \<Rightarrow> u32 \<Rightarrow> u8 list \<Rightarrow> ('f, perror, unit) exec" where
  "auto_write oc F (Plain r) offset bytes = plain_write oc F r offset bytes"
| "auto_write oc F (Encrypted r) offset bytes = encrypted_write oc F r offset bytes"

primrec auto_erase :: "bool \<Rightarrow> 'f flash_access \<Rightarrow> AutoFlashRegion \<Rightarrow> u32 \<Rightarrow> u32 \<Rightarrow> ('f, perror, unit) exec" where
  "auto_erase oc F (Plain r) from to = plain_erase oc F r from to"
| "auto_erase oc F (Encrypted r) from to = encrypted_erase oc F r from to"

lemma auto_ops:
  "auto_read oc F a offset n = region_read oc F (auto_region a) offset n (auto_is_encrypted a)"
  "auto_write oc F a offset bytes = region_write oc F (auto_region a) offset bytes (auto_is_encrypted a)"
  "auto_erase oc F a from to = region_erase oc F (auto_region a) from to"
  by (cases a; simp add: plain_read_def encrypted_read_def plain_write_def encrypted_write_def
      plain_erase_def encrypted_erase_def)+

text \<open>\<open>NorFlashError::kind\<close>; the trait methods of \<open>FlashRegion\<close> are the three plain operations.\<close>

fun nor_kind :: "perror \<Rightarrow> NorFlashErrorKind" where
  "nor_kind NotAligned = KindNotAligned"
| "nor_kind OutOfBounds = KindOutOfBounds"
| "nor_kind _ = KindOther"

definition nor_READ_SIZE :: nat where
  "nor_READ_SIZE = 1"

definition nor_WRITE_SIZE :: nat where
  "nor_WRITE_SIZE = WORD_SIZE"

definition nor_ERASE_SIZE :: nat where
  "nor_ERASE_SIZE = SECTOR_SIZE"

definition nor_read where
  "nor_read oc F r offset n = plain_read oc F r offset n"

definition nor_capacity where
  "nor_capacity r = plain_capacity r"

definition nor_erase where
  "nor_erase oc F r from to = plain_erase oc F r from to"

definition nor_write where
  "nor_write oc F r offset bytes = plain_write oc F r offset bytes"

section \<open>Address arithmetic\<close>

lemma unat_add_wrap: "unat (a + b) = unat a + unat b \<or> unat (a + b) + 4294967296 = unat a + unat b"
  for a b :: u32
  using unat_u32_bound [of a] unat_u32_bound [of b] by (auto simp: unat_word_ariths mod_if)

lemma in_range_True:
  assumes "in_range oc r start len = Ok True"
  shows "unat (region_offset r) \<le> unat start" "unat start < unat (region_offset r) + unat (region_len r)"
    "start + word_of_nat len \<le> region_offset r + region_len r"
    "unat (region_offset r + region_len r) = unat (region_offset r) + unat (region_len r)"
    "oc \<Longrightarrow> len < 2 ^ 32 \<Longrightarrow> unat start + len < 2 ^ 32"
proof -
  let ?stop = "region_offset r + region_len r"
  from assms have *: "region_offset r \<le> start" "start < ?stop" "start + word_of_nat len \<le> ?stop"
    and oc: "oc \<Longrightarrow> unat start + unat (word_of_nat len :: u32) < 2 ^ 32"
    by (auto simp: in_range_def region_end_def add_ovf_def split: if_splits)
  show end_eq: "unat ?stop = unat (region_offset r) + unat (region_len r)"
    using unat_add_wrap [of "region_offset r" "region_len r"] * unat_u32_bound [of "region_len r"]
    by (auto simp: word_le_nat_alt word_less_nat_alt)
  show "unat (region_offset r) \<le> unat start" "unat start < unat (region_offset r) + unat (region_len r)"
    using * end_eq by (auto simp: word_le_nat_alt word_less_nat_alt)
  show "start + word_of_nat len \<le> ?stop" by (rule *)
  show "unat start + len < 2 ^ 32" if "oc" "len < 2 ^ 32"
    using oc that by simp
qed

text \<open>The range check bounds a buffer that fits behind the partition in the address space.\<close>

lemma in_range_stop:
  assumes "in_range oc r start len = Ok True"
    and "(oc \<and> len < 2 ^ 32) \<or> unat (region_offset r) + unat (region_len r) + len \<le> 2 ^ 32"
  shows "unat start + len \<le> unat (region_offset r) + unat (region_len r)"
proof -
  note r = in_range_True [OF assms(1)]
  have sum: "unat start + len < 2 ^ 32" using assms(2) r(2,5) by auto
  then have "unat (word_of_nat len :: u32) = len" by simp
  with sum have "unat (start + word_of_nat len) = unat start + len"
    by (subst unat_add_small) simp_all
  with r(3,4) show ?thesis by (simp add: word_le_nat_alt)
qed

lemma in_range_ok:
  assumes "unat (region_offset r) \<le> unat start" "unat start < unat (region_offset r) + unat (region_len r)"
    and "unat start + len \<le> unat (region_offset r) + unat (region_len r)"
    and "unat (region_offset r) + unat (region_len r) < 2 ^ 32"
  shows "in_range oc r start len = Ok True"
proof -
  have "unat (word_of_nat len :: u32) = len" using assms(3,4) by simp
  then have "unat (start + word_of_nat len) = unat start + len" "unat start + unat (word_of_nat len :: u32) < 2 ^ 32"
    using assms(3,4) by (simp_all add: unat_add_small)
  moreover have "unat (region_offset r + region_len r) = unat (region_offset r) + unat (region_len r)"
    using assms(4) by (simp add: unat_add_small)
  ultimately show ?thesis
    using assms by (simp add: in_range_def region_end_def word_le_nat_alt word_less_nat_alt)
qed

lemma sector_dvd_add:
  assumes "SECTOR_SIZE dvd unat (a :: u32)" "SECTOR_SIZE dvd unat b"
  shows "SECTOR_SIZE dvd unat (a + b)"
proof -
  have "SECTOR_SIZE dvd (unat a + unat b) mod 2 ^ 32"
    using assms by (intro dvd_mod) (simp_all add: SECTOR_SIZE_def)
  then show ?thesis by (simp add: unat_word_ariths)
qed

section \<open>What every flash device gives\<close>

context flash_device
begin

lemma region_read_frame:
  assumes "region_read oc F r offset n e s = (q, s')"
  shows "cells s' = cells s"
proof (rule bind_exec_frame [where P = "\<lambda>x y. cells y = cells x", OF _ _ _ assms [unfolded region_read_def]])
  show "cells t = cells s1"
    if "bind_exec (lift (in_range oc r a n)) (\<lambda>inside. if \<not> inside then fail OutOfBounds else dev_read F e a n) s1 = (q, t)"
    for a s1 q t
    using that read_frame
    by (cases "in_range oc r a n") (auto simp: exec_simps split: if_splits)
qed (auto simp: lift_def)

lemma region_read_ok:
  assumes "region_read oc F r offset n e s = (Ok bs, s')"
    and "n < 2 ^ 32" "oc \<or> unat (region_offset r) + unat (region_len r) + n \<le> 2 ^ 32"
  shows "bs = mem_read (seen e \<circ> cells s) (unat (region_offset r) + unat offset) n"
    and "unat offset + n \<le> unat (region_len r)"
proof -
  from assms(1) obtain a where a: "add_ovf oc offset (region_offset r) = (Ok a :: (perror, u32) result)"
    and inside: "in_range oc r a n = Ok True" and rd: "dev_read F e a n s = (Ok bs, s')"
    by (auto simp: region_read_def lift_def fail_def elim!: bind_exec_OkE split: if_splits)
  from in_range_stop [OF inside] assms(2,3) have stop: "unat a + n \<le> unat (region_offset r) + unat (region_len r)"
    by auto
  from add_ovf_eq_Ok [OF a] have "a = offset + region_offset r" .
  with unat_add_wrap [of offset "region_offset r"] in_range_True(1) [OF inside] unat_u32_bound [of offset]
  have *: "unat a = unat (region_offset r) + unat offset" by auto
  then show "bs = mem_read (seen e \<circ> cells s) (unat (region_offset r) + unat offset) n"
    using read_ok [OF rd] by simp
  show "unat offset + n \<le> unat (region_len r)" using stop * by simp
qed

text \<open>A write either leaves the device alone or is passed on, inside the partition.\<close>

lemma region_write_cases:
  assumes "region_write oc F r offset bytes e s = (q, s')"
  obtains "s' = s" "\<not> is_ok q"
  | "\<not> region_read_only r" "in_range oc r (offset + region_offset r) (length bytes) = Ok True"
    "write_align e dvd unat offset" "write_align e dvd length bytes"
    "dev_write F e (offset + region_offset r) bytes s = (q, s')"
proof -
  let ?a = "offset + region_offset r"
  show thesis
  proof (cases "add_ovf oc offset (region_offset r) :: (perror, u32) result")
    case (Ok a)
    then have "a = ?a" by (rule add_ovf_eq_Ok)
    with Ok assms that show ?thesis
      by (cases "in_range oc r ?a (length bytes)")
        (auto simp: region_write_def exec_simps split: if_splits)
  qed (use assms that in \<open>auto simp: region_write_def exec_simps\<close>)
qed

lemma region_erase_cases:
  assumes "region_erase oc F r from to s = (q, s')"
  obtains "s' = s" "\<not> is_ok q"
  | len where "\<not> region_read_only r" "from \<le> to" "len = to + region_offset r - (from + region_offset r)"
    "in_range oc r (from + region_offset r) (unat len) = Ok True"
    "SECTOR_SIZE dvd unat from" "SECTOR_SIZE dvd unat to"
    "flash_erase F (from + region_offset r) (to + region_offset r) s = (q, s')"
proof -
  let ?f = "from + region_offset r" and ?t = "to + region_offset r"
  show thesis
  proof (cases "add_ovf oc from (region_offset r) :: (perror, u32) result")
    case f: (Ok a)
    show ?thesis
    proof (cases "add_ovf oc to (region_offset r) :: (perror, u32) result")
      case t: (Ok b)
      from f t have ab: "a = ?f" "b = ?t" by (auto dest: add_ovf_eq_Ok)
      have sub: "sub_ovf oc ?t ?f = (Ok (?t - ?f) :: (perror, u32) result) \<or> sub_ovf oc ?t ?f = (Panic :: (perror, u32) result)"
        by (simp add: sub_ovf_def)
      show ?thesis
        using sub f t ab assms that(1) that(2) [of "?t - ?f"]
        by (cases "in_range oc r ?f (unat (?t - ?f))")
          (auto simp: region_erase_def exec_simps not_less split: if_splits)
    qed (use f assms that in \<open>auto simp: region_erase_def exec_simps\<close>)
  qed (use assms that in \<open>auto simp: region_erase_def exec_simps\<close>)
qed

lemma region_write_confined:
  assumes "region_write oc F r offset bytes e s = (q, s')"
    and "length bytes < 2 ^ 32" "oc \<or> unat (region_offset r) + unat (region_len r) + length bytes \<le> 2 ^ 32"
  shows "same_outside (unat (region_offset r)) (unat (region_len r)) (cells s) (cells s')"
  using assms(1)
proof (cases rule: region_write_cases)
  case 2
  from in_range_True(1) [OF 2(2)] in_range_stop [OF 2(2)] assms(2,3) write_frame [OF 2(5)]
  show ?thesis by (auto elim: same_outside_mono)
qed simp

lemma region_erase_confined:
  assumes "region_erase oc F r from to s = (q, s')" "SECTOR_SIZE dvd unat (region_offset r)"
  shows "same_outside (unat (region_offset r)) (unat (region_len r)) (cells s) (cells s')"
  using assms(1)
proof (cases rule: region_erase_cases)
  case (2 len)
  let ?f = "from + region_offset r" and ?t = "to + region_offset r"
  note r = in_range_True [OF 2(4)]
  have "?t \<le> region_offset r + region_len r" using r(3) 2(3) by (simp add: add.commute)
  then have "unat ?t \<le> unat (region_offset r) + unat (region_len r)"
    using r(4) by (simp add: word_le_nat_alt)
  moreover have "same_outside (unat ?f) (unat ?t - unat ?f) (cells s) (cells s')"
    by (rule erase_frame [OF _ _ 2(7)]) (use 2(5,6) assms(2) in \<open>auto intro: sector_dvd_add\<close>)
  ultimately show ?thesis using r(1,2) by (auto elim: same_outside_mono)
qed simp

lemma region_write_protected:
  assumes "region_read_only r"
  shows "region_write oc F r offset bytes e s \<in> {(Err WriteProtected, s), (Panic, s)}"
    and "region_erase oc F r from to s \<in> {(Err WriteProtected, s), (Panic, s)}"
proof -
  show "region_write oc F r offset bytes e s \<in> {(Err WriteProtected, s), (Panic, s)}"
    using assms by (auto simp: region_write_def add_ovf_def exec_simps)
  show "region_erase oc F r from to s \<in> {(Err WriteProtected, s), (Panic, s)}"
    using assms by (auto simp: region_erase_def add_ovf_def exec_simps)
qed

text \<open>Bytes written to erased cells read back.\<close>

lemma region_write_seen:
  assumes "region_write oc F r offset bytes e s = (Ok u, s')"
    and "length bytes < 2 ^ 32" "oc \<or> unat (region_offset r) + unat (region_len r) + length bytes \<le> 2 ^ 32"
    and "\<And>x. unat (region_offset r) + unat offset \<le> x \<Longrightarrow>
      x < unat (region_offset r) + unat offset + length bytes \<Longrightarrow> erased (cells s x)"
  shows "mem_read (seen e \<circ> cells s') (unat (region_offset r) + unat offset) (length bytes) = bytes"
    and "same_outside (unat (region_offset r) + unat offset) (length bytes) (cells s) (cells s')"
    and "unat offset + length bytes \<le> unat (region_len r)" "\<not> region_read_only r"
proof -
  let ?a = "offset + region_offset r"
  from assms(1) have w: "\<not> region_read_only r" "in_range oc r ?a (length bytes) = Ok True"
    "dev_write F e ?a bytes s = (Ok u, s')"
    by (auto elim: region_write_cases)
  have a: "unat ?a = unat (region_offset r) + unat offset"
    using unat_add_wrap [of offset "region_offset r"] in_range_True(1) [OF w(2)] unat_u32_bound [of offset] by auto
  show "mem_read (seen e \<circ> cells s') (unat (region_offset r) + unat offset) (length bytes) = bytes"
    using write_ok [OF w(3)] assms(4) by (simp add: a)
  show "same_outside (unat (region_offset r) + unat offset) (length bytes) (cells s) (cells s')"
    using write_frame [OF w(3)] by (simp add: a)
  show "unat offset + length bytes \<le> unat (region_len r)"
    using in_range_stop [OF w(2)] assms(2,3) a by auto
  show "\<not> region_read_only r" by (rule w(1))
qed

lemma region_erase_erased:
  assumes "region_erase oc F r from to s = (Ok u, s')" "SECTOR_SIZE dvd unat (region_offset r)"
    and "unat (region_offset r) + unat to < 2 ^ 32"
    and "unat (region_offset r) + unat from \<le> x" "x < unat (region_offset r) + unat to"
  shows "erased (cells s' x)"
proof -
  let ?f = "from + region_offset r" and ?t = "to + region_offset r"
  from assms(1) have *: "SECTOR_SIZE dvd unat from" "SECTOR_SIZE dvd unat to" "from \<le> to"
    "flash_erase F ?f ?t s = (Ok u, s')"
    by (auto elim: region_erase_cases)
  from *(3) assms(3) have "unat ?t = unat (region_offset r) + unat to" "unat ?f = unat (region_offset r) + unat from"
    by (simp_all add: unat_add_small word_le_nat_alt)
  with assms(2,4,5) * show ?thesis by (intro erase_ok [OF _ _ *(4)] sector_dvd_add) auto
qed

lemma region_erase_frame:
  assumes "region_erase oc F r from to s = (q, s')" "SECTOR_SIZE dvd unat (region_offset r)"
    and "unat (region_offset r) + unat to < 2 ^ 32"
  shows "same_outside (unat (region_offset r) + unat from) (unat to - unat from) (cells s) (cells s')"
  using assms(1)
proof (cases rule: region_erase_cases)
  case (2 len)
  let ?f = "from + region_offset r" and ?t = "to + region_offset r"
  from 2(2) assms(3) have "unat ?t = unat (region_offset r) + unat to" "unat ?f = unat (region_offset r) + unat from"
    by (simp_all add: unat_add_small word_le_nat_alt)
  then show ?thesis
    using erase_frame [OF _ _ 2(7)] sector_dvd_add 2(5,6) assms(2) by simp
qed simp

end

section \<open>What a reliable device gives\<close>

context reliable_flash_device
begin

lemma region_read_total:
  assumes "ready s" "unat offset + n \<le> unat (region_len r)" "unat offset < unat (region_len r)"
    and "unat (region_offset r) + unat (region_len r) \<le> size" "size < 2 ^ 32"
  shows "\<exists>s'. region_read oc F r offset n e s =
    (Ok (mem_read (seen e \<circ> cells s) (unat (region_offset r) + unat offset) n), s') \<and> ready s' \<and> cells s' = cells s"
proof -
  let ?a = "offset + region_offset r"
  have a: "unat ?a = unat offset + unat (region_offset r)" "unat offset + unat (region_offset r) < 2 ^ 32"
    using assms by (simp_all add: unat_add_small)
  have inside: "in_range oc r ?a n = Ok True"
    using assms a by (intro in_range_ok) auto
  obtain bs s' where rd: "dev_read F e ?a n s = (Ok bs, s')" "ready s'"
    using read_total [OF assms(1), of ?a n e] assms a by auto
  have "region_read oc F r offset n e s = (Ok bs, s')"
    using rd(1) inside a(2) by (simp add: region_read_def exec_simps)
  moreover have "bs = mem_read (seen e \<circ> cells s) (unat (region_offset r) + unat offset) n"
    using read_ok [OF rd(1)] by (simp add: a(1) add.commute)
  ultimately show ?thesis using rd(2) read_frame [OF rd(1)] by blast
qed

lemma region_write_total:
  assumes "ready s" "\<not> region_read_only r" "unat offset + length bytes \<le> unat (region_len r)"
    and "unat offset < unat (region_len r)" "write_align e dvd unat offset" "write_align e dvd length bytes"
    and "write_align e dvd unat (region_offset r)"
    and "unat (region_offset r) + unat (region_len r) \<le> size" "size < 2 ^ 32"
  shows "\<exists>s'. region_write oc F r offset bytes e s = (Ok (), s') \<and> ready s'"
proof -
  let ?a = "offset + region_offset r"
  have a: "unat ?a = unat offset + unat (region_offset r)" "unat offset + unat (region_offset r) < 2 ^ 32"
    using assms by (simp_all add: unat_add_small)
  have "in_range oc r ?a (length bytes) = Ok True"
    using assms a by (intro in_range_ok) auto
  moreover obtain s' where "dev_write F e ?a bytes s = (Ok (), s')" "ready s'"
    using write_total [OF assms(1), of ?a bytes e] assms a by (auto simp: write_align_def)
  ultimately show ?thesis using assms a by (simp add: region_write_def exec_simps)
qed

lemma region_erase_total:
  assumes "ready s" "\<not> region_read_only r" "unat from \<le> unat to" "unat to \<le> unat (region_len r)"
    and "unat from < unat (region_len r)" "SECTOR_SIZE dvd unat from" "SECTOR_SIZE dvd unat to"
    and "SECTOR_SIZE dvd unat (region_offset r)"
    and "unat (region_offset r) + unat (region_len r) \<le> size" "size < 2 ^ 32"
  shows "\<exists>s'. region_erase oc F r from to s = (Ok (), s') \<and> ready s'"
proof -
  let ?f = "from + region_offset r" and ?t = "to + region_offset r"
  have a: "unat ?f = unat from + unat (region_offset r)" "unat from + unat (region_offset r) < 2 ^ 32"
    "unat ?t = unat to + unat (region_offset r)" "unat to + unat (region_offset r) < 2 ^ 32"
    using assms by (simp_all add: unat_add_small)
  have len: "unat (?t - ?f) = unat to - unat from"
    by (subst unat_sub_small) (use a(1,3) assms(3) in simp_all)
  have "in_range oc r ?f (unat to - unat from) = Ok True"
    using assms a by (intro in_range_ok) auto
  moreover have "sub_ovf oc ?t ?f = (Ok (?t - ?f) :: (perror, u32) result)"
    using a(1,3) assms(3) by (intro sub_ovf_small) simp
  moreover obtain s' where "flash_erase F ?f ?t s = (Ok (), s')" "ready s'"
    using erase_total [OF assms(1), of ?f ?t] sector_dvd_add assms a by auto
  moreover have "\<not> from > to" using assms(3) by (simp add: word_less_nat_alt)
  ultimately show ?thesis
    using assms(2,6,7) a(2,4) unfolding region_erase_def
    by (simp add: bind_exec_lift bind_exec_step len [simplified] del: add_diff_cancel_right)
qed

end

end
