(* ===== verification/Ota.thy ===== *)
theory Ota
  imports Flash_Region
begin

text \<open>
  \<open>esp-bootloader-esp-idf/src/ota.rs\<close>: the OTA-data partition with its two select entries. The CRC32
  routine (ROM code or a crate) is the parameter \<open>crc\<close>. The lemmas hold for every reliable flash
  device: reading the two entries gives one selected sequence number, selecting an application
  partition makes it the current one while the previously selected entry is left intact, and image
  states read back.
\<close>

section \<open>Data\<close>

definition SLOT0_DATA_OFFSET :: u32 where
  "SLOT0_DATA_OFFSET = 0x0000"

definition SLOT1_DATA_OFFSET :: u32 where
  "SLOT1_DATA_OFFSET = 0x1000"

definition SLOT_SIZE :: u32 where
  "SLOT_SIZE = 0x1000"

definition UNINITIALIZED_SEQUENCE :: u32 where
  "UNINITIALIZED_SEQUENCE = 0xffffffff"

datatype OtaDataSlot = SlotNone | Slot0 | Slot1

primrec slot_next :: "OtaDataSlot \<Rightarrow> OtaDataSlot" where
  "slot_next SlotNone = Slot0"
| "slot_next Slot0 = Slot1"
| "slot_next Slot1 = Slot0"

primrec slot_offset :: "OtaDataSlot \<Rightarrow> u32" where
  "slot_offset SlotNone = SLOT0_DATA_OFFSET"
| "slot_offset Slot0 = SLOT0_DATA_OFFSET"
| "slot_offset Slot1 = SLOT1_DATA_OFFSET"

datatype OtaImageState =
  StateNew | StatePendingVerify | StateValid | StateInvalid | StateAborted | StateUndefined

primrec state_repr :: "OtaImageState \<Rightarrow> u32" where
  "state_repr StateNew = 0"
| "state_repr StatePendingVerify = 1"
| "state_repr StateValid = 2"
| "state_repr StateInvalid = 3"
| "state_repr StateAborted = 4"
| "state_repr StateUndefined = 0xFFFFFFFF"

definition state_from_repr :: "u32 \<Rightarrow> OtaImageState option" where
  "state_from_repr v = find (\<lambda>s. state_repr s = v)
     [StateNew, StatePendingVerify, StateValid, StateInvalid, StateAborted, StateUndefined]"

definition state_try_from :: "u32 \<Rightarrow> (perror, OtaImageState) result" where
  "state_try_from v = ok_or Invalid (state_from_repr v)"

record OtaSelectEntry =
  ota_seq :: u32
  seq_label :: "u8 list"
  ota_state :: OtaImageState
  entry_crc :: u32

text \<open>The memory layout of the \<open>repr(C)\<close> structure, 32 bytes in all.\<close>

definition select_to_bytes :: "OtaSelectEntry \<Rightarrow> u8 list" where
  "select_to_bytes e = u32_to_le_bytes (ota_seq e) @ seq_label e @
     u32_to_le_bytes (state_repr (ota_state e)) @ u32_to_le_bytes (entry_crc e)"

text \<open>\<open>is_valid\<close> has excluded the bytes that are no image state.\<close>

definition select_of_bytes :: "u8 list \<Rightarrow> OtaSelectEntry" where
  "select_of_bytes buffer = \<lparr>ota_seq = u32_from_le_bytes (slice 0 4 buffer), seq_label = slice 4 20 buffer,
     ota_state = (case state_from_repr (u32_from_le_bytes (slice 24 4 buffer)) of
        Some st \<Rightarrow> st | None \<Rightarrow> StateUndefined),
     entry_crc = u32_from_le_bytes (slice 28 4 buffer)\<rparr>"

definition select_is_valid :: "(u8 list \<Rightarrow> u32) \<Rightarrow> u8 list \<Rightarrow> bool" where
  "select_is_valid crc buffer \<longleftrightarrow>
    (let seq = u32_from_le_bytes (slice 0 4 buffer);
         state = u32_from_le_bytes (slice 24 4 buffer);
         stored_crc = u32_from_le_bytes (slice 28 4 buffer)
     in if seq = 0xffffffff \<and> state = state_repr StateUndefined then True
        else if \<not> is_ok (state_try_from state) then False
        else stored_crc = crc (u32_to_le_bytes seq))"

definition select_read ::
  "bool \<Rightarrow> (u8 list \<Rightarrow> u32) \<Rightarrow> 'f flash_access \<Rightarrow> AutoFlashRegion \<Rightarrow> u32 \<Rightarrow> ('f, perror, OtaSelectEntry) exec"
where
  "select_read oc crc F region offset =
     bind_exec (auto_read oc F region offset 32) (\<lambda>buffer.
       if \<not> select_is_valid crc buffer then fail Invalid else ret (select_of_bytes buffer))"

definition write_slot ::
  "bool \<Rightarrow> 'f flash_access \<Rightarrow> AutoFlashRegion \<Rightarrow> u32 \<Rightarrow> u8 list \<Rightarrow> ('f, perror, unit) exec"
where
  "write_slot oc F region offset bytes =
     bind_exec (lift (add_ovf oc offset SLOT_SIZE)) (\<lambda>end.
     bind_exec (auto_erase oc F region offset end) (\<lambda>_.
     auto_write oc F region offset bytes))"

definition select_write ::
  "bool \<Rightarrow> 'f flash_access \<Rightarrow> AutoFlashRegion \<Rightarrow> u32 \<Rightarrow> OtaSelectEntry \<Rightarrow> ('f, perror, unit) exec"
where
  "select_write oc F region offset entry = write_slot oc F region offset (select_to_bytes entry)"

section \<open>The OTA-data partition\<close>

record Ota =
  ota_flash :: AutoFlashRegion
  ota_partition_count :: nat

definition ota_new :: "AutoFlashRegion \<Rightarrow> nat \<Rightarrow> (perror, Ota) result" where
  "ota_new flash count =
    (if count = 0 \<or> count > 16 then Err InvalidArgument
     else if auto_capacity flash \<noteq> 0x2000 \<or> auto_partition_type flash \<noteq> Data DataOta
     then Err (InvalidPartition 0x2000 (Data DataOta))
     else Ok \<lparr>ota_flash = flash, ota_partition_count = count\<rparr>)"

definition rem_u32 :: "u32 \<Rightarrow> u32 \<Rightarrow> (perror, u32) result" where
  "rem_u32 a b = (if b = 0 then Panic else Ok (a mod b))"

definition get_slot_seq ::
  "bool \<Rightarrow> (u8 list \<Rightarrow> u32) \<Rightarrow> 'f flash_access \<Rightarrow> Ota \<Rightarrow> ('f, perror, u32 \<times> u32) exec"
where
  "get_slot_seq oc crc F ota =
     bind_exec (select_read oc crc F (ota_flash ota) SLOT0_DATA_OFFSET) (\<lambda>buffer1.
     bind_exec (select_read oc crc F (ota_flash ota) SLOT1_DATA_OFFSET) (\<lambda>buffer2.
     ret (ota_seq buffer1, ota_seq buffer2)))"

text \<open>\<open>from_ota_app_number (((seq - 1) % self.ota_partition_count as u32) as u8)\<close>\<close>

definition app_of_seq :: "bool \<Rightarrow> nat \<Rightarrow> u32 \<Rightarrow> (perror, AppPartitionSubType) result" where
  "app_of_seq oc count seq =
     bind_result (sub_ovf oc seq 1) (\<lambda>counter.
     bind_result (rem_u32 counter (word_of_nat count)) (\<lambda>n.
     from_ota_app_number (ucast n)))"

definition current_app_partition ::
  "bool \<Rightarrow> (u8 list \<Rightarrow> u32) \<Rightarrow> 'f flash_access \<Rightarrow> Ota \<Rightarrow> ('f, perror, AppPartitionSubType) exec"
where
  "current_app_partition oc crc F ota =
     bind_exec (get_slot_seq oc crc F ota) (\<lambda>(seq0, seq1). lift (
       if seq0 = UNINITIALIZED_SEQUENCE \<and> seq1 = UNINITIALIZED_SEQUENCE then Ok Factory
       else if seq0 = UNINITIALIZED_SEQUENCE then app_of_seq oc (ota_partition_count ota) seq1
       else if seq1 = UNINITIALIZED_SEQUENCE \<or> seq0 > seq1 then app_of_seq oc (ota_partition_count ota) seq0
       else app_of_seq oc (ota_partition_count ota) (max seq0 seq1)))"

definition current_slot ::
  "bool \<Rightarrow> (u8 list \<Rightarrow> u32) \<Rightarrow> 'f flash_access \<Rightarrow> Ota \<Rightarrow> ('f, perror, OtaDataSlot) exec"
where
  "current_slot oc crc F ota =
     bind_exec (get_slot_seq oc crc F ota) (\<lambda>(seq0, seq1). ret (
       if seq0 = UNINITIALIZED_SEQUENCE \<and> seq1 = UNINITIALIZED_SEQUENCE then SlotNone
       else if seq0 = UNINITIALIZED_SEQUENCE then Slot1
       else if seq1 = UNINITIALIZED_SEQUENCE \<or> seq0 > seq1 then Slot0
       else Slot1))"

text \<open>The increment; its \<open>i32\<close> terms are at most 33, as \<open>Ota::new\<close> bounds the count by 16.\<close>

definition seq_increment ::
  "bool \<Rightarrow> nat \<Rightarrow> AppPartitionSubType \<Rightarrow> AppPartitionSubType \<Rightarrow> (perror, u32) result"
where
  "seq_increment oc count current app =
    (if current = Factory then
       bind_result (ota_app_number oc app) (\<lambda>a.
         rem_u32 (word_of_int (int (unat a) + 1 + int count)) (word_of_nat count))
     else
       bind_result (ota_app_number oc app) (\<lambda>a.
       bind_result (ota_app_number oc current) (\<lambda>c.
         rem_u32 (word_of_int (int (unat a) - int (unat c) + int count)) (word_of_nat count))))"

definition next_seq :: "bool \<Rightarrow> u32 \<Rightarrow> u32 \<Rightarrow> u32 \<Rightarrow> (perror, u32) result" where
  "next_seq oc seq0 seq1 inc =
    (if seq0 = UNINITIALIZED_SEQUENCE \<and> seq1 = UNINITIALIZED_SEQUENCE then Ok inc
     else if seq0 = UNINITIALIZED_SEQUENCE then add_ovf oc seq1 inc
     else if seq1 = UNINITIALIZED_SEQUENCE then add_ovf oc seq0 inc
     else add_ovf oc (max seq0 seq1) inc)"

definition set_current_app_partition ::
  "bool \<Rightarrow> (u8 list \<Rightarrow> u32) \<Rightarrow> 'f flash_access \<Rightarrow> Ota \<Rightarrow> AppPartitionSubType \<Rightarrow> ('f, perror, unit) exec"
where
  "set_current_app_partition oc crc F ota app =
    (let flash = ota_flash ota; count = ota_partition_count ota in
     if app = Factory then
       bind_exec (write_slot oc F flash SLOT0_DATA_OFFSET (replicate 32 0xff)) (\<lambda>_.
       write_slot oc F flash SLOT1_DATA_OFFSET (replicate 32 0xff))
     else if app = Test then fail InvalidArgument
     else
       bind_exec (lift (ota_app_number oc app)) (\<lambda>ota_app_index.
       if ota_app_index \<ge> word_of_nat count then fail InvalidArgument
       else
         bind_exec (current_app_partition oc crc F ota) (\<lambda>current.
         if current = app then ret ()
         else
           bind_exec (lift (seq_increment oc count current app)) (\<lambda>inc.
           bind_exec (current_slot oc crc F ota) (\<lambda>slot'. let slot = slot_next slot' in
           bind_exec (get_slot_seq oc crc F ota) (\<lambda>(seq0, seq1).
           bind_exec (lift (next_seq oc seq0 seq1 inc)) (\<lambda>new_seq.
           let checksum = crc (u32_to_le_bytes new_seq) in
           bind_exec (select_read oc crc F flash (slot_offset slot)) (\<lambda>buffer.
           select_write oc F flash (slot_offset slot)
             (buffer\<lparr>ota_seq := new_seq, entry_crc := checksum\<rparr>))))))))) "

definition set_current_ota_state ::
  "bool \<Rightarrow> (u8 list \<Rightarrow> u32) \<Rightarrow> 'f flash_access \<Rightarrow> Ota \<Rightarrow> OtaImageState \<Rightarrow> ('f, perror, unit) exec"
where
  "set_current_ota_state oc crc F ota state =
     bind_exec (get_slot_seq oc crc F ota) (\<lambda>seqs.
     if seqs = (UNINITIALIZED_SEQUENCE, UNINITIALIZED_SEQUENCE) then fail InvalidState
     else
       bind_exec (current_slot oc crc F ota) (\<lambda>slot.
       bind_exec (select_read oc crc F (ota_flash ota) (slot_offset slot)) (\<lambda>buffer.
       select_write oc F (ota_flash ota) (slot_offset slot) (buffer\<lparr>ota_state := state\<rparr>))))"

definition current_ota_state ::
  "bool \<Rightarrow> (u8 list \<Rightarrow> u32) \<Rightarrow> 'f flash_access \<Rightarrow> Ota \<Rightarrow> ('f, perror, OtaImageState) exec"
where
  "current_ota_state oc crc F ota =
     bind_exec (get_slot_seq oc crc F ota) (\<lambda>seqs.
     if seqs = (UNINITIALIZED_SEQUENCE, UNINITIALIZED_SEQUENCE) then fail InvalidState
     else
       bind_exec (current_slot oc crc F ota) (\<lambda>slot.
       bind_exec (select_read oc crc F (ota_flash ota) (slot_offset slot)) (\<lambda>buffer.
       ret (ota_state buffer))))"

section \<open>Encoding of select entries\<close>

definition wf_select :: "OtaSelectEntry \<Rightarrow> bool" where
  "wf_select e \<longleftrightarrow> length (seq_label e) = 20"

lemma state_from_repr_repr [simp]: "state_from_repr (state_repr s) = Some s"
  by (cases s) (simp_all add: state_from_repr_def)

lemma length_select_to_bytes [simp]: "wf_select e \<Longrightarrow> length (select_to_bytes e) = 32"
  by (simp add: select_to_bytes_def wf_select_def)

lemma select_bytes_slices:
  assumes "wf_select e"
  shows "slice 0 4 (select_to_bytes e) = u32_to_le_bytes (ota_seq e)"
    "slice 4 20 (select_to_bytes e) = seq_label e"
    "slice 24 4 (select_to_bytes e) = u32_to_le_bytes (state_repr (ota_state e))"
    "slice 28 4 (select_to_bytes e) = u32_to_le_bytes (entry_crc e)"
  using assms by (simp_all add: select_to_bytes_def wf_select_def slice_def)

lemma select_round_trip [simp]: "wf_select e \<Longrightarrow> select_of_bytes (select_to_bytes e) = e"
  by (simp add: select_of_bytes_def select_bytes_slices)

lemma select_is_valid_to_bytes:
  assumes "wf_select e"
  shows "select_is_valid crc (select_to_bytes e) \<longleftrightarrow>
    (ota_seq e = 0xffffffff \<and> ota_state e = StateUndefined) \<or> entry_crc e = crc (u32_to_le_bytes (ota_seq e))"
proof -
  have "state_repr (ota_state e) = state_repr StateUndefined \<longleftrightarrow> ota_state e = StateUndefined"
    by (cases "ota_state e") simp_all
  then show ?thesis
    using assms by (auto simp: select_is_valid_def select_bytes_slices Let_def state_try_from_def ok_or_def del: state_repr.simps)
qed

lemma wf_select_of_bytes [simp]: "length bs = 32 \<Longrightarrow> wf_select (select_of_bytes bs)"
  by (simp add: wf_select_def select_of_bytes_def)

text \<open>A valid entry stays valid when its state changes, or when its sequence and checksum do.\<close>

lemma select_valid_state:
  assumes "length bs = 32" "select_is_valid crc bs" "ota_seq (select_of_bytes bs) \<noteq> 0xffffffff"
  shows "select_is_valid crc (select_to_bytes (select_of_bytes bs\<lparr>ota_state := st\<rparr>))"
proof -
  have "entry_crc (select_of_bytes bs) = crc (u32_to_le_bytes (ota_seq (select_of_bytes bs)))"
    using assms(2,3) by (auto simp: select_is_valid_def select_of_bytes_def Let_def split: if_splits)
  moreover have "wf_select (select_of_bytes bs\<lparr>ota_state := st\<rparr>)"
    using assms(1) by (simp add: wf_select_def select_of_bytes_def)
  ultimately show ?thesis by (simp add: select_is_valid_to_bytes)
qed

lemma wf_select_updates [simp]:
  "wf_select (e\<lparr>ota_seq := q\<rparr>) = wf_select e" "wf_select (e\<lparr>ota_state := st\<rparr>) = wf_select e"
  "wf_select (e\<lparr>entry_crc := c\<rparr>) = wf_select e"
  by (simp_all add: wf_select_def)

lemma slice_replicate: "i + n \<le> m \<Longrightarrow> slice i n (replicate m x) = replicate n x"
  by (simp add: slice_def min_def)

lemma u32_erased: "u32_from_le_bytes (replicate 4 0xff) = 0xffffffff"
proof -
  have "replicate 4 (0xff :: u8) = [0xff, 0xff, 0xff, 0xff]" by (simp add: numeral_eq_Suc)
  then show ?thesis by (simp add: u32_from_le_bytes_def)
qed

lemma replicate_ff_valid [simp]: "select_is_valid crc (replicate 32 0xff)"
  by (simp add: select_is_valid_def slice_replicate u32_erased)

lemma replicate_ff_seq [simp]: "ota_seq (select_of_bytes (replicate 32 0xff)) = 0xffffffff"
  by (simp add: select_of_bytes_def slice_replicate u32_erased)

section \<open>Sequence numbers\<close>

text \<open>The sequence number that selects the application: the highest initialised one.\<close>

definition selected_seq :: "u32 \<Rightarrow> u32 \<Rightarrow> u32 option" where
  "selected_seq seq0 seq1 =
    (if seq0 = UNINITIALIZED_SEQUENCE \<and> seq1 = UNINITIALIZED_SEQUENCE then None
     else if seq0 = UNINITIALIZED_SEQUENCE then Some seq1
     else if seq1 = UNINITIALIZED_SEQUENCE then Some seq0
     else Some (max seq0 seq1))"

definition app_of_selected :: "bool \<Rightarrow> nat \<Rightarrow> u32 option \<Rightarrow> (perror, AppPartitionSubType) result" where
  "app_of_selected oc count sel = (case sel of None \<Rightarrow> Ok Factory | Some q \<Rightarrow> app_of_seq oc count q)"

lemma u32_mod_nat: "0 < count \<Longrightarrow> count \<le> 16 \<Longrightarrow> unat (a mod word_of_nat count) = unat a mod count" for a :: u32
  by (simp add: unat_mod)

lemma u32_mod_of_nat:
  assumes "0 < count" "count \<le> 16" "n < 4294967296"
  shows "(word_of_nat n :: u32) mod word_of_nat count = word_of_nat (n mod count)"
proof -
  have "n mod count < 4294967296" using assms(3) by (meson le_less_trans mod_less_eq_dividend)
  then show ?thesis using assms by (simp add: word_unat_eq_iff u32_mod_nat)
qed

lemma app_of_seq_pos:
  assumes "0 < count" "count \<le> 16" "q \<noteq> 0"
  obtains app where "app_of_seq oc count q = Ok app" "app \<noteq> Factory" "app \<noteq> Test"
    "unat (app_repr app) = 16 + (unat q - 1) mod count"
proof -
  have q: "1 \<le> unat q" using assms(3) by (simp add: Suc_le_eq unat_gt_0)
  let ?n = "(q - 1) mod word_of_nat count :: u32"
  have n: "unat ?n = (unat q - 1) mod count"
    using assms(1,2) q by (simp add: u32_mod_nat unat_sub_small)
  have lt: "(unat q - 1) mod count < 16" using assms(1,2) by (meson mod_less_divisor less_le_trans)
  have u: "unat (ucast ?n :: u8) = (unat q - 1) mod count"
    using lt by (simp add: unsigned_ucast_eq take_bit_eq_mod n)
  then obtain app where app: "from_ota_app_number (ucast ?n) = Ok app" "app_repr app = ucast ?n + 0x10"
    "app \<noteq> Factory" "app \<noteq> Test"
    using lt from_ota_app_number_small [of "ucast ?n"] by metis
  have "unat (word_of_nat count :: u32) = count" using assms(2) by simp
  with assms(1) have "(word_of_nat count :: u32) \<noteq> 0" by auto
  then have "app_of_seq oc count q = Ok app"
    using q app(1) by (simp add: app_of_seq_def rem_u32_def)
  moreover have "unat (app_repr app) = 16 + (unat q - 1) mod count"
    unfolding app(2) using lt u by (subst unat_add_small) simp_all
  ultimately show thesis using that app(3,4) by blast
qed

text \<open>The index of an OTA application.\<close>

definition ota_index :: "AppPartitionSubType \<Rightarrow> nat" where
  "ota_index app = unat (app_repr app) - 16"

lemma ota_index_inj:
  assumes "app \<noteq> Factory" "app \<noteq> Test" "app' \<noteq> Factory" "app' \<noteq> Test" "ota_index app = ota_index app'"
  shows "app = app'"
proof -
  have "unat (app_repr app) = unat (app_repr app')"
    using assms(5) app_repr_ota_bounds(1) [OF assms(1,2)] app_repr_ota_bounds(1) [OF assms(3,4)]
    by (simp add: ota_index_def)
  then show ?thesis using inj_app_repr by (simp add: inj_eq)
qed

lemma app_of_seq_eq:
  assumes "0 < count" "count \<le> 16" "q \<noteq> 0" "app \<noteq> Factory" "app \<noteq> Test"
  shows "app_of_seq oc count q = Ok app \<longleftrightarrow> (unat q - 1) mod count = ota_index app"
proof -
  obtain app' where *: "app_of_seq oc count q = Ok app'" "app' \<noteq> Factory" "app' \<noteq> Test"
    "unat (app_repr app') = 16 + (unat q - 1) mod count"
    using app_of_seq_pos [OF assms(1-3)] .
  then show ?thesis using ota_index_inj [OF *(2,3) assms(4,5)] by (auto simp: ota_index_def)
qed

lemma seq_increment_first:
  assumes "0 < count" "count \<le> 16" "app \<noteq> Factory" "app \<noteq> Test"
  shows "seq_increment oc count Factory app = Ok (word_of_nat ((ota_index app + 1) mod count))"
proof -
  let ?i = "ota_index app" and ?c = "word_of_nat count :: u32"
  have i: "ota_app_number oc app = Ok (app_repr app - 0x10)" "unat (app_repr app - 0x10) = ?i"
    using ota_app_number_ok [OF assms(3,4)] by (simp_all add: ota_index_def)
  have lt: "?i < 16" using app_repr_ota_bounds [OF assms(3,4)] by (simp add: ota_index_def)
  have c: "unat ?c = count" using assms(2) by simp
  then have nz: "?c \<noteq> 0" using assms(1) by auto
  have "word_of_int (int ?i + 1 + int count) = (word_of_nat (?i + 1 + count) :: u32)"
    by (simp add: word_of_nat_eq_iff)
  moreover have "(word_of_nat (?i + 1 + count) :: u32) mod ?c = word_of_nat ((?i + 1) mod count)"
  proof -
    have "(?i + 1 + count) mod count = (?i + 1) mod count" by (rule mod_add_self2)
    then show ?thesis using assms(1,2) lt u32_mod_of_nat [of count "?i + 1 + count"] by simp
  qed
  ultimately show ?thesis
    using nz unfolding seq_increment_def i(1) rem_u32_def bind_result.simps i(2)
    by (simp add: ac_simps)
qed

lemma seq_increment_next:
  assumes "0 < count" "count \<le> 16" "app \<noteq> Factory" "app \<noteq> Test" "cur \<noteq> Factory" "cur \<noteq> Test"
    and "ota_index cur < count"
  shows "seq_increment oc count cur app = Ok (word_of_nat ((ota_index app + count - ota_index cur) mod count))"
proof -
  let ?i = "ota_index app" and ?j = "ota_index cur" and ?c = "word_of_nat count :: u32"
  have i: "ota_app_number oc app = Ok (app_repr app - 0x10)" "unat (app_repr app - 0x10) = ?i"
    "ota_app_number oc cur = Ok (app_repr cur - 0x10)" "unat (app_repr cur - 0x10) = ?j"
    using ota_app_number_ok [OF assms(3,4)] ota_app_number_ok [OF assms(5,6)] by (simp_all add: ota_index_def)
  have lt: "?i < 16" using app_repr_ota_bounds [OF assms(3,4)] by (simp add: ota_index_def)
  have c: "unat ?c = count" using assms(2) by simp
  then have nz: "?c \<noteq> 0" using assms(1) by auto
  have "int ?i - int ?j + int count = int (?i + count - ?j)"
    using assms(7) by (simp add: of_nat_diff)
  then have "word_of_int (int ?i - int ?j + int count) = (word_of_nat (?i + count - ?j) :: u32)"
    by (simp only: of_int_of_nat_eq)
  moreover have "(word_of_nat (?i + count - ?j) :: u32) mod ?c = word_of_nat ((?i + count - ?j) mod count)"
    using assms(1,2) lt by (intro u32_mod_of_nat) simp_all
  ultimately show ?thesis
    using nz assms(5) unfolding seq_increment_def i(1,3) rem_u32_def bind_result.simps i(2,4) by simp
qed

lemma mod_step:
  assumes "0 < (c :: nat)" "i < c"
  shows "(x + (i + c - x mod c) mod c) mod c = i"
proof -
  have "x mod c + (i + c - x mod c) = i + c" using mod_less_divisor [OF assms(1), of x] by simp
  then show ?thesis using assms(2) by (metis mod_add_left_eq mod_add_right_eq mod_add_self2 mod_less)
qed

section \<open>Operations on a reliable device\<close>

text \<open>\<open>ota_data_wf sz a\<close>: the region is a writable OTA-data partition inside the device.\<close>

definition ota_data_wf :: "nat \<Rightarrow> AutoFlashRegion \<Rightarrow> bool" where
  "ota_data_wf sz a \<longleftrightarrow> region_len (auto_region a) = 0x2000 \<and> \<not> region_read_only (auto_region a) \<and>
     SECTOR_SIZE dvd unat (region_offset (auto_region a)) \<and>
     unat (region_offset (auto_region a)) + 0x2000 \<le> sz \<and> sz \<le> 2 ^ 31"

text \<open>The 32 bytes of the entry at \<open>offset\<close>, as the region sees them.\<close>

definition slot_bytes :: "(bool \<Rightarrow> 'c \<Rightarrow> u8) \<Rightarrow> AutoFlashRegion \<Rightarrow> (nat \<Rightarrow> 'c) \<Rightarrow> u32 \<Rightarrow> u8 list" where
  "slot_bytes seen a m offset =
     mem_read (seen (auto_is_encrypted a) \<circ> m) (unat (region_offset (auto_region a)) + unat offset) 32"

lemma length_slot_bytes [simp]: "length (slot_bytes seen a m offset) = 32"
  by (simp add: slot_bytes_def)

definition slot_seq :: "(bool \<Rightarrow> 'c \<Rightarrow> u8) \<Rightarrow> AutoFlashRegion \<Rightarrow> (nat \<Rightarrow> 'c) \<Rightarrow> u32 \<Rightarrow> u32" where
  "slot_seq seen a m offset = ota_seq (select_of_bytes (slot_bytes seen a m offset))"

definition slots_valid :: "(u8 list \<Rightarrow> u32) \<Rightarrow> (bool \<Rightarrow> 'c \<Rightarrow> u8) \<Rightarrow> AutoFlashRegion \<Rightarrow> (nat \<Rightarrow> 'c) \<Rightarrow> bool" where
  "slots_valid crc seen a m \<longleftrightarrow> select_is_valid crc (slot_bytes seen a m SLOT0_DATA_OFFSET) \<and>
     select_is_valid crc (slot_bytes seen a m SLOT1_DATA_OFFSET)"

definition selected :: "(bool \<Rightarrow> 'c \<Rightarrow> u8) \<Rightarrow> AutoFlashRegion \<Rightarrow> (nat \<Rightarrow> 'c) \<Rightarrow> u32 option" where
  "selected seen a m = selected_seq (slot_seq seen a m SLOT0_DATA_OFFSET) (slot_seq seen a m SLOT1_DATA_OFFSET)"

text \<open>The entry that holds the selected sequence number, and the one that the next update overwrites.\<close>

definition slot_of_seqs :: "u32 \<Rightarrow> u32 \<Rightarrow> OtaDataSlot" where
  "slot_of_seqs seq0 seq1 =
    (if seq0 = UNINITIALIZED_SEQUENCE \<and> seq1 = UNINITIALIZED_SEQUENCE then SlotNone
     else if seq0 = UNINITIALIZED_SEQUENCE then Slot1
     else if seq1 = UNINITIALIZED_SEQUENCE \<or> seq0 > seq1 then Slot0
     else Slot1)"

definition slot_of :: "(bool \<Rightarrow> 'c \<Rightarrow> u8) \<Rightarrow> AutoFlashRegion \<Rightarrow> (nat \<Rightarrow> 'c) \<Rightarrow> OtaDataSlot" where
  "slot_of seen a m = slot_of_seqs (slot_seq seen a m SLOT0_DATA_OFFSET) (slot_seq seen a m SLOT1_DATA_OFFSET)"

lemmas slots_defs = slot_seq_def slots_valid_def selected_def slot_of_def

definition slot_offsets :: "u32 set" where
  "slot_offsets = {SLOT0_DATA_OFFSET, SLOT1_DATA_OFFSET}"

lemma slot_offsetsE:
  assumes "offset \<in> slot_offsets"
  obtains "offset = 0" | "offset = 0x1000"
  using assms by (auto simp: slot_offsets_def SLOT0_DATA_OFFSET_def SLOT1_DATA_OFFSET_def)

lemma slot_offset_in [simp]: "slot_offset slot \<in> slot_offsets"
  by (cases slot) (simp_all add: slot_offsets_def)

lemma slots_valid_in: "slots_valid crc seen a m \<Longrightarrow> offset \<in> slot_offsets \<Longrightarrow>
    select_is_valid crc (slot_bytes seen a m offset)"
  by (auto simp: slots_valid_def slot_offsets_def)

lemma slot_bytes_other:
  assumes "same_outside (unat (region_offset (auto_region a)) + unat offset) SECTOR_SIZE m m'"
    and "offset \<in> slot_offsets" "offset' \<in> slot_offsets" "offset' \<noteq> offset"
  shows "slot_bytes seen a m' offset' = slot_bytes seen a m offset'"
  unfolding slot_bytes_def
proof (rule mem_read_cong)
  fix x assume x: "unat (region_offset (auto_region a)) + unat offset' \<le> x"
    "x < unat (region_offset (auto_region a)) + unat offset' + 32"
  from assms(2-4) have "unat offset' + 32 \<le> unat offset \<or> unat offset + SECTOR_SIZE \<le> unat offset'"
    by (auto simp: SECTOR_SIZE_def elim!: slot_offsetsE)
  with x have "x < unat (region_offset (auto_region a)) + unat offset \<or>
      unat (region_offset (auto_region a)) + unat offset + SECTOR_SIZE \<le> x" by linarith
  then show "(seen (auto_is_encrypted a) \<circ> m') x = (seen (auto_is_encrypted a) \<circ> m) x"
    using assms(1) by (auto simp: same_outside_def)
qed

lemma next_seq_selected:
  "next_seq oc seq0 seq1 inc =
    (case selected_seq seq0 seq1 of None \<Rightarrow> Ok inc | Some p \<Rightarrow> add_ovf oc p inc)"
  by (simp add: next_seq_def selected_seq_def)

text \<open>A higher sequence number becomes the selected one, whichever slot it is written to.\<close>

lemma selected_after:
  assumes "q \<noteq> UNINITIALIZED_SEQUENCE" "\<And>p. selected_seq seq0 seq1 = Some p \<Longrightarrow> p < q"
  shows "selected_seq q seq1 = Some q" "selected_seq seq0 q = Some q"
proof -
  have "\<exists>p. selected_seq seq0 seq1 = Some p \<and> seq0 \<le> p" if "seq0 \<noteq> UNINITIALIZED_SEQUENCE"
    using that by (simp add: selected_seq_def)
  then have 0: "seq0 < q" if "seq0 \<noteq> UNINITIALIZED_SEQUENCE"
    using assms(2) that by (blast intro: le_less_trans)
  have "\<exists>p. selected_seq seq0 seq1 = Some p \<and> seq1 \<le> p" if "seq1 \<noteq> UNINITIALIZED_SEQUENCE"
    using that by (simp add: selected_seq_def)
  then have 1: "seq1 < q" if "seq1 \<noteq> UNINITIALIZED_SEQUENCE"
    using assms(2) that by (blast intro: le_less_trans)
  show "selected_seq q seq1 = Some q" "selected_seq seq0 q = Some q"
    using assms(1) 0 1 by (auto simp: selected_seq_def max_def)
qed

text \<open>The sequence numbers leave room for the update to application \<open>app\<close>.\<close>

definition seq_room :: "nat \<Rightarrow> u32 option \<Rightarrow> AppPartitionSubType \<Rightarrow> bool" where
  "seq_room count sel app = (case sel of
      None \<Rightarrow> ota_index app + 1 < count
    | Some p \<Rightarrow> p \<noteq> 0 \<and> unat p + count \<le> unat UNINITIALIZED_SEQUENCE)"

lemma new_seq_ok:
  assumes "0 < count" "count \<le> 16" "app \<noteq> Factory" "app \<noteq> Test" "ota_index app < count"
    and "seq_room count sel app" "app_of_selected oc count sel = Ok cur" "cur \<noteq> app"
  obtains inc q where "seq_increment oc count cur app = Ok inc"
    "(case sel of None \<Rightarrow> Ok inc | Some p \<Rightarrow> add_ovf oc p inc) = (Ok q :: (perror, u32) result)"
    "q \<noteq> UNINITIALIZED_SEQUENCE" "\<And>p. sel = Some p \<Longrightarrow> p < q"
    "app_of_seq oc count q = Ok app"
proof (cases sel)
  case None
  with assms(6,7) have idx: "ota_index app + 1 < count" and cur: "cur = Factory"
    by (simp_all add: seq_room_def app_of_selected_def)
  let ?q = "word_of_nat (ota_index app + 1) :: u32"
  have q: "unat ?q = ota_index app + 1" using idx assms(2) by (intro unat_of_nat_u32) simp
  have "?q \<noteq> 0" using q by (metis add_eq_0_iff_both_eq_0 unat_0 zero_neq_one)
  then have "app_of_seq oc count ?q = Ok app"
    using assms(5) q by (subst app_of_seq_eq [OF assms(1,2) _ assms(3,4)]) (simp_all del: of_nat_Suc of_nat_add)
  moreover have "seq_increment oc count cur app = Ok ?q"
    using seq_increment_first [OF assms(1-4), of oc] idx cur by simp
  moreover have "unat ?q \<noteq> unat UNINITIALIZED_SEQUENCE"
    using q idx assms(2) by (simp add: UNINITIALIZED_SEQUENCE_def del: of_nat_Suc of_nat_add)
  then have "?q \<noteq> UNINITIALIZED_SEQUENCE" by metis
  ultimately show thesis using that None by simp
next
  case (Some p)
  with assms(6) have p: "p \<noteq> 0" "unat p + count \<le> unat UNINITIALIZED_SEQUENCE"
    by (simp_all add: seq_room_def)
  obtain c where c: "app_of_seq oc count p = Ok c" "c \<noteq> Factory" "c \<noteq> Test"
    "unat (app_repr c) = 16 + (unat p - 1) mod count"
    using app_of_seq_pos [OF assms(1,2) p(1)] .
  with assms(7) Some have cur: "cur = c" by (simp add: app_of_selected_def)
  have ci: "ota_index cur = (unat p - 1) mod count" using c(4) cur by (simp add: ota_index_def)
  let ?n = "(ota_index app + count - ota_index cur) mod count" and ?inc = "word_of_nat ((ota_index app + count - ota_index cur) mod count) :: u32"
  have inc: "seq_increment oc count cur app = Ok ?inc"
    using seq_increment_next [OF assms(1-4), of cur oc] c(2,3) cur ci assms(1) by simp
  have n: "?n < count" using assms(1) by simp
  then have uinc: "unat ?inc = ?n" using assms(2) by (intro unat_of_nat_u32) simp
  have sum: "unat p + unat ?inc < unat UNINITIALIZED_SEQUENCE" using p(2) n uinc by simp
  then have sum32: "unat p + unat ?inc < 2 ^ LENGTH(32)"
    by (simp add: UNINITIALIZED_SEQUENCE_def)
  have uq: "unat (p + ?inc) = unat p + ?n" using unat_add_small [OF sum32] uinc by simp
  have pos: "1 \<le> unat p" using p(1) by (simp add: Suc_le_eq unat_gt_0)
  then have qnz: "p + ?inc \<noteq> 0" using uq by (metis add_is_0 not_one_le_zero unat_0)
  have "(unat (p + ?inc) - 1) mod count = (unat p - 1 + ?n) mod count" using uq pos by simp
  also have "\<dots> = ota_index app" unfolding ci by (rule mod_step [OF assms(1,5)])
  finally have app: "app_of_seq oc count (p + ?inc) = Ok app"
    by (simp only: app_of_seq_eq [OF assms(1,2) qnz assms(3,4)])
  have "?n \<noteq> 0"
  proof
    assume "?n = 0"
    then have "app_of_seq oc count p = Ok app" using app by simp
    with c(1) cur assms(8) show False by simp
  qed
  then have lt: "p < p + ?inc" using uq by (simp add: word_less_nat_alt)
  have "p + ?inc \<noteq> UNINITIALIZED_SEQUENCE" using sum uq uinc by auto
  moreover have "add_ovf oc p ?inc = (Ok (p + ?inc) :: (perror, u32) result)"
    by (rule add_ovf_small [OF sum32])
  ultimately show thesis using that [OF inc, of "p + ?inc"] Some lt app by simp
qed

lemma slot_next_cases: "slot_next slot = Slot0 \<or> slot_next slot = Slot1"
  by (cases slot) simp_all

lemma slot_offset_distinct: "SLOT0_DATA_OFFSET \<noteq> SLOT1_DATA_OFFSET"
  by (simp add: SLOT0_DATA_OFFSET_def SLOT1_DATA_OFFSET_def)

lemma app_of_selected_ok:
  assumes "0 < count" "count \<le> 16" "seq_room count sel app"
  obtains cur where "app_of_selected oc count sel = Ok cur"
proof (cases sel)
  case None
  then show thesis using that by (simp add: app_of_selected_def)
next
  case (Some p)
  then have "p \<noteq> 0" using assms(3) by (simp add: seq_room_def)
  from app_of_seq_pos [OF assms(1,2) this, of oc] obtain cur where "app_of_seq oc count p = Ok cur" .
  then show thesis using that Some by (simp add: app_of_selected_def)
qed

text \<open>Writing a higher sequence number with its checksum into the slot after the current one.\<close>

lemma slots_after_update:
  fixes m m' :: "nat \<Rightarrow> 'c" and seen :: "bool \<Rightarrow> 'c \<Rightarrow> u8" and a :: AutoFlashRegion
  defines "slot \<equiv> slot_next (slot_of seen a m)"
  assumes "slots_valid crc seen a m"
    and new: "slot_bytes seen a m' (slot_offset slot) =
      select_to_bytes (select_of_bytes (slot_bytes seen a m (slot_offset slot))
        \<lparr>ota_seq := q, entry_crc := crc (u32_to_le_bytes q)\<rparr>)"
    and other: "\<And>offset'. offset' \<in> slot_offsets \<Longrightarrow> offset' \<noteq> slot_offset slot \<Longrightarrow>
      slot_bytes seen a m' offset' = slot_bytes seen a m offset'"
    and q: "q \<noteq> UNINITIALIZED_SEQUENCE" "\<And>p. selected seen a m = Some p \<Longrightarrow> p < q"
  shows "slots_valid crc seen a m'" "selected seen a m' = Some q"
proof -
  let ?e = "select_of_bytes (slot_bytes seen a m (slot_offset slot))\<lparr>ota_seq := q, entry_crc := crc (u32_to_le_bytes q)\<rparr>"
  have wf: "wf_select ?e" by simp
  have valid: "select_is_valid crc (slot_bytes seen a m' (slot_offset slot))"
    unfolding new by (simp add: select_is_valid_to_bytes [OF wf])
  have seq: "slot_seq seen a m' (slot_offset slot) = q"
    unfolding slot_seq_def new by (simp add: select_round_trip [OF wf])
  let ?s0 = "slot_seq seen a m SLOT0_DATA_OFFSET" and ?s1 = "slot_seq seen a m SLOT1_DATA_OFFSET"
  have sel: "selected_seq q ?s1 = Some q" "selected_seq ?s0 q = Some q"
    using selected_after [of q ?s0 ?s1] q by (auto simp: selected_def)
  have o: "SLOT0_DATA_OFFSET \<in> slot_offsets" "SLOT1_DATA_OFFSET \<in> slot_offsets"
    by (simp_all add: slot_offsets_def)
  have "slots_valid crc seen a m' \<and> selected seen a m' = Some q"
  proof (cases "slot = Slot0")
    case True
    then have "slot_bytes seen a m' SLOT1_DATA_OFFSET = slot_bytes seen a m SLOT1_DATA_OFFSET"
      using other [OF o(2)] slot_offset_distinct by simp
    then show ?thesis
      using True valid seq sel(1) assms(2) by (simp add: slots_valid_def selected_def slot_seq_def)
  next
    case False
    then have "slot = Slot1" using slot_next_cases slot_def by blast
    moreover from this have "slot_bytes seen a m' SLOT0_DATA_OFFSET = slot_bytes seen a m SLOT0_DATA_OFFSET"
      using other [OF o(1)] slot_offset_distinct by simp
    ultimately show ?thesis
      using valid seq sel(2) assms(2) by (simp add: slots_valid_def selected_def slot_seq_def)
  qed
  then show "slots_valid crc seen a m'" "selected seen a m' = Some q" by blast+
qed

context reliable_flash_device
begin

lemma select_read_total:
  assumes "ready s" "ota_data_wf size a" "offset \<in> slot_offsets"
  obtains s' where "ready s'" "cells s' = cells s"
    "select_read oc crc F a offset s =
      (if select_is_valid crc (slot_bytes seen a (cells s) offset)
       then Ok (select_of_bytes (slot_bytes seen a (cells s) offset)) else Err Invalid, s')"
proof -
  from assms(2,3) have *: "unat offset + 32 \<le> unat (region_len (auto_region a))"
    "unat offset < unat (region_len (auto_region a))"
    "unat (region_offset (auto_region a)) + unat (region_len (auto_region a)) \<le> size" "size < 2 ^ 32"
    by (auto simp: ota_data_wf_def elim!: slot_offsetsE)
  obtain s' where "auto_read oc F a offset 32 s = (Ok (slot_bytes seen a (cells s) offset), s')"
    "ready s'" "cells s' = cells s"
    using region_read_total [OF assms(1) *] by (auto simp: auto_ops slot_bytes_def)
  then show thesis by (intro that [of s']) (auto simp: select_read_def bind_exec_step ret_def fail_def)
qed

lemma select_read_valid:
  assumes "ready s" "ota_data_wf size a" "offset \<in> slot_offsets" "slots_valid crc seen a (cells s)"
  obtains s' where "ready s'" "cells s' = cells s"
    "select_read oc crc F a offset s = (Ok (select_of_bytes (slot_bytes seen a (cells s) offset)), s')"
proof (rule select_read_total [OF assms(1-3), of oc crc])
  fix s'
  assume "ready s'" "cells s' = cells s" "select_read oc crc F a offset s =
      (if select_is_valid crc (slot_bytes seen a (cells s) offset)
       then Ok (select_of_bytes (slot_bytes seen a (cells s) offset)) else Err Invalid, s')"
  with that slots_valid_in [OF assms(4,3)] show thesis by simp
qed

lemma write_slot_total:
  assumes "ready s" "ota_data_wf size a" "offset \<in> slot_offsets" "length bytes = 32"
  obtains s' where "write_slot oc F a offset bytes s = (Ok (), s')" "ready s'"
    "slot_bytes seen a (cells s') offset = bytes"
    "same_outside (unat (region_offset (auto_region a)) + unat offset) SECTOR_SIZE (cells s) (cells s')"
proof -
  let ?r = "auto_region a" and ?b = "unat (region_offset (auto_region a)) + unat offset"
  let ?e = "offset + SLOT_SIZE"
  have e: "add_ovf oc offset SLOT_SIZE = (Ok ?e :: (perror, u32) result)" "unat ?e = unat offset + 4096"
    using assms(3) by (auto simp: SLOT_SIZE_def elim!: slot_offsetsE)
  from assms(2) have r: "\<not> region_read_only ?r" "SECTOR_SIZE dvd unat (region_offset ?r)" "region_len ?r = 0x2000"
    "unat (region_offset ?r) + unat (region_len ?r) \<le> size" "size < 2 ^ 32"
    by (auto simp: ota_data_wf_def)
  have o: "SECTOR_SIZE dvd unat offset" "SECTOR_SIZE dvd unat ?e" "unat ?e \<le> unat (region_len ?r)"
    "unat offset < unat (region_len ?r)" "unat offset + 32 \<le> unat (region_len ?r)" "write_align x dvd unat offset" for x
    using assms(3) r(3) unfolding e(2)
    by (auto simp: SECTOR_SIZE_def write_align_def WORD_SIZE_def ENCRYPTED_WRITE_SIZE_def elim!: slot_offsetsE)
  have al: "write_align x dvd unat (region_offset ?r)" for x
    using r(2) by (rule dvd_trans [rotated]) (simp add: SECTOR_SIZE_def write_align_def WORD_SIZE_def ENCRYPTED_WRITE_SIZE_def)
  obtain s1 where s1: "region_erase oc F ?r offset ?e s = (Ok (), s1)" "ready s1"
    using region_erase_total [OF assms(1) r(1) _ o(3,4,1,2) r(2,4,5)] e(2) by auto
  have small: "unat (region_offset ?r) + unat ?e < 2 ^ 32"
    using o(3) r(4,5) by linarith
  have erased1: "erased (cells s1 x)" if "?b \<le> x" "x < ?b + 4096" for x
    using region_erase_erased [OF s1(1) r(2) small] that e(2) by simp
  have frame1: "same_outside ?b 4096 (cells s) (cells s1)"
    using region_erase_frame [OF s1(1) r(2) small] e(2) by simp
  obtain s2 where s2: "region_write oc F ?r offset bytes (auto_is_encrypted a) s1 = (Ok (), s2)" "ready s2"
    using region_write_total [OF s1(2) r(1) _ o(4,6) _ al r(4,5), where bytes = bytes and oc = oc
        and e = "auto_is_encrypted a"] o(5) assms(4)
    by (cases "auto_is_encrypted a") (auto simp: write_align_def WORD_SIZE_def ENCRYPTED_WRITE_SIZE_def)
  have len: "length bytes < 2 ^ 32" "oc \<or> unat (region_offset ?r) + unat (region_len ?r) + length bytes \<le> 2 ^ 32"
    using assms(2,4) by (auto simp: ota_data_wf_def)
  have erased2: "erased (cells s1 x)" if "?b \<le> x" "x < ?b + length bytes" for x
    using erased1 [of x] that assms(4) by simp
  note seen2 = region_write_seen [OF s2(1) len erased2]
  show thesis
  proof (rule that [of s2])
    show "write_slot oc F a offset bytes s = (Ok (), s2)"
      using s1(1) s2(1) by (simp add: write_slot_def e(1) bind_exec_lift bind_exec_step auto_ops)
    show "slot_bytes seen a (cells s2) offset = bytes"
      using seen2(1) assms(4) by (simp add: slot_bytes_def)
    have "same_outside ?b SECTOR_SIZE (cells s1) (cells s2)"
      by (rule same_outside_mono [OF seen2(2)]) (use assms(4) in \<open>simp_all add: SECTOR_SIZE_def\<close>)
    then show "same_outside ?b SECTOR_SIZE (cells s) (cells s2)"
      using same_outside_trans frame1 by (auto simp: SECTOR_SIZE_def)
  qed (rule s2(2))
qed

lemma get_slot_seq_total:
  assumes "ready s" "ota_data_wf size (ota_flash ota)" "slots_valid crc seen (ota_flash ota) (cells s)"
  obtains s' where "ready s'" "cells s' = cells s"
    "get_slot_seq oc crc F ota s =
      (Ok (slot_seq seen (ota_flash ota) (cells s) SLOT0_DATA_OFFSET,
           slot_seq seen (ota_flash ota) (cells s) SLOT1_DATA_OFFSET), s')"
proof -
  let ?a = "ota_flash ota"
  have o: "SLOT0_DATA_OFFSET \<in> slot_offsets" "SLOT1_DATA_OFFSET \<in> slot_offsets" by (simp_all add: slot_offsets_def)
  obtain s1 where s1: "ready s1" "cells s1 = cells s"
    "select_read oc crc F ?a SLOT0_DATA_OFFSET s = (Ok (select_of_bytes (slot_bytes seen ?a (cells s) SLOT0_DATA_OFFSET)), s1)"
    using select_read_valid [OF assms(1,2) o(1) assms(3)] .
  obtain s2 where s2: "ready s2" "cells s2 = cells s1"
    "select_read oc crc F ?a SLOT1_DATA_OFFSET s1 = (Ok (select_of_bytes (slot_bytes seen ?a (cells s1) SLOT1_DATA_OFFSET)), s2)"
    using select_read_valid [OF s1(1) assms(2) o(2)] assms(3) s1(2) by metis
  show thesis
    by (rule that [of s2]) (use s1 s2 in \<open>simp_all add: get_slot_seq_def bind_exec_step ret_def slot_seq_def\<close>)
qed

lemma current_app_partition_total:
  assumes "ready s" "ota_data_wf size (ota_flash ota)" "slots_valid crc seen (ota_flash ota) (cells s)"
  obtains s' where "ready s'" "cells s' = cells s"
    "current_app_partition oc crc F ota s =
      (app_of_selected oc (ota_partition_count ota) (selected seen (ota_flash ota) (cells s)), s')"
proof -
  obtain s' where s': "ready s'" "cells s' = cells s"
    "get_slot_seq oc crc F ota s =
      (Ok (slot_seq seen (ota_flash ota) (cells s) SLOT0_DATA_OFFSET,
           slot_seq seen (ota_flash ota) (cells s) SLOT1_DATA_OFFSET), s')"
    using get_slot_seq_total [OF assms] .
  show thesis
    by (rule that [of s']) (use s' in \<open>auto simp: current_app_partition_def bind_exec_step lift_def
        app_of_selected_def selected_def selected_seq_def max_def\<close>)
qed

lemma current_slot_total:
  assumes "ready s" "ota_data_wf size (ota_flash ota)" "slots_valid crc seen (ota_flash ota) (cells s)"
  obtains s' where "ready s'" "cells s' = cells s"
    "current_slot oc crc F ota s = (Ok (slot_of seen (ota_flash ota) (cells s)), s')"
proof -
  obtain s' where s': "ready s'" "cells s' = cells s"
    "get_slot_seq oc crc F ota s =
      (Ok (slot_seq seen (ota_flash ota) (cells s) SLOT0_DATA_OFFSET,
           slot_seq seen (ota_flash ota) (cells s) SLOT1_DATA_OFFSET), s')"
    using get_slot_seq_total [OF assms] .
  show thesis
    by (rule that [of s']) (use s' in \<open>simp_all add: current_slot_def bind_exec_step ret_def slot_of_def
        slot_of_seqs_def\<close>)
qed

text \<open>One select entry is rewritten: the other keeps its bytes and nothing else changes.\<close>

lemma select_write_total:
  assumes "ready s" "ota_data_wf size a" "offset \<in> slot_offsets" "wf_select entry"
  obtains s' where "select_write oc F a offset entry s = (Ok (), s')" "ready s'"
    "slot_bytes seen a (cells s') offset = select_to_bytes entry"
    "\<And>offset'. offset' \<in> slot_offsets \<Longrightarrow> offset' \<noteq> offset \<Longrightarrow>
       slot_bytes seen a (cells s') offset' = slot_bytes seen a (cells s) offset'"
    "same_outside (unat (region_offset (auto_region a))) 0x2000 (cells s) (cells s')"
proof -
  obtain s' where s': "write_slot oc F a offset (select_to_bytes entry) s = (Ok (), s')" "ready s'"
    "slot_bytes seen a (cells s') offset = select_to_bytes entry"
    "same_outside (unat (region_offset (auto_region a)) + unat offset) SECTOR_SIZE (cells s) (cells s')"
    using write_slot_total [OF assms(1-3)] length_select_to_bytes [OF assms(4)] by metis
  show thesis
  proof (rule that [of s'])
    show "same_outside (unat (region_offset (auto_region a))) 0x2000 (cells s) (cells s')"
      by (rule same_outside_mono [OF s'(4)]) (use assms(3) in \<open>auto simp: SECTOR_SIZE_def elim!: slot_offsetsE\<close>)
    show "slot_bytes seen a (cells s') offset' = slot_bytes seen a (cells s) offset'"
      if "offset' \<in> slot_offsets" "offset' \<noteq> offset" for offset'
      using slot_bytes_other [OF s'(4) assms(3) that] .
  qed (use s' in \<open>simp_all add: select_write_def\<close>)
qed

text \<open>
  The update itself: the new sequence number is written to the entry that is not current, which stays
  untouched, so that an interrupted update cannot lose it.
\<close>

lemma set_sequence_total:
  assumes "ready s" "ota_data_wf size (ota_flash ota)" "slots_valid crc seen (ota_flash ota) (cells s)"
    and "ota_partition_count ota \<le> 16"
    and "app \<noteq> Factory" "app \<noteq> Test" "ota_index app < ota_partition_count ota"
    and "app_of_selected oc (ota_partition_count ota) (selected seen (ota_flash ota) (cells s)) = Ok cur" "cur \<noteq> app"
    and "seq_increment oc (ota_partition_count ota) cur app = Ok inc"
    and "(case selected seen (ota_flash ota) (cells s) of None \<Rightarrow> Ok inc | Some p \<Rightarrow> add_ovf oc p inc)
      = (Ok q :: (perror, u32) result)"
    and "q \<noteq> UNINITIALIZED_SEQUENCE" "\<And>p. selected seen (ota_flash ota) (cells s) = Some p \<Longrightarrow> p < q"
  obtains s' where "set_current_app_partition oc crc F ota app s = (Ok (), s')" "ready s'"
    "slots_valid crc seen (ota_flash ota) (cells s')"
    "selected seen (ota_flash ota) (cells s') = Some q"
    "slot_of seen (ota_flash ota) (cells s) \<noteq> SlotNone \<longrightarrow>
       slot_bytes seen (ota_flash ota) (cells s') (slot_offset (slot_of seen (ota_flash ota) (cells s)))
       = slot_bytes seen (ota_flash ota) (cells s) (slot_offset (slot_of seen (ota_flash ota) (cells s)))"
    "same_outside (unat (region_offset (auto_region (ota_flash ota)))) 0x2000 (cells s) (cells s')"
proof -
  let ?a = "ota_flash ota" and ?n = "ota_partition_count ota" and ?sel = "selected seen (ota_flash ota) (cells s)"
  let ?slot = "slot_next (slot_of seen ?a (cells s))"
  have idx: "ota_app_number oc app = Ok (app_repr app - 0x10)" "\<not> word_of_nat ?n \<le> app_repr app - 0x10"
    using ota_app_number_ok [OF assms(5,6)] assms(4,7)
    by (simp_all add: word_le_nat_alt ota_index_def unat_of_nat)
  let ?e = "select_of_bytes (slot_bytes seen ?a (cells s) (slot_offset ?slot))\<lparr>ota_seq := q, entry_crc := crc (u32_to_le_bytes q)\<rparr>"
  have v: "slots_valid crc seen ?a (cells t)" if "cells t = cells s" for t using assms(3) that by simp
  obtain s1 where s1: "ready s1" "cells s1 = cells s" "current_app_partition oc crc F ota s = (Ok cur, s1)"
    using current_app_partition_total [OF assms(1-3), of oc] assms(8) by metis
  obtain s2 where s2: "ready s2" "cells s2 = cells s" "current_slot oc crc F ota s1 = (Ok (slot_of seen ?a (cells s)), s2)"
    using current_slot_total [OF s1(1) assms(2) v [OF s1(2)], of oc] s1(2) by metis
  obtain s3 where s3: "ready s3" "cells s3 = cells s" "get_slot_seq oc crc F ota s2 =
      (Ok (slot_seq seen ?a (cells s) SLOT0_DATA_OFFSET, slot_seq seen ?a (cells s) SLOT1_DATA_OFFSET), s3)"
    using get_slot_seq_total [OF s2(1) assms(2) v [OF s2(2)], of oc] s2(2) by metis
  obtain s4 where s4: "ready s4" "cells s4 = cells s" "select_read oc crc F ?a (slot_offset ?slot) s3 =
      (Ok (select_of_bytes (slot_bytes seen ?a (cells s) (slot_offset ?slot))), s4)"
    using select_read_valid [OF s3(1) assms(2) slot_offset_in v [OF s3(2)], of oc] s3(2) by metis
  have wf: "wf_select ?e" by simp
  obtain s5 where s5: "select_write oc F ?a (slot_offset ?slot) ?e s4 = (Ok (), s5)" "ready s5"
    "slot_bytes seen ?a (cells s5) (slot_offset ?slot) = select_to_bytes ?e"
    "\<And>offset'. offset' \<in> slot_offsets \<Longrightarrow> offset' \<noteq> slot_offset ?slot \<Longrightarrow>
       slot_bytes seen ?a (cells s5) offset' = slot_bytes seen ?a (cells s4) offset'"
    "same_outside (unat (region_offset (auto_region ?a))) 0x2000 (cells s4) (cells s5)"
    using select_write_total [OF s4(1) assms(2) slot_offset_in wf] by metis
  note after = slots_after_update [OF assms(3) s5(3) s5(4) [unfolded s4(2)] assms(12,13)]
  show thesis
  proof (rule that [of s5])
    show "set_current_app_partition oc crc F ota app s = (Ok (), s5)"
      using assms(5,6,9,10,11) idx s1(3) s2(3) s3(3) s4(3) s5(1)
      by (simp add: set_current_app_partition_def Let_def bind_exec_lift bind_exec_step next_seq_selected
          selected_def)
    show "slot_of seen ?a (cells s) \<noteq> SlotNone \<longrightarrow>
        slot_bytes seen ?a (cells s5) (slot_offset (slot_of seen ?a (cells s)))
        = slot_bytes seen ?a (cells s) (slot_offset (slot_of seen ?a (cells s)))"
      using s5(4) s4(2) slot_offset_distinct
      by (cases "slot_of seen ?a (cells s)") (auto simp: slot_offsets_def)
  qed (use s5 s4(2) after in auto)
qed

text \<open>Selecting an application succeeds, makes it the current one and keeps the entries valid.\<close>

lemma set_current_app_partition_total:
  assumes "ready s" "ota_data_wf size (ota_flash ota)" "slots_valid crc seen (ota_flash ota) (cells s)"
    and "0 < ota_partition_count ota" "ota_partition_count ota \<le> 16"
    and "app \<noteq> Factory" "app \<noteq> Test" "ota_index app < ota_partition_count ota"
    and "seq_room (ota_partition_count ota) (selected seen (ota_flash ota) (cells s)) app"
  obtains s' where "set_current_app_partition oc crc F ota app s = (Ok (), s')" "ready s'"
    "slots_valid crc seen (ota_flash ota) (cells s')"
    "app_of_selected oc (ota_partition_count ota) (selected seen (ota_flash ota) (cells s')) = Ok app"
    "slot_of seen (ota_flash ota) (cells s) \<noteq> SlotNone \<longrightarrow>
       slot_bytes seen (ota_flash ota) (cells s') (slot_offset (slot_of seen (ota_flash ota) (cells s)))
       = slot_bytes seen (ota_flash ota) (cells s) (slot_offset (slot_of seen (ota_flash ota) (cells s)))"
    "same_outside (unat (region_offset (auto_region (ota_flash ota)))) 0x2000 (cells s) (cells s')"
proof -
  let ?a = "ota_flash ota" and ?n = "ota_partition_count ota" and ?sel = "selected seen (ota_flash ota) (cells s)"
  have idx: "ota_app_number oc app = Ok (app_repr app - 0x10)" "\<not> word_of_nat ?n \<le> app_repr app - 0x10"
    using ota_app_number_ok [OF assms(6,7)] assms(5,8)
    by (simp_all add: word_le_nat_alt ota_index_def unat_of_nat)
  obtain cur where cur: "app_of_selected oc ?n ?sel = Ok cur"
    using app_of_selected_ok [OF assms(4,5,9)] .
  obtain s1 where s1: "ready s1" "cells s1 = cells s" "current_app_partition oc crc F ota s = (Ok cur, s1)"
    using current_app_partition_total [OF assms(1-3), of oc] cur by metis
  show thesis
  proof (cases "cur = app")
    case True
    then have "set_current_app_partition oc crc F ota app s = (Ok (), s1)"
      using assms(6,7) idx s1(3) by (simp add: set_current_app_partition_def Let_def bind_exec_lift bind_exec_step ret_def)
    with True that [of s1] cur s1 assms(3) show thesis by simp
  next
    case False
    obtain inc q where inc: "seq_increment oc ?n cur app = Ok inc"
      and q: "(case ?sel of None \<Rightarrow> Ok inc | Some p \<Rightarrow> add_ovf oc p inc) = (Ok q :: (perror, u32) result)"
        "q \<noteq> UNINITIALIZED_SEQUENCE" "\<And>p. ?sel = Some p \<Longrightarrow> p < q" "app_of_seq oc ?n q = Ok app"
      using new_seq_ok [OF assms(4-9) cur False] by blast
    show thesis
      by (rule set_sequence_total [OF assms(1-3,5-8) cur False inc q(1-3)])
        (use that q(4) in \<open>auto simp: app_of_selected_def\<close>)
  qed
qed

text \<open>
  Selecting the last application while the factory application is selected writes the sequence number
  0, which stands for no application.
\<close>

lemma select_last_zero:
  assumes "ready s" "ota_data_wf size (ota_flash ota)" "slots_valid crc seen (ota_flash ota) (cells s)"
    and "ota_partition_count ota \<le> 16" "app \<noteq> Factory" "app \<noteq> Test" "ota_index app + 1 = ota_partition_count ota"
    and "selected seen (ota_flash ota) (cells s) = None"
  obtains s' s'' where "set_current_app_partition oc crc F ota app s = (Ok (), s')"
    "current_app_partition oc crc F ota s' = (app_of_seq oc (ota_partition_count ota) 0, s'')"
proof -
  let ?n = "ota_partition_count ota"
  have n: "0 < ?n" "ota_index app < ?n" using assms(7) by linarith+
  have inc: "seq_increment oc ?n Factory app = Ok 0"
    using seq_increment_first [OF n(1) assms(4-6)] assms(7) by simp
  have cur: "app_of_selected oc ?n (selected seen (ota_flash ota) (cells s)) = Ok Factory"
    using assms(8) by (simp add: app_of_selected_def)
  show thesis
  proof (rule set_sequence_total [OF assms(1-6) n(2) cur assms(5) [symmetric] inc, of 0])
    fix s' assume s': "set_current_app_partition oc crc F ota app s = (Ok (), s')" "ready s'"
      "slots_valid crc seen (ota_flash ota) (cells s')" "selected seen (ota_flash ota) (cells s') = Some 0"
    then show thesis
      using current_app_partition_total [OF s'(2) assms(2) s'(3), of oc] that by (metis app_of_selected_def option.case(2))
  qed (use assms(8) in \<open>simp_all add: UNINITIALIZED_SEQUENCE_def\<close>)
qed

text \<open>Setting the image state of the selected entry changes nothing but that state.\<close>

lemma set_current_ota_state_total:
  assumes "ready s" "ota_data_wf size (ota_flash ota)" "slots_valid crc seen (ota_flash ota) (cells s)"
    and "selected seen (ota_flash ota) (cells s) = Some q"
  obtains s' s'' where "set_current_ota_state oc crc F ota state s = (Ok (), s')"
    "current_ota_state oc crc F ota s' = (Ok state, s'')"
    "selected seen (ota_flash ota) (cells s') = Some q" "slots_valid crc seen (ota_flash ota) (cells s')"
    "ready s'" "same_outside (unat (region_offset (auto_region (ota_flash ota)))) 0x2000 (cells s) (cells s')"
proof -
  let ?a = "ota_flash ota"
  let ?slot = "slot_of seen ?a (cells s)"
  let ?b = "slot_bytes seen ?a (cells s) (slot_offset ?slot)"
  let ?e = "select_of_bytes ?b\<lparr>ota_state := state\<rparr>"
  let ?s0 = "slot_seq seen ?a (cells s) SLOT0_DATA_OFFSET" and ?s1 = "slot_seq seen ?a (cells s) SLOT1_DATA_OFFSET"
  have v: "slots_valid crc seen ?a (cells t)" if "cells t = cells s" for t using assms(3) that by simp
  have some: "(?s0, ?s1) \<noteq> (UNINITIALIZED_SEQUENCE, UNINITIALIZED_SEQUENCE)"
    using assms(4) by (auto simp: selected_def selected_seq_def)
  have cur_seq: "slot_seq seen ?a (cells s) (slot_offset ?slot) \<noteq> UNINITIALIZED_SEQUENCE"
    using some by (auto simp: slot_of_def slot_of_seqs_def)
  have wf: "wf_select ?e" by simp
  obtain s1 where s1: "ready s1" "cells s1 = cells s" "get_slot_seq oc crc F ota s = (Ok (?s0, ?s1), s1)"
    using get_slot_seq_total [OF assms(1-3), of oc] .
  obtain s2 where s2: "ready s2" "cells s2 = cells s" "current_slot oc crc F ota s1 = (Ok ?slot, s2)"
    using current_slot_total [OF s1(1) assms(2) v [OF s1(2)], of oc] s1(2) by metis
  obtain s3 where s3: "ready s3" "cells s3 = cells s"
    "select_read oc crc F ?a (slot_offset ?slot) s2 = (Ok (select_of_bytes ?b), s3)"
    using select_read_valid [OF s2(1) assms(2) slot_offset_in v [OF s2(2)], of oc] s2(2) by metis
  obtain s4 where s4: "select_write oc F ?a (slot_offset ?slot) ?e s3 = (Ok (), s4)" "ready s4"
    "slot_bytes seen ?a (cells s4) (slot_offset ?slot) = select_to_bytes ?e"
    "\<And>offset'. offset' \<in> slot_offsets \<Longrightarrow> offset' \<noteq> slot_offset ?slot \<Longrightarrow>
       slot_bytes seen ?a (cells s4) offset' = slot_bytes seen ?a (cells s3) offset'"
    "same_outside (unat (region_offset (auto_region ?a))) 0x2000 (cells s3) (cells s4)"
    using select_write_total [OF s3(1) assms(2) slot_offset_in wf] by metis
  have bytes: "slot_bytes seen ?a (cells s4) offset' =
      (if offset' = slot_offset ?slot then select_to_bytes ?e else slot_bytes seen ?a (cells s) offset')"
    if "offset' \<in> slot_offsets" for offset'
    using s4(3,4) s3(2) that by auto
  have seqs: "slot_seq seen ?a (cells s4) offset' = slot_seq seen ?a (cells s) offset'"
    if "offset' \<in> slot_offsets" for offset'
    using bytes [OF that] by (simp add: slot_seq_def select_round_trip [OF wf])
  have valid: "select_is_valid crc (slot_bytes seen ?a (cells s4) offset')" if "offset' \<in> slot_offsets" for offset'
  proof (cases "offset' = slot_offset ?slot")
    case True
    have "select_is_valid crc (select_to_bytes ?e)"
      using slots_valid_in [OF assms(3) slot_offset_in] cur_seq
      by (intro select_valid_state) (auto simp: slot_seq_def UNINITIALIZED_SEQUENCE_def)
    with True bytes [OF that] show ?thesis by simp
  next
    case False
    with bytes [OF that] slots_valid_in [OF assms(3) that] show ?thesis by simp
  qed
  have o: "SLOT0_DATA_OFFSET \<in> slot_offsets" "SLOT1_DATA_OFFSET \<in> slot_offsets" by (simp_all add: slot_offsets_def)
  have v4: "slots_valid crc seen ?a (cells s4)" using valid o by (simp add: slots_valid_def)
  have slot4: "slot_of seen ?a (cells s4) = ?slot" using seqs o by (simp add: slot_of_def)
  obtain s5 where s5: "ready s5" "cells s5 = cells s4" "get_slot_seq oc crc F ota s4 = (Ok (?s0, ?s1), s5)"
    using get_slot_seq_total [OF s4(2) assms(2) v4, of oc] seqs o by metis
  have v5: "slots_valid crc seen ?a (cells s5)" using v4 s5(2) by simp
  obtain s6 where s6: "ready s6" "cells s6 = cells s4" "current_slot oc crc F ota s5 = (Ok ?slot, s6)"
    using current_slot_total [OF s5(1) assms(2) v5, of oc] s5(2) slot4 by metis
  have v6: "slots_valid crc seen ?a (cells s6)" using v4 s6(2) by simp
  obtain s7 where s7: "select_read oc crc F ?a (slot_offset ?slot) s6 = (Ok ?e, s7)"
    using select_read_valid [OF s6(1) assms(2) slot_offset_in v6, of oc] s6(2) bytes [OF slot_offset_in]
      select_round_trip [OF wf] by metis
  show thesis
  proof (rule that [of s4 s7])
    show "set_current_ota_state oc crc F ota state s = (Ok (), s4)"
      using s1(3) s2(3) s3(3) s4(1) some by (auto simp: set_current_ota_state_def bind_exec_step)
    show "current_ota_state oc crc F ota s4 = (Ok state, s7)"
      using s5(3) s6(3) s7 some by (auto simp: current_ota_state_def bind_exec_step ret_def)
    show "selected seen ?a (cells s4) = Some q" using assms(4) seqs o by (simp add: selected_def)
  qed (use v4 s4 s3(2) in auto)
qed

text \<open>Selecting the factory application erases both sequence numbers.\<close>

lemma set_factory_total:
  assumes "ready s" "ota_data_wf size (ota_flash ota)"
  obtains s' where "set_current_app_partition oc crc F ota Factory s = (Ok (), s')" "ready s'"
    "slots_valid crc seen (ota_flash ota) (cells s')" "selected seen (ota_flash ota) (cells s') = None"
proof -
  let ?a = "ota_flash ota" and ?ff = "replicate 32 0xff :: u8 list"
  have o: "SLOT0_DATA_OFFSET \<in> slot_offsets" "SLOT1_DATA_OFFSET \<in> slot_offsets" by (simp_all add: slot_offsets_def)
  obtain s1 where s1: "write_slot oc F ?a SLOT0_DATA_OFFSET ?ff s = (Ok (), s1)" "ready s1"
    "slot_bytes seen ?a (cells s1) SLOT0_DATA_OFFSET = ?ff"
    using write_slot_total [OF assms o(1), of ?ff oc] by auto
  obtain s2 where s2: "write_slot oc F ?a SLOT1_DATA_OFFSET ?ff s1 = (Ok (), s2)" "ready s2"
    "slot_bytes seen ?a (cells s2) SLOT1_DATA_OFFSET = ?ff"
    "same_outside (unat (region_offset (auto_region ?a)) + unat SLOT1_DATA_OFFSET) SECTOR_SIZE (cells s1) (cells s2)"
    using write_slot_total [OF s1(2) assms(2) o(2), of ?ff oc] by auto
  have "slot_bytes seen ?a (cells s2) SLOT0_DATA_OFFSET = ?ff"
    using slot_bytes_other [OF s2(4) o(2,1) slot_offset_distinct] s1(3) by simp
  with s1 s2 show thesis
    by (intro that [of s2]) (simp_all add: set_current_app_partition_def Let_def bind_exec_step slots_valid_def
        selected_def slot_seq_def selected_seq_def UNINITIALIZED_SEQUENCE_def)
qed

end

end
