(* ===== verification/Ota_Updater.thy ===== *)
theory Ota_Updater
  imports Ota
begin

text \<open>
  \<open>esp-bootloader-esp-idf/src/ota_updater.rs\<close>: choosing and activating the next OTA application.
  The flash is the state of the operations; \<open>oc\<close>, \<open>crc\<close>, \<open>enabled\<close>, \<open>std\<close> and \<open>booted\<close> are the
  overflow-check flag, the CRC32 routine, the flash-encryption eFuse, the host feature and the
  offset of the running application. The lemmas show that the next application is never the booted
  one, and that activating it makes it the selected one.
\<close>

record OtaUpdater =
  upd_pt :: PartitionTable
  upd_ota_count :: nat

text \<open>One round of the counting loop.\<close>

definition count_part :: "PartitionEntry \<Rightarrow> nat \<times> bool \<Rightarrow> nat \<times> bool" where
  "count_part part acc = (case acc of (ota_count, has_ota_data) \<Rightarrow>
    (case partition_type part of
       App subtype \<Rightarrow> if subtype \<noteq> Factory \<and> subtype \<noteq> Test then (ota_count + 1, has_ota_data) else acc
     | Data subtype \<Rightarrow> if subtype = DataOta then (ota_count, True) else acc
     | _ \<Rightarrow> acc))"

definition updater_new ::
  "bool \<Rightarrow> (u8 list \<Rightarrow> u8 list) \<Rightarrow> bool \<Rightarrow> u32 \<Rightarrow> 'f flash_access \<Rightarrow> ('f, perror, OtaUpdater) exec"
where
  "updater_new validation md5 enabled table_offset F =
     bind_exec (read_partition_table validation md5 enabled table_offset F PARTITION_TABLE_MAX_LEN) (\<lambda>pt.
       case fold count_part (table_iter pt) (0, False) of (ota_count, has_ota_data) \<Rightarrow>
         if \<not> has_ota_data then fail Invalid
         else if ota_count < 2 then fail Invalid
         else ret \<lparr>upd_pt = pt, upd_ota_count = ota_count\<rparr>)"

definition ota_data :: "bool \<Rightarrow> bool \<Rightarrow> u32 option \<Rightarrow> OtaUpdater \<Rightarrow> (perror, Ota) result" where
  "ota_data oc enabled booted u =
     bind_result (find_partition (upd_pt u) (Data DataOta)) (\<lambda>ota_part. case ota_part of
         Some part \<Rightarrow> bind_result (as_auto_flash_region oc enabled booted part) (\<lambda>region.
           ota_new region (upd_ota_count u))
       | None \<Rightarrow> Err Invalid)"

definition selected_partition ::
  "bool \<Rightarrow> (u8 list \<Rightarrow> u32) \<Rightarrow> bool \<Rightarrow> u32 option \<Rightarrow> 'f flash_access \<Rightarrow> OtaUpdater \<Rightarrow>
     ('f, perror, AppPartitionSubType) exec"
where
  "selected_partition oc crc enabled booted F u =
     bind_exec (lift (ota_data oc enabled booted u)) (current_app_partition oc crc F)"

text \<open>\<open>from_ota_app_number((app.ota_app_number() + 1) % self.ota_count as u8)\<close>\<close>

definition following_app :: "bool \<Rightarrow> nat \<Rightarrow> AppPartitionSubType \<Rightarrow> (perror, AppPartitionSubType) result" where
  "following_app oc count app =
     bind_result (ota_app_number oc app) (\<lambda>n.
     bind_result (add_ovf oc n 1) (\<lambda>n1.
     if (word_of_nat count :: u8) = 0 then Panic else from_ota_app_number (n1 mod word_of_nat count)))"

definition next_ota_part ::
  "bool \<Rightarrow> (u8 list \<Rightarrow> u32) \<Rightarrow> bool \<Rightarrow> bool \<Rightarrow> u32 option \<Rightarrow> 'f flash_access \<Rightarrow> OtaUpdater \<Rightarrow>
     ('f, perror, AppPartitionSubType) exec"
where
  "next_ota_part oc crc enabled std booted F u =
     bind_exec (selected_partition oc crc enabled booted F u) (\<lambda>current.
     bind_exec (lift (if current = Factory then Ok Ota0 else following_app oc (upd_ota_count u) current)) (\<lambda>next.
     bind_exec (lift (booted_partition std booted (upd_pt u))) (\<lambda>booted_part. lift (case booted_part of
         Some part \<Rightarrow> if partition_type part = App next then following_app oc (upd_ota_count u) next
                      else Ok next
       | None \<Rightarrow> Ok next))))"

definition upd_current_ota_state ::
  "bool \<Rightarrow> (u8 list \<Rightarrow> u32) \<Rightarrow> bool \<Rightarrow> u32 option \<Rightarrow> 'f flash_access \<Rightarrow> OtaUpdater \<Rightarrow>
     ('f, perror, OtaImageState) exec"
where
  "upd_current_ota_state oc crc enabled booted F u =
     bind_exec (lift (ota_data oc enabled booted u)) (current_ota_state oc crc F)"

definition upd_set_current_ota_state ::
  "bool \<Rightarrow> (u8 list \<Rightarrow> u32) \<Rightarrow> bool \<Rightarrow> u32 option \<Rightarrow> 'f flash_access \<Rightarrow> OtaUpdater \<Rightarrow> OtaImageState \<Rightarrow>
     ('f, perror, unit) exec"
where
  "upd_set_current_ota_state oc crc enabled booted F u state =
     bind_exec (lift (ota_data oc enabled booted u)) (\<lambda>ota. set_current_ota_state oc crc F ota state)"

definition activate_next_partition ::
  "bool \<Rightarrow> (u8 list \<Rightarrow> u32) \<Rightarrow> bool \<Rightarrow> bool \<Rightarrow> u32 option \<Rightarrow> 'f flash_access \<Rightarrow> OtaUpdater \<Rightarrow>
     ('f, perror, unit) exec"
where
  "activate_next_partition oc crc enabled std booted F u =
     bind_exec (next_ota_part oc crc enabled std booted F u) (\<lambda>next_slot.
     bind_exec (lift (ota_data oc enabled booted u)) (\<lambda>ota.
     set_current_app_partition oc crc F ota next_slot))"

definition next_partition ::
  "bool \<Rightarrow> (u8 list \<Rightarrow> u32) \<Rightarrow> bool \<Rightarrow> bool \<Rightarrow> u32 option \<Rightarrow> 'f flash_access \<Rightarrow> OtaUpdater \<Rightarrow>
     ('f, perror, AutoFlashRegion \<times> AppPartitionSubType) exec"
where
  "next_partition oc crc enabled std booted F u =
     bind_exec (next_ota_part oc crc enabled std booted F u) (\<lambda>next_slot.
     bind_exec (lift (find_partition (upd_pt u) (App next_slot))) (\<lambda>found.
     bind_exec (lift (ok_or Invalid found)) (\<lambda>part.
     bind_exec (lift (as_auto_flash_region oc enabled booted part)) (\<lambda>region.
     ret (region, next_slot)))))"

definition reset_data ::
  "bool \<Rightarrow> (u8 list \<Rightarrow> u32) \<Rightarrow> bool \<Rightarrow> u32 option \<Rightarrow> 'f flash_access \<Rightarrow> OtaUpdater \<Rightarrow> ('f, perror, unit) exec"
where
  "reset_data oc crc enabled booted F u =
     bind_exec (lift (ota_data oc enabled booted u)) (\<lambda>ota.
     set_current_app_partition oc crc F ota Factory)"

section \<open>The next application\<close>

lemma following_app_ok:
  assumes "0 < count" "count \<le> 16" "app \<noteq> Factory" "app \<noteq> Test"
  obtains app' where "following_app oc count app = Ok app'" "app' \<noteq> Factory" "app' \<noteq> Test"
    "ota_index app' = (ota_index app + 1) mod count"
proof -
  let ?n = "app_repr app - 0x10"
  have n: "ota_app_number oc app = Ok ?n" "unat ?n = ota_index app" "ota_index app < 16"
    using ota_app_number_ok [OF assms(3,4)] app_repr_ota_bounds [OF assms(3,4)] by (simp_all add: ota_index_def)
  have c: "unat (word_of_nat count :: u8) = count" using assms(2) by (simp add: unat_of_nat)
  then have nz: "(word_of_nat count :: u8) \<noteq> 0" using assms(1) by auto
  have n1: "add_ovf oc ?n 1 = (Ok (?n + 1) :: (perror, u8) result)" "unat (?n + 1) = ota_index app + 1"
  proof -
    have "unat ?n + unat (1 :: u8) < 2 ^ LENGTH(8)" unfolding n(2) using n(3) by simp
    then show "add_ovf oc ?n 1 = (Ok (?n + 1) :: (perror, u8) result)" "unat (?n + 1) = ota_index app + 1"
      using unat_add_small [of ?n 1] unfolding n(2) by (simp_all only: add_ovf_small n(2) unsigned_1 refl)
  qed
  have m: "unat ((?n + 1) mod word_of_nat count) = (ota_index app + 1) mod count"
    by (simp only: unat_mod n1(2) c)
  have lt: "(ota_index app + 1) mod count < 16" using assms(1,2) by (meson mod_less_divisor less_le_trans)
  then obtain app' where app': "from_ota_app_number ((?n + 1) mod word_of_nat count) = Ok app'"
    "app_repr app' = (?n + 1) mod word_of_nat count + 0x10" "app' \<noteq> Factory" "app' \<noteq> Test"
    using from_ota_app_number_small m by metis
  have "unat (app_repr app') = (ota_index app + 1) mod count + 16"
    unfolding app'(2) using m lt by (subst unat_add_small) simp_all
  then have "ota_index app' = (ota_index app + 1) mod count" by (simp add: ota_index_def)
  moreover have "following_app oc count app = Ok app'"
    using nz n(1) n1(1) app'(1) by (simp add: following_app_def)
  ultimately show thesis using that app'(3,4) by blast
qed

lemma following_app_ota:
  assumes "0 < count" "count \<le> 16" "app \<noteq> Factory" "app \<noteq> Test" "following_app oc count app = Ok app'"
  shows "app' \<noteq> Factory \<and> app' \<noteq> Test"
  using following_app_ok [OF assms(1-4), of oc] assms(5) by (metis result.inject(1))

lemma mod_suc_neq: "2 \<le> c \<Longrightarrow> i < c \<Longrightarrow> (i + 1) mod c \<noteq> (i :: nat)"
  by (cases "i + 1 = c") auto

text \<open>
  From the currently selected application and the booted partition: an OTA application inside the
  count that is not the booted one.
\<close>

lemma next_choice:
  assumes "2 \<le> count" "count \<le> 16" "current \<noteq> Test"
    and "(if current = Factory then Ok Ota0 else following_app oc count current) = Ok next"
    and "(case booted_part of
         Some part \<Rightarrow> if partition_type part = App next then following_app oc count next else Ok next
       | None \<Rightarrow> Ok next) = Ok result"
  shows "result \<noteq> Factory" "result \<noteq> Test" "ota_index result < count"
    "booted_part = Some part \<Longrightarrow> partition_type part \<noteq> App result"
proof -
  have "0 < count" using assms(1) by simp
  have next_ok: "next \<noteq> Factory \<and> next \<noteq> Test \<and> ota_index next < count"
  proof (cases "current = Factory")
    case True
    with assms(1,4) show ?thesis by (auto simp: ota_index_def)
  next
    case False
    with following_app_ok [OF \<open>0 < count\<close> assms(2) False assms(3), of oc] assms(4) \<open>0 < count\<close>
    show ?thesis by (metis mod_less_divisor result.inject(1))
  qed
  obtain app' where app': "following_app oc count next = Ok app'" "app' \<noteq> Factory" "app' \<noteq> Test"
    "ota_index app' = (ota_index next + 1) mod count"
    using following_app_ok [OF \<open>0 < count\<close> assms(2)] next_ok by metis
  have "app' \<noteq> next" using app'(4) mod_suc_neq [OF assms(1)] next_ok by metis
  moreover have "ota_index app' < count" using app'(4) \<open>0 < count\<close> by simp
  ultimately show "result \<noteq> Factory" "result \<noteq> Test" "ota_index result < count"
    "booted_part = Some part \<Longrightarrow> partition_type part \<noteq> App result"
    using assms(5) next_ok app' by (auto split: option.splits if_splits)
qed

lemma app_of_selected_not_Test:
  assumes "0 < count" "count \<le> 16" "app_of_selected oc count sel = Ok cur" "sel \<noteq> Some 0"
  shows "cur \<noteq> Test"
proof (cases sel)
  case None
  with assms(3) show ?thesis by (auto simp: app_of_selected_def)
next
  case (Some p)
  with assms(4) app_of_seq_pos [OF assms(1,2), of p oc] assms(3) show ?thesis
    by (auto simp: app_of_selected_def)
qed

lemma ota_data_ok:
  assumes "ota_data oc enabled booted u = Ok ota"
  shows "ota_partition_count ota = upd_ota_count u" "0 < upd_ota_count u" "upd_ota_count u \<le> 16"
    "auto_capacity (ota_flash ota) = 0x2000" "auto_partition_type (ota_flash ota) = Data DataOta"
  using assms by (auto simp: ota_data_def ota_new_def split: option.splits if_splits)

text \<open>Creating the updater checks for two OTA applications and for the OTA-data partition.\<close>

lemma fold_count_part:
  "fold count_part ps (n, b) =
    (n + length (filter (\<lambda>p. \<exists>t. partition_type p = App t \<and> t \<noteq> Factory \<and> t \<noteq> Test) ps),
     b \<or> (\<exists>p\<in>set ps. partition_type p = Data DataOta))"
  by (induction ps arbitrary: n b) (auto simp: count_part_def split: PartitionType.splits)

lemma updater_new_ok:
  assumes "updater_new validation md5 enabled table_offset F s = (Ok u, s')"
  shows "2 \<le> upd_ota_count u"
    "upd_ota_count u =
      length (filter (\<lambda>p. \<exists>t. partition_type p = App t \<and> t \<noteq> Factory \<and> t \<noteq> Test) (table_iter (upd_pt u)))"
    "\<exists>part. find_partition (upd_pt u) (Data DataOta) = Ok (Some part)"
proof -
  have *: "2 \<le> upd_ota_count u \<and> upd_ota_count u =
      length (filter (\<lambda>p. \<exists>t. partition_type p = App t \<and> t \<noteq> Factory \<and> t \<noteq> Test) (table_iter (upd_pt u))) \<and>
      (\<exists>p\<in>set (table_iter (upd_pt u)). partition_type p = Data DataOta)"
    using assms unfolding updater_new_def
    by (elim bind_exec_OkE) (auto simp: fold_count_part fail_def ret_def Bex_def split: if_splits)
  then show "2 \<le> upd_ota_count u"
    "upd_ota_count u =
      length (filter (\<lambda>p. \<exists>t. partition_type p = App t \<and> t \<noteq> Factory \<and> t \<noteq> Test) (table_iter (upd_pt u)))"
    by auto
  from * have "find (\<lambda>e. partition_type e = Data DataOta) (table_iter (upd_pt u)) \<noteq> None"
    by (auto simp: find_None_iff)
  then show "\<exists>part. find_partition (upd_pt u) (Data DataOta) = Ok (Some part)"
    by (auto simp: find_partition_first)
qed

section \<open>Activation on a reliable device\<close>

context reliable_flash_device
begin

lemma selected_partition_total:
  assumes "ready s" "ota_data oc enabled booted u = Ok ota" "ota_data_wf size (ota_flash ota)"
    and "slots_valid crc seen (ota_flash ota) (cells s)"
  obtains s' where "ready s'" "cells s' = cells s"
    "selected_partition oc crc enabled booted F u s =
      (app_of_selected oc (upd_ota_count u) (selected seen (ota_flash ota) (cells s)), s')"
proof (rule current_app_partition_total [OF assms(1,3,4), of oc])
  fix s'
  assume "ready s'" "cells s' = cells s" "current_app_partition oc crc F ota s =
      (app_of_selected oc (ota_partition_count ota) (selected seen (ota_flash ota) (cells s)), s')"
  then show thesis
    using that [of s'] assms(2) ota_data_ok(1) [OF assms(2)]
    by (simp add: selected_partition_def bind_exec_lift)
qed

lemma activate_next_total:
  assumes "ready s" "ota_data oc enabled booted u = Ok ota" "ota_data_wf size (ota_flash ota)"
    and "slots_valid crc seen (ota_flash ota) (cells s)" "2 \<le> upd_ota_count u"
    and "selected seen (ota_flash ota) (cells s) \<noteq> Some 0"
  obtains "next" s1 where "next_ota_part oc crc enabled False booted F u s = (Ok next, s1)"
    "cells s1 = cells s"
    "\<And>part. booted_partition False booted (upd_pt u) = Ok (Some part) \<Longrightarrow> partition_type part \<noteq> App next"
    "seq_room (upd_ota_count u) (selected seen (ota_flash ota) (cells s)) next \<Longrightarrow>
      \<exists>s' s''. activate_next_partition oc crc enabled False booted F u s = (Ok (), s') \<and>
        selected_partition oc crc enabled booted F u s' = (Ok next, s'')"
proof -
  let ?n = "upd_ota_count u" and ?sel = "selected seen (ota_flash ota) (cells s)"
  note count = ota_data_ok [OF assms(2)]
  obtain cur where cur: "app_of_selected oc ?n ?sel = Ok cur"
  proof (cases ?sel)
    case None
    then show thesis using that by (simp add: app_of_selected_def)
  next
    case (Some p)
    with assms(6) app_of_seq_pos [OF count(2,3), of p oc] show thesis
      using that by (auto simp: app_of_selected_def)
  qed
  have not_test: "cur \<noteq> Test" by (rule app_of_selected_not_Test [OF count(2,3) cur assms(6)])
  obtain s1 where s1: "ready s1" "cells s1 = cells s" "selected_partition oc crc enabled booted F u s = (Ok cur, s1)"
    using selected_partition_total [OF assms(1-4)] cur by metis
  obtain n1 where n1: "(if cur = Factory then Ok Ota0 else following_app oc ?n cur) = (Ok n1 :: (perror, _) result)"
    using following_app_ok [OF count(2,3) _ not_test, of oc] by (metis (full_types))
  obtain bp where bp: "booted_partition False booted (upd_pt u) = Ok bp"
    using booted_partition_total by blast
  have n1_ota: "n1 \<noteq> Factory" "n1 \<noteq> Test"
    using n1 following_app_ota [OF count(2,3) _ not_test] by (auto split: if_splits)
  have "\<exists>x. following_app oc ?n n1 = Ok x"
    using following_app_ok [OF count(2,3) n1_ota, of oc] by metis
  then obtain "next" where nx: "(case bp of
         Some part \<Rightarrow> if partition_type part = App n1 then following_app oc ?n n1 else Ok n1
       | None \<Rightarrow> Ok n1) = (Ok next :: (perror, _) result)"
    by (cases bp) force+
  note choice = next_choice [OF assms(5) count(3) not_test n1 nx]
  have next_ok: "next_ota_part oc crc enabled False booted F u s = (Ok next, s1)"
    using s1(3) n1 bp nx by (simp add: next_ota_part_def bind_exec_step bind_exec_lift lift_def)
  show thesis
  proof (rule that [OF next_ok s1(2)])
    show "partition_type part \<noteq> App next" if "booted_partition False booted (upd_pt u) = Ok (Some part)" for part
      using choice(4) bp that by simp
    show "\<exists>s' s''. activate_next_partition oc crc enabled False booted F u s = (Ok (), s') \<and>
        selected_partition oc crc enabled booted F u s' = (Ok next, s'')" if room: "seq_room ?n ?sel next"
    proof -
      have v1: "slots_valid crc seen (ota_flash ota) (cells s1)" using assms(4) s1(2) by simp
      obtain s2 where s2: "set_current_app_partition oc crc F ota next s1 = (Ok (), s2)" "ready s2"
        "slots_valid crc seen (ota_flash ota) (cells s2)"
        "app_of_selected oc ?n (selected seen (ota_flash ota) (cells s2)) = Ok next"
        using set_current_app_partition_total [OF s1(1) assms(3) v1, of "next" oc] count choice(1-3) room s1(2)
        by metis
      obtain s3 where "selected_partition oc crc enabled booted F u s2 = (Ok next, s3)"
        using selected_partition_total [OF s2(2) assms(2,3) s2(3)] s2(4) by metis
      moreover have "activate_next_partition oc crc enabled False booted F u s = (Ok (), s2)"
        using next_ok assms(2) s2(1) by (simp add: activate_next_partition_def bind_exec_step bind_exec_lift)
      ultimately show ?thesis by blast
    qed
  qed
qed

end

end
