(* ===== verification/Partition_Image.thy ===== *)
theory Partition_Image
  imports Flash_Region
begin

text \<open>
  \<open>esp-bootloader-esp-idf/src/partitions/image.rs\<close>: walking the segment table of an application or
  bootloader image and hashing a partition. SHA-256 is the parameter \<open>sha\<close>. The lemmas show that the
  chunked hasher hashes exactly the requested bytes and that \<open>sha256\<close> only ever hashes bytes of the
  partition, with the appended digest verified when the image has one.
\<close>

definition PARTITION_HASH_LEN :: nat where
  "PARTITION_HASH_LEN = 32"

definition IMAGE_HEADER_MAGIC :: u8 where
  "IMAGE_HEADER_MAGIC = 0xE9"

definition IMAGE_HEADER_LEN :: u32 where
  "IMAGE_HEADER_LEN = 24"

definition IMAGE_MAX_SEGMENTS :: u8 where
  "IMAGE_MAX_SEGMENTS = 16"

record ImageMetadata =
  image_len :: u32
  image_digest :: "u8 list"
  hash_appended :: bool

definition checked_add :: "u32 \<Rightarrow> u32 \<Rightarrow> u32 option" where
  "checked_add a b = (if unat a + unat b \<ge> 2 ^ 32 then None else Some (a + b))"

text \<open>The segment loop: \<open>k\<close> segments are left, \<open>len\<close> is \<open>image_len\<close> so far.\<close>

primrec segment_loop ::
  "bool \<Rightarrow> 'f flash_access \<Rightarrow> u32 \<Rightarrow> u32 \<Rightarrow> bool \<Rightarrow> nat \<Rightarrow> u32 \<Rightarrow> ('f, perror, u32) exec"
where
  "segment_loop oc F address part_size encrypted 0 len = ret len"
| "segment_loop oc F address part_size encrypted (Suc k) len =
     bind_exec (lift (add_ovf oc address len)) (\<lambda>a.
     bind_exec (dev_read F encrypted a 8) (\<lambda>seg.
     let data_len = u32_from_le_bytes (slice 4 4 seg) in
     if data_len mod 4 \<noteq> 0 \<or> data_len \<ge> part_size then fail InvalidImage
     else bind_exec (lift (add_ovf oc 8 data_len)) (\<lambda>d.
     bind_exec (lift (ok_or InvalidImage (checked_add len d))) (\<lambda>len'.
     segment_loop oc F address part_size encrypted k len'))))"

definition get_image_metadata ::
  "bool \<Rightarrow> 'f flash_access \<Rightarrow> u32 \<Rightarrow> u32 \<Rightarrow> bool \<Rightarrow> ('f, perror, ImageMetadata) exec"
where
  "get_image_metadata oc F address part_size encrypted =
     bind_exec (dev_read F encrypted address (unat IMAGE_HEADER_LEN)) (\<lambda>hdr.
     if hdr ! 0 \<noteq> IMAGE_HEADER_MAGIC \<or> hdr ! 1 > IMAGE_MAX_SEGMENTS then fail InvalidImage
     else
       bind_exec (segment_loop oc F address part_size encrypted (unat (hdr ! 1)) IMAGE_HEADER_LEN) (\<lambda>len.
       bind_exec (lift (add_ovf oc len 1)) (\<lambda>len1.
       bind_exec (lift (add_ovf oc len1 15)) (\<lambda>len16.
       let padded = len16 AND NOT 15; appended = (hdr ! 23 \<noteq> 0) in
       bind_exec
         (if appended then
            bind_exec (lift (add_ovf oc address padded)) (\<lambda>a.
            bind_exec (dev_read F encrypted a PARTITION_HASH_LEN) (\<lambda>digest.
            bind_exec (lift (add_ovf oc padded (word_of_nat PARTITION_HASH_LEN))) (\<lambda>total.
            ret (digest, total))))
          else ret (replicate PARTITION_HASH_LEN 0, padded)) (\<lambda>(digest, total).
       if total > part_size then fail InvalidImage
       else ret \<lparr>image_len = total, image_digest = digest, hash_appended = appended\<rparr>)))))"

text \<open>The hasher has been fed \<open>fed\<close>; \<open>sha fed\<close> is the digest after \<open>finalize\<close>.\<close>

function sha256_loop ::
  "bool \<Rightarrow> 'f flash_access \<Rightarrow> u32 \<Rightarrow> u32 \<Rightarrow> bool \<Rightarrow> u8 list \<Rightarrow> ('f, perror, u8 list) exec"
where
  "sha256_loop oc F flash_offset len encrypted fed =
    (if len = 0 then ret fed
     else let n = min (unat len) 4096 in
       bind_exec (dev_read F encrypted flash_offset n) (\<lambda>chunk.
       bind_exec (lift (add_ovf oc flash_offset (word_of_nat n))) (\<lambda>offset'.
       sha256_loop oc F offset' (len - word_of_nat n) encrypted (fed @ chunk))))"
  by pat_completeness auto

lemma sha_step:
  assumes "len \<noteq> (0 :: u32)"
  shows "unat (len - word_of_nat (min (unat len) 4096)) = unat len - min (unat len) 4096"
    "0 < min (unat len) 4096"
proof -
  have "unat (word_of_nat (min (unat len) 4096) :: u32) = min (unat len) 4096" by (intro unat_of_nat_u32) simp
  then show "unat (len - word_of_nat (min (unat len) 4096)) = unat len - min (unat len) 4096"
    by (subst unat_sub_small) simp_all
  show "0 < min (unat len) 4096" using assms by (simp add: unat_gt_0)
qed

termination sha256_loop
  by (relation "measure (\<lambda>(oc, F, a, len, e, fed). unat len)") (use sha_step in auto)

declare sha256_loop.simps [simp del]

definition sha256_flash_contents ::
  "bool \<Rightarrow> (u8 list \<Rightarrow> u8 list) \<Rightarrow> 'f flash_access \<Rightarrow> u32 \<Rightarrow> u32 \<Rightarrow> bool \<Rightarrow> ('f, perror, u8 list) exec"
where
  "sha256_flash_contents oc sha F flash_offset len encrypted =
     bind_exec (sha256_loop oc F flash_offset len encrypted []) (\<lambda>fed. ret (sha fed))"

definition is_image_type :: "PartitionType \<Rightarrow> bool" where
  "is_image_type t = (case t of
      App _ \<Rightarrow> True | Bootloader _ \<Rightarrow> True | Unknown ty _ \<Rightarrow> ty = 0 \<or> ty = 2 | _ \<Rightarrow> False)"

definition entry_sha256 ::
  "bool \<Rightarrow> (u8 list \<Rightarrow> u8 list) \<Rightarrow> bool \<Rightarrow> 'f flash_access \<Rightarrow> PartitionEntry \<Rightarrow> ('f, perror, u8 list) exec"
where
  "entry_sha256 oc sha enabled F e =
    (if entry_is_empty e then fail InvalidArgument
     else
       let address = entry_offset e; encrypted = is_effectively_encrypted enabled e; size' = entry_len e in
       if is_image_type (partition_type e) then
         bind_exec (get_image_metadata oc F address size' encrypted) (\<lambda>data.
         if hash_appended data then
           bind_exec (lift (sub_ovf oc (image_len data) (word_of_nat PARTITION_HASH_LEN))) (\<lambda>n.
           bind_exec (sha256_flash_contents oc sha F address n encrypted) (\<lambda>calc.
           if calc \<noteq> image_digest data then fail InvalidImage else ret (image_digest data)))
         else sha256_flash_contents oc sha F address (image_len data) encrypted)
       else sha256_flash_contents oc sha F address size' encrypted)"

section \<open>Lengths\<close>

lemma unat_add_le: "unat (a + b) \<le> unat a + unat b" for a b :: u32
  using unat_add_wrap [of a b] by auto

lemma segment_loop_bound:
  assumes "segment_loop oc F address part_size e k len s = (Ok len', s')"
  shows "unat len' \<le> unat len + k * (8 + unat part_size)"
  using assms
proof (induction k arbitrary: len s)
  case (Suc k)
  from Suc.prems obtain a seg s1 d s2 len1 where
      small: "u32_from_le_bytes (slice 4 4 seg) < part_size"
      and d: "add_ovf oc 8 (u32_from_le_bytes (slice 4 4 seg)) = (Ok d :: (perror, u32) result)"
      and len1: "checked_add len d = Some len1"
      and rest: "segment_loop oc F address part_size e k len1 s2 = (Ok len', s')"
    by (auto simp: Let_def lift_def fail_def ok_or_def not_le elim!: bind_exec_OkE split: if_splits option.splits)
  have "unat d \<le> 8 + unat part_size"
    using add_ovf_eq_Ok [OF d] unat_add_le [of 8 "u32_from_le_bytes (slice 4 4 seg)"] small
    by (simp add: word_less_nat_alt)
  moreover have "unat len1 \<le> unat len + unat d"
    using len1 unat_add_le [of len d] by (auto simp: checked_add_def split: if_splits)
  ultimately show ?case using Suc.IH [OF rest] by simp
qed (simp add: ret_def)

text \<open>
  An accepted image fits into its partition. The bound of 128 MiB keeps the sum of 16 segments below
  the range of \<open>u32\<close>.
\<close>

lemma image_metadata_fits:
  assumes "get_image_metadata oc F address part_size e s = (Ok d, s')" "unat part_size \<le> 2 ^ 27"
  shows "unat (image_len d) \<le> unat part_size" "hash_appended d \<Longrightarrow> 32 \<le> unat (image_len d)"
proof -
  from assms(1) obtain hdr s1 len s2 len1 len16 s3 where
      seg: "hdr ! 1 \<le> IMAGE_MAX_SEGMENTS"
        "segment_loop oc F address part_size e (unat (hdr ! 1)) IMAGE_HEADER_LEN s1 = (Ok len, s2)"
      and l1: "add_ovf oc len 1 = (Ok len1 :: (perror, u32) result)"
      and l16: "add_ovf oc len1 15 = (Ok len16 :: (perror, u32) result)"
      and fits: "image_len d \<le> part_size"
      and total: "hash_appended d \<Longrightarrow>
        add_ovf oc (len16 AND NOT 15) (word_of_nat PARTITION_HASH_LEN) = (Ok (image_len d) :: (perror, u32) result)"
    unfolding get_image_metadata_def Let_def
    by (auto simp: lift_def fail_def ret_def not_less elim!: bind_exec_OkE split: if_splits)
  show "unat (image_len d) \<le> unat part_size" using fits by (simp add: word_le_nat_alt)
  have "unat (hdr ! 1) \<le> 16" using seg(1) by (simp add: IMAGE_MAX_SEGMENTS_def word_le_nat_alt)
  then have "unat (hdr ! 1) * (8 + unat part_size) \<le> 16 * (8 + unat part_size)" by (rule mult_le_mono1)
  then have "unat len \<le> 24 + 16 * (8 + unat part_size)"
    using segment_loop_bound [OF seg(2)] by (simp add: IMAGE_HEADER_LEN_def)
  moreover have "len1 = len + 1" "len16 = len1 + 15" using l1 l16 by (auto dest: add_ovf_eq_Ok)
  ultimately have "unat len16 \<le> 168 + 2 ^ 31"
    using unat_add_le [of len 1] unat_add_le [of len1 15] assms(2) by simp
  moreover have "unat (len16 AND NOT 15) \<le> unat len16"
    using word_and_le2 [of len16 "NOT 15"] by (simp add: word_le_nat_alt)
  ultimately have "unat (len16 AND NOT 15) + unat (32 :: u32) < 2 ^ LENGTH(32)" by simp
  from unat_add_small [OF this] show "32 \<le> unat (image_len d)" if "hash_appended d"
    using add_ovf_eq_Ok [OF total [OF that]] by (simp add: PARTITION_HASH_LEN_def)
qed

section \<open>What is hashed\<close>

context flash_device
begin

lemma sha256_loop_ok:
  assumes "sha256_loop oc F a len e fed s = (Ok bs, s')" "unat a + unat len \<le> 2 ^ 32"
  shows "bs = fed @ mem_read (seen e \<circ> cells s) (unat a) (unat len)"
  using assms
proof (induction "unat len" arbitrary: a len fed s rule: less_induct)
  case less
  show ?case
  proof (cases "len = 0")
    case True
    with less.prems show ?thesis by (simp add: sha256_loop.simps ret_def)
  next
    case False
    let ?n = "min (unat len) 4096"
    let ?a = "a + word_of_nat ?n" and ?len = "len - word_of_nat ?n"
    from False less.prems(1) obtain chunk s1 where
        rd: "dev_read F e a ?n s = (Ok chunk, s1)"
        and rest: "sha256_loop oc F ?a ?len e (fed @ chunk) s1 = (Ok bs, s')"
      by (subst (asm) sha256_loop.simps) (auto simp: Let_def lift_def elim!: bind_exec_OkE dest!: add_ovf_eq_Ok)
    have len: "unat ?len = unat len - ?n" "unat ?len < unat len"
      using sha_step [OF False] by auto
    have n: "unat (word_of_nat ?n :: u32) = ?n" by (intro unat_of_nat_u32) simp
    have a: "unat ?a = unat a + ?n \<or> unat ?len = 0 \<and> unat ?a = 0"
    proof -
      have "unat ?a = unat a + ?n \<or> unat ?a + 4294967296 = unat a + ?n"
        using unat_add_wrap [of a "word_of_nat ?n"] unfolding n .
      moreover have "?n \<le> unat len" by simp
      moreover have "unat a + unat len \<le> 4294967296" using less.prems(2) by simp
      ultimately show ?thesis unfolding len(1) by arith
    qed
    then have bound: "unat ?a + unat ?len \<le> 2 ^ 32" using len(1) less.prems(2) by auto
    have "bs = (fed @ chunk) @ mem_read (seen e \<circ> cells s1) (unat ?a) (unat ?len)"
      by (rule less.hyps [OF len(2) rest bound])
    also have "mem_read (seen e \<circ> cells s1) (unat ?a) (unat ?len)
        = mem_read (seen e \<circ> cells s) (unat a + ?n) (unat len - ?n)"
      using a len(1) read_frame [OF rd] by auto
    also have "chunk = mem_read (seen e \<circ> cells s) (unat a) ?n" by (rule read_ok [OF rd])
    finally show ?thesis
      using mem_read_append [of "seen e \<circ> cells s" "unat a" ?n "unat len - ?n"] by (simp add: comp_def)
  qed
qed

lemma sha256_flash_contents_ok:
  assumes "sha256_flash_contents oc sha F a len e s = (Ok d, s')" "unat a + unat len \<le> 2 ^ 32"
  shows "d = sha (mem_read (seen e \<circ> cells s) (unat a) (unat len))"
  using assms(1) sha256_loop_ok [OF _ assms(2), of oc e "[]"]
  by (auto simp: sha256_flash_contents_def ret_def elim!: bind_exec_OkE)

text \<open>No step of the image walk changes the device.\<close>

lemma segment_loop_frame:
  "segment_loop oc F address part_size e k len s = (q, s') \<Longrightarrow> cells s' = cells s"
proof (induction k arbitrary: len s q s')
  case (Suc k)
  show ?case
  proof (rule bind_exec_frame [where P = "\<lambda>x y. cells y = cells x", OF _ _ _ Suc.prems [unfolded segment_loop.simps]])
    fix a s1 r t
    assume step: "bind_exec (dev_read F e a 8) (\<lambda>seg. let data_len = u32_from_le_bytes (slice 4 4 seg)
        in if data_len mod 4 \<noteq> 0 \<or> part_size \<le> data_len then fail InvalidImage
           else bind_exec (lift (add_ovf oc 8 data_len)) (\<lambda>d.
             bind_exec (lift (ok_or InvalidImage (checked_add len d)))
               (segment_loop oc F address part_size e k))) s1 = (r, t)"
    show "cells t = cells s1"
    proof (rule bind_exec_frame [where P = "\<lambda>x y. cells y = cells x", OF read_frame _ _ step])
      fix seg s2 r u
      assume "(let data_len = u32_from_le_bytes (slice 4 4 seg)
          in if data_len mod 4 \<noteq> 0 \<or> part_size \<le> data_len then fail InvalidImage
             else bind_exec (lift (add_ovf oc 8 data_len)) (\<lambda>d.
               bind_exec (lift (ok_or InvalidImage (checked_add len d)))
                 (segment_loop oc F address part_size e k))) s2 = (r, u)"
      with Suc.IH show "cells u = cells s2"
        by (cases "add_ovf oc 8 (u32_from_le_bytes (slice 4 4 seg)) :: (perror, u32) result")
          (auto simp: Let_def exec_simps ok_or_def split: if_splits option.splits)
    qed auto
  qed (auto simp: lift_def)
qed (simp add: ret_def)

lemma get_image_metadata_frame:
  assumes "get_image_metadata oc F address part_size e s = (Ok d, s')"
  shows "cells s' = cells s"
  using assms read_frame segment_loop_frame unfolding get_image_metadata_def Let_def
  by (auto simp: lift_def fail_def ret_def elim!: bind_exec_OkE split: if_splits)

lemma entry_sha256_prefix:
  assumes "entry_sha256 oc sha enabled F e s = (Ok d, s')"
    and "unat (entry_len e) \<le> 2 ^ 27" "unat (entry_offset e) + unat (entry_len e) \<le> 2 ^ 32"
  shows "\<exists>n \<le> unat (entry_len e).
    d = sha (mem_read (seen (is_effectively_encrypted enabled e) \<circ> cells s) (unat (entry_offset e)) n)"
proof -
  let ?e = "is_effectively_encrypted enabled e"
  have hash: "d = sha (mem_read (seen ?e \<circ> cells s) (unat (entry_offset e)) (unat n))"
    if "sha256_flash_contents oc sha F (entry_offset e) n ?e s1 = (Ok d, t)" "cells s1 = cells s"
      "unat n \<le> unat (entry_len e)" for n s1 t
    using sha256_flash_contents_ok [OF that(1)] that(2,3) assms(3) by auto
  show ?thesis
  proof (cases "is_image_type (partition_type e)")
    case False
    with assms(1) hash show ?thesis by (auto simp: entry_sha256_def Let_def fail_def split: if_splits)
  next
    case True
    with assms(1) obtain data s1 where meta: "get_image_metadata oc F (entry_offset e) (entry_len e) ?e s = (Ok data, s1)"
      and cont: "(if hash_appended data then
           bind_exec (lift (sub_ovf oc (image_len data) (word_of_nat PARTITION_HASH_LEN))) (\<lambda>n.
           bind_exec (sha256_flash_contents oc sha F (entry_offset e) n ?e) (\<lambda>calc.
           if calc \<noteq> image_digest data then fail InvalidImage else ret (image_digest data)))
         else sha256_flash_contents oc sha F (entry_offset e) (image_len data) ?e) s1 = (Ok d, s')"
      by (auto simp: entry_sha256_def Let_def fail_def elim!: bind_exec_OkE split: if_splits)
    note fits = image_metadata_fits [OF meta assms(2)] and same = get_image_metadata_frame [OF meta]
    show ?thesis
    proof (cases "hash_appended data")
      case False
      with cont hash [OF _ same fits(1)] fits(1) show ?thesis by auto
    next
      case True
      have n: "unat (image_len data - 32) \<le> unat (entry_len e)"
        using fits True by (subst unat_sub_small) simp_all
      from True cont fits(2) obtain t where
        "sha256_flash_contents oc sha F (entry_offset e) (image_len data - 32) ?e s1 = (Ok d, t)"
        by (auto simp: PARTITION_HASH_LEN_def bind_exec_lift fail_def ret_def sub_ovf_def elim!: bind_exec_OkE split: if_splits)
      with hash [OF _ same n] n show ?thesis by blast
    qed
  qed
qed

end

context reliable_flash_device
begin

lemma sha256_loop_total:
  assumes "ready s" "unat a + unat len \<le> size" "size < 2 ^ 32"
  shows "\<exists>bs s'. sha256_loop oc F a len e fed s = (Ok bs, s')"
  using assms
proof (induction "unat len" arbitrary: a len fed s rule: less_induct)
  case less
  show ?case
  proof (cases "len = 0")
    case True
    then show ?thesis by (simp add: sha256_loop.simps ret_def)
  next
    case False
    let ?n = "min (unat len) 4096"
    have n: "unat (word_of_nat ?n :: u32) = ?n" by (intro unat_of_nat_u32) simp
    have small: "unat a + unat (word_of_nat ?n :: u32) < 2 ^ LENGTH(32)"
      unfolding n using less.prems by simp
    have len: "unat (len - word_of_nat ?n) = unat len - ?n" "unat (len - word_of_nat ?n) < unat len"
      using sha_step [OF False] by auto
    have a: "unat (a + word_of_nat ?n) = unat a + ?n" using unat_add_small [OF small] n by simp
    have "unat a + ?n \<le> size" using less.prems(2) by simp
    from read_total [OF less.prems(1) this, of e] obtain chunk s1 where
      rd: "dev_read F e a ?n s = (Ok chunk, s1)" "ready s1" by blast
    have "unat (a + word_of_nat ?n) + unat (len - word_of_nat ?n) \<le> size" unfolding a len(1) using less.prems(2) by simp
    from less.hyps [OF len(2) rd(2) this less.prems(3)]
    have rest: "\<exists>bs s'. sha256_loop oc F (a + word_of_nat ?n) (len - word_of_nat ?n) e fed s1 = (Ok bs, s')" for fed .
    have "add_ovf oc a (word_of_nat ?n) = (Ok (a + word_of_nat ?n) :: (perror, u32) result)"
      by (rule add_ovf_small [OF small])
    with rest show ?thesis
      using rd(1) False by (subst sha256_loop.simps) (simp add: Let_def bind_exec_step bind_exec_lift)
  qed
qed

text \<open>A partition that holds no image is hashed as a whole.\<close>

lemma entry_sha256_whole:
  assumes "ready s" "\<not> entry_is_empty e" "\<not> is_image_type (partition_type e)"
    and "unat (entry_offset e) + unat (entry_len e) \<le> size" "size < 2 ^ 32"
  shows "fst (entry_sha256 oc sha enabled F e s) =
    Ok (sha (mem_read (seen (is_effectively_encrypted enabled e) \<circ> cells s) (unat (entry_offset e)) (unat (entry_len e))))"
proof -
  let ?e = "is_effectively_encrypted enabled e"
  obtain bs s' where l: "sha256_loop oc F (entry_offset e) (entry_len e) ?e [] s = (Ok bs, s')"
    using sha256_loop_total [OF assms(1,4,5)] by blast
  from sha256_loop_ok [OF l] assms(4,5) l assms(2,3) show ?thesis
    by (simp add: entry_sha256_def Let_def sha256_flash_contents_def bind_exec_step ret_def)
qed

end

end
