(* ===== verification/Partition_Guarantees.thy ===== *)
theory Partition_Guarantees
  imports Ota_Updater Partition_Image
begin

text \<open>
  What the partition and OTA code of \<open>esp-bootloader-esp-idf\<close> guarantees on its host flash
  \<open>MockFlash\<close>, the device that its own tests run on. The statements instantiate the lemmas that
  \<open>Flash_Region\<close>, \<open>Ota\<close>, \<open>Ota_Updater\<close> and \<open>Partition_Image\<close> prove for every flash device. On
  \<open>MockFlash\<close> plain and encrypted access coincide and an erased byte is \<open>0xff\<close>.
\<close>

section \<open>Regions\<close>

lemma as_auto_region:
  assumes "as_auto_flash_region oc enabled booted e = Ok a"
  shows "region_offset (auto_region a) = entry_offset e" "region_len (auto_region a) = entry_len e"
    "region_read_only (auto_region a) \<longleftrightarrow> is_read_only e \<or> contains_running_app oc booted e = Ok True"
    "auto_is_encrypted a = is_effectively_encrypted enabled e"
  using assms by (auto simp: as_auto_flash_region_def entry_region_def split: if_splits)

text \<open>A table entry of \<open>n\<close> bytes at \<open>off\<close>, and the region of it, used by the examples.\<close>

definition sample_part :: "u8 \<Rightarrow> u8 \<Rightarrow> u32 \<Rightarrow> u32 \<Rightarrow> PartitionEntry" where
  "sample_part ty sub off n = \<lparr>binary = [0xaa, 0x50, ty, sub] @ u32_to_le_bytes off @ u32_to_le_bytes n @ replicate 20 0\<rparr>"

lemma sample_part_bytes:
  "slice 2 1 (binary (sample_part ty sub off n)) = [ty]"
  "binary (sample_part ty sub off n) ! 2 = ty" "binary (sample_part ty sub off n) ! 3 = sub"
  "slice 4 4 (binary (sample_part ty sub off n)) = u32_to_le_bytes off"
  "slice 8 4 (binary (sample_part ty sub off n)) = u32_to_le_bytes n"
  "slice 28 4 (binary (sample_part ty sub off n)) = [0, 0, 0, 0]"
  by (simp_all add: sample_part_def slice_def numeral_eq_Suc)

lemma u32_zero: "u32_from_le_bytes [0, 0, 0, 0] = 0"
  by (simp add: u32_from_le_bytes_def)

lemma sample_part_fields [simp]:
  "entry_offset (sample_part ty sub off n) = off" "entry_len (sample_part ty sub off n) = n"
  "raw_type (sample_part ty sub off n) = ty" "raw_subtype (sample_part ty sub off n) = sub"
  "\<not> is_read_only (sample_part ty sub off n)" "\<not> is_encrypted (sample_part ty sub off n)"
  "\<not> entry_is_empty (sample_part ty sub off n) \<longleftrightarrow> n \<noteq> 0"
  by (simp_all add: entry_offset_def entry_len_def raw_type_def raw_subtype_def is_read_only_def is_encrypted_def
      entry_flags_def entry_is_empty_def sample_part_bytes u32_zero)

lemma sample_types:
  "partition_type (sample_part 1 2 off n) = Data Nvs" "partition_type (sample_part 1 0 off n) = Data DataOta"
  "partition_type (sample_part 0 0x10 off n) = App Ota0" "partition_type (sample_part 0 0x11 off n) = App Ota1"
  by (simp_all add: partition_type_def Let_def data_try_from_def data_from_repr_def app_try_from_def app_from_repr_def
      app_variants_def known_or_def ok_or_def)

definition sample_region :: "PartitionType \<Rightarrow> u32 \<Rightarrow> u32 \<Rightarrow> bool \<Rightarrow> AutoFlashRegion" where
  "sample_region ty off n ro =
     Plain \<lparr>plain_region = \<lparr>region_offset = off, region_len = n, region_type = ty, region_read_only = ro\<rparr>\<rparr>"

lemma sample_as_auto:
  "as_auto_flash_region oc False None (sample_part ty sub off n) =
     Ok (sample_region (partition_type (sample_part ty sub off n)) off n False)"
  by (simp add: as_auto_flash_region_def entry_region_def contains_running_app_def is_effectively_encrypted_def
      sample_region_def)

lemma sample_region_simps [simp]:
  "region_offset (auto_region (sample_region ty off n ro)) = off"
  "region_len (auto_region (sample_region ty off n ro)) = n"
  "region_type (auto_region (sample_region ty off n ro)) = ty"
  "region_read_only (auto_region (sample_region ty off n ro)) = ro"
  "\<not> auto_is_encrypted (sample_region ty off n ro)"
  by (simp_all add: sample_region_def)

text \<open>C1. Writing or erasing through the region of a sector-aligned partition leaves every byte of the
flash outside that partition unchanged, for every request and whatever the outcome: success, error
or panic. In a build without overflow checks the buffer has to fit behind the partition in the
address space.\<close>

theorem region_access_confined:
  assumes "as_auto_flash_region oc enabled booted e = Ok a"
    and "SECTOR_SIZE dvd unat (entry_offset e)" "length bytes < 2 ^ 32"
    and "oc \<or> unat (entry_offset e) + unat (entry_len e) + length bytes \<le> 2 ^ 32"
  shows "same_outside (unat (entry_offset e)) (unat (entry_len e)) m (snd (auto_write oc (mock_flash oc) a offset bytes m))
    \<and> same_outside (unat (entry_offset e)) (unat (entry_len e)) m (snd (auto_erase oc (mock_flash oc) a from to m))"
proof -
  note a = as_auto_region [OF assms(1)]
  show ?thesis
    using mock.region_write_confined [of oc oc "auto_region a" offset bytes "auto_is_encrypted a" m]
      mock.region_erase_confined [of oc oc "auto_region a" "from" to m] assms(2-4) a(1,2)
    by (simp add: auto_ops) (metis prod.collapse)
qed

theorem region_access_confined_witness:
  "same_outside 0x9000 0x2000 (\<lambda>_. 0xff) (snd (auto_write True (mock_flash True)
      (sample_region (Data Nvs) 0x9000 0x2000 False) 0x1ffc [1, 2, 3, 4, 5, 6, 7, 8] (\<lambda>_. 0xff)))
    \<and> same_outside 0x9000 0x2000 (\<lambda>_. 0xff) (snd (auto_erase True (mock_flash True)
      (sample_region (Data Nvs) 0x9000 0x2000 False) 0x1000 0x3000 (\<lambda>_. 0xff)))"
proof -
  let ?e = "sample_part 1 2 0x9000 0x2000"
  have "as_auto_flash_region True False None ?e = Ok (sample_region (Data Nvs) 0x9000 0x2000 False)"
    by (simp add: sample_as_auto sample_types)
  from region_access_confined [OF this, of "[1, 2, 3, 4, 5, 6, 7, 8]" "\<lambda>_. 0xff" "0x1ffc" "0x1000" "0x3000"]
  show ?thesis by (simp add: SECTOR_SIZE_def)
qed

text \<open>C14. A partition that is flagged read-only, or that contains the running application, is never
modified: every write and every erase through its region leaves the flash unchanged and fails, with
\<open>WriteProtected\<close> or, when adding the partition offset overflows, a panic.\<close>

theorem protected_partition_unchanged:
  assumes "as_auto_flash_region oc enabled booted e = Ok a"
    and "is_read_only e \<or> (\<exists>app. booted = Some app \<and> unat (entry_offset e) + unat (entry_len e) < 2 ^ 32 \<and>
      unat (entry_offset e) \<le> unat app \<and> unat app < unat (entry_offset e) + unat (entry_len e))"
  shows "auto_write oc (mock_flash oc) a offset bytes m \<in> {(Err WriteProtected, m), (Panic, m)}
    \<and> auto_erase oc (mock_flash oc) a from to m \<in> {(Err WriteProtected, m), (Panic, m)}"
proof -
  have "contains_running_app oc booted e = Ok True" if "\<not> is_read_only e"
  proof -
    from assms(2) that obtain app where app: "booted = Some app" "unat (entry_offset e) + unat (entry_len e) < 2 ^ 32"
      "unat (entry_offset e) \<le> unat app" "unat app < unat (entry_offset e) + unat (entry_len e)" by auto
    then show ?thesis
      by (simp add: contains_running_app_def word_le_nat_alt word_less_nat_alt unat_add_small)
  qed
  with as_auto_region(3) [OF assms(1)] have "region_read_only (auto_region a)" by blast
  from mock.region_write_protected [OF this] show ?thesis by (simp add: auto_ops)
qed

theorem protected_partition_unchanged_witness:
  "auto_write True (mock_flash True) (sample_region (App Ota0) 0x10000 0x10000 True) 0 [1, 2, 3, 4] (\<lambda>_. 0xff)
      \<in> {(Err WriteProtected, \<lambda>_. 0xff), (Panic, \<lambda>_. 0xff)}
    \<and> auto_erase True (mock_flash True) (sample_region (App Ota0) 0x10000 0x10000 True) 0 0x1000 (\<lambda>_. 0xff)
      \<in> {(Err WriteProtected, \<lambda>_. 0xff), (Panic, \<lambda>_. 0xff)}"
proof -
  let ?e = "sample_part 0 0x10 0x10000 0x10000"
  have "as_auto_flash_region True False (Some 0x10000) ?e = Ok (sample_region (App Ota0) 0x10000 0x10000 True)"
    by (simp add: as_auto_flash_region_def entry_region_def contains_running_app_def is_effectively_encrypted_def
        sample_region_def sample_types add_ovf_def)
  from protected_partition_unchanged [OF this, of "0" "[1, 2, 3, 4]" "\<lambda>_. 0xff" "0" "0x1000"]
  show ?thesis by simp
qed

text \<open>C15. Erasing sectors of an unprotected partition and then writing aligned bytes into them succeeds,
reading the bytes back returns them, and the flash ends up exactly with the erased sectors filled
with \<open>0xff\<close> and the bytes stored at their place; plain or encrypted.\<close>

theorem erase_write_read:
  assumes "as_auto_flash_region oc enabled booted e = Ok a" "\<not> region_read_only (auto_region a)"
    and "SECTOR_SIZE dvd unat (entry_offset e)" "unat (entry_offset e) + unat (entry_len e) \<le> FLASH_SIZE"
    and "SECTOR_SIZE dvd unat from" "SECTOR_SIZE dvd unat to" "unat to \<le> unat (entry_len e)"
    and "unat from \<le> unat offset" "unat offset + length bytes \<le> unat to" "unat offset < unat to"
    and "write_align (auto_is_encrypted a) dvd unat offset" "write_align (auto_is_encrypted a) dvd length bytes"
  shows "bind_exec (auto_erase oc (mock_flash oc) a from to) (\<lambda>_.
      bind_exec (auto_write oc (mock_flash oc) a offset bytes) (\<lambda>_.
      auto_read oc (mock_flash oc) a offset (length bytes))) m
    = (Ok bytes, mem_write (mem_fill m (unat (entry_offset e) + unat from) (unat to - unat from) 0xff)
        (unat (entry_offset e) + unat offset) bytes)"
proof -
  let ?r = "auto_region a" and ?e = "auto_is_encrypted a" and ?o = "unat (entry_offset e)"
  note a = as_auto_region [OF assms(1)]
  have sz: "FLASH_SIZE < 2 ^ 32" by (simp add: FLASH_SIZE_def BLOCK_SIZE_def)
  have small: "?o + unat to < 2 ^ 32" using assms(4,7) sz by linarith
  have al: "write_align ?e dvd ?o"
    using assms(3) by (rule dvd_trans [rotated]) (simp add: SECTOR_SIZE_def write_align_def WORD_SIZE_def ENCRYPTED_WRITE_SIZE_def)
  have "\<exists>m1. region_erase oc (mock_flash oc) ?r from to m = (Ok (), m1)"
    using mock.region_erase_total [OF TrueI, of ?r "from" to oc oc m] assms a sz by auto
  then obtain m1 where m1: "region_erase oc (mock_flash oc) ?r from to m = (Ok (), m1)" by blast
  have m1_eq: "m1 = mem_fill m (?o + unat from) (unat to - unat from) 0xff"
    using mock.region_erase_erased [OF m1] mock.region_erase_frame [OF m1] assms(3) small a(1)
    by (auto simp: mem_fill_def same_outside_def fun_eq_iff ERASE_BYTE_def)
  obtain m2 where m2: "region_write oc (mock_flash oc) ?r offset bytes ?e m1 = (Ok (), m2)"
    using mock.region_write_total [where r = ?r and offset = offset and bytes = bytes and e = ?e and s = m1] assms a sz al by auto
  have "\<exists>m2. region_write oc (mock_flash oc) ?r offset bytes ?e m1 = (Ok (), m2) \<and> m2 = mem_write m1 (?o + unat offset) bytes"
  proof -
    have er: "m1 x = ERASE_BYTE" if "?o + unat offset \<le> x" "x < ?o + unat offset + length bytes" for x
      using that assms(8,9) by (simp add: m1_eq mem_fill_def ERASE_BYTE_def)
    have len: "length bytes < 2 ^ 32" "?o + unat (entry_len e) + length bytes \<le> 2 ^ 32"
      using assms(4,7,9) sz by (simp_all add: FLASH_SIZE_def BLOCK_SIZE_def)
    from mock.region_write_seen(1,2) [OF m2 len(1)] len(2) er a(1,2) show ?thesis
      using m2 by (auto simp: comp_def intro!: mem_eq_writeI)
  qed
  moreover have "region_read oc (mock_flash oc) ?r offset (length bytes) ?e m2 = (Ok (mem_read m2 (?o + unat offset) (length bytes)), m2)"
    using mock.region_read_total [where r = ?r and offset = offset and n = "length bytes" and e = ?e and s = m2] assms a sz by (auto simp: comp_def)
  ultimately show ?thesis
    using m1 m2 by (auto simp: auto_ops bind_exec_step m1_eq)
qed

theorem erase_write_read_witness:
  "bind_exec (auto_erase True (mock_flash True) (sample_region (Data Nvs) 0x9000 0x2000 False) 0 0x1000) (\<lambda>_.
      bind_exec (auto_write True (mock_flash True) (sample_region (Data Nvs) 0x9000 0x2000 False) 8 [1, 2, 3, 4]) (\<lambda>_.
      auto_read True (mock_flash True) (sample_region (Data Nvs) 0x9000 0x2000 False) 8 4)) (\<lambda>_. 0)
    = (Ok [1, 2, 3, 4], mem_write (mem_fill (\<lambda>_. 0) 0x9000 0x1000 0xff) 0x9008 [1, 2, 3, 4])"
proof -
  let ?e = "sample_part 1 2 0x9000 0x2000"
  have "as_auto_flash_region True False None ?e = Ok (sample_region (Data Nvs) 0x9000 0x2000 False)"
    by (simp add: sample_as_auto sample_types)
  moreover have "length [1, 2, 3, 4 :: u8] = 4" by simp
  ultimately show ?thesis
    using erase_write_read [of True False None ?e _ "0" "0x1000" "8" "[1, 2, 3, 4]" "\<lambda>_. 0"]
    by (simp add: SECTOR_SIZE_def FLASH_SIZE_def BLOCK_SIZE_def write_align_def WORD_SIZE_def del: list.size)
qed

section \<open>OTA data\<close>

lemma ota_new_ok:
  assumes "ota_new a count = Ok ota"
  shows "ota_flash ota = a" "ota_partition_count ota = count" "0 < count" "count \<le> 16"
  using assms by (auto simp: ota_new_def split: if_splits)

text \<open>A blank OTA-data partition at \<open>0xd000\<close>, and one in which the first application is selected.\<close>

definition blank_flash :: mem where
  "blank_flash = (\<lambda>_. 0xff)"

definition sample_ota :: AutoFlashRegion where
  "sample_ota = sample_region (Data DataOta) 0xd000 0x2000 False"

definition selected_flash :: mem where
  "selected_flash = mem_write blank_flash 0xd000 (select_to_bytes
     \<lparr>ota_seq = 1, seq_label = replicate 20 0xff, ota_state = StateNew, entry_crc = 7\<rparr>)"

lemma sample_ota_wf: "ota_data_wf FLASH_SIZE sample_ota"
  by (simp add: ota_data_wf_def sample_ota_def FLASH_SIZE_def BLOCK_SIZE_def SECTOR_SIZE_def)

lemma sample_ota_new: "ota_new sample_ota 2 = Ok \<lparr>ota_flash = sample_ota, ota_partition_count = 2\<rparr>"
  by (simp add: ota_new_def auto_capacity_def auto_partition_type_def region_capacity_def sample_ota_def)

lemma blank_slot: "slot_bytes (\<lambda>_ b. b) a blank_flash offset = replicate 32 0xff"
  by (simp add: slot_bytes_def blank_flash_def mem_read_def map_replicate_const comp_def)

lemma blank_valid: "slots_valid crc (\<lambda>_ b. b) a blank_flash" "selected (\<lambda>_ b. b) a blank_flash = None"
  by (simp_all add: slots_valid_def blank_slot selected_def slot_seq_def selected_seq_def UNINITIALIZED_SEQUENCE_def)

lemma selected_slots:
  "slot_bytes (\<lambda>_ b. b) sample_ota selected_flash SLOT0_DATA_OFFSET = select_to_bytes
     \<lparr>ota_seq = 1, seq_label = replicate 20 0xff, ota_state = StateNew, entry_crc = 7\<rparr>"
  "slot_bytes (\<lambda>_ b. b) sample_ota selected_flash SLOT1_DATA_OFFSET = replicate 32 0xff"
proof -
  let ?e = "\<lparr>ota_seq = 1, seq_label = replicate 20 0xff, ota_state = StateNew, entry_crc = 7\<rparr>"
  have wf: "wf_select ?e" by (simp add: wf_select_def)
  then show "slot_bytes (\<lambda>_ b. b) sample_ota selected_flash SLOT0_DATA_OFFSET = select_to_bytes ?e"
    by (simp add: slot_bytes_def selected_flash_def sample_ota_def SLOT0_DATA_OFFSET_def comp_def)
  have "slot_bytes (\<lambda>_ b. b) sample_ota selected_flash SLOT1_DATA_OFFSET = slot_bytes (\<lambda>_ b. b) sample_ota blank_flash SLOT1_DATA_OFFSET"
    using wf by (simp add: slot_bytes_def selected_flash_def sample_ota_def SLOT1_DATA_OFFSET_def comp_def mem_read_write_apart)
  then show "slot_bytes (\<lambda>_ b. b) sample_ota selected_flash SLOT1_DATA_OFFSET = replicate 32 0xff"
    by (simp add: blank_slot)
qed

lemma selected_valid:
  "slots_valid (\<lambda>_. 7) (\<lambda>_ b. b) sample_ota selected_flash" "selected (\<lambda>_ b. b) sample_ota selected_flash = Some 1"
  by (simp_all add: slots_valid_def selected_slots select_is_valid_to_bytes wf_select_def selected_def slot_seq_def
      selected_seq_def UNINITIALIZED_SEQUENCE_def)

text \<open>C4. Selecting an OTA application succeeds and makes it the current one. Both select entries stay
valid, the entry that was current keeps its bytes, and nothing outside the OTA-data partition changes.
There has to be room for a higher sequence number, and from the factory application the last OTA
application must not be selected.\<close>

theorem ota_select_becomes_current:
  assumes "ota_new a count = Ok ota" "ota_data_wf FLASH_SIZE a" "slots_valid crc (\<lambda>_ b. b) a m"
    and "app \<noteq> Factory" "app \<noteq> Test" "ota_index app < count" "seq_room count (selected (\<lambda>_ b. b) a m) app"
  shows "\<exists>m'. set_current_app_partition oc crc (mock_flash oc) ota app m = (Ok (), m')
    \<and> current_app_partition oc crc (mock_flash oc) ota m' = (Ok app, m')
    \<and> slots_valid crc (\<lambda>_ b. b) a m'
    \<and> (slot_of (\<lambda>_ b. b) a m \<noteq> SlotNone \<longrightarrow>
        slot_bytes (\<lambda>_ b. b) a m' (slot_offset (slot_of (\<lambda>_ b. b) a m))
        = slot_bytes (\<lambda>_ b. b) a m (slot_offset (slot_of (\<lambda>_ b. b) a m)))
    \<and> same_outside (unat (region_offset (auto_region a))) 0x2000 m m'"
proof -
  note o = ota_new_ok [OF assms(1)]
  show ?thesis
  proof (rule mock.set_current_app_partition_total [OF TrueI, of ota crc m app oc oc])
    fix m' assume m': "set_current_app_partition oc crc (mock_flash oc) ota app m = (Ok (), m')"
      "slots_valid crc (\<lambda>_ b. b) (ota_flash ota) m'"
      "app_of_selected oc (ota_partition_count ota) (selected (\<lambda>_ b. b) (ota_flash ota) m') = Ok app"
      "slot_of (\<lambda>_ b. b) (ota_flash ota) m \<noteq> SlotNone \<longrightarrow>
        slot_bytes (\<lambda>_ b. b) (ota_flash ota) m' (slot_offset (slot_of (\<lambda>_ b. b) (ota_flash ota) m))
        = slot_bytes (\<lambda>_ b. b) (ota_flash ota) m (slot_offset (slot_of (\<lambda>_ b. b) (ota_flash ota) m))"
      "same_outside (unat (region_offset (auto_region (ota_flash ota)))) 0x2000 m m'"
    have "current_app_partition oc crc (mock_flash oc) ota m' = (Ok app, m')"
      using mock.current_app_partition_total [OF TrueI, of ota crc m' oc oc] m'(2,3) assms(2) o(1) by metis
    with m' show ?thesis by (auto simp: o)
  qed (use assms o in auto)
qed

theorem ota_select_becomes_current_witness:
  "\<exists>m'. set_current_app_partition True (\<lambda>_. 7) (mock_flash True) \<lparr>ota_flash = sample_ota, ota_partition_count = 2\<rparr> Ota1 selected_flash
      = (Ok (), m')
    \<and> current_app_partition True (\<lambda>_. 7) (mock_flash True) \<lparr>ota_flash = sample_ota, ota_partition_count = 2\<rparr> m' = (Ok Ota1, m')"
proof -
  have "ota_index Ota1 < 2" "seq_room 2 (Some 1) Ota1"
    by (simp_all add: ota_index_def seq_room_def UNINITIALIZED_SEQUENCE_def)
  with ota_select_becomes_current [OF sample_ota_new sample_ota_wf selected_valid(1), of Ota1 True] selected_valid(2)
  show ?thesis by auto
qed

text \<open>The image state set for the selected application is the one read back, and setting it leaves
the selection as it was.\<close>

theorem ota_state_round_trip:
  assumes "ota_new a count = Ok ota" "ota_data_wf FLASH_SIZE a" "slots_valid crc (\<lambda>_ b. b) a m"
    and "selected (\<lambda>_ b. b) a m = Some q"
  shows "\<exists>m'. set_current_ota_state oc crc (mock_flash oc) ota state m = (Ok (), m')
    \<and> fst (current_ota_state oc crc (mock_flash oc) ota m') = Ok state
    \<and> current_app_partition oc crc (mock_flash oc) ota m' = (fst (current_app_partition oc crc (mock_flash oc) ota m), m')
    \<and> slots_valid crc (\<lambda>_ b. b) a m'
    \<and> same_outside (unat (region_offset (auto_region a))) 0x2000 m m'"
proof -
  note o = ota_new_ok [OF assms(1)]
  have cur: "current_app_partition oc crc (mock_flash oc) ota t =
      (app_of_selected oc count (selected (\<lambda>_ b. b) a t), t)" if "slots_valid crc (\<lambda>_ b. b) a t" for t
    using mock.current_app_partition_total [OF TrueI, of ota crc t oc oc] that assms(2) o(1,2) by metis
  show ?thesis
  proof (rule mock.set_current_ota_state_total [OF TrueI, of ota crc m q oc oc state])
    fix m' t assume m': "set_current_ota_state oc crc (mock_flash oc) ota state m = (Ok (), m')"
      "current_ota_state oc crc (mock_flash oc) ota m' = (Ok state, t)"
      "selected (\<lambda>_ b. b) (ota_flash ota) m' = Some q" "slots_valid crc (\<lambda>_ b. b) (ota_flash ota) m'"
      "same_outside (unat (region_offset (auto_region (ota_flash ota)))) 0x2000 m m'"
    then show ?thesis using cur [of m'] cur [OF assms(3)] assms(4) by (auto simp: o)
  qed (use assms o in auto)
qed

theorem ota_state_round_trip_witness:
  "\<exists>m'. set_current_ota_state True (\<lambda>_. 7) (mock_flash True) \<lparr>ota_flash = sample_ota, ota_partition_count = 2\<rparr> StateValid selected_flash
      = (Ok (), m')
    \<and> fst (current_ota_state True (\<lambda>_. 7) (mock_flash True) \<lparr>ota_flash = sample_ota, ota_partition_count = 2\<rparr> m') = Ok StateValid"
  using ota_state_round_trip [OF sample_ota_new sample_ota_wf selected_valid, of True StateValid] by auto

text \<open>Selecting the factory application from any state of the OTA-data partition, readable or not,
makes it the current one; afterwards there is no image state to read or to set.\<close>

theorem ota_factory_reset:
  assumes "ota_new a count = Ok ota" "ota_data_wf FLASH_SIZE a"
  shows "\<exists>m'. set_current_app_partition oc crc (mock_flash oc) ota Factory m = (Ok (), m')
    \<and> current_app_partition oc crc (mock_flash oc) ota m' = (Ok Factory, m')
    \<and> fst (current_ota_state oc crc (mock_flash oc) ota m') = Err InvalidState
    \<and> fst (set_current_ota_state oc crc (mock_flash oc) ota state m') = Err InvalidState"
proof -
  note o = ota_new_ok [OF assms(1)]
  show ?thesis
  proof (rule mock.set_factory_total [OF TrueI, of ota oc crc oc m])
    fix m' assume m': "set_current_app_partition oc crc (mock_flash oc) ota Factory m = (Ok (), m')"
      "slots_valid crc (\<lambda>_ b. b) (ota_flash ota) m'" "selected (\<lambda>_ b. b) (ota_flash ota) m' = None"
    have "current_app_partition oc crc (mock_flash oc) ota m' = (Ok Factory, m')"
      using mock.current_app_partition_total [OF TrueI, of ota crc m' oc oc] m'(2,3) assms(2) o(1)
      by (metis app_of_selected_def option.case(1))
    moreover have "get_slot_seq oc crc (mock_flash oc) ota m' = (Ok (UNINITIALIZED_SEQUENCE, UNINITIALIZED_SEQUENCE), m')"
      using mock.get_slot_seq_total [OF TrueI, of ota crc m' oc oc] m'(2,3) assms(2) o(1)
      by (auto simp: selected_def selected_seq_def split: if_splits)
    ultimately show ?thesis
      using m'(1) by (simp add: current_ota_state_def set_current_ota_state_def bind_exec_step fail_def)
  qed (use assms o in auto)
qed

theorem ota_factory_reset_witness:
  "\<exists>m'. set_current_app_partition True (\<lambda>_. 7) (mock_flash True) \<lparr>ota_flash = sample_ota, ota_partition_count = 2\<rparr> Factory (\<lambda>_. 0)
      = (Ok (), m')
    \<and> current_app_partition True (\<lambda>_. 7) (mock_flash True) \<lparr>ota_flash = sample_ota, ota_partition_count = 2\<rparr> m' = (Ok Factory, m')"
  using ota_factory_reset [OF sample_ota_new sample_ota_wf, of True "\<lambda>_. 7" "\<lambda>_. 0"] by auto



section \<open>The updater\<close>

text \<open>Creating the updater succeeds exactly if the partition table can be read, contains an OTA-data
partition and at least two OTA application partitions, which it counts; any other table is \<open>Invalid\<close>.\<close>

theorem updater_new_characterised:
  "updater_new validation md5 enabled table_offset F m =
    (case read_partition_table validation md5 enabled table_offset F PARTITION_TABLE_MAX_LEN m of
       (Ok pt, m') \<Rightarrow>
         let apps = filter (\<lambda>p. \<exists>t. partition_type p = App t \<and> t \<noteq> Factory \<and> t \<noteq> Test) (table_iter pt) in
         if (\<exists>p\<in>set (table_iter pt). partition_type p = Data DataOta) \<and> 2 \<le> length apps
         then (Ok \<lparr>upd_pt = pt, upd_ota_count = length apps\<rparr>, m') else (Err Invalid, m')
     | (Err e, m') \<Rightarrow> (Err e, m')
     | (Panic, m') \<Rightarrow> (Panic, m'))"
  unfolding updater_new_def bind_exec_def
  by (auto simp: fold_count_part fail_def ret_def Let_def split: prod.splits result.splits)

definition sample_updater :: OtaUpdater where
  "sample_updater = \<lparr>upd_pt = \<lparr>table_binary = map binary
     [sample_part 1 0 0xd000 0x2000, sample_part 0 0x10 0x10000 0x10000, sample_part 0 0x11 0x20000 0x10000],
     table_entries = 3\<rparr>, upd_ota_count = 2\<rparr>"

lemma sample_updater_iter: "table_iter (upd_pt sample_updater) =
    [sample_part 1 0 0xd000 0x2000, sample_part 0 0x10 0x10000 0x10000, sample_part 0 0x11 0x20000 0x10000]"
  by (simp add: table_iter_eq sample_updater_def PartitionEntry.make_def)

lemma sample_updater_data: "ota_data True False (Some 0x10000) sample_updater = Ok \<lparr>ota_flash = sample_ota, ota_partition_count = 2\<rparr>"
  by (simp add: ota_data_def find_partition_first sample_updater_iter sample_types as_auto_flash_region_def
      entry_region_def contains_running_app_def is_effectively_encrypted_def add_ovf_def word_less_nat_alt word_le_nat_alt
      sample_ota_new [unfolded sample_ota_def sample_region_def] sample_ota_def sample_region_def sample_updater_def [THEN arg_cong, of upd_ota_count])

text \<open>C6. The next OTA application is never the booted one, is inside the table's OTA applications, and
finding it does not touch the flash. Activating it makes it the selected application, provided that
there is room for a higher sequence number and that it is not the last one chosen over the factory
application.\<close>

theorem next_application_not_booted:
  assumes "ota_data oc enabled booted u = Ok ota" "ota_data_wf FLASH_SIZE (ota_flash ota)"
    and "slots_valid crc (\<lambda>_ b. b) (ota_flash ota) m" "2 \<le> upd_ota_count u"
    and "selected (\<lambda>_ b. b) (ota_flash ota) m \<noteq> Some 0"
  shows "\<exists>app. next_ota_part oc crc enabled False booted (mock_flash oc) u m = (Ok app, m)
    \<and> (\<forall>part. booted_partition False booted (upd_pt u) = Ok (Some part) \<longrightarrow> partition_type part \<noteq> App app)
    \<and> (seq_room (upd_ota_count u) (selected (\<lambda>_ b. b) (ota_flash ota) m) app \<longrightarrow>
        (\<exists>m'. activate_next_partition oc crc enabled False booted (mock_flash oc) u m = (Ok (), m')
          \<and> fst (selected_partition oc crc enabled booted (mock_flash oc) u m') = Ok app))"
  by (rule mock.activate_next_total [OF TrueI assms, of oc]) (metis fst_conv)

theorem next_application_not_booted_witness:
  "\<exists>app. next_ota_part True (\<lambda>_. 7) False False (Some 0x10000) (mock_flash True) sample_updater selected_flash = (Ok app, selected_flash)
    \<and> app \<noteq> Ota0
    \<and> (\<exists>m'. activate_next_partition True (\<lambda>_. 7) False False (Some 0x10000) (mock_flash True) sample_updater selected_flash = (Ok (), m')
          \<and> fst (selected_partition True (\<lambda>_. 7) False (Some 0x10000) (mock_flash True) sample_updater m') = Ok app)"
proof -
  have bp: "booted_partition False (Some 0x10000) (upd_pt sample_updater) = Ok (Some (sample_part 0 0x10 0x10000 0x10000))"
    by (simp add: booted_partition_first sample_updater_iter)
  have room: "seq_room 2 (Some 1) app" for app by (simp add: seq_room_def UNINITIALIZED_SEQUENCE_def)
  have count: "upd_ota_count sample_updater = 2" by (simp add: sample_updater_def)
  from next_application_not_booted [OF sample_updater_data, of "\<lambda>_. 7" selected_flash]
  show ?thesis
    using bp room count sample_ota_wf selected_valid sample_types(3) by auto
qed

section \<open>Hashing\<close>

text \<open>C22. A successful \<open>sha256\<close> of a partition is the SHA-256 of a prefix of the partition's contents,
and nothing outside the partition enters it; a partition that holds no image is hashed as a whole.\<close>

theorem partition_sha256_of_contents:
  assumes "unat (entry_len e) \<le> 2 ^ 27" "unat (entry_offset e) + unat (entry_len e) \<le> 2 ^ 32"
  shows "(case fst (entry_sha256 oc sha enabled (mock_flash oc) e m) of
      Ok d \<Rightarrow> \<exists>n \<le> unat (entry_len e). d = sha (mem_read m (unat (entry_offset e)) n)
    | _ \<Rightarrow> True)
    \<and> (unat (entry_offset e) + unat (entry_len e) \<le> FLASH_SIZE \<and> \<not> entry_is_empty e \<and> \<not> is_image_type (partition_type e) \<longrightarrow>
        fst (entry_sha256 oc sha enabled (mock_flash oc) e m) = Ok (sha (mem_read m (unat (entry_offset e)) (unat (entry_len e)))))"
proof -
  have sz: "FLASH_SIZE < 2 ^ 32" by (simp add: FLASH_SIZE_def BLOCK_SIZE_def)
  obtain r m' where r: "entry_sha256 oc sha enabled (mock_flash oc) e m = (r, m')" by force
  show ?thesis
    using mock.entry_sha256_prefix [of oc sha enabled oc e m _ m'] mock.entry_sha256_whole [OF TrueI, of e oc sha enabled oc m]
      assms r sz by (auto simp: comp_def split: result.splits)
qed

theorem partition_sha256_of_contents_witness:
  "fst (entry_sha256 True id False (mock_flash True) (sample_part 1 2 0x9000 16) blank_flash)
    = Ok (mem_read blank_flash 0x9000 16)"
  using partition_sha256_of_contents [where e = "sample_part 1 2 0x9000 16" and sha = id and oc = True and enabled = False and m = blank_flash]
  by (simp add: sample_types is_image_type_def FLASH_SIZE_def BLOCK_SIZE_def)

end
