(* ===== verification/Storage_Rom.thy ===== *)
theory Storage_Rom
  imports Sector_Erase
begin

text \<open>
  The chip interface of \<open>esp-storage\<close> (\<open>chip_specific\<close>): the functions of \<open>hardware.rs\<close> that wrap the
  mask ROM, as a record of operations, and their emulation \<open>stub.rs\<close>. The locale \<open>flash_rom\<close> is what
  the driver relies on, \<open>reliable_flash_rom\<close> adds that well-formed calls succeed; the emulation
  satisfies both.
\<close>

section \<open>The interface\<close>

text \<open>
  A buffer is passed as its word alignment and its contents or length. Every operation returns the
  \<open>i32\<close> status code; \<open>chip_read\<close> also returns what it stored in the buffer.
\<close>

record ('m, 'e) chip =
  chip_read :: "u32 \<Rightarrow> bool \<Rightarrow> u32 \<Rightarrow> ('m, 'e, int \<times> u8 list) exec"
  chip_unlock :: "('m, 'e, int) exec"
  chip_erase_sector :: "u32 \<Rightarrow> ('m, 'e, int) exec"
  chip_erase_block :: "u32 \<Rightarrow> ('m, 'e, int) exec"
  chip_write :: "u32 \<Rightarrow> bool \<Rightarrow> u8 list \<Rightarrow> ('m, 'e, int) exec"
  chip_write_encrypted :: "u32 \<Rightarrow> bool \<Rightarrow> u8 list \<Rightarrow> ('m, 'e, int) exec"
  chip_read_encrypted :: "u32 \<Rightarrow> nat \<Rightarrow> ('m, 'e, u8 list) exec"

definition chip_program :: "('m, 'e) chip \<Rightarrow> bool \<Rightarrow> u32 \<Rightarrow> bool \<Rightarrow> u8 list \<Rightarrow> ('m, 'e, int) exec" where
  "chip_program R encrypted = (if encrypted then chip_write_encrypted R else chip_write R)"

text \<open>
  \<open>seen\<close> is what a plain or a decrypting read returns for a cell. A status other than 0 promises
  nothing but the frame. A decrypting write reads back if the cells it programs were erased.
\<close>

locale flash_rom =
  fixes R :: "('m, 'e) chip"
    and cells :: "'m \<Rightarrow> nat \<Rightarrow> 'c"
    and seen :: "bool \<Rightarrow> 'c \<Rightarrow> u8"
    and erased :: "'c \<Rightarrow> bool"
    and size :: nat
  assumes rom_read_frame: "chip_read R a al n m = (r, m') \<Longrightarrow> cells m' = cells m"
    and rom_read_ok: "chip_read R a al n m = (Ok (0, bs), m') \<Longrightarrow>
      bs = mem_read (seen False \<circ> cells m) (unat a) (unat n)"
    and rom_unlock_frame: "chip_unlock R m = (q, m') \<Longrightarrow> cells m' = cells m"
    and rom_sector_frame: "chip_erase_sector R k m = (q, m') \<Longrightarrow>
      same_outside (unat k * SECTOR_SIZE) SECTOR_SIZE (cells m) (cells m')"
    and rom_sector_ok: "chip_erase_sector R k m = (Ok 0, m') \<Longrightarrow> unat k * SECTOR_SIZE \<le> x \<Longrightarrow>
      x < unat k * SECTOR_SIZE + SECTOR_SIZE \<Longrightarrow> erased (cells m' x)"
    and rom_block_frame: "chip_erase_block R k m = (q, m') \<Longrightarrow>
      same_outside (unat k * BLOCK_SIZE) BLOCK_SIZE (cells m) (cells m')"
    and rom_block_ok: "chip_erase_block R k m = (Ok 0, m') \<Longrightarrow> unat k * BLOCK_SIZE \<le> x \<Longrightarrow>
      x < unat k * BLOCK_SIZE + BLOCK_SIZE \<Longrightarrow> erased (cells m' x)"
    and rom_write_frame: "chip_program R e a al bs m = (q, m') \<Longrightarrow>
      same_outside (unat a) (length bs) (cells m) (cells m')"
    and rom_write_ok: "chip_program R e a al bs m = (Ok 0, m') \<Longrightarrow> length bs < 2 ^ 32 \<Longrightarrow>
      (\<And>x. unat a \<le> x \<Longrightarrow> x < unat a + length bs \<Longrightarrow> erased (cells m x)) \<Longrightarrow>
      mem_read (seen e \<circ> cells m') (unat a) (length bs) = bs"
    and rom_read_encrypted_frame: "chip_read_encrypted R a cnt m = (p, m') \<Longrightarrow> cells m' = cells m"
    and rom_read_encrypted_ok: "chip_read_encrypted R a cnt m = (Ok bs, m') \<Longrightarrow>
      bs = mem_read (seen True \<circ> cells m) (unat a) cnt"

text \<open>\<open>writable\<close> holds once the chip has been unlocked.\<close>

locale reliable_flash_rom = flash_rom R cells seen erased size
  for R :: "('m, 'e) chip" and cells :: "'m \<Rightarrow> nat \<Rightarrow> 'c" and seen :: "bool \<Rightarrow> 'c \<Rightarrow> u8"
    and erased :: "'c \<Rightarrow> bool" and size :: nat +
  fixes writable :: "'m \<Rightarrow> bool"
  assumes rom_read_total: "4 dvd unat a \<Longrightarrow> 4 dvd unat n \<Longrightarrow> unat n \<le> SECTOR_SIZE \<Longrightarrow> unat a + unat n \<le> size \<Longrightarrow>
      \<exists>bs m'. chip_read R a True n m = (Ok (0, bs), m') \<and> (writable m \<longrightarrow> writable m')"
    and rom_unlock_total: "\<exists>m'. chip_unlock R m = (Ok 0, m') \<and> writable m'"
    and rom_sector_total: "writable m \<Longrightarrow> unat k * SECTOR_SIZE + SECTOR_SIZE \<le> size \<Longrightarrow>
      \<exists>m'. chip_erase_sector R k m = (Ok 0, m') \<and> writable m'"
    and rom_block_total: "writable m \<Longrightarrow> unat k * BLOCK_SIZE + BLOCK_SIZE \<le> size \<Longrightarrow>
      \<exists>m'. chip_erase_block R k m = (Ok 0, m') \<and> writable m'"
    and rom_write_total: "writable m \<Longrightarrow> (if e then 16 else 4) dvd unat a \<Longrightarrow>
      (if e then 16 else 4) dvd length bs \<Longrightarrow> length bs \<le> SECTOR_SIZE \<Longrightarrow> unat a + length bs \<le> size \<Longrightarrow>
      \<exists>m'. chip_program R e a True bs m = (Ok 0, m') \<and> writable m'"
    and rom_read_encrypted_total: "unat a + cnt \<le> size \<Longrightarrow>
      \<exists>bs m'. chip_read_encrypted R a cnt m = (Ok bs, m') \<and> (writable m \<longrightarrow> writable m')"
    and size_u32: "size < 2 ^ 32"

section \<open>The emulation\<close>

definition SUCCESS_CODE :: int where
  "SUCCESS_CODE = 0"

definition ERROR_CODE :: int where
  "ERROR_CODE = 1"

definition NUM_BLOCKS :: nat where
  "NUM_BLOCKS = 4"

definition STUB_FLASH_SIZE :: nat where
  "STUB_FLASH_SIZE = BLOCK_SIZE * NUM_BLOCKS"

definition NUM_SECTORS :: nat where
  "NUM_SECTORS = STUB_FLASH_SIZE div SECTOR_SIZE"

record stub =
  FLASH_LOCK :: bool
  FLASH_DATA :: mem

text \<open>\<open>aligned\<close> tells whether the data pointer is a multiple of \<open>ALIGN\<close>.\<close>

definition stub_check ::
  "bool \<Rightarrow> nat \<Rightarrow> nat \<Rightarrow> nat \<Rightarrow> u32 \<Rightarrow> u32 \<Rightarrow> bool \<Rightarrow> bool \<Rightarrow> (stub, 'e, bool) exec"
where
  "stub_check oc ALIGN SIZE MAX_LEN offset length' aligned is_write =
    (if unat offset mod ALIGN > 0 then ret False
     else if unat length' mod ALIGN > 0 then ret False
     else if unat offset > SIZE then ret False
     else bind_exec (lift (add_ovf oc offset length')) (\<lambda>end.
       if unat end > SIZE then ret False
       else if unat length' > MAX_LEN then ret False
       else if \<not> aligned then ret False
       else (\<lambda>m. (Ok (\<not> (is_write \<and> FLASH_LOCK m)), m))))"

definition stub_read :: "bool \<Rightarrow> u32 \<Rightarrow> bool \<Rightarrow> u32 \<Rightarrow> (stub, 'e, int \<times> u8 list) exec" where
  "stub_read oc src_addr aligned len =
     bind_exec (stub_check oc 4 STUB_FLASH_SIZE SECTOR_SIZE src_addr len aligned False) (\<lambda>ok.
       if ok then (\<lambda>m. (Ok (SUCCESS_CODE, mem_read (FLASH_DATA m) (unat src_addr) (unat len)), m))
       else ret (ERROR_CODE, []))"

definition stub_unlock :: "(stub, 'e, int) exec" where
  "stub_unlock m = (Ok SUCCESS_CODE, m\<lparr>FLASH_LOCK := False\<rparr>)"

definition stub_erase :: "bool \<Rightarrow> nat \<Rightarrow> nat \<Rightarrow> u32 \<Rightarrow> (stub, 'e, int) exec" where
  "stub_erase oc num unit_size number =
     bind_exec (stub_check oc 1 num 1 number 1 True True) (\<lambda>ok.
       if ok then (\<lambda>m. (Ok SUCCESS_CODE,
         m\<lparr>FLASH_DATA := mem_fill (FLASH_DATA m) (unat number * unit_size) unit_size 0xff\<rparr>))
       else ret ERROR_CODE)"

definition stub_erase_sector :: "bool \<Rightarrow> u32 \<Rightarrow> (stub, 'e, int) exec" where
  "stub_erase_sector oc sector_number = stub_erase oc NUM_SECTORS SECTOR_SIZE sector_number"

definition stub_erase_block :: "bool \<Rightarrow> u32 \<Rightarrow> (stub, 'e, int) exec" where
  "stub_erase_block oc block_number = stub_erase oc NUM_BLOCKS BLOCK_SIZE block_number"

definition stub_write :: "bool \<Rightarrow> u32 \<Rightarrow> bool \<Rightarrow> u8 list \<Rightarrow> (stub, 'e, int) exec" where
  "stub_write oc dest_addr aligned data =
     bind_exec (stub_check oc 4 STUB_FLASH_SIZE SECTOR_SIZE dest_addr (word_of_nat (length data)) aligned True) (\<lambda>ok.
       if ok then (\<lambda>m. (Ok SUCCESS_CODE,
         m\<lparr>FLASH_DATA := mem_and (FLASH_DATA m) (unat dest_addr) (take (unat (word_of_nat (length data) :: u32)) data)\<rparr>))
       else ret ERROR_CODE)"

definition stub_read_encrypted :: "'e \<Rightarrow> u32 \<Rightarrow> nat \<Rightarrow> (stub, 'e, u8 list) exec" where
  "stub_read_encrypted out_of_bounds offset n =
    (if unat offset + n > STUB_FLASH_SIZE then fail out_of_bounds
     else (\<lambda>m. (Ok (mem_read (FLASH_DATA m) (unat offset) n), m)))"

text \<open>\<open>out_of_bounds\<close> is \<open>FlashStorageError::OutOfBounds\<close>.\<close>

definition stub_chip :: "bool \<Rightarrow> 'e \<Rightarrow> (stub, 'e) chip" where
  "stub_chip oc out_of_bounds = \<lparr>chip_read = stub_read oc, chip_unlock = stub_unlock,
     chip_erase_sector = stub_erase_sector oc, chip_erase_block = stub_erase_block oc,
     chip_write = stub_write oc, chip_write_encrypted = stub_write oc,
     chip_read_encrypted = stub_read_encrypted out_of_bounds\<rparr>"

lemma stub_check_state: "stub_check oc A S M a n al w m = (r, m') \<Longrightarrow> m' = m"
  by (auto simp: stub_check_def exec_simps add_ovf_def split: if_splits)

lemma stub_check_True:
  assumes "stub_check oc A S M a n al w m = (Ok True, m')" "S + M < 2 ^ 32"
  shows "m' = m" "unat a + unat n \<le> S" "w \<longrightarrow> \<not> FLASH_LOCK m"
proof -
  show "m' = m" using assms(1) by (rule stub_check_state)
  from assms(1) have a: "unat a \<le> S" "unat n \<le> M" "unat (a + n) \<le> S" "w \<longrightarrow> \<not> FLASH_LOCK m"
    by (auto simp: stub_check_def exec_simps add_ovf_def split: if_splits)
  then have "unat (a + n) = unat a + unat n" using assms(2) by (intro unat_add_small) simp
  with a show "unat a + unat n \<le> S" "w \<longrightarrow> \<not> FLASH_LOCK m" by auto
qed

lemma stub_check_total:
  assumes "A dvd unat a" "A dvd unat n" "unat a + unat n \<le> S" "S < 2 ^ 32" "unat n \<le> M" "al" "w \<longrightarrow> \<not> FLASH_LOCK m"
  shows "stub_check oc A S M a n al w m = (Ok True, m)"
proof -
  have "unat a + unat n < 2 ^ LENGTH(32)" using assms(3,4) by simp
  from add_ovf_small [OF this] unat_add_small [OF this] assms show ?thesis
    by (auto simp: stub_check_def exec_simps mod_eq_0_iff_dvd)
qed

lemma stub_sizes: "STUB_FLASH_SIZE = 262144" "NUM_SECTORS = 64" "NUM_BLOCKS = 4"
  by (simp_all add: STUB_FLASH_SIZE_def NUM_SECTORS_def NUM_BLOCKS_def BLOCK_SIZE_def SECTOR_SIZE_def)

lemma stub_read_cases:
  fixes r :: "('e, int \<times> u8 list) result"
  assumes "stub_read oc a al n m = (r, m')"
  shows "m' = m" "r = Ok (0, bs) \<Longrightarrow> bs = mem_read (FLASH_DATA m) (unat a) (unat n)"
proof -
  obtain c :: "('e, bool) result" and m1 where c: "stub_check oc 4 STUB_FLASH_SIZE SECTOR_SIZE a n al False m = (c, m1)" by force
  then have "m1 = m" by (rule stub_check_state)
  with c assms show "m' = m" "r = Ok (0, bs) \<Longrightarrow> bs = mem_read (FLASH_DATA m) (unat a) (unat n)"
    by (cases c; auto simp: stub_read_def exec_simps SUCCESS_CODE_def ERROR_CODE_def split: if_splits)+
qed

lemma stub_erase_cases:
  fixes r :: "('e, int) result"
  assumes "stub_erase oc num sz k m = (r, m')" "num + 1 < 2 ^ 32"
  obtains "m' = m" "r \<noteq> Ok 0"
  | "r = Ok 0" "m' = m\<lparr>FLASH_DATA := mem_fill (FLASH_DATA m) (unat k * sz) sz 0xff\<rparr>" "unat k < num"
proof -
  obtain c :: "('e, bool) result" and m1 where c: "stub_check oc 1 num 1 k 1 True True m = (c, m1)" by force
  then have m1: "m1 = m" by (rule stub_check_state)
  show thesis
  proof (cases "c = Ok True")
    case True
    with c m1 have c': "stub_check oc 1 num 1 k 1 True True m = (Ok True :: ('e, bool) result, m)" by simp
    then show thesis
      using assms(1) that(2) stub_check_True(2) [OF c' assms(2)]
      by (auto simp: stub_erase_def exec_simps SUCCESS_CODE_def)
  next
    case False
    with c m1 assms that show thesis
      by (cases c) (auto simp: stub_erase_def exec_simps ERROR_CODE_def)
  qed
qed

lemma stub_write_cases:
  fixes r :: "('e, int) result"
  assumes "stub_write oc a al bs m = (r, m')"
  obtains "m' = m" "r \<noteq> Ok 0"
  | n where "r = Ok 0" "m' = m\<lparr>FLASH_DATA := mem_and (FLASH_DATA m) (unat a) (take n bs)\<rparr>"
     "n = unat (word_of_nat (length bs) :: u32)" "unat a + n \<le> STUB_FLASH_SIZE"
proof -
  let ?n = "word_of_nat (length bs) :: u32"
  obtain c :: "('e, bool) result" and m1 where c: "stub_check oc 4 STUB_FLASH_SIZE SECTOR_SIZE a ?n al True m = (c, m1)" by force
  then have m1: "m1 = m" by (rule stub_check_state)
  have lim: "STUB_FLASH_SIZE + SECTOR_SIZE < 2 ^ 32" by (simp add: stub_sizes SECTOR_SIZE_def)
  show thesis
  proof (cases "c = Ok True")
    case True
    with c m1 have c': "stub_check oc 4 STUB_FLASH_SIZE SECTOR_SIZE a ?n al True m = (Ok True :: ('e, bool) result, m)" by simp
    then show thesis
      using assms that(2) [of "unat ?n"] stub_check_True(2) [OF c' lim]
      by (auto simp: stub_write_def exec_simps SUCCESS_CODE_def)
  next
    case False
    with c m1 assms that(1) show thesis
      by (cases c) (auto simp: stub_write_def exec_simps ERROR_CODE_def)
  qed
qed

lemma stub_program: "chip_program (stub_chip oc out_of_bounds) e = stub_write oc"
  by (simp add: chip_program_def stub_chip_def)

interpretation stub_rom: reliable_flash_rom "stub_chip oc out_of_bounds" FLASH_DATA "\<lambda>_ b. b"
    "\<lambda>b. b = 0xff" STUB_FLASH_SIZE "\<lambda>m. \<not> FLASH_LOCK m"
proof unfold_locales
  fix a al n m r m'
  assume "chip_read (stub_chip oc out_of_bounds) a al n m = (r, m')"
  then show "FLASH_DATA m' = FLASH_DATA m"
    by (auto simp: stub_chip_def dest: stub_read_cases(1))
next
  fix a al n m bs m'
  assume "chip_read (stub_chip oc out_of_bounds) a al n m = (Ok (0, bs), m')"
  then show "bs = mem_read ((\<lambda>b. b) \<circ> FLASH_DATA m) (unat a) (unat n)"
    by (auto simp: stub_chip_def comp_def dest: stub_read_cases(2))
next
  fix m q m'
  assume "chip_unlock (stub_chip oc out_of_bounds) m = (q, m')"
  then show "FLASH_DATA m' = FLASH_DATA m" by (auto simp: stub_chip_def stub_unlock_def)
next
  fix k m q m'
  assume "chip_erase_sector (stub_chip oc out_of_bounds) k m = (q, m')"
  then show "same_outside (unat k * SECTOR_SIZE) SECTOR_SIZE (FLASH_DATA m) (FLASH_DATA m')"
    by (auto simp: stub_chip_def stub_erase_sector_def stub_sizes elim: stub_erase_cases)
next
  fix k m m' x
  assume "chip_erase_sector (stub_chip oc out_of_bounds) k m = (Ok 0, m')" "unat k * SECTOR_SIZE \<le> x"
    "x < unat k * SECTOR_SIZE + SECTOR_SIZE"
  then show "FLASH_DATA m' x = 0xff"
    by (auto simp: stub_chip_def stub_erase_sector_def stub_sizes mem_fill_def elim: stub_erase_cases)
next
  fix k m q m'
  assume "chip_erase_block (stub_chip oc out_of_bounds) k m = (q, m')"
  then show "same_outside (unat k * BLOCK_SIZE) BLOCK_SIZE (FLASH_DATA m) (FLASH_DATA m')"
    by (auto simp: stub_chip_def stub_erase_block_def stub_sizes elim: stub_erase_cases)
next
  fix k m m' x
  assume "chip_erase_block (stub_chip oc out_of_bounds) k m = (Ok 0, m')" "unat k * BLOCK_SIZE \<le> x"
    "x < unat k * BLOCK_SIZE + BLOCK_SIZE"
  then show "FLASH_DATA m' x = 0xff"
    by (auto simp: stub_chip_def stub_erase_block_def stub_sizes mem_fill_def elim: stub_erase_cases)
next
  fix e a al bs m q m'
  assume "chip_program (stub_chip oc out_of_bounds) e a al bs m = (q, m')"
  then have "stub_write oc a al bs m = (q, m')" by (simp only: stub_program)
  then show "same_outside (unat a) (length bs) (FLASH_DATA m) (FLASH_DATA m')"
  proof (cases rule: stub_write_cases)
    case (2 n)
    have "same_outside (unat a) (length (take n bs)) (FLASH_DATA m) (FLASH_DATA m')"
      unfolding 2(2) stub.select_convs stub.update_convs stub.surjective by (simp del: length_take)
    then show ?thesis by (rule same_outside_mono) simp_all
  qed simp
next
  fix e a al bs m m'
  assume w: "chip_program (stub_chip oc out_of_bounds) e a al bs m = (Ok 0, m')"
    and len: "length bs < 2 ^ 32" and blank: "\<And>x. unat a \<le> x \<Longrightarrow> x < unat a + length bs \<Longrightarrow> FLASH_DATA m x = 0xff"
  show "mem_read ((\<lambda>b. b) \<circ> FLASH_DATA m') (unat a) (length bs) = bs"
  proof -
    from w [unfolded stub_program] have "FLASH_DATA m' = mem_and (FLASH_DATA m) (unat a) bs"
    proof (cases rule: stub_write_cases)
      case (2 n)
      have "n = length bs" unfolding 2(3) using len by (intro unat_of_nat_u32) simp
      with 2(2) show ?thesis by simp
    qed simp
    also have "\<dots> = mem_write (FLASH_DATA m) (unat a) bs" by (rule mem_and_erased) (use blank in simp)
    finally show ?thesis by (simp add: comp_def)
  qed
next
  fix a cnt m p m'
  assume "chip_read_encrypted (stub_chip oc out_of_bounds) a cnt m = (p, m')"
  then show "FLASH_DATA m' = FLASH_DATA m"
    by (auto simp: stub_chip_def stub_read_encrypted_def fail_def split: if_splits)
next
  fix a cnt m bs m'
  assume "chip_read_encrypted (stub_chip oc out_of_bounds) a cnt m = (Ok bs, m')"
  then show "bs = mem_read ((\<lambda>b. b) \<circ> FLASH_DATA m) (unat a) cnt"
    by (auto simp: stub_chip_def stub_read_encrypted_def fail_def comp_def split: if_splits)
next
  fix a n :: u32 and m
  assume "4 dvd unat a" "4 dvd unat n" "unat n \<le> SECTOR_SIZE" "unat a + unat n \<le> STUB_FLASH_SIZE"
  then show "\<exists>bs m'. chip_read (stub_chip oc out_of_bounds) a True n m = (Ok (0, bs), m') \<and>
      (\<not> FLASH_LOCK m \<longrightarrow> \<not> FLASH_LOCK m')"
    by (simp add: stub_chip_def stub_read_def bind_exec_step stub_check_total stub_sizes SUCCESS_CODE_def)
next
  fix m
  show "\<exists>m'. chip_unlock (stub_chip oc out_of_bounds) m = (Ok 0, m') \<and> \<not> FLASH_LOCK m'"
    by (simp add: stub_chip_def stub_unlock_def SUCCESS_CODE_def)
next
  fix m :: stub and k :: u32
  assume "\<not> FLASH_LOCK m" "unat k * SECTOR_SIZE + SECTOR_SIZE \<le> STUB_FLASH_SIZE"
  then show "\<exists>m'. chip_erase_sector (stub_chip oc out_of_bounds) k m = (Ok 0, m') \<and> \<not> FLASH_LOCK m'"
    by (simp add: stub_chip_def stub_erase_sector_def stub_erase_def bind_exec_step stub_check_total stub_sizes
        SECTOR_SIZE_def SUCCESS_CODE_def)
next
  fix m :: stub and k :: u32
  assume "\<not> FLASH_LOCK m" "unat k * BLOCK_SIZE + BLOCK_SIZE \<le> STUB_FLASH_SIZE"
  then show "\<exists>m'. chip_erase_block (stub_chip oc out_of_bounds) k m = (Ok 0, m') \<and> \<not> FLASH_LOCK m'"
    by (simp add: stub_chip_def stub_erase_block_def stub_erase_def bind_exec_step stub_check_total stub_sizes
        BLOCK_SIZE_def SUCCESS_CODE_def)
next
  fix m :: stub and e and a :: u32 and bs :: "u8 list"
  assume "\<not> FLASH_LOCK m" "(if e then 16 else 4) dvd unat a" "(if e then 16 else 4) dvd length bs"
    "length bs \<le> SECTOR_SIZE" "unat a + length bs \<le> STUB_FLASH_SIZE"
  moreover from this have "4 dvd unat a" "4 dvd length bs"
    by (auto intro: dvd_trans [of 4 16] split: if_splits)
  moreover from calculation have "unat (word_of_nat (length bs) :: u32) = length bs"
    by (intro unat_of_nat_u32) (simp add: SECTOR_SIZE_def)
  ultimately show "\<exists>m'. chip_program (stub_chip oc out_of_bounds) e a True bs m = (Ok 0, m') \<and> \<not> FLASH_LOCK m'"
    by (simp add: stub_program stub_write_def bind_exec_step stub_check_total stub_sizes SUCCESS_CODE_def)
next
  fix a :: u32 and cnt m
  assume "unat a + cnt \<le> STUB_FLASH_SIZE"
  then show "\<exists>bs m'. chip_read_encrypted (stub_chip oc out_of_bounds) a cnt m = (Ok bs, m') \<and>
      (\<not> FLASH_LOCK m \<longrightarrow> \<not> FLASH_LOCK m')"
    by (simp add: stub_chip_def stub_read_encrypted_def)
qed (simp add: stub_sizes)

end
