(* ===== verification/Flash_Storage.thy ===== *)
theory Flash_Storage
  imports Storage_Rom
begin

text \<open>
  \<open>esp-storage\<close>: the driver over the chip interface (\<open>common.rs\<close>, \<open>storage.rs\<close>, \<open>nor_flash.rs\<close>,
  \<open>encrypted.rs\<close>, \<open>ll.rs\<close>) and the flash size decoder of \<open>hardware.rs\<close>. The state is the
  \<open>FlashStorage\<close> structure together with the chip and the other core. The lemmas, proved for every
  chip of the locale, show that the read-modify-write operations change exactly the requested bytes,
  that reads return the contents, that erasing covers exactly the range, and that the multi-core
  strategy either keeps the chip untouched or restores the other core.
\<close>

section \<open>State and errors\<close>

datatype FlashStorageError =
    FsIoError | FsIoTimeout | FsCantUnlock | FsNotAligned | FsOutOfBounds | FsNotSupported
  | FsOtherCoreRunning | FsOther int

datatype MultiCoreStrategy = StrategyError | StrategyAutoPark | StrategyIgnore

record 'm FlashStorage =
  fs_capacity :: nat
  fs_unlocked :: bool
  fs_strategy :: MultiCoreStrategy
  fs_chip :: 'm
  fs_other_running :: bool

type_synonym ('m, 'a) fs = "('m FlashStorage, FlashStorageError, 'a) exec"

type_synonym 'm fchip = "('m, FlashStorageError) chip"

definition fs_check_rc :: "int \<Rightarrow> (FlashStorageError, unit) result" where
  "fs_check_rc rc =
    (if rc = 0 then Ok () else if rc = 1 then Err FsIoError else if rc = 2 then Err FsIoTimeout
     else Err (FsOther rc))"

text \<open>\<open>FlashStorage::new\<close> over a chip; \<open>multi\<close> is \<open>cfg(multi_core)\<close>.\<close>

definition fs_new :: "bool \<Rightarrow> nat \<Rightarrow> 'm \<Rightarrow> bool \<Rightarrow> 'm FlashStorage" where
  "fs_new multi flash_size chip other_running =
     \<lparr>fs_capacity = flash_size, fs_unlocked = False,
      fs_strategy = (if multi then StrategyError else StrategyIgnore),
      fs_chip = chip, fs_other_running = other_running\<rparr>"

definition multicore_auto_park :: "'m FlashStorage \<Rightarrow> 'm FlashStorage" where
  "multicore_auto_park s = s\<lparr>fs_strategy := StrategyAutoPark\<rparr>"

definition multicore_ignore :: "'m FlashStorage \<Rightarrow> 'm FlashStorage" where
  "multicore_ignore s = s\<lparr>fs_strategy := StrategyIgnore\<rparr>"

definition on_chip :: "('m, FlashStorageError, 'a) exec \<Rightarrow> ('m, 'a) fs" where
  "on_chip f s = (case f (fs_chip s) of (r, m) \<Rightarrow> (r, s\<lparr>fs_chip := m\<rparr>))"

definition fs_check_alignment :: "nat \<Rightarrow> u32 \<Rightarrow> nat \<Rightarrow> (FlashStorageError, unit) result" where
  "fs_check_alignment ALIGN offset length' =
    (if \<not> ALIGN dvd unat offset \<or> \<not> ALIGN dvd length' then Err FsNotAligned else Ok ())"

definition fs_check_bounds :: "u32 \<Rightarrow> nat \<Rightarrow> ('m, unit) fs" where
  "fs_check_bounds offset length' s =
    (if length' > fs_capacity s \<or> unat offset > fs_capacity s - length' then (Err FsOutOfBounds, s)
     else (Ok (), s))"

section \<open>Multi-core strategy\<close>

text \<open>
  There is at most one other core. \<open>unstable\<close> tells whether the \<open>if_unstable_hal!\<close> blocks are
  compiled in.
\<close>

definition pre_write :: "bool \<Rightarrow> ('m, bool) fs" where
  "pre_write unstable s = (case fs_strategy s of
      StrategyError \<Rightarrow>
        if unstable \<and> fs_other_running s then (Err FsOtherCoreRunning, s) else (Ok False, s)
    | StrategyAutoPark \<Rightarrow>
        if unstable \<and> fs_other_running s then (Ok True, s\<lparr>fs_other_running := False\<rparr>) else (Ok False, s)
    | StrategyIgnore \<Rightarrow> (Ok False, s))"

definition post_write :: "bool \<Rightarrow> bool \<Rightarrow> 'm FlashStorage \<Rightarrow> 'm FlashStorage" where
  "post_write unstable unpark s =
    (if fs_strategy s = StrategyAutoPark \<and> unpark \<and> unstable then s\<lparr>fs_other_running := True\<rparr> else s)"

definition with_strategy :: "bool \<Rightarrow> ('m, 'a) fs \<Rightarrow> ('m, 'a) fs" where
  "with_strategy unstable f =
     bind_exec (pre_write unstable) (\<lambda>unpark s. case f s of (r, s') \<Rightarrow> (r, post_write unstable unpark s'))"

section \<open>Chip operations\<close>

definition internal_read :: "'m fchip \<Rightarrow> u32 \<Rightarrow> bool \<Rightarrow> nat \<Rightarrow> ('m, u8 list) fs" where
  "internal_read R offset aligned n =
     bind_exec (on_chip (chip_read R offset aligned (word_of_nat n))) (\<lambda>(rc, bytes).
     bind_exec (lift (fs_check_rc rc)) (\<lambda>_. ret bytes))"

definition unlock_once :: "'m fchip \<Rightarrow> ('m, unit) fs" where
  "unlock_once R s =
    (if \<not> fs_unlocked s then
       bind_exec (on_chip (chip_unlock R)) (\<lambda>rc.
         if rc \<noteq> 0 then fail FsCantUnlock else (\<lambda>s. (Ok (), s\<lparr>fs_unlocked := True\<rparr>))) s
     else (Ok (), s))"

definition internal_erase_sector :: "bool \<Rightarrow> 'm fchip \<Rightarrow> u32 \<Rightarrow> ('m, unit) fs" where
  "internal_erase_sector unstable R sector = with_strategy unstable (
     bind_exec (unlock_once R) (\<lambda>_.
     bind_exec (on_chip (chip_erase_sector R sector)) (\<lambda>rc. lift (fs_check_rc rc))))"

definition internal_erase_block :: "bool \<Rightarrow> 'm fchip \<Rightarrow> u32 \<Rightarrow> ('m, unit) fs" where
  "internal_erase_block unstable R block = with_strategy unstable (
     bind_exec (unlock_once R) (\<lambda>_.
     bind_exec (on_chip (chip_erase_block R block)) (\<lambda>rc. lift (fs_check_rc rc))))"

definition internal_write :: "bool \<Rightarrow> 'm fchip \<Rightarrow> u32 \<Rightarrow> bool \<Rightarrow> u8 list \<Rightarrow> ('m, unit) fs" where
  "internal_write unstable R offset aligned bytes = with_strategy unstable (
     bind_exec (unlock_once R) (\<lambda>_.
     bind_exec (on_chip (chip_write R offset aligned bytes)) (\<lambda>rc. lift (fs_check_rc rc))))"

definition internal_read_encrypted :: "bool \<Rightarrow> 'm fchip \<Rightarrow> u32 \<Rightarrow> nat \<Rightarrow> ('m, u8 list) fs" where
  "internal_read_encrypted unstable R offset n =
     with_strategy unstable (on_chip (chip_read_encrypted R offset n))"

definition internal_write_encrypted :: "bool \<Rightarrow> 'm fchip \<Rightarrow> u32 \<Rightarrow> bool \<Rightarrow> u8 list \<Rightarrow> ('m, unit) fs" where
  "internal_write_encrypted unstable R offset aligned bytes = with_strategy unstable (
     bind_exec (on_chip (chip_write_encrypted R offset aligned bytes)) (\<lambda>rc. lift (fs_check_rc rc)))"

section \<open>\<open>storage.rs\<close> and \<open>encrypted.rs\<close>\<close>

text \<open>
  The \<open>while\<close> loops. \<open>data_offset\<close> is below the sector size on entry and 0 afterwards, otherwise
  \<open>SECTOR_SIZE - data_offset\<close> would be 0 or underflow.
\<close>

function storage_read_loop :: "bool \<Rightarrow> 'm fchip \<Rightarrow> u32 \<Rightarrow> nat \<Rightarrow> nat \<Rightarrow> ('m, u8 list) fs" where
  "storage_read_loop oc R aligned_offset data_offset n =
    (if n = 0 then ret []
     else if data_offset \<ge> SECTOR_SIZE then panic
     else
       let len = min n (SECTOR_SIZE - data_offset);
           aligned_end = (data_offset + len + 3) div 4 * 4
       in bind_exec (internal_read R aligned_offset True aligned_end) (\<lambda>sector_data.
          bind_exec (lift (add_ovf oc aligned_offset (word_of_nat SECTOR_SIZE))) (\<lambda>aligned_offset'.
          bind_exec (storage_read_loop oc R aligned_offset' 0 (n - len)) (\<lambda>rest.
          ret (slice data_offset len sector_data @ rest)))))"
  by pat_completeness auto
termination
  by (relation "measure (\<lambda>(oc, R, a, d, n). n)") auto

declare storage_read_loop.simps [simp del]

definition storage_read :: "bool \<Rightarrow> 'm fchip \<Rightarrow> u32 \<Rightarrow> nat \<Rightarrow> ('m, u8 list) fs" where
  "storage_read oc R offset n =
     bind_exec (fs_check_bounds offset n) (\<lambda>_.
       let data_offset = offset mod 4 in
       storage_read_loop oc R (offset - data_offset) (unat data_offset) n)"

definition storage_capacity :: "'m FlashStorage \<Rightarrow> nat" where
  "storage_capacity s = fs_capacity s"

text \<open>
  The read-modify-write loop of \<open>FlashStorage::write\<close> and, with the encrypted operations, of
  \<open>FlashStorage::write_encrypted\<close>.
\<close>

definition rmw_read :: "bool \<Rightarrow> 'm fchip \<Rightarrow> bool \<Rightarrow> u32 \<Rightarrow> ('m, u8 list) fs" where
  "rmw_read unstable R encrypted offset =
    (if encrypted then internal_read_encrypted unstable R offset SECTOR_SIZE
     else internal_read R offset True SECTOR_SIZE)"

definition rmw_write :: "bool \<Rightarrow> 'm fchip \<Rightarrow> bool \<Rightarrow> u32 \<Rightarrow> u8 list \<Rightarrow> ('m, unit) fs" where
  "rmw_write unstable R encrypted offset bytes =
    (if encrypted then internal_write_encrypted unstable R offset True bytes
     else internal_write unstable R offset True bytes)"

function rmw_loop :: "bool \<Rightarrow> bool \<Rightarrow> 'm fchip \<Rightarrow> bool \<Rightarrow> u32 \<Rightarrow> nat \<Rightarrow> u8 list \<Rightarrow> ('m, unit) fs" where
  "rmw_loop oc unstable R encrypted aligned_offset data_offset bytes =
    (if bytes = [] then ret ()
     else if data_offset \<ge> SECTOR_SIZE then panic
     else
       let len = min (length bytes) (SECTOR_SIZE - data_offset)
       in bind_exec (rmw_read unstable R encrypted aligned_offset) (\<lambda>sector_data.
          bind_exec (internal_erase_sector unstable R (aligned_offset div word_of_nat SECTOR_SIZE)) (\<lambda>_.
          bind_exec (rmw_write unstable R encrypted aligned_offset
            (take data_offset sector_data @ take len bytes @ drop (data_offset + len) sector_data)) (\<lambda>_.
          bind_exec (lift (add_ovf oc aligned_offset (word_of_nat SECTOR_SIZE))) (\<lambda>aligned_offset'.
          rmw_loop oc unstable R encrypted aligned_offset' 0 (drop len bytes))))))"
  by pat_completeness auto
termination
  by (relation "measure (\<lambda>(oc, u, R, e, a, d, bs). length bs)") auto

declare rmw_loop.simps [simp del]

definition storage_write :: "bool \<Rightarrow> bool \<Rightarrow> 'm fchip \<Rightarrow> u32 \<Rightarrow> u8 list \<Rightarrow> ('m, unit) fs" where
  "storage_write oc unstable R offset bytes =
     bind_exec (fs_check_bounds offset (length bytes)) (\<lambda>_.
       let data_offset = offset mod word_of_nat SECTOR_SIZE in
       rmw_loop oc unstable R False (offset - data_offset) (unat data_offset) bytes)"

function storage_read_encrypted_loop :: "bool \<Rightarrow> bool \<Rightarrow> 'm fchip \<Rightarrow> u32 \<Rightarrow> nat \<Rightarrow> nat \<Rightarrow> ('m, u8 list) fs" where
  "storage_read_encrypted_loop oc unstable R aligned_offset data_offset n =
    (if n = 0 then ret []
     else if data_offset \<ge> SECTOR_SIZE then panic
     else
       let len = min n (SECTOR_SIZE - data_offset)
       in bind_exec (internal_read_encrypted unstable R aligned_offset SECTOR_SIZE) (\<lambda>sector_data.
          bind_exec (lift (add_ovf oc aligned_offset (word_of_nat SECTOR_SIZE))) (\<lambda>aligned_offset'.
          bind_exec (storage_read_encrypted_loop oc unstable R aligned_offset' 0 (n - len)) (\<lambda>rest.
          ret (slice data_offset len sector_data @ rest)))))"
  by pat_completeness auto
termination
  by (relation "measure (\<lambda>(oc, u, R, a, d, n). n)") auto

declare storage_read_encrypted_loop.simps [simp del]

definition storage_read_encrypted :: "bool \<Rightarrow> bool \<Rightarrow> 'm fchip \<Rightarrow> u32 \<Rightarrow> nat \<Rightarrow> ('m, u8 list) fs" where
  "storage_read_encrypted oc unstable R offset n =
     bind_exec (fs_check_bounds offset n) (\<lambda>_.
       let data_offset = offset mod word_of_nat SECTOR_SIZE in
       storage_read_encrypted_loop oc unstable R (offset - data_offset) (unat data_offset) n)"

text \<open>
  \<open>gate\<close> is \<open>crate::flash_encryption()\<close>, and true in the emulation and hardware test builds, which
  compile the check out.
\<close>

definition storage_write_encrypted :: "bool \<Rightarrow> bool \<Rightarrow> bool \<Rightarrow> 'm fchip \<Rightarrow> u32 \<Rightarrow> u8 list \<Rightarrow> ('m, unit) fs" where
  "storage_write_encrypted oc unstable gate R offset bytes =
    (if \<not> gate then fail FsNotSupported
     else bind_exec (fs_check_bounds offset (length bytes)) (\<lambda>_.
       let data_offset = offset mod word_of_nat SECTOR_SIZE in
       rmw_loop oc unstable R True (offset - data_offset) (unat data_offset) bytes))"

section \<open>\<open>nor_flash.rs\<close>\<close>

text \<open>\<open>bytewise\<close> is the feature \<open>bytewise-read\<close>.\<close>

definition fs_READ_SIZE :: "bool \<Rightarrow> nat" where
  "fs_READ_SIZE bytewise = (if bytewise then 1 else 4)"

definition fs_WRITE_SIZE :: nat where
  "fs_WRITE_SIZE = 4"

definition fs_ERASE_SIZE :: nat where
  "fs_ERASE_SIZE = SECTOR_SIZE"

text \<open>The address of a byte buffer is a natural number; a sub-slice starts further up.\<close>

definition is_word_aligned :: "nat \<Rightarrow> bool" where
  "is_word_aligned address \<longleftrightarrow> 4 dvd address"

text \<open>
  One round of the chunk loops: an aligned chunk is read in place, another one through the aligned
  sector buffer.
\<close>

definition read_chunk :: "bool \<Rightarrow> bool \<Rightarrow> 'm fchip \<Rightarrow> bool \<Rightarrow> u32 \<Rightarrow> nat \<Rightarrow> ('m, u8 list) fs" where
  "read_chunk oc bytewise R aligned offset n =
    (if \<not> bytewise then internal_read R offset True n
     else if aligned then
       let byte_length = n mod 4; length' = n - byte_length in
       bind_exec (internal_read R offset True length') (\<lambda>chunk.
         if byte_length > 0 then
           bind_exec (lift (add_ovf oc offset (word_of_nat length'))) (\<lambda>offset'.
           bind_exec (internal_read R offset' True 4) (\<lambda>word_buffer.
           ret (chunk @ take byte_length word_buffer)))
         else ret chunk)
     else
       let byte_length = n mod 4; length' = (if byte_length > 0 then n - byte_length + 4 else n) in
       bind_exec (internal_read R offset True length') (\<lambda>buffer. ret (take n buffer)))"

text \<open>The chunk loops; the next offset of the stepped range is computed between two chunks.\<close>

function read_chunks :: "bool \<Rightarrow> bool \<Rightarrow> 'm fchip \<Rightarrow> bool \<Rightarrow> u32 \<Rightarrow> nat \<Rightarrow> ('m, u8 list) fs" where
  "read_chunks oc bytewise R aligned offset n =
    (if n = 0 then ret []
     else
       let len = min n SECTOR_SIZE
       in bind_exec (read_chunk oc bytewise R aligned offset len) (\<lambda>chunk.
          bind_exec (lift (add_ovf oc offset (word_of_nat SECTOR_SIZE))) (\<lambda>offset'.
          bind_exec (read_chunks oc bytewise R aligned offset' (n - len)) (\<lambda>rest.
          ret (chunk @ rest)))))"
  by pat_completeness auto
termination
  by (relation "measure (\<lambda>(oc, b, R, al, a, n). n)") (auto simp: SECTOR_SIZE_def)

declare read_chunks.simps [simp del]

definition read_nor :: "bool \<Rightarrow> bool \<Rightarrow> 'm fchip \<Rightarrow> nat \<Rightarrow> u32 \<Rightarrow> nat \<Rightarrow> ('m, u8 list) fs" where
  "read_nor oc bytewise R address offset n =
     bind_exec (lift (fs_check_alignment (fs_READ_SIZE bytewise) offset n)) (\<lambda>_.
     bind_exec (fs_check_bounds offset n) (\<lambda>_.
       let byte_offset = unat offset mod 4 in
       if bytewise \<and> byte_offset > 0 then
         let offset' = offset - word_of_nat byte_offset; length' = min n (4 - byte_offset) in
         bind_exec (internal_read R offset' True 4) (\<lambda>word_buffer.
         bind_exec (lift (add_ovf oc offset' 4)) (\<lambda>next.
         bind_exec (read_chunks oc bytewise R (is_word_aligned (address + length')) next (n - length')) (\<lambda>rest.
         ret (slice byte_offset length' word_buffer @ rest))))
       else read_chunks oc bytewise R (is_word_aligned address) offset n))"

function write_chunks :: "bool \<Rightarrow> bool \<Rightarrow> 'm fchip \<Rightarrow> u32 \<Rightarrow> u8 list \<Rightarrow> ('m, unit) fs" where
  "write_chunks oc unstable R offset bytes =
    (if bytes = [] then ret ()
     else
       bind_exec (internal_write unstable R offset True (take SECTOR_SIZE bytes)) (\<lambda>_.
       bind_exec (lift (add_ovf oc offset (word_of_nat SECTOR_SIZE))) (\<lambda>offset'.
       write_chunks oc unstable R offset' (drop SECTOR_SIZE bytes))))"
  by pat_completeness auto
termination
  by (relation "measure (\<lambda>(oc, u, R, a, bs). length bs)") (auto simp: SECTOR_SIZE_def)

declare write_chunks.simps [simp del]

text \<open>An unaligned source is copied to the aligned sector buffer first, chunk by chunk.\<close>

definition write_nor :: "bool \<Rightarrow> bool \<Rightarrow> 'm fchip \<Rightarrow> u32 \<Rightarrow> u8 list \<Rightarrow> ('m, unit) fs" where
  "write_nor oc unstable R offset bytes =
     bind_exec (lift (fs_check_alignment 4 offset (length bytes))) (\<lambda>_.
     bind_exec (fs_check_bounds offset (length bytes)) (\<lambda>_.
     write_chunks oc unstable R offset bytes))"

definition storage_erase :: "bool \<Rightarrow> 'm fchip \<Rightarrow> u32 \<Rightarrow> u32 \<Rightarrow> ('m, unit) fs" where
  "storage_erase unstable R from to =
    (if to < from then fail FsOutOfBounds
     else
       let len = unat (to - from) in
       bind_exec (lift (fs_check_alignment SECTOR_SIZE from len)) (\<lambda>_.
       bind_exec (fs_check_bounds from len) (\<lambda>_.
       erase_plan (\<lambda>address. internal_erase_sector unstable R (word_of_nat (address div SECTOR_SIZE)))
         (\<lambda>address. internal_erase_block unstable R (word_of_nat (address div BLOCK_SIZE)))
         (unat from) (unat to))))"

text \<open>The \<open>embedded-storage\<close> traits forward to these operations.\<close>

fun fs_nor_kind :: "FlashStorageError \<Rightarrow> NorFlashErrorKind" where
  "fs_nor_kind FsNotAligned = KindNotAligned"
| "fs_nor_kind FsOutOfBounds = KindOutOfBounds"
| "fs_nor_kind _ = KindOther"

definition trait_nor_read :: "bool \<Rightarrow> bool \<Rightarrow> 'm fchip \<Rightarrow> nat \<Rightarrow> u32 \<Rightarrow> nat \<Rightarrow> ('m, u8 list) fs" where
  "trait_nor_read oc bytewise R address offset n = read_nor oc bytewise R address offset n"

definition trait_nor_write :: "bool \<Rightarrow> bool \<Rightarrow> 'm fchip \<Rightarrow> u32 \<Rightarrow> u8 list \<Rightarrow> ('m, unit) fs" where
  "trait_nor_write oc unstable R offset bytes = write_nor oc unstable R offset bytes"

definition trait_nor_erase :: "bool \<Rightarrow> 'm fchip \<Rightarrow> u32 \<Rightarrow> u32 \<Rightarrow> ('m, unit) fs" where
  "trait_nor_erase unstable R from to = storage_erase unstable R from to"

definition trait_read :: "bool \<Rightarrow> 'm fchip \<Rightarrow> u32 \<Rightarrow> nat \<Rightarrow> ('m, u8 list) fs" where
  "trait_read oc R offset n = storage_read oc R offset n"

definition trait_write :: "bool \<Rightarrow> bool \<Rightarrow> 'm fchip \<Rightarrow> u32 \<Rightarrow> u8 list \<Rightarrow> ('m, unit) fs" where
  "trait_write oc unstable R offset bytes = storage_write oc unstable R offset bytes"

section \<open>\<open>ll.rs\<close> and the flash size\<close>

text \<open>The low-level functions turn the status code into a \<open>Result\<close>.\<close>

definition ll_status :: "int \<Rightarrow> (int, unit) result" where
  "ll_status rc = (if rc = 0 then Ok () else Err rc)"

definition ll_read :: "('m, int) chip \<Rightarrow> u32 \<Rightarrow> bool \<Rightarrow> u32 \<Rightarrow> ('m, int, u8 list) exec" where
  "ll_read R src_addr aligned len = bind_exec (chip_read R src_addr aligned len) (\<lambda>(rc, bytes).
     bind_exec (lift (ll_status rc)) (\<lambda>_. ret bytes))"

definition ll_unlock :: "('m, int) chip \<Rightarrow> ('m, int, unit) exec" where
  "ll_unlock R = bind_exec (chip_unlock R) (\<lambda>rc. lift (ll_status rc))"

definition ll_erase_sector :: "('m, int) chip \<Rightarrow> u32 \<Rightarrow> ('m, int, unit) exec" where
  "ll_erase_sector R sector_number = bind_exec (chip_erase_sector R sector_number) (\<lambda>rc. lift (ll_status rc))"

definition ll_erase_block :: "('m, int) chip \<Rightarrow> u32 \<Rightarrow> ('m, int, unit) exec" where
  "ll_erase_block R block_number = bind_exec (chip_erase_block R block_number) (\<lambda>rc. lift (ll_status rc))"

definition ll_write :: "('m, int) chip \<Rightarrow> u32 \<Rightarrow> bool \<Rightarrow> u8 list \<Rightarrow> ('m, int, unit) exec" where
  "ll_write R dest_addr aligned bytes = bind_exec (chip_write R dest_addr aligned bytes) (\<lambda>rc. lift (ll_status rc))"

definition ll_write_encrypted :: "('m, int) chip \<Rightarrow> u32 \<Rightarrow> bool \<Rightarrow> u8 list \<Rightarrow> ('m, int, unit) exec" where
  "ll_write_encrypted R dest_addr aligned bytes =
     bind_exec (chip_write_encrypted R dest_addr aligned bytes) (\<lambda>rc. lift (ll_status rc))"

definition KB :: nat where
  "KB = 1024"

definition MB :: nat where
  "MB = 1024 * KB"

definition adesto_sizes :: "(nat \<times> nat) list" where
  "adesto_sizes = [(0x04, 512 * KB), (0x05, MB), (0x06, 2 * MB), (0x07, 4 * MB), (0x08, 8 * MB), (0x09, 16 * MB)]"

definition density_sizes :: "(nat \<times> nat) list" where
  "density_sizes = [(0x12, 256 * KB), (0x13, 512 * KB), (0x14, MB), (0x15, 2 * MB), (0x16, 4 * MB),
     (0x17, 8 * MB), (0x18, 16 * MB), (0x19, 32 * MB), (0x1A, 64 * MB), (0x1B, 128 * MB), (0x1C, 256 * MB),
     (0x20, 64 * MB), (0x21, 128 * MB), (0x22, 256 * MB), (0x32, 256 * KB), (0x33, 512 * KB), (0x34, MB),
     (0x35, 2 * MB), (0x36, 4 * MB), (0x37, 8 * MB), (0x38, 16 * MB), (0x39, 32 * MB), (0x3A, 64 * MB)]"

text \<open>The decoder for the raw \<open>RDID\<close> word, manufacturer in the lowest byte; 0 when unknown.\<close>

definition flash_size_from_rdid :: "u32 \<Rightarrow> nat" where
  "flash_size_from_rdid raw =
    (let id = raw AND 0x00FFFFFF; bytes = u32_to_le_bytes id in
     if bytes ! 0 = 0x1F then
       (case map_of adesto_sizes (unat (bytes ! 1 AND 0x1F)) of Some size' \<Rightarrow> size' | None \<Rightarrow> 0)
     else
       (case map_of density_sizes (unat (bytes ! 2)) of Some size' \<Rightarrow> size' | None \<Rightarrow> 0))"

section \<open>The other core\<close>

text \<open>
  \<open>keeps_core f\<close>: whatever the outcome, \<open>f\<close> leaves the other core, the strategy and the capacity as
  they were.
\<close>

definition keeps_core :: "('m, 'a) fs \<Rightarrow> bool" where
  "keeps_core f \<longleftrightarrow> (\<forall>t r t'. f t = (r, t') \<longrightarrow> fs_strategy t' = fs_strategy t \<and>
     fs_other_running t' = fs_other_running t \<and> fs_capacity t' = fs_capacity t)"

named_theorems keeps \<open>operations that keep the other core\<close>

lemma keeps_coreD:
  assumes "keeps_core f" "f t = (r, t')"
  shows "fs_strategy t' = fs_strategy t" "fs_other_running t' = fs_other_running t" "fs_capacity t' = fs_capacity t"
  using assms by (auto simp: keeps_core_def)

lemma keeps_lift [keeps]: "keeps_core (lift r)" and keeps_ret [keeps]: "keeps_core (ret x)"
  and keeps_fail [keeps]: "keeps_core (fail e)" and keeps_panic [keeps]: "keeps_core panic"
  by (auto simp: keeps_core_def exec_simps)

lemma keeps_on_chip [keeps]: "keeps_core (on_chip f)"
  by (auto simp: keeps_core_def on_chip_def split: prod.splits)

lemma keeps_bounds [keeps]: "keeps_core (fs_check_bounds offset n)"
  by (auto simp: keeps_core_def fs_check_bounds_def)

lemma keeps_bind [keeps]:
  assumes "keeps_core f" "\<And>x. keeps_core (k x)"
  shows "keeps_core (bind_exec f k)"
  unfolding keeps_core_def
proof (intro allI impI)
  fix t r t' assume b: "bind_exec f k t = (r, t')"
  show "fs_strategy t' = fs_strategy t \<and> fs_other_running t' = fs_other_running t \<and> fs_capacity t' = fs_capacity t"
  proof (rule bind_exec_frame [where P = "\<lambda>x y. fs_strategy y = fs_strategy x \<and>
      fs_other_running y = fs_other_running x \<and> fs_capacity y = fs_capacity x", OF _ _ _ b])
    show "fs_strategy u = fs_strategy t \<and> fs_other_running u = fs_other_running t \<and> fs_capacity u = fs_capacity t"
      if "f t = (q, u)" for q u
      using keeps_coreD [OF assms(1) that] by simp
    show "fs_strategy v = fs_strategy u \<and> fs_other_running v = fs_other_running u \<and> fs_capacity v = fs_capacity u"
      if "k x u = (q, v)" for x u q v
      using keeps_coreD [OF assms(2) that] by simp
  qed simp
qed

lemma keeps_if [keeps]: "keeps_core f \<Longrightarrow> keeps_core g \<Longrightarrow> keeps_core (if b then f else g)"
  by simp

lemma keeps_unlock [keeps]: "keeps_core (unlock_once R)"
proof -
  have "keeps_core (\<lambda>s. (Ok (), s\<lparr>fs_unlocked := True\<rparr>))" by (simp add: keeps_core_def)
  then have k: "keeps_core (bind_exec (on_chip (chip_unlock R)) (\<lambda>rc.
      if rc \<noteq> 0 then fail FsCantUnlock else (\<lambda>s. (Ok (), s\<lparr>fs_unlocked := True\<rparr>))))"
    by (intro keeps) auto
  show ?thesis
    unfolding keeps_core_def unlock_once_def using keeps_coreD [OF k] by (auto split: if_splits)
qed

text \<open>The other core does not block the operation.\<close>

definition core_ok :: "bool \<Rightarrow> 'm FlashStorage \<Rightarrow> bool" where
  "core_ok unstable s \<longleftrightarrow> \<not> (fs_strategy s = StrategyError \<and> unstable \<and> fs_other_running s)"

lemma with_strategy_blocked:
  "\<not> core_ok unstable s \<Longrightarrow> with_strategy unstable f s = (Err FsOtherCoreRunning, s)"
  by (simp add: with_strategy_def pre_write_def core_ok_def bind_exec_def)

lemma with_strategy_run:
  assumes "core_ok unstable s" "keeps_core f" "with_strategy unstable f s = (r, s')"
  obtains t t' where "fs_chip t = fs_chip s" "fs_unlocked t = fs_unlocked s" "f t = (r, t')"
    "s' = t'\<lparr>fs_other_running := fs_other_running s\<rparr>" "fs_strategy t = fs_strategy s" "fs_capacity t = fs_capacity s"
proof -
  let ?t = "if fs_strategy s = StrategyAutoPark \<and> unstable \<and> fs_other_running s
    then s\<lparr>fs_other_running := False\<rparr> else s"
  let ?park = "fs_strategy s = StrategyAutoPark \<and> unstable \<and> fs_other_running s"
  obtain q t' where t': "f ?t = (q, t')" by force
  have pre: "pre_write unstable s = (Ok ?park, ?t)"
    using assms(1) by (cases "fs_strategy s") (auto simp: pre_write_def core_ok_def)
  have "with_strategy unstable f s = (q, post_write unstable ?park t')"
    unfolding with_strategy_def bind_exec_step(1) [where m = "pre_write unstable" and s = s, OF pre] t' by simp
  moreover have "post_write unstable ?park t' = t'\<lparr>fs_other_running := fs_other_running s\<rparr>"
    using keeps_coreD [OF assms(2) t'] by (auto simp: post_write_def)
  ultimately have "r = q" "s' = t'\<lparr>fs_other_running := fs_other_running s\<rparr>" using assms(3) by auto
  with that [of ?t t'] t' show thesis by auto
qed

lemma keeps_with_strategy [keeps]:
  assumes "keeps_core f"
  shows "keeps_core (with_strategy unstable f)"
  unfolding keeps_core_def
proof (intro allI impI)
  fix s r s' assume w: "with_strategy unstable f s = (r, s')"
  show "fs_strategy s' = fs_strategy s \<and> fs_other_running s' = fs_other_running s \<and> fs_capacity s' = fs_capacity s"
  proof (cases "core_ok unstable s")
    case False
    with w show ?thesis by (simp add: with_strategy_blocked)
  next
    case True
    from with_strategy_run [OF True assms w] obtain t t' where
      "f t = (r, t')" "s' = t'\<lparr>fs_other_running := fs_other_running s\<rparr>"
      "fs_strategy t = fs_strategy s" "fs_capacity t = fs_capacity s" .
    with keeps_coreD [OF assms this(1)] show ?thesis by simp
  qed
qed

lemmas internal_defs = internal_read_def internal_erase_sector_def internal_erase_block_def
  internal_write_def internal_read_encrypted_def internal_write_encrypted_def

lemma keeps_internal [keeps]:
  "keeps_core (internal_read R a al n)" "keeps_core (internal_erase_sector u R k)"
  "keeps_core (internal_erase_block u R k)" "keeps_core (internal_write u R a al bs)"
  "keeps_core (internal_read_encrypted u R a n)" "keeps_core (internal_write_encrypted u R a al bs)"
  unfolding internal_defs by (auto intro!: keeps split: prod.splits)

section \<open>Functional correctness\<close>

lemma on_chip_step: "f (fs_chip s) = (r, m) \<Longrightarrow> on_chip f s = (r, s\<lparr>fs_chip := m\<rparr>)"
  by (simp add: on_chip_def)

locale storage_rom = reliable_flash_rom R cells seen erased size writable
  for R :: "('m, FlashStorageError) chip" and cells :: "'m \<Rightarrow> nat \<Rightarrow> 'c" and seen :: "bool \<Rightarrow> 'c \<Rightarrow> u8"
    and erased :: "'c \<Rightarrow> bool" and size :: nat and writable :: "'m \<Rightarrow> bool" +
  assumes whole_sectors: "SECTOR_SIZE dvd size"
begin

definition ready :: "bool \<Rightarrow> 'm FlashStorage \<Rightarrow> bool" where
  "ready u s \<longleftrightarrow> core_ok u s \<and> (fs_unlocked s \<longrightarrow> writable (fs_chip s))"

definition view :: "bool \<Rightarrow> 'm FlashStorage \<Rightarrow> mem" where
  "view e s = seen e \<circ> cells (fs_chip s)"

lemma core_ok_keeps: "keeps_core f \<Longrightarrow> f s = (r, s') \<Longrightarrow> core_ok u s' = core_ok u s"
  using keeps_coreD [of f s r s'] by (simp add: core_ok_def)

lemma unlock_total:
  assumes "fs_unlocked s \<longrightarrow> writable (fs_chip s)"
  obtains t where "unlock_once R s = (Ok (), t)" "writable (fs_chip t)" "fs_unlocked t"
    "cells (fs_chip t) = cells (fs_chip s)"
proof (cases "fs_unlocked s")
  case True
  with assms that show thesis by (simp add: unlock_once_def)
next
  case False
  obtain m where m: "chip_unlock R (fs_chip s) = (Ok 0, m)" "writable m"
    using rom_unlock_total by blast
  with that [of "s\<lparr>fs_chip := m, fs_unlocked := True\<rparr>"] False rom_unlock_frame [OF m(1)] show thesis
    by (simp add: unlock_once_def bind_exec_def on_chip_def)
qed

lemma internal_read_total:
  assumes "ready u s" "4 dvd unat a" "4 dvd n" "n \<le> SECTOR_SIZE" "unat a + n \<le> size"
  obtains s' where "internal_read R a True n s = (Ok (mem_read (view False s) (unat a) n), s')"
    "ready u s'" "cells (fs_chip s') = cells (fs_chip s)" "fs_unlocked s' = fs_unlocked s"
proof -
  have n: "unat (word_of_nat n :: u32) = n" using assms(4) by (intro unat_of_nat_u32) (simp add: SECTOR_SIZE_def)
  obtain bs m where m: "chip_read R a True (word_of_nat n) (fs_chip s) = (Ok (0, bs), m)"
    "writable (fs_chip s) \<longrightarrow> writable m"
    using rom_read_total [of a "word_of_nat n" "fs_chip s"] assms n by auto
  let ?s = "s\<lparr>fs_chip := m\<rparr>"
  have "internal_read R a True n s = (Ok bs, ?s)"
    by (simp add: internal_read_def bind_exec_def on_chip_def m(1) fs_check_rc_def lift_def ret_def)
  moreover have "bs = mem_read (view False s) (unat a) n"
    using rom_read_ok [OF m(1)] by (simp add: view_def n)
  moreover have "core_ok u ?s" using assms(1) by (simp add: ready_def core_ok_def)
  ultimately show thesis
    using that [of ?s] assms(1) m(2) rom_read_frame [OF m(1)] by (simp add: ready_def)
qed

lemma strategy_total:
  assumes "ready u s" "keeps_core f"
    and total: "\<And>t. fs_chip t = fs_chip s \<Longrightarrow> fs_unlocked t = fs_unlocked s \<Longrightarrow>
      \<exists>t'. f t = (Ok x, t') \<and> (fs_unlocked t' \<longrightarrow> writable (fs_chip t')) \<and> Q (fs_chip t') (fs_unlocked t')"
  obtains s' where "with_strategy u f s = (Ok x, s')" "ready u s'" "Q (fs_chip s') (fs_unlocked s')"
proof -
  obtain r s' where w: "with_strategy u f s = (r, s')" by force
  have ok: "core_ok u s" using assms(1) by (simp add: ready_def)
  from with_strategy_run [OF ok assms(2) w] obtain t t' where
    t: "fs_chip t = fs_chip s" "fs_unlocked t = fs_unlocked s" "f t = (r, t')"
      "s' = t'\<lparr>fs_other_running := fs_other_running s\<rparr>" .
  from total [OF t(1,2)] t(3) have
    r: "r = Ok x" "fs_unlocked t' \<longrightarrow> writable (fs_chip t')" "Q (fs_chip t') (fs_unlocked t')" by auto
  have "core_ok u s'" using core_ok_keeps [OF keeps_with_strategy [OF assms(2)] w] ok by simp
  with that [of s'] w r t(4) show thesis by (simp add: ready_def)
qed

text \<open>The common body of erasing and writing: unlock, run the chip operation, check its status.\<close>

lemma unlocked_op_total:
  assumes "ready u s" and total: "\<And>m. writable m \<Longrightarrow> cells m = cells (fs_chip s) \<Longrightarrow>
      \<exists>m'. g m = (Ok 0, m') \<and> writable m' \<and> P (cells m')"
  obtains s' where "with_strategy u (bind_exec (unlock_once R) (\<lambda>_.
      bind_exec (on_chip g) (\<lambda>rc. lift (fs_check_rc rc)))) s = (Ok (), s')"
    "ready u s'" "fs_unlocked s'" "P (cells (fs_chip s'))"
proof (rule strategy_total [where Q = "\<lambda>m b. b \<and> P (cells m)" and x = "()", OF assms(1)])
  show "keeps_core (bind_exec (unlock_once R) (\<lambda>_. bind_exec (on_chip g) (\<lambda>rc. lift (fs_check_rc rc))))"
    by (intro keeps)
  fix t :: "'m FlashStorage" assume t: "fs_chip t = fs_chip s" "fs_unlocked t = fs_unlocked s"
  obtain t1 where t1: "unlock_once R t = (Ok (), t1)" "writable (fs_chip t1)" "fs_unlocked t1"
    "cells (fs_chip t1) = cells (fs_chip s)"
    using unlock_total [of t] assms(1) t by (auto simp: ready_def)
  obtain m where "g (fs_chip t1) = (Ok 0, m)" "writable m" "P (cells m)"
    using total [OF t1(2,4)] by blast
  with t1 show "\<exists>t'. bind_exec (unlock_once R) (\<lambda>_. bind_exec (on_chip g) (\<lambda>rc. lift (fs_check_rc rc))) t = (Ok (), t') \<and>
      (fs_unlocked t' \<longrightarrow> writable (fs_chip t')) \<and> fs_unlocked t' \<and> P (cells (fs_chip t'))"
    by (simp add: bind_exec_def on_chip_def fs_check_rc_def lift_def)
qed (use that in blast)

lemma internal_erase_sector_total:
  assumes "ready u s" "unat k * SECTOR_SIZE + SECTOR_SIZE \<le> size"
  obtains s' where "internal_erase_sector u R k s = (Ok (), s')" "ready u s'" "fs_unlocked s'"
    "same_outside (unat k * SECTOR_SIZE) SECTOR_SIZE (cells (fs_chip s)) (cells (fs_chip s'))"
    "\<And>x. unat k * SECTOR_SIZE \<le> x \<Longrightarrow> x < unat k * SECTOR_SIZE + SECTOR_SIZE \<Longrightarrow> erased (cells (fs_chip s') x)"
proof (rule unlocked_op_total [OF assms(1), where g = "chip_erase_sector R k" and
      P = "\<lambda>c. same_outside (unat k * SECTOR_SIZE) SECTOR_SIZE (cells (fs_chip s)) c \<and>
        (\<forall>x. unat k * SECTOR_SIZE \<le> x \<and> x < unat k * SECTOR_SIZE + SECTOR_SIZE \<longrightarrow> erased (c x))"])
  fix m assume m: "writable m" "cells m = cells (fs_chip s)"
  obtain m' where m': "chip_erase_sector R k m = (Ok 0, m')" "writable m'"
    using rom_sector_total [OF m(1) assms(2)] by blast
  with rom_sector_frame [OF m'(1)] rom_sector_ok [OF m'(1)] m(2)
  show "\<exists>m'. chip_erase_sector R k m = (Ok 0, m') \<and> writable m' \<and>
      same_outside (unat k * SECTOR_SIZE) SECTOR_SIZE (cells (fs_chip s)) (cells m') \<and>
      (\<forall>x. unat k * SECTOR_SIZE \<le> x \<and> x < unat k * SECTOR_SIZE + SECTOR_SIZE \<longrightarrow> erased (cells m' x))"
    by auto
qed (use that in \<open>auto simp: internal_erase_sector_def\<close>)

lemma internal_erase_block_total:
  assumes "ready u s" "unat k * BLOCK_SIZE + BLOCK_SIZE \<le> size"
  obtains s' where "internal_erase_block u R k s = (Ok (), s')" "ready u s'"
proof (rule unlocked_op_total [OF assms(1), where g = "chip_erase_block R k" and P = "\<lambda>_. True"])
  show "\<exists>m'. chip_erase_block R k m = (Ok 0, m') \<and> writable m' \<and> True" if "writable m" for m
    using rom_block_total [OF that assms(2)] by simp
qed (use that in \<open>auto simp: internal_erase_block_def\<close>)

lemma program_total:
  assumes "writable m" "(if e then 16 else 4) dvd unat a" "(if e then 16 else 4) dvd length bs"
    "length bs \<le> SECTOR_SIZE" "unat a + length bs \<le> size"
  obtains m' where "chip_program R e a True bs m = (Ok 0, m')" "writable m'"
    "same_outside (unat a) (length bs) (cells m) (cells m')"
    "(\<And>x. unat a \<le> x \<Longrightarrow> x < unat a + length bs \<Longrightarrow> erased (cells m x)) \<Longrightarrow>
      mem_read (seen e \<circ> cells m') (unat a) (length bs) = bs"
proof -
  obtain m' where m': "chip_program R e a True bs m = (Ok 0, m')" "writable m'"
    using rom_write_total [OF assms] by blast
  have "length bs < 2 ^ 32" using assms(4) by (simp add: SECTOR_SIZE_def)
  with that [OF m'] rom_write_frame [OF m'(1)] rom_write_ok [OF m'(1)] show thesis by blast
qed

lemma rmw_write_total:
  assumes "ready u s" "fs_unlocked s" "SECTOR_SIZE dvd unat a" "length bs = SECTOR_SIZE" "unat a + SECTOR_SIZE \<le> size"
    and blank: "\<And>x. unat a \<le> x \<Longrightarrow> x < unat a + SECTOR_SIZE \<Longrightarrow> erased (cells (fs_chip s) x)"
  obtains s' where "rmw_write u R e a bs s = (Ok (), s')" "ready u s'"
    "same_outside (unat a) SECTOR_SIZE (cells (fs_chip s)) (cells (fs_chip s'))"
    "mem_read (view e s') (unat a) SECTOR_SIZE = bs"
proof -
  have al: "(if e then 16 else 4) dvd unat a" "(if e then 16 else 4) dvd length bs"
    using assms(3,4) by (auto simp: SECTOR_SIZE_def elim: dvd_trans [rotated])
  let ?P = "\<lambda>c. same_outside (unat a) SECTOR_SIZE (cells (fs_chip s)) c \<and>
    mem_read (seen e \<circ> c) (unat a) SECTOR_SIZE = bs"
  have prog: "\<exists>m'. chip_program R e a True bs m = (Ok 0, m') \<and> writable m' \<and> ?P (cells m')"
    if m: "writable m" "cells m = cells (fs_chip s)" for m
  proof (rule program_total [OF m(1) al])
    fix m' assume "chip_program R e a True bs m = (Ok 0, m')" "writable m'"
      "same_outside (unat a) (length bs) (cells m) (cells m')"
      "(\<And>x. unat a \<le> x \<Longrightarrow> x < unat a + length bs \<Longrightarrow> erased (cells m x)) \<Longrightarrow>
        mem_read (seen e \<circ> cells m') (unat a) (length bs) = bs"
    with assms(4) m(2) blank show ?thesis by auto
  qed (use assms(4,5) in simp_all)
  show thesis
  proof (cases e)
    case False
    show thesis
    proof (rule unlocked_op_total [OF assms(1), where g = "chip_write R a True bs" and P = ?P])
      show "\<exists>m'. chip_write R a True bs m = (Ok 0, m') \<and> writable m' \<and> ?P (cells m')"
        if "writable m" "cells m = cells (fs_chip s)" for m
        using prog [OF that] False by (simp add: chip_program_def)
    qed (use that False in \<open>auto simp: rmw_write_def internal_write_def view_def\<close>)
  next
    case True
    show thesis
    proof (rule strategy_total [OF assms(1), where Q = "\<lambda>m b. ?P (cells m)" and x = "()"
          and f = "bind_exec (on_chip (chip_write_encrypted R a True bs)) (\<lambda>rc. lift (fs_check_rc rc))"])
      show "keeps_core (bind_exec (on_chip (chip_write_encrypted R a True bs)) (\<lambda>rc. lift (fs_check_rc rc)))"
        by (intro keeps)
      fix t :: "'m FlashStorage" assume t: "fs_chip t = fs_chip s" "fs_unlocked t = fs_unlocked s"
      have "writable (fs_chip t)" using assms(1,2) t by (simp add: ready_def)
      from prog [OF this] t(1) obtain m' where "chip_program R e a True bs (fs_chip t) = (Ok 0, m')" "writable m'" "?P (cells m')"
        by auto
      then show "\<exists>t'. bind_exec (on_chip (chip_write_encrypted R a True bs)) (\<lambda>rc. lift (fs_check_rc rc)) t = (Ok (), t') \<and>
          (fs_unlocked t' \<longrightarrow> writable (fs_chip t')) \<and> ?P (cells (fs_chip t'))"
        using True by (simp add: bind_exec_def on_chip_def fs_check_rc_def lift_def chip_program_def)
    qed (use that True in \<open>auto simp: rmw_write_def internal_write_encrypted_def view_def\<close>)
  qed
qed

lemma internal_read_encrypted_total:
  assumes "ready u s" "unat a + n \<le> size"
  obtains s' where "internal_read_encrypted u R a n s = (Ok (mem_read (view True s) (unat a) n), s')"
    "ready u s'" "cells (fs_chip s') = cells (fs_chip s)"
proof (rule strategy_total [OF assms(1), where Q = "\<lambda>m b. cells m = cells (fs_chip s)"
      and x = "mem_read (view True s) (unat a) n" and f = "on_chip (chip_read_encrypted R a n)"])
  fix t :: "'m FlashStorage" assume t: "fs_chip t = fs_chip s" "fs_unlocked t = fs_unlocked s"
  obtain bs m' where m': "chip_read_encrypted R a n (fs_chip t) = (Ok bs, m')" "writable (fs_chip t) \<longrightarrow> writable m'"
    using rom_read_encrypted_total [OF assms(2)] by blast
  with assms(1) t rom_read_encrypted_frame [OF m'(1)] rom_read_encrypted_ok [OF m'(1)]
  show "\<exists>t'. on_chip (chip_read_encrypted R a n) t = (Ok (mem_read (view True s) (unat a) n), t') \<and>
      (fs_unlocked t' \<longrightarrow> writable (fs_chip t')) \<and> cells (fs_chip t') = cells (fs_chip s)"
    by (auto simp: on_chip_def view_def ready_def)
qed (use that in \<open>auto simp: internal_read_encrypted_def intro: keeps\<close>)

lemma rmw_read_total:
  assumes "ready u s" "SECTOR_SIZE dvd unat a" "unat a + SECTOR_SIZE \<le> size"
  obtains s' where "rmw_read u R e a s = (Ok (mem_read (view e s) (unat a) SECTOR_SIZE), s')"
    "ready u s'" "cells (fs_chip s') = cells (fs_chip s)"
proof (cases e)
  case True
  with internal_read_encrypted_total [OF assms(1,3)] that show thesis by (auto simp: rmw_read_def)
next
  case False
  have "4 dvd unat a" "4 dvd SECTOR_SIZE" using assms(2) by (auto simp: SECTOR_SIZE_def elim: dvd_trans [rotated])
  with internal_read_total [OF assms(1), of a SECTOR_SIZE] assms(3) False that show thesis
    by (auto simp: rmw_read_def)
qed

text \<open>One sector: the requested bytes change in the view, all others are kept.\<close>

lemma rmw_step:
  assumes "ready u s" "SECTOR_SIZE dvd unat a" "unat a + SECTOR_SIZE \<le> size" "d + length xs \<le> SECTOR_SIZE"
  obtains s1 s2 s3 where "rmw_read u R e a s = (Ok (mem_read (view e s) (unat a) SECTOR_SIZE), s1)"
    "internal_erase_sector u R (a div word_of_nat SECTOR_SIZE) s1 = (Ok (), s2)"
    "rmw_write u R e a (take d (mem_read (view e s) (unat a) SECTOR_SIZE) @ xs @
        drop (d + length xs) (mem_read (view e s) (unat a) SECTOR_SIZE)) s2 = (Ok (), s3)"
    "ready u s3" "view e s3 = mem_write (view e s) (unat a + d) xs"
proof -
  let ?w = "take d (mem_read (view e s) (unat a) SECTOR_SIZE) @ xs @
    drop (d + length xs) (mem_read (view e s) (unat a) SECTOR_SIZE)"
  let ?k = "a div word_of_nat SECTOR_SIZE"
  have len: "length ?w = SECTOR_SIZE" using assms(4) by simp
  have k: "unat ?k * SECTOR_SIZE = unat a"
    using assms(2) by (simp add: unat_div SECTOR_SIZE_def)
  obtain s1 where s1: "rmw_read u R e a s = (Ok (mem_read (view e s) (unat a) SECTOR_SIZE), s1)"
    "ready u s1" "cells (fs_chip s1) = cells (fs_chip s)"
    using rmw_read_total [OF assms(1-3)] by blast
  obtain s2 where s2: "internal_erase_sector u R ?k s1 = (Ok (), s2)" "ready u s2" "fs_unlocked s2"
    "same_outside (unat a) SECTOR_SIZE (cells (fs_chip s1)) (cells (fs_chip s2))"
    "\<And>x. unat a \<le> x \<Longrightarrow> x < unat a + SECTOR_SIZE \<Longrightarrow> erased (cells (fs_chip s2) x)"
    using internal_erase_sector_total [OF s1(2), of ?k] assms(3) unfolding k by blast
  obtain s3 where s3: "rmw_write u R e a ?w s2 = (Ok (), s3)" "ready u s3"
    "same_outside (unat a) SECTOR_SIZE (cells (fs_chip s2)) (cells (fs_chip s3))"
    "mem_read (view e s3) (unat a) SECTOR_SIZE = ?w"
    using rmw_write_total [OF s2(2,3) assms(2) len assms(3) s2(5)] by blast
  have "same_outside (unat a) SECTOR_SIZE (view e s) (view e s3)"
    unfolding view_def by (intro same_outside_comp same_outside_trans [OF s2(4) [unfolded s1(3)] s3(3)])
  then have "view e s3 = mem_write (view e s) (unat a) ?w"
    using s3(4) len by (intro mem_eq_writeI) simp_all
  also have "\<dots> = mem_write (view e s) (unat a + d) xs"
    by (rule mem_write_splice [OF assms(4)])
  finally show thesis using that [OF s1(1) s2(1) s3(1,2)] by blast
qed

lemma next_sector:
  assumes "SECTOR_SIZE dvd unat (a :: u32)" "unat a + SECTOR_SIZE \<le> size"
  shows "add_ovf oc a (word_of_nat SECTOR_SIZE) = (Ok (a + word_of_nat SECTOR_SIZE) :: (FlashStorageError, u32) result)"
    "unat (a + word_of_nat SECTOR_SIZE) = unat a + SECTOR_SIZE"
    "SECTOR_SIZE dvd unat (a + word_of_nat SECTOR_SIZE)"
proof -
  have "unat a + unat (word_of_nat SECTOR_SIZE :: u32) < 2 ^ LENGTH(32)"
    using assms(2) size_u32 by (simp add: SECTOR_SIZE_def)
  from add_ovf_small [OF this] unat_add_small [OF this] assms(1)
  show "add_ovf oc a (word_of_nat SECTOR_SIZE) = (Ok (a + word_of_nat SECTOR_SIZE) :: (FlashStorageError, u32) result)"
    "unat (a + word_of_nat SECTOR_SIZE) = unat a + SECTOR_SIZE"
    "SECTOR_SIZE dvd unat (a + word_of_nat SECTOR_SIZE)"
    by (auto simp: SECTOR_SIZE_def)
qed

lemma sector_inside:
  assumes "SECTOR_SIZE dvd a" "a < size"
  shows "a + SECTOR_SIZE \<le> size"
  using sector_step_le [OF assms(2,1) whole_sectors] .

lemma rmw_loop_total:
  assumes "ready u s" "SECTOR_SIZE dvd unat a" "d < SECTOR_SIZE" "bytes = [] \<or> unat a + d + length bytes \<le> size"
  shows "\<exists>s'. rmw_loop oc u R e a d bytes s = (Ok (), s') \<and> ready u s' \<and>
    view e s' = mem_write (view e s) (unat a + d) bytes"
  using assms
proof (induction "length bytes" arbitrary: bytes a d s rule: less_induct)
  case less
  show ?case
  proof (cases "bytes = []")
    case True
    with less.prems(1) show ?thesis by (simp add: rmw_loop.simps ret_def)
  next
    case False
    let ?len = "min (length bytes) (SECTOR_SIZE - d)"
    let ?a = "a + word_of_nat SECTOR_SIZE"
    have len: "0 < ?len" "d + ?len \<le> SECTOR_SIZE" "d + length (take ?len bytes) \<le> SECTOR_SIZE"
      "length (take ?len bytes) = ?len"
      using False less.prems(3) by (auto simp: min_def)
    have fits: "unat a + SECTOR_SIZE \<le> size"
      using less.prems(2,4) False by (intro sector_inside) (auto simp: neq_Nil_conv)
    note next_a = next_sector [OF less.prems(2) fits]
    obtain s1 s2 s3 where
      s1: "rmw_read u R e a s = (Ok (mem_read (view e s) (unat a) SECTOR_SIZE), s1)"
      and s2: "internal_erase_sector u R (a div word_of_nat SECTOR_SIZE) s1 = (Ok (), s2)"
      and s3: "rmw_write u R e a (take d (mem_read (view e s) (unat a) SECTOR_SIZE) @ take ?len bytes @
        drop (d + ?len) (mem_read (view e s) (unat a) SECTOR_SIZE)) s2 = (Ok (), s3)"
        "ready u s3" "view e s3 = mem_write (view e s) (unat a + d) (take ?len bytes)"
      using rmw_step [OF less.prems(1,2) fits len(3)] unfolding len(4) by blast
    have rest: "drop ?len bytes = [] \<or> unat ?a + 0 + length (drop ?len bytes) \<le> size"
      using less.prems(4) False len(2) next_a(2) by (auto simp: min_def)
    obtain s4 where s4: "rmw_loop oc u R e ?a 0 (drop ?len bytes) s3 = (Ok (), s4)" "ready u s4"
      "view e s4 = mem_write (view e s3) (unat ?a + 0) (drop ?len bytes)"
      using less.hyps [OF _ s3(2) next_a(3) _ rest] len(1) False by (auto simp: SECTOR_SIZE_def)
    have loop: "rmw_loop oc u R e a d bytes s = (Ok (), s4)"
      using False less.prems(3) s1 s2 s3(1) s4(1) next_a(1)
      by (subst rmw_loop.simps) (simp add: Let_def bind_exec_step bind_exec_lift)
    have "mem_write (mem_write (view e s) (unat a + d) (take ?len bytes)) (unat ?a + 0) (drop ?len bytes)
        = mem_write (view e s) (unat a + d) bytes"
    proof (cases "length bytes \<le> SECTOR_SIZE - d")
      case True
      then show ?thesis by simp
    next
      case False
      then have "?len = SECTOR_SIZE - d" by simp
      with mem_write_append [of "view e s" "unat a + d" "take ?len bytes" "drop ?len bytes"] len(4) less.prems(3) False
      show ?thesis unfolding next_a(2) by simp
    qed
    with loop s4(2,3) s3(3) show ?thesis by auto
  qed
qed

lemma check_bounds_ok: "unat offset + n \<le> fs_capacity s \<Longrightarrow> fs_check_bounds offset n s = (Ok (), s)"
  by (simp add: fs_check_bounds_def)

lemma sector_split:
  "unat (offset - offset mod word_of_nat SECTOR_SIZE :: u32) + unat (offset mod word_of_nat SECTOR_SIZE) = unat offset"
  "SECTOR_SIZE dvd unat (offset - offset mod word_of_nat SECTOR_SIZE :: u32)"
  "unat (offset mod word_of_nat SECTOR_SIZE :: u32) < SECTOR_SIZE"
proof -
  have m: "unat (offset mod word_of_nat SECTOR_SIZE :: u32) = unat offset mod SECTOR_SIZE"
    by (simp add: unat_mod SECTOR_SIZE_def)
  have d: "unat (offset - offset mod word_of_nat SECTOR_SIZE :: u32) = unat offset - unat offset mod SECTOR_SIZE"
    unfolding m [symmetric] by (intro unat_sub_small) (simp add: m)
  show "unat (offset - offset mod word_of_nat SECTOR_SIZE :: u32) + unat (offset mod word_of_nat SECTOR_SIZE) = unat offset"
    unfolding m d by simp
  show "SECTOR_SIZE dvd unat (offset - offset mod word_of_nat SECTOR_SIZE :: u32)" unfolding d by simp
  show "unat (offset mod word_of_nat SECTOR_SIZE :: u32) < SECTOR_SIZE" unfolding m by (simp add: SECTOR_SIZE_def)
qed

text \<open>\<open>write\<close> and \<open>write_encrypted\<close> change exactly the requested bytes.\<close>

lemma storage_write_total:
  assumes "ready u s" "unat offset + length bytes \<le> fs_capacity s" "fs_capacity s \<le> size"
  shows "\<exists>s'. storage_write oc u R offset bytes s = (Ok (), s') \<and> ready u s' \<and>
      view False s' = mem_write (view False s) (unat offset) bytes"
    and "\<exists>s'. storage_write_encrypted oc u True R offset bytes s = (Ok (), s') \<and> ready u s' \<and>
      view True s' = mem_write (view True s) (unat offset) bytes"
proof -
  let ?d = "offset mod word_of_nat SECTOR_SIZE"
  have "\<exists>s'. rmw_loop oc u R e (offset - ?d) (unat ?d) bytes s = (Ok (), s') \<and> ready u s' \<and>
      view e s' = mem_write (view e s) (unat (offset - ?d) + unat ?d) bytes" for e
    by (rule rmw_loop_total [OF assms(1) sector_split(2,3)]) (use assms(2,3) sector_split(1) [of offset] in auto)
  note this [unfolded sector_split(1)]
  with check_bounds_ok [OF assms(2)]
  show "\<exists>s'. storage_write oc u R offset bytes s = (Ok (), s') \<and> ready u s' \<and>
      view False s' = mem_write (view False s) (unat offset) bytes"
    "\<exists>s'. storage_write_encrypted oc u True R offset bytes s = (Ok (), s') \<and> ready u s' \<and>
      view True s' = mem_write (view True s) (unat offset) bytes"
    by (simp_all add: storage_write_def storage_write_encrypted_def Let_def bind_exec_step(1))
qed

lemma size_limit: "size \<le> 2 ^ 32 - SECTOR_SIZE"
  using sector_step_le [OF size_u32 whole_sectors] by (simp add: SECTOR_SIZE_def)

lemma add_sector:
  assumes "unat (a :: u32) < size"
  shows "add_ovf oc a (word_of_nat SECTOR_SIZE) = (Ok (a + word_of_nat SECTOR_SIZE) :: (FlashStorageError, u32) result)"
    "unat (a + word_of_nat SECTOR_SIZE) = unat a + SECTOR_SIZE"
proof -
  have "unat a + unat (word_of_nat SECTOR_SIZE :: u32) < 2 ^ LENGTH(32)"
    using assms size_limit by (simp add: SECTOR_SIZE_def)
  from add_ovf_small [OF this] unat_add_small [OF this]
  show "add_ovf oc a (word_of_nat SECTOR_SIZE) = (Ok (a + word_of_nat SECTOR_SIZE) :: (FlashStorageError, u32) result)"
    "unat (a + word_of_nat SECTOR_SIZE) = unat a + SECTOR_SIZE"
    by (auto simp: SECTOR_SIZE_def)
qed

lemma word_round_up:
  assumes "4 dvd a" "a + x \<le> size"
  shows "a + (x + 3) div 4 * 4 \<le> size"
proof -
  have "4 dvd size" using whole_sectors by (auto simp: SECTOR_SIZE_def elim: dvd_trans [rotated])
  with assms obtain j k where "a = 4 * j" "size = 4 * k" by (auto elim!: dvdE)
  with assms(2) have "x \<le> 4 * (k - j)" "j \<le> k" by auto
  then have "(x + 3) div 4 \<le> (4 * (k - j) + 3) div 4" by (intro div_le_mono) simp
  then have "(x + 3) div 4 * 4 \<le> 4 * (k - j)" by simp
  with \<open>a = 4 * j\<close> \<open>size = 4 * k\<close> \<open>j \<le> k\<close> show ?thesis by simp
qed

lemma storage_read_loop_total:
  assumes "ready u s" "4 dvd unat a" "d < 4" "n = 0 \<or> unat a + d + n \<le> size"
  shows "\<exists>s'. storage_read_loop oc R a d n s = (Ok (mem_read (view False s) (unat a + d) n), s') \<and> ready u s' \<and>
    cells (fs_chip s') = cells (fs_chip s)"
  using assms
proof (induction n arbitrary: a d s rule: less_induct)
  case (less n)
  show ?case
  proof (cases "n = 0")
    case True
    with less.prems(1) show ?thesis by (simp add: storage_read_loop.simps ret_def)
  next
    case False
    let ?len = "min n (SECTOR_SIZE - d)"
    let ?stop = "(d + ?len + 3) div 4 * 4"
    let ?a = "a + word_of_nat SECTOR_SIZE"
    have d: "d < SECTOR_SIZE" using less.prems(3) by (simp add: SECTOR_SIZE_def)
    have e: "d + ?len \<le> ?stop" "4 dvd ?stop" "?stop \<le> SECTOR_SIZE"
      using d by (simp_all add: SECTOR_SIZE_def)
    have fits: "unat a + ?stop \<le> size" "unat a < size"
      using word_round_up [OF less.prems(2), of "d + ?len"] less.prems(4) False by auto
    note next_a = add_sector [OF fits(2)]
    obtain s1 where s1: "internal_read R a True ?stop s = (Ok (mem_read (view False s) (unat a) ?stop), s1)"
      "ready u s1" "cells (fs_chip s1) = cells (fs_chip s)"
      using internal_read_total [OF less.prems(1,2) e(2,3) fits(1)] .
    have len: "n - ?len < n" using False d by auto
    have "4 dvd unat ?a" using less.prems(2) next_a(2) by (simp add: SECTOR_SIZE_def)
    moreover have "n - ?len = 0 \<or> unat ?a + 0 + (n - ?len) \<le> size"
      using less.prems(4) False next_a(2) by (auto simp: min_def)
    ultimately obtain s2 where s2: "storage_read_loop oc R ?a 0 (n - ?len) s1
        = (Ok (mem_read (view False s1) (unat ?a + 0) (n - ?len)), s2)" "ready u s2"
      "cells (fs_chip s2) = cells (fs_chip s1)"
      using less.IH [OF len s1(2), of ?a 0] by auto
    have "storage_read_loop oc R a d n s
        = (Ok (slice d ?len (mem_read (view False s) (unat a) ?stop) @
            mem_read (view False s1) (unat ?a + 0) (n - ?len)), s2)"
      using False d s1(1) s2(1) next_a(1)
      by (subst storage_read_loop.simps) (simp add: Let_def bind_exec_step bind_exec_lift ret_def)
    also have "slice d ?len (mem_read (view False s) (unat a) ?stop) = mem_read (view False s) (unat a + d) ?len"
      by (rule slice_mem_read [OF e(1)])
    also have "mem_read (view False s1) (unat ?a + 0) (n - ?len)
        = mem_read (view False s) (unat a + d + ?len) (n - ?len)"
      using s1(3) next_a(2) d by (auto simp: view_def min_def)
    also have "mem_read (view False s) (unat a + d) ?len @ mem_read (view False s) (unat a + d + ?len) (n - ?len)
        = mem_read (view False s) (unat a + d) n"
      using mem_read_append [of "view False s" "unat a + d" ?len "n - ?len"] by simp
    finally show ?thesis using s2(2,3) s1(3) by auto
  qed
qed

lemma storage_read_total:
  assumes "ready u s" "unat offset + n \<le> fs_capacity s" "fs_capacity s \<le> size"
  shows "\<exists>s'. storage_read oc R offset n s = (Ok (mem_read (view False s) (unat offset) n), s') \<and> ready u s' \<and>
    cells (fs_chip s') = cells (fs_chip s)"
proof -
  have m: "unat (offset mod 4) = unat offset mod 4" by (simp add: unat_mod)
  have d: "unat (offset - offset mod 4) = unat offset - unat offset mod 4"
    unfolding m [symmetric] by (intro unat_sub_small) (simp add: m)
  have a: "4 dvd unat (offset - offset mod 4)" "unat (offset mod 4) < 4"
    unfolding d m by simp_all
  have "unat (offset - offset mod 4) + unat (offset mod 4) = unat offset" unfolding d m by simp
  with storage_read_loop_total [OF assms(1) a, of n oc] assms(2,3) check_bounds_ok [OF assms(2)]
  show ?thesis by (simp add: storage_read_def Let_def bind_exec_step(1))
qed

lemma storage_read_encrypted_loop_total:
  assumes "ready u s" "SECTOR_SIZE dvd unat a" "d < SECTOR_SIZE" "n = 0 \<or> unat a + d + n \<le> size"
  shows "\<exists>s'. storage_read_encrypted_loop oc u R a d n s = (Ok (mem_read (view True s) (unat a + d) n), s') \<and>
    ready u s' \<and> cells (fs_chip s') = cells (fs_chip s)"
  using assms
proof (induction n arbitrary: a d s rule: less_induct)
  case (less n)
  show ?case
  proof (cases "n = 0")
    case True
    with less.prems(1) show ?thesis by (simp add: storage_read_encrypted_loop.simps ret_def)
  next
    case False
    let ?len = "min n (SECTOR_SIZE - d)"
    let ?a = "a + word_of_nat SECTOR_SIZE"
    have fits: "unat a + SECTOR_SIZE \<le> size" "unat a < size"
      using sector_inside [OF less.prems(2)] less.prems(4) False by auto
    note next_a = next_sector [OF less.prems(2) fits(1)]
    obtain s1 where s1: "internal_read_encrypted u R a SECTOR_SIZE s = (Ok (mem_read (view True s) (unat a) SECTOR_SIZE), s1)"
      "ready u s1" "cells (fs_chip s1) = cells (fs_chip s)"
      using internal_read_encrypted_total [OF less.prems(1) fits(1)] .
    have len: "n - ?len < n" "d + ?len \<le> SECTOR_SIZE" using False less.prems(3) by auto
    have "n - ?len = 0 \<or> unat ?a + 0 + (n - ?len) \<le> size"
      using less.prems(4) False next_a(2) by (auto simp: min_def)
    then obtain s2 where s2: "storage_read_encrypted_loop oc u R ?a 0 (n - ?len) s1
        = (Ok (mem_read (view True s1) (unat ?a + 0) (n - ?len)), s2)" "ready u s2"
      "cells (fs_chip s2) = cells (fs_chip s1)"
      using less.IH [OF len(1) s1(2) next_a(3), of 0] by (auto simp: SECTOR_SIZE_def)
    have "storage_read_encrypted_loop oc u R a d n s
        = (Ok (slice d ?len (mem_read (view True s) (unat a) SECTOR_SIZE) @
            mem_read (view True s1) (unat ?a + 0) (n - ?len)), s2)"
      using False less.prems(3) s1(1) s2(1) next_a(1)
      by (subst storage_read_encrypted_loop.simps) (simp add: Let_def bind_exec_step bind_exec_lift ret_def)
    also have "slice d ?len (mem_read (view True s) (unat a) SECTOR_SIZE) = mem_read (view True s) (unat a + d) ?len"
      by (rule slice_mem_read [OF len(2)])
    also have "mem_read (view True s1) (unat ?a + 0) (n - ?len)
        = mem_read (view True s) (unat a + d + ?len) (n - ?len)"
      using s1(3) next_a(2) less.prems(3) by (auto simp: view_def min_def)
    also have "mem_read (view True s) (unat a + d) ?len @ mem_read (view True s) (unat a + d + ?len) (n - ?len)
        = mem_read (view True s) (unat a + d) n"
      using mem_read_append [of "view True s" "unat a + d" ?len "n - ?len"] by simp
    finally show ?thesis using s2(2,3) s1(3) by auto
  qed
qed

lemma storage_read_encrypted_total:
  assumes "ready u s" "unat offset + n \<le> fs_capacity s" "fs_capacity s \<le> size"
  shows "\<exists>s'. storage_read_encrypted oc u R offset n s = (Ok (mem_read (view True s) (unat offset) n), s') \<and>
    ready u s' \<and> cells (fs_chip s') = cells (fs_chip s)"
proof -
  let ?d = "offset mod word_of_nat SECTOR_SIZE"
  have "\<exists>s'. storage_read_encrypted_loop oc u R (offset - ?d) (unat ?d) n s
      = (Ok (mem_read (view True s) (unat (offset - ?d) + unat ?d) n), s') \<and> ready u s' \<and>
      cells (fs_chip s') = cells (fs_chip s)"
    by (rule storage_read_encrypted_loop_total [OF assms(1) sector_split(2,3)])
      (use assms(2,3) sector_split(1) [of offset] in auto)
  note this [unfolded sector_split(1)]
  with check_bounds_ok [OF assms(2)] show ?thesis
    by (simp add: storage_read_encrypted_def Let_def bind_exec_step(1))
qed

text \<open>The NOR interface: every variant of the chunk reader returns the contents.\<close>

lemma read_chunk_total:
  assumes "ready u s" "4 dvd unat a" "n \<le> SECTOR_SIZE" "unat a + n \<le> size" "\<not> bytewise \<longrightarrow> 4 dvd n"
  obtains s' where "read_chunk oc bytewise R al a n s = (Ok (mem_read (view False s) (unat a) n), s')"
    "ready u s'" "cells (fs_chip s') = cells (fs_chip s)"
proof -
  consider "\<not> bytewise" | "bytewise" "al" | "bytewise" "\<not> al" by blast
  then show thesis
  proof cases
    case 1
    with assms that internal_read_total [OF assms(1,2) _ assms(3,4)] show thesis
      by (auto simp: read_chunk_def)
  next
    case 2
    let ?l = "n - n mod 4"
    have l: "4 dvd ?l" "?l \<le> SECTOR_SIZE" "unat a + ?l \<le> size" using assms(3,4) by (auto simp: dvd_minus_mod)
    obtain s1 where s1: "internal_read R a True ?l s = (Ok (mem_read (view False s) (unat a) ?l), s1)"
      "ready u s1" "cells (fs_chip s1) = cells (fs_chip s)"
      using internal_read_total [OF assms(1,2) l] .
    show thesis
    proof (cases "n mod 4 = 0")
      case True
      with 2 s1 that show thesis by (simp add: read_chunk_def Let_def bind_exec_step ret_def)
    next
      case False
      let ?a = "a + word_of_nat ?l"
      have "unat a + ((n + 3) div 4 * 4) \<le> size" by (rule word_round_up [OF assms(2,4)])
      moreover have "?l + 4 = (n + 3) div 4 * 4" using False by presburger
      ultimately have end4: "unat a + ?l + 4 \<le> size" by simp
      have lw: "unat (word_of_nat ?l :: u32) = ?l"
        using l(2) by (intro unat_of_nat_u32) (simp add: SECTOR_SIZE_def)
      have sum: "unat a + unat (word_of_nat ?l :: u32) < 2 ^ LENGTH(32)" using end4 size_u32 lw by simp
      have add: "add_ovf oc a (word_of_nat ?l) = (Ok ?a :: (FlashStorageError, u32) result)"
        by (rule add_ovf_small [OF sum])
      have ua: "unat ?a = unat a + ?l" using unat_add_small [OF sum] lw by simp
      obtain s2 where s2: "internal_read R ?a True 4 s1 = (Ok (mem_read (view False s1) (unat ?a) 4), s2)"
        "ready u s2" "cells (fs_chip s2) = cells (fs_chip s1)"
      proof (rule internal_read_total [OF s1(2)])
        show "4 dvd unat ?a" unfolding ua using l(1) assms(2) by (rule dvd_add [rotated])
        show "unat ?a + 4 \<le> size" unfolding ua by (rule end4)
      qed (auto simp: SECTOR_SIZE_def)
      have "mem_read (view False s) (unat a) n = mem_read (view False s) (unat a) ?l @ take (n mod 4) (mem_read (view False s1) (unat ?a) 4)"
        using mem_read_append [of "view False s" "unat a" ?l "n mod 4"] s1(3) ua
        by (simp add: take_mem_read view_def min_def)
      with 2 False s1(1) s2 s1(3) add that [of s2] show thesis
        by (simp add: read_chunk_def Let_def bind_exec_step bind_exec_lift ret_def)
    qed
  next
    case 3
    let ?l = "if n mod 4 > 0 then n - n mod 4 + 4 else n"
    have l: "?l = (n + 3) div 4 * 4" by presburger
    have "4 dvd ?l" "?l \<le> SECTOR_SIZE" "unat a + ?l \<le> size" "n \<le> ?l"
      unfolding l using word_round_up [OF assms(2,4)] assms(3) by (auto simp: SECTOR_SIZE_def)
    then obtain s1 where s1: "internal_read R a True ?l s = (Ok (mem_read (view False s) (unat a) ?l), s1)"
      "ready u s1" "cells (fs_chip s1) = cells (fs_chip s)" "n \<le> ?l"
      using internal_read_total [OF assms(1,2)] by metis
    show thesis
      by (rule that [of s1])
        (use 3 s1 in \<open>simp_all add: read_chunk_def Let_def bind_exec_step ret_def take_mem_read min_absorb1\<close>)
  qed
qed

lemma read_chunks_total:
  assumes "ready u s" "4 dvd unat a" "n = 0 \<or> unat a + n \<le> size" "\<not> bytewise \<longrightarrow> 4 dvd n"
  shows "\<exists>s'. read_chunks oc bytewise R al a n s = (Ok (mem_read (view False s) (unat a) n), s') \<and>
    ready u s' \<and> cells (fs_chip s') = cells (fs_chip s)"
  using assms
proof (induction n arbitrary: a s rule: less_induct)
  case (less n)
  show ?case
  proof (cases "n = 0")
    case True
    with less.prems(1) show ?thesis by (simp add: read_chunks.simps ret_def)
  next
    case False
    let ?len = "min n SECTOR_SIZE" and ?a = "a + word_of_nat SECTOR_SIZE"
    have fits: "unat a + ?len \<le> size" "unat a < size" "n - ?len < n" "?len \<le> SECTOR_SIZE"
      using less.prems(3) False by (auto simp: SECTOR_SIZE_def)
    have al: "\<not> bytewise \<longrightarrow> 4 dvd ?len" "\<not> bytewise \<longrightarrow> 4 dvd n - ?len"
      using less.prems(4) by (auto simp: min_def SECTOR_SIZE_def)
    note next_a = add_sector [OF fits(2)]
    obtain s1 where s1: "read_chunk oc bytewise R al a ?len s = (Ok (mem_read (view False s) (unat a) ?len), s1)"
      "ready u s1" "cells (fs_chip s1) = cells (fs_chip s)"
      using read_chunk_total [OF less.prems(1,2) fits(4,1) al(1)] .
    have "4 dvd unat ?a" using less.prems(2) next_a(2) by (simp add: SECTOR_SIZE_def)
    moreover have "n - ?len = 0 \<or> unat ?a + (n - ?len) \<le> size"
      using less.prems(3) next_a(2) by (auto simp: min_def)
    ultimately obtain s2 where s2: "read_chunks oc bytewise R al ?a (n - ?len) s1
        = (Ok (mem_read (view False s1) (unat ?a) (n - ?len)), s2)" "ready u s2" "cells (fs_chip s2) = cells (fs_chip s1)"
      using less.IH [OF fits(3) s1(2) _ _ al(2)] by blast
    have "read_chunks oc bytewise R al a n s
        = (Ok (mem_read (view False s) (unat a) ?len @ mem_read (view False s1) (unat ?a) (n - ?len)), s2)"
      using False s1(1) s2(1) next_a(1)
      by (subst read_chunks.simps) (simp add: Let_def bind_exec_step bind_exec_lift ret_def)
    also have "mem_read (view False s1) (unat ?a) (n - ?len) = mem_read (view False s) (unat a + ?len) (n - ?len)"
      using s1(3) next_a(2) by (auto simp: view_def min_def)
    also have "mem_read (view False s) (unat a) ?len @ mem_read (view False s) (unat a + ?len) (n - ?len)
        = mem_read (view False s) (unat a) n"
      using mem_read_append [of "view False s" "unat a" ?len "n - ?len"] by simp
    finally show ?thesis using s2(2,3) s1(3) by auto
  qed
qed

lemma read_nor_total:
  assumes "ready u s" "unat offset + n \<le> fs_capacity s" "fs_capacity s \<le> size"
    and "fs_READ_SIZE bytewise dvd unat offset" "fs_READ_SIZE bytewise dvd n"
  shows "\<exists>s'. read_nor oc bytewise R p offset n s = (Ok (mem_read (view False s) (unat offset) n), s') \<and>
    ready u s' \<and> cells (fs_chip s') = cells (fs_chip s)"
proof -
  let ?b = "unat offset mod 4"
  have pre: "lift (fs_check_alignment (fs_READ_SIZE bytewise) offset n) s = (Ok (), s)"
    "fs_check_bounds offset n s = (Ok (), s)"
    using assms by (simp_all add: fs_check_alignment_def lift_def check_bounds_ok)
  have nb: "\<not> bytewise \<longrightarrow> 4 dvd n" "\<not> bytewise \<longrightarrow> ?b = 0"
    using assms(4,5) by (auto simp: fs_READ_SIZE_def split: if_splits)
  show ?thesis
  proof (cases "?b = 0")
    case True
    then have "4 dvd unat offset" by (simp add: mod_eq_0_iff_dvd)
    with True read_chunks_total [OF assms(1) this, of n bytewise oc "is_word_aligned p"] nb assms(2,3) pre
    show ?thesis by (auto simp: read_nor_def Let_def bind_exec_step)
  next
    case False
    let ?o = "offset - word_of_nat ?b" and ?l = "min n (4 - ?b)"
    have bw: "bytewise" using nb False by blast
    have wb: "unat (word_of_nat ?b :: u32) = ?b" by (intro unat_of_nat_u32) simp
    have o: "unat ?o = unat offset - ?b" using unat_sub_small [of "word_of_nat ?b" offset] wb by simp
    have o4: "4 dvd unat ?o" unfolding o by (rule dvd_minus_mod)
    have b: "(?b + 3) div 4 * 4 = 4" using False by presburger
    have ob: "unat ?o + ?b = unat offset" unfolding o by simp
    have o_fits: "unat ?o + 4 \<le> size"
      using word_round_up [OF o4, of ?b] assms(2,3) ob b by simp
    have sum: "unat ?o + unat (4 :: u32) < 2 ^ LENGTH(32)" using o_fits size_u32 by simp
    have add: "add_ovf oc ?o 4 = (Ok (?o + 4) :: (FlashStorageError, u32) result)" by (rule add_ovf_small [OF sum])
    have uo: "unat (?o + 4) = unat ?o + 4" using unat_add_small [OF sum] by simp
    obtain s1 where s1: "internal_read R ?o True 4 s = (Ok (mem_read (view False s) (unat ?o) 4), s1)"
      "ready u s1" "cells (fs_chip s1) = cells (fs_chip s)"
      by (rule internal_read_total [OF assms(1) o4 _ _ o_fits]) (auto simp: SECTOR_SIZE_def)
    have "4 dvd unat (?o + 4)" unfolding uo using o4 by simp
    moreover have "n - ?l = 0 \<or> unat (?o + 4) + (n - ?l) \<le> size"
      using assms(2,3) uo ob by (auto simp: min_def)
    ultimately obtain s2 where s2: "read_chunks oc bytewise R (is_word_aligned (p + ?l)) (?o + 4) (n - ?l) s1
        = (Ok (mem_read (view False s1) (unat (?o + 4)) (n - ?l)), s2)" "ready u s2" "cells (fs_chip s2) = cells (fs_chip s1)"
      using read_chunks_total [OF s1(2), of "?o + 4" "n - ?l" bytewise] bw by blast
    have "read_nor oc bytewise R p offset n s
        = (Ok (slice ?b ?l (mem_read (view False s) (unat ?o) 4) @ mem_read (view False s1) (unat (?o + 4)) (n - ?l)), s2)"
      using bw False pre add s1(1) s2(1)
      by (simp add: read_nor_def Let_def bind_exec_step bind_exec_lift ret_def)
    also have "slice ?b ?l (mem_read (view False s) (unat ?o) 4) = mem_read (view False s) (unat offset) ?l"
      using slice_mem_read [of ?b ?l 4 "view False s" "unat ?o"] ob by simp
    also have "mem_read (view False s1) (unat (?o + 4)) (n - ?l) = mem_read (view False s) (unat offset + ?l) (n - ?l)"
    proof -
      have "?b < 4" by simp
      then have "n - ?l = 0 \<or> unat (?o + 4) = unat offset + ?l" using uo ob by arith
      then show ?thesis using s1(3) by (elim disjE) (simp_all add: view_def)
    qed
    also have "mem_read (view False s) (unat offset) ?l @ mem_read (view False s) (unat offset + ?l) (n - ?l)
        = mem_read (view False s) (unat offset) n"
      using mem_read_append [of "view False s" "unat offset" ?l "n - ?l"] by simp
    finally show ?thesis using s2(2,3) s1(3) by auto
  qed
qed

text \<open>\<open>write_nor\<close> programs the range and nothing else; on erased cells the bytes read back.\<close>

definition programs :: "nat \<Rightarrow> u8 list \<Rightarrow> (nat \<Rightarrow> 'c) \<Rightarrow> (nat \<Rightarrow> 'c) \<Rightarrow> bool" where
  "programs a bs c c' \<longleftrightarrow> same_outside a (length bs) c c' \<and>
    ((\<forall>x. a \<le> x \<and> x < a + length bs \<longrightarrow> erased (c x)) \<longrightarrow> mem_read (seen False \<circ> c') a (length bs) = bs)"

lemma programs_nil: "programs a [] c c' \<longleftrightarrow> c' = c"
  by (auto simp: programs_def same_outside_def fun_eq_iff)

lemma programs_append:
  assumes "programs a xs c c'" "programs (a + length xs) ys c' c''"
  shows "programs a (xs @ ys) c c''"
  unfolding programs_def
proof (intro conjI impI)
  show "same_outside a (length (xs @ ys)) c c''"
    using assms by (auto simp: programs_def same_outside_def)
  assume blank: "\<forall>x. a \<le> x \<and> x < a + length (xs @ ys) \<longrightarrow> erased (c x)"
  then have "mem_read (seen False \<circ> c') a (length xs) = xs" using assms(1) by (simp add: programs_def)
  moreover have "mem_read (seen False \<circ> c'') a (length xs) = mem_read (seen False \<circ> c') a (length xs)"
    using assms(2) by (intro mem_read_cong) (auto simp: programs_def same_outside_def)
  moreover have "erased (c' x)" if "a + length xs \<le> x" "x < a + length xs + length ys" for x
  proof -
    have "c' x = c x" using assms(1) that by (auto simp: programs_def same_outside_def)
    with blank that show ?thesis by simp
  qed
  then have "mem_read (seen False \<circ> c'') (a + length xs) (length ys) = ys"
    using assms(2) by (simp add: programs_def)
  ultimately show "mem_read (seen False \<circ> c'') a (length (xs @ ys)) = xs @ ys"
    by (simp add: mem_read_append)
qed

lemma internal_write_total:
  assumes "ready u s" "4 dvd unat a" "4 dvd length bs" "length bs \<le> SECTOR_SIZE" "unat a + length bs \<le> size"
  obtains s' where "internal_write u R a True bs s = (Ok (), s')" "ready u s'"
    "programs (unat a) bs (cells (fs_chip s)) (cells (fs_chip s'))"
proof (rule unlocked_op_total [OF assms(1), where g = "chip_write R a True bs" and
    P = "programs (unat a) bs (cells (fs_chip s))"])
  fix m assume m: "writable m" "cells m = cells (fs_chip s)"
  show "\<exists>m'. chip_write R a True bs m = (Ok 0, m') \<and> writable m' \<and> programs (unat a) bs (cells (fs_chip s)) (cells m')"
    by (rule program_total [OF m(1), of False a bs]) (use assms m(2) in \<open>auto simp: chip_program_def programs_def\<close>)
qed (use that in \<open>auto simp: internal_write_def\<close>)

lemma write_chunks_total:
  assumes "ready u s" "4 dvd unat a" "4 dvd length bs" "bs = [] \<or> unat a + length bs \<le> size"
  shows "\<exists>s'. write_chunks oc u R a bs s = (Ok (), s') \<and> ready u s' \<and>
    programs (unat a) bs (cells (fs_chip s)) (cells (fs_chip s'))"
  using assms
proof (induction "length bs" arbitrary: bs a s rule: less_induct)
  case less
  show ?case
  proof (cases "bs = []")
    case True
    with less.prems(1) show ?thesis by (simp add: write_chunks.simps ret_def programs_nil)
  next
    case False
    let ?c = "take SECTOR_SIZE bs" and ?r = "drop SECTOR_SIZE bs" and ?a = "a + word_of_nat SECTOR_SIZE"
    have c: "4 dvd length ?c" "length ?c \<le> SECTOR_SIZE" "unat a + length ?c \<le> size" "unat a < size"
      using less.prems(3,4) False by (auto simp: SECTOR_SIZE_def min_def neq_Nil_conv)
    note next_a = add_sector [OF c(4)]
    have r: "4 dvd length ?r" "?r = [] \<or> unat ?a + length ?r \<le> size" "length ?r < length bs" "4 dvd unat ?a"
      using less.prems(2,3,4) False next_a(2) by (auto simp: SECTOR_SIZE_def dvd_diff_nat)
    obtain s1 where s1: "internal_write u R a True ?c s = (Ok (), s1)" "ready u s1"
      "programs (unat a) ?c (cells (fs_chip s)) (cells (fs_chip s1))"
      using internal_write_total [OF less.prems(1,2) c(1-3)] .
    obtain s2 where s2: "write_chunks oc u R ?a ?r s1 = (Ok (), s2)" "ready u s2"
      "programs (unat ?a) ?r (cells (fs_chip s1)) (cells (fs_chip s2))"
      using less.hyps [OF r(3) s1(2) r(4,1,2)] by blast
    have "write_chunks oc u R a bs s = (Ok (), s2)"
      using False s1(1) s2(1) next_a(1)
      by (subst write_chunks.simps) (simp add: bind_exec_step bind_exec_lift)
    moreover have "programs (unat a + length ?c) ?r (cells (fs_chip s1)) (cells (fs_chip s2))"
      using s2(3) next_a(2) by (cases "length bs \<le> SECTOR_SIZE") (simp_all add: programs_nil)
    from programs_append [OF s1(3) this]
    have "programs (unat a) bs (cells (fs_chip s)) (cells (fs_chip s2))" by simp
    ultimately show ?thesis using s2(2) by blast
  qed
qed

lemma write_nor_total:
  assumes "ready u s" "unat offset + length bs \<le> fs_capacity s" "fs_capacity s \<le> size"
    and "4 dvd unat offset" "4 dvd length bs"
  shows "\<exists>s'. write_nor oc u R offset bs s = (Ok (), s') \<and> ready u s' \<and>
    programs (unat offset) bs (cells (fs_chip s)) (cells (fs_chip s'))"
proof -
  have "lift (fs_check_alignment 4 offset (length bs)) s = (Ok (), s)" "fs_check_bounds offset (length bs) s = (Ok (), s)"
    using assms by (simp_all add: fs_check_alignment_def lift_def check_bounds_ok)
  with write_chunks_total [OF assms(1,4,5), of oc] assms(2,3) show ?thesis
    by (auto simp: write_nor_def bind_exec_step)
qed

end

section \<open>Erasing\<close>

context storage_rom
begin

text \<open>
  Whatever the outcome, an unlocked operation either fails and leaves the cells alone, or changes them
  as its chip operation does; it succeeds only if the chip operation reports success.
\<close>

lemma unlocked_op_cases:
  assumes w: "with_strategy u (bind_exec (unlock_once R) (\<lambda>_.
      bind_exec (on_chip g) (\<lambda>rc. lift (fs_check_rc rc)))) s = (r, s')"
  shows "(\<not> is_ok r \<and> cells (fs_chip s') = cells (fs_chip s)) \<or>
    (\<exists>m q. cells m = cells (fs_chip s) \<and> g m = (q, fs_chip s') \<and> (is_ok r \<longrightarrow> q = Ok 0))"
proof (cases "core_ok u s")
  case False
  with w show ?thesis by (auto simp: with_strategy_blocked)
next
  case True
  let ?f = "bind_exec (unlock_once R) (\<lambda>_. bind_exec (on_chip g) (\<lambda>rc. lift (fs_check_rc rc)))"
  have k: "keeps_core ?f" by (intro keeps)
  from with_strategy_run [OF True k w] obtain t t' where
    t: "fs_chip t = fs_chip s" "?f t = (r, t')" "s' = t'\<lparr>fs_other_running := fs_other_running s\<rparr>" .
  obtain q t1 where t1: "unlock_once R t = (q, t1)" by force
  then have c1: "cells (fs_chip t1) = cells (fs_chip s)"
    using t(1) by (auto simp: unlock_once_def bind_exec_def on_chip_def fail_def split: if_splits prod.splits result.splits
        dest!: rom_unlock_frame)
  obtain p m where m: "g (fs_chip t1) = (p, m)" by force
  have "(\<not> is_ok r \<and> t' = t1) \<or> (fs_chip t' = m \<and> (is_ok r \<longrightarrow> p = Ok 0))"
    using t(2) t1 m by (cases q; cases p) (auto simp: bind_exec_def on_chip_def lift_def fs_check_rc_def split: if_splits)
  then show ?thesis using t(3) c1 m by auto
qed

lemma erase_address:
  assumes "sz dvd a" "a + sz \<le> size"
  shows "unat (word_of_nat (a div sz) :: u32) * sz = a"
proof -
  have "a div sz \<le> a" by simp
  also have "a < 2 ^ 32" using assms(2) size_u32 by linarith
  finally have "unat (word_of_nat (a div sz) :: u32) = a div sz" by (intro unat_of_nat_u32) simp
  with assms(1) show ?thesis by simp
qed

lemma internal_erase_sector_frame:
  assumes "internal_erase_sector u R k s = (r, s')"
  shows "same_outside (unat k * SECTOR_SIZE) SECTOR_SIZE (cells (fs_chip s)) (cells (fs_chip s'))"
  using unlocked_op_cases [OF assms [unfolded internal_erase_sector_def]] rom_sector_frame by (metis same_outside_refl)

lemma internal_erase_block_frame:
  assumes "internal_erase_block u R k s = (r, s')"
  shows "same_outside (unat k * BLOCK_SIZE) BLOCK_SIZE (cells (fs_chip s)) (cells (fs_chip s'))"
  using unlocked_op_cases [OF assms [unfolded internal_erase_block_def]] rom_block_frame by (metis same_outside_refl)

lemma internal_erase_sector_ok:
  assumes "internal_erase_sector u R k s = (Ok v, s')" "unat k * SECTOR_SIZE \<le> x" "x < unat k * SECTOR_SIZE + SECTOR_SIZE"
  shows "erased (cells (fs_chip s') x)"
  using unlocked_op_cases [OF assms(1) [unfolded internal_erase_sector_def]] rom_sector_ok assms(2,3) by fastforce

lemma internal_erase_block_ok:
  assumes "internal_erase_block u R k s = (Ok v, s')" "unat k * BLOCK_SIZE \<le> x" "x < unat k * BLOCK_SIZE + BLOCK_SIZE"
  shows "erased (cells (fs_chip s') x)"
  using unlocked_op_cases [OF assms(1) [unfolded internal_erase_block_def]] rom_block_ok assms(2,3) by fastforce

end

sublocale storage_rom \<subseteq> eraser: reliable_eraser
    "\<lambda>address. internal_erase_sector u R (word_of_nat (address div SECTOR_SIZE))"
    "\<lambda>address. internal_erase_block u R (word_of_nat (address div BLOCK_SIZE))"
    "\<lambda>s. cells (fs_chip s)" erased size "ready u" for u
proof (unfold_locales, goal_cases)
  case (1 a s r s')
  then show ?case using internal_erase_sector_frame erase_address by metis
next
  case (2 a s v s' x)
  then show ?case using internal_erase_sector_ok [OF 2(3)] erase_address by metis
next
  case (3 a s r s')
  then show ?case using internal_erase_block_frame erase_address by metis
next
  case (4 a s v s' x)
  then show ?case using internal_erase_block_ok [OF 4(3)] erase_address by metis
next
  case (5 a s)
  then show ?case
    using internal_erase_sector_total [OF 5(3), of "word_of_nat (a div SECTOR_SIZE)"] erase_address by metis
next
  case (6 a s)
  then show ?case
    using internal_erase_block_total [OF 6(3), of "word_of_nat (a div BLOCK_SIZE)"] erase_address by metis
qed

context storage_rom
begin

text \<open>\<open>erase\<close> succeeds on whole sectors inside the capacity, erases them and touches nothing else.\<close>

lemma storage_erase_total:
  assumes "ready u s" "unat from \<le> unat to" "unat to \<le> fs_capacity s" "fs_capacity s \<le> size"
    and "SECTOR_SIZE dvd unat from" "SECTOR_SIZE dvd unat to"
  shows "\<exists>s'. storage_erase u R from to s = (Ok (), s') \<and> ready u s' \<and>
      same_outside (unat from) (unat to - unat from) (cells (fs_chip s)) (cells (fs_chip s')) \<and>
      (\<forall>x. unat from \<le> x \<and> x < unat to \<longrightarrow> erased (cells (fs_chip s') x))"
proof -
  have len: "unat (to - from) = unat to - unat from" using assms(2) by (simp add: unat_sub_small)
  have b: "fs_check_bounds from (unat (to - from)) s = (Ok (), s)"
    using assms(2,3) by (intro check_bounds_ok) (simp add: len)
  have al: "fs_check_alignment SECTOR_SIZE from (unat (to - from)) = Ok ()"
    using assms(5,6) by (simp add: fs_check_alignment_def len)
  have le: "unat to \<le> size" using assms(3,4) by simp
  from eraser.erase_plan_total [OF assms(1,2) le assms(5,6)] obtain s' where
    s': "erase_plan (\<lambda>address. internal_erase_sector u R (word_of_nat (address div SECTOR_SIZE)))
        (\<lambda>address. internal_erase_block u R (word_of_nat (address div BLOCK_SIZE))) (unat from) (unat to) s = (Ok (), s')"
      "ready u s'" by blast
  then have "storage_erase u R from to s = (Ok (), s')"
    using assms(2) by (simp add: storage_erase_def word_less_nat_alt Let_def al bind_exec_lift b bind_exec_step(1))
  with s' eraser.erase_plan_ok [OF s'(1) assms(2) le assms(5,6)] show ?thesis
    by (auto simp: eraser.erases_def)
qed

text \<open>A failed \<open>erase\<close> has touched nothing outside the range either.\<close>

lemma storage_erase_frame:
  assumes "storage_erase u R from to s = (r, s')" "fs_capacity s \<le> size"
  shows "same_outside (unat from) (unat to - unat from) (cells (fs_chip s)) (cells (fs_chip s'))"
proof (cases "to < from \<or> fs_check_alignment SECTOR_SIZE from (unat (to - from)) \<noteq> Ok () \<or>
    fst (fs_check_bounds from (unat (to - from)) s) \<noteq> Ok ()")
  case True
  then have "s' = s" using assms(1)
    by (auto simp: storage_erase_def Let_def fs_check_bounds_def fs_check_alignment_def bind_exec_def exec_simps split: if_splits)
  then show ?thesis by simp
next
  case False
  then have le: "unat from \<le> unat to" by (simp add: word_less_nat_alt)
  then have len: "unat (to - from) = unat to - unat from" by (simp add: unat_sub_small)
  from False have al: "fs_check_alignment SECTOR_SIZE from (unat (to - from)) = Ok ()"
    and b: "fs_check_bounds from (unat (to - from)) s = (Ok (), s)"
    by (auto simp: fs_check_bounds_def split: if_splits)
  from al have f: "SECTOR_SIZE dvd unat from" and "SECTOR_SIZE dvd unat to - unat from"
    by (auto simp: fs_check_alignment_def len split: if_splits)
  then have t: "SECTOR_SIZE dvd unat to" using le by (metis dvd_add le_add_diff_inverse)
  have "unat to \<le> size" using b le assms(2) by (auto simp: fs_check_bounds_def len split: if_splits)
  then show ?thesis
    using eraser.erase_plan_frame [OF _ le _ f t] assms(1) False
    by (simp add: storage_erase_def Let_def al bind_exec_lift b bind_exec_step(1))
qed

end

section \<open>Every operation restores the other core\<close>

lemma keeps_storage_read_loop [keeps]: "keeps_core (storage_read_loop oc R a d n)"
  by (induction oc R a d n rule: storage_read_loop.induct)
    (subst storage_read_loop.simps, auto simp: Let_def intro!: keeps)

lemma keeps_storage_read_encrypted_loop [keeps]: "keeps_core (storage_read_encrypted_loop oc u R a d n)"
  by (induction oc u R a d n rule: storage_read_encrypted_loop.induct)
    (subst storage_read_encrypted_loop.simps, auto simp: Let_def intro!: keeps)

lemma keeps_rmw [keeps]: "keeps_core (rmw_read u R e a)" "keeps_core (rmw_write u R e a bs)"
  by (auto simp: rmw_read_def rmw_write_def intro!: keeps)

lemma keeps_rmw_loop [keeps]: "keeps_core (rmw_loop oc u R e a d bs)"
  by (induction oc u R e a d bs rule: rmw_loop.induct)
    (subst rmw_loop.simps, auto simp: Let_def intro!: keeps)

lemma keeps_read_chunk [keeps]: "keeps_core (read_chunk oc b R al a n)"
  by (auto simp: read_chunk_def Let_def intro!: keeps)

lemma keeps_read_chunks [keeps]: "keeps_core (read_chunks oc b R al a n)"
  by (induction oc b R al a n rule: read_chunks.induct)
    (subst read_chunks.simps, auto simp: Let_def intro!: keeps)

lemma keeps_write_chunks [keeps]: "keeps_core (write_chunks oc u R a bs)"
  by (induction oc u R a bs rule: write_chunks.induct)
    (subst write_chunks.simps, auto intro!: keeps)

lemma keeps_erase_head [keeps]: "(\<And>a. keeps_core (f a)) \<Longrightarrow> keeps_core (erase_head f a t)"
  by (induction f a t rule: erase_head.induct) (subst erase_head.simps, auto intro!: keeps)

lemma keeps_erase_blocks [keeps]: "(\<And>a. keeps_core (f a)) \<Longrightarrow> keeps_core (erase_blocks f a t)"
  by (induction f a t rule: erase_blocks.induct) (subst erase_blocks.simps, auto intro!: keeps)

lemma keeps_erase_tail [keeps]: "(\<And>a. keeps_core (f a)) \<Longrightarrow> keeps_core (erase_tail f a t)"
  by (induction f a t rule: erase_tail.induct) (subst erase_tail.simps, auto intro!: keeps)

lemma keeps_operations:
  "keeps_core (storage_read oc R a n)" "keeps_core (storage_write oc u R a bs)"
  "keeps_core (storage_read_encrypted oc u R a n)" "keeps_core (storage_write_encrypted oc u g R a bs)"
  "keeps_core (read_nor oc b R ad a n)" "keeps_core (write_nor oc u R a bs)" "keeps_core (storage_erase u R f t)"
  unfolding storage_read_def storage_write_def storage_read_encrypted_def storage_write_encrypted_def
    read_nor_def write_nor_def storage_erase_def Let_def erase_plan_def
  by (intro keeps)+

section \<open>A running other core blocks every modification\<close>

lemma internal_blocked:
  assumes "\<not> core_ok u s"
  shows "internal_erase_sector u R k s = (Err FsOtherCoreRunning, s)" "internal_erase_block u R k s = (Err FsOtherCoreRunning, s)"
    "internal_write u R a al bs s = (Err FsOtherCoreRunning, s)"
    "internal_write_encrypted u R a al bs s = (Err FsOtherCoreRunning, s)"
    "internal_read_encrypted u R a n s = (Err FsOtherCoreRunning, s)"
  using with_strategy_blocked [OF assms] by (simp_all add: internal_defs)

lemma erase_plan_blocked:
  assumes "\<And>a. sector a s = (Err e, s)" "\<And>a. block a s = (Err e, s)"
  shows "erase_plan sector block from to s = (if from < to then Err e else Ok (), s)"
  using assms by (subst erase_plan_def, subst erase_head.simps, subst erase_blocks.simps, subst erase_tail.simps)
    (auto simp: bind_exec_def ret_def BLOCK_SIZE_def)

context storage_rom
begin

lemma internal_read_cells: "internal_read R a al n s = (r, s') \<Longrightarrow> cells (fs_chip s') = cells (fs_chip s)"
  by (auto simp: internal_read_def bind_exec_def on_chip_def lift_def ret_def split: prod.splits result.splits
      dest!: rom_read_frame)

lemma rmw_blocked:
  assumes "\<not> core_ok u s" "bs \<noteq> []" "rmw_loop oc u R e a d bs s = (r, s')"
  shows "cells (fs_chip s') = cells (fs_chip s) \<and> \<not> is_ok r"
proof (cases "d \<ge> SECTOR_SIZE")
  case True
  with assms(2,3) show ?thesis by (auto simp: rmw_loop.simps panic_def)
next
  case False
  obtain q s1 where q: "rmw_read u R e a s = (q, s1)" by force
  have c: "cells (fs_chip s1) = cells (fs_chip s)"
    using q internal_read_cells internal_blocked(5) [OF assms(1)] by (auto simp: rmw_read_def split: if_splits)
  have "\<not> core_ok u s1" using keeps_coreD [OF keeps_rmw(1) q] assms(1) by (simp add: core_ok_def)
  note b = internal_blocked(1) [OF this]
  from assms(2,3) False q b c show ?thesis
    by (subst (asm) rmw_loop.simps) (auto simp: Let_def bind_exec_def split: result.splits)
qed

lemma write_chunks_blocked:
  assumes "\<not> core_ok u s" "bs \<noteq> []"
  shows "write_chunks oc u R a bs s = (Err FsOtherCoreRunning, s)"
  using assms(2) internal_blocked(3) [OF assms(1)] by (subst write_chunks.simps) (simp add: bind_exec_def)

lemma modification_blocked:
  assumes "\<not> core_ok u s"
  shows "cells (fs_chip (snd (storage_write oc u R a bs s))) = cells (fs_chip s)"
    "cells (fs_chip (snd (storage_write_encrypted oc u gate R a bs s))) = cells (fs_chip s)"
    "cells (fs_chip (snd (write_nor oc u R a bs s))) = cells (fs_chip s)"
    "cells (fs_chip (snd (storage_erase u R from to s))) = cells (fs_chip s)"
    "is_ok (fst (storage_write oc u R a bs s)) \<Longrightarrow> bs = []"
    "is_ok (fst (storage_write_encrypted oc u gate R a bs s)) \<Longrightarrow> bs = []"
    "is_ok (fst (write_nor oc u R a bs s)) \<Longrightarrow> bs = []"
    "is_ok (fst (storage_erase u R from to s)) \<Longrightarrow> from = to"
proof -
  have bounds: "snd (fs_check_bounds x n s) = s" for x n by (simp add: fs_check_bounds_def)
  have rmw: "cells (fs_chip (snd (rmw_loop oc u R e x d bs s))) = cells (fs_chip s) \<and>
      (bs \<noteq> [] \<longrightarrow> \<not> is_ok (fst (rmw_loop oc u R e x d bs s)))" for e x d
  proof (cases "bs = []")
    case True
    then show ?thesis by (simp add: rmw_loop.simps ret_def)
  next
    case False
    then show ?thesis using rmw_blocked [OF assms False] by (metis prod.collapse)
  qed
  then show "cells (fs_chip (snd (storage_write oc u R a bs s))) = cells (fs_chip s)"
    "cells (fs_chip (snd (storage_write_encrypted oc u gate R a bs s))) = cells (fs_chip s)"
    "is_ok (fst (storage_write oc u R a bs s)) \<Longrightarrow> bs = []"
    "is_ok (fst (storage_write_encrypted oc u gate R a bs s)) \<Longrightarrow> bs = []"
    by (auto simp: storage_write_def storage_write_encrypted_def bind_exec_def fs_check_bounds_def fail_def Let_def
        split: if_splits)
  have chunks: "write_chunks oc u R a bs s = (if bs = [] then Ok () else Err FsOtherCoreRunning, s)"
    using write_chunks_blocked [OF assms] by (auto simp: write_chunks.simps [of _ _ _ _ "[]"] ret_def)
  then show "cells (fs_chip (snd (write_nor oc u R a bs s))) = cells (fs_chip s)"
    "is_ok (fst (write_nor oc u R a bs s)) \<Longrightarrow> bs = []"
    by (auto simp: write_nor_def bind_exec_def fs_check_bounds_def fs_check_alignment_def lift_def split: if_splits)
  have "erase_plan (\<lambda>address. internal_erase_sector u R (word_of_nat (address div SECTOR_SIZE)))
      (\<lambda>address. internal_erase_block u R (word_of_nat (address div BLOCK_SIZE))) (unat from) (unat to) s
    = (if unat from < unat to then Err FsOtherCoreRunning else Ok (), s)"
    by (rule erase_plan_blocked) (rule internal_blocked [OF assms])+
  then show "cells (fs_chip (snd (storage_erase u R from to s))) = cells (fs_chip s)"
    "is_ok (fst (storage_erase u R from to s)) \<Longrightarrow> from = to"
    by (auto simp: storage_erase_def Let_def bind_exec_def fs_check_bounds_def fs_check_alignment_def lift_def fail_def
        word_less_nat_alt word_unat_eq_iff split: if_splits)
qed

end

section \<open>The emulated chip\<close>

interpretation stub_storage: storage_rom "stub_chip oc FsOutOfBounds" FLASH_DATA "\<lambda>_ b. b"
    "\<lambda>b. b = 0xff" STUB_FLASH_SIZE "\<lambda>m. \<not> FLASH_LOCK m"
  by unfold_locales (simp add: stub_sizes SECTOR_SIZE_def)

end
