(* ===== verification/Storage_Guarantees.thy ===== *)
theory Storage_Guarantees
  imports Flash_Storage
begin

text \<open>
  What the driver of \<open>esp-storage\<close> guarantees on its emulated chip \<open>stub.rs\<close>, on which its own tests
  run. The statements instantiate the lemmas that \<open>Flash_Storage\<close> proves for every chip of its locale.
  On the emulation plain and encrypted access coincide and an erased byte is \<open>0xff\<close>. \<open>oc\<close> selects a
  build with overflow checks, \<open>unstable\<close> the multi-core support.
\<close>

text \<open>A driver that can be used: the other core does not block it, and the chip it has unlocked is unlocked.\<close>

definition usable :: "bool \<Rightarrow> stub FlashStorage \<Rightarrow> bool" where
  "usable unstable s \<longleftrightarrow> core_ok unstable s \<and> (fs_unlocked s \<longrightarrow> \<not> FLASH_LOCK (fs_chip s)) \<and> fs_capacity s \<le> STUB_FLASH_SIZE"

abbreviation flash :: "stub FlashStorage \<Rightarrow> mem" where
  "flash s \<equiv> FLASH_DATA (fs_chip s)"

lemma usable_ready: "usable unstable s \<Longrightarrow> stub_storage.ready unstable s" "usable unstable s \<Longrightarrow> fs_capacity s \<le> STUB_FLASH_SIZE"
  by (auto simp: usable_def stub_storage.ready_def)

lemma keeps_usable:
  assumes "usable unstable s" "keeps_core f" "f s = (r, s')" "stub_storage.ready unstable s'"
  shows "usable unstable s'"
  using assms keeps_coreD(3) [OF assms(2,3)] by (simp add: usable_def stub_storage.ready_def)

lemma keeps_same:
  assumes "keeps_core f"
  shows "fs_other_running (snd (f s)) = fs_other_running s" "fs_strategy (snd (f s)) = fs_strategy s"
    "fs_capacity (snd (f s)) = fs_capacity s"
  using keeps_coreD [OF assms, of s] by (metis prod.collapse)+

lemma stub_view: "stub_storage.view e s = flash s"
  by (simp add: stub_storage.view_def comp_def)

text \<open>The whole emulated flash, on one core.\<close>

definition sample_storage :: "stub FlashStorage" where
  "sample_storage = fs_new False STUB_FLASH_SIZE \<lparr>FLASH_LOCK = True, FLASH_DATA = (\<lambda>_. 0)\<rparr> False"

lemma sample_usable: "usable True sample_storage"
  by (simp add: usable_def sample_storage_def fs_new_def core_ok_def)

text \<open>C2. \<open>write\<close> and \<open>write_encrypted\<close> of any bytes at any offset inside the capacity succeed and
change exactly those bytes of the flash: the read-modify-write of the sectors restores the rest of
them. The driver stays usable.\<close>

theorem storage_write_exact:
  assumes "usable unstable s" "unat offset + length bytes \<le> fs_capacity s"
  shows "(\<exists>s'. storage_write oc unstable (stub_chip oc FsOutOfBounds) offset bytes s = (Ok (), s')
      \<and> flash s' = mem_write (flash s) (unat offset) bytes \<and> usable unstable s')
    \<and> (\<exists>s'. storage_write_encrypted oc unstable True (stub_chip oc FsOutOfBounds) offset bytes s = (Ok (), s')
      \<and> flash s' = mem_write (flash s) (unat offset) bytes \<and> usable unstable s')"
  using stub_storage.storage_write_total [OF usable_ready(1) [OF assms(1)] assms(2) usable_ready(2) [OF assms(1)], of oc oc]
    keeps_usable [OF assms(1) keeps_operations(2)] keeps_usable [OF assms(1) keeps_operations(4)]
  unfolding stub_view by blast

theorem storage_write_exact_witness:
  "(\<exists>s'. storage_write True True (stub_chip True FsOutOfBounds) 4094 [1, 2, 3, 4] sample_storage = (Ok (), s')
      \<and> flash s' = mem_write (\<lambda>_. 0) 4094 [1, 2, 3, 4])"
  using storage_write_exact [OF sample_usable, of 4094 "[1, 2, 3, 4]" True]
  by (auto simp: sample_storage_def fs_new_def stub_sizes)



text \<open>The NOR \<open>write\<close> of whole words succeeds inside the capacity, touches no byte outside the
requested range, and on erased flash the bytes read back.\<close>

theorem nor_write_on_erased:
  assumes "usable unstable s" "unat offset + length bytes \<le> fs_capacity s" "4 dvd unat offset" "4 dvd length bytes"
    and "\<And>x. unat offset \<le> x \<Longrightarrow> x < unat offset + length bytes \<Longrightarrow> flash s x = 0xff"
  shows "\<exists>s'. write_nor oc unstable (stub_chip oc FsOutOfBounds) offset bytes s = (Ok (), s')
    \<and> flash s' = mem_write (flash s) (unat offset) bytes \<and> usable unstable s'"
proof -
  note r = usable_ready [OF assms(1)]
  obtain s' where w: "write_nor oc unstable (stub_chip oc FsOutOfBounds) offset bytes s = (Ok (), s')"
    "stub_storage.ready unstable s'" "stub_storage.programs (unat offset) bytes (flash s) (flash s')"
    using stub_storage.write_nor_total [OF r(1) assms(2) r(2) assms(3,4), of oc oc] by blast
  then have "flash s' = mem_write (flash s) (unat offset) bytes"
    using assms(5) by (auto simp: stub_storage.programs_def comp_def intro!: mem_eq_writeI)
  with w keeps_usable [OF assms(1) keeps_operations(6) w(1,2)] show ?thesis by blast
qed

theorem nor_write_on_erased_witness:
  "\<exists>s'. write_nor True True (stub_chip True FsOutOfBounds) 8 [1, 2, 3, 4]
      (sample_storage\<lparr>fs_chip := \<lparr>FLASH_LOCK = True, FLASH_DATA = (\<lambda>_. 0xff)\<rparr>\<rparr>) = (Ok (), s')
    \<and> flash s' = mem_write (\<lambda>_. 0xff) 8 [1, 2, 3, 4]"
proof -
  let ?s = "sample_storage\<lparr>fs_chip := \<lparr>FLASH_LOCK = True, FLASH_DATA = (\<lambda>_. 0xff)\<rparr>\<rparr>"
  have u: "usable True ?s" by (simp add: usable_def sample_storage_def fs_new_def core_ok_def)
  have "length [1, 2, 3, 4 :: u8] = 4" by simp
  then show ?thesis
    using nor_write_on_erased [OF u, of 8 "[1, 2, 3, 4]" True]
    by (auto simp: sample_storage_def fs_new_def stub_sizes simp del: list.size)
qed

text \<open>C13. Erasing whole sectors inside the capacity succeeds and sets exactly the requested range to
\<open>0xff\<close>, whichever mix of sector and block erases is used.\<close>

theorem storage_erase_exact:
  assumes "usable unstable s" "unat from \<le> unat to" "unat to \<le> fs_capacity s"
    and "SECTOR_SIZE dvd unat from" "SECTOR_SIZE dvd unat to"
  shows "\<exists>s'. storage_erase unstable (stub_chip oc FsOutOfBounds) from to s = (Ok (), s')
    \<and> flash s' = mem_fill (flash s) (unat from) (unat to - unat from) 0xff \<and> usable unstable s'"
proof -
  note r = usable_ready [OF assms(1)]
  obtain s' where e: "storage_erase unstable (stub_chip oc FsOutOfBounds) from to s = (Ok (), s')"
    "stub_storage.ready unstable s'" "same_outside (unat from) (unat to - unat from) (flash s) (flash s')"
    "\<And>x. unat from \<le> x \<Longrightarrow> x < unat to \<Longrightarrow> flash s' x = 0xff"
    using stub_storage.storage_erase_total [OF r(1) assms(2,3) r(2) assms(4,5), of oc] by blast
  then have "flash s' = mem_fill (flash s) (unat from) (unat to - unat from) 0xff"
    using assms(2) by (auto simp: mem_fill_def same_outside_def fun_eq_iff)
  with e keeps_usable [OF assms(1) keeps_operations(7) e(1,2)] show ?thesis by blast
qed

theorem storage_erase_exact_witness:
  "\<exists>s'. storage_erase True (stub_chip True FsOutOfBounds) 0xf000 0x21000 sample_storage = (Ok (), s')
    \<and> flash s' = mem_fill (\<lambda>_. 0) 0xf000 0x12000 0xff"
  using storage_erase_exact [OF sample_usable, of "0xf000" "0x21000" True]
  by (auto simp: sample_storage_def fs_new_def stub_sizes SECTOR_SIZE_def)



text \<open>Every public operation leaves the other core, the strategy and the capacity as it found them,
whatever the chip does and whatever the outcome: a core that was parked for the operation runs again.\<close>

theorem other_core_restored:
  "let same = (\<lambda>s'. fs_other_running s' = fs_other_running s \<and> fs_strategy s' = fs_strategy s \<and> fs_capacity s' = fs_capacity s)
   in same (snd (storage_read oc R offset n s)) \<and> same (snd (storage_write oc unstable R offset bytes s))
    \<and> same (snd (storage_read_encrypted oc unstable R offset n s))
    \<and> same (snd (storage_write_encrypted oc unstable gate R offset bytes s))
    \<and> same (snd (read_nor oc bytewise R address offset n s)) \<and> same (snd (write_nor oc unstable R offset bytes s))
    \<and> same (snd (storage_erase unstable R from to s))"
  by (simp add: Let_def keeps_same keeps_operations)

text \<open>The flash size decoded from any identification word is at most 256 MiB and a whole number
of 64 KiB blocks, so that no address inside the capacity overflows 32 bits.\<close>

lemma flash_size_bounded:
  "flash_size_from_rdid raw \<le> 2 ^ 28 \<and> BLOCK_SIZE dvd flash_size_from_rdid raw"
proof -
  have ok: "(case map_of xs k of Some z \<Rightarrow> z | None \<Rightarrow> 0) \<le> 2 ^ 28 \<and> BLOCK_SIZE dvd (case map_of xs k of Some z \<Rightarrow> z | None \<Rightarrow> 0)"
    if "\<forall>(_, z)\<in>set xs. z \<le> 2 ^ 28 \<and> BLOCK_SIZE dvd z" for xs :: "(nat \<times> nat) list" and k
    using that by (auto split: option.splits dest!: map_of_SomeD)
  have "\<forall>(_, z)\<in>set adesto_sizes. z \<le> 2 ^ 28 \<and> BLOCK_SIZE dvd z" "\<forall>(_, z)\<in>set density_sizes. z \<le> 2 ^ 28 \<and> BLOCK_SIZE dvd z"
    by (simp_all add: adesto_sizes_def density_sizes_def KB_def MB_def BLOCK_SIZE_def)
  from ok [OF this(1)] ok [OF this(2)] show ?thesis
    unfolding flash_size_from_rdid_def Let_def by presburger
qed

end
