(* ===== verification/Task_Lists.thy ===== *)
theory Task_Lists
  imports Prelude
begin

text \<open>
  \<open>esp-rtos/src/task/mod.rs\<close>: tasks and the intrusive linked lists that run through them. A task is a
  record in a heap indexed by task pointers. The trait \<open>TaskListElement\<close>, which selects the link
  field of a list, is a record of accessor functions with its laws in the locale \<open>list_element\<close>; its
  four implementations are interpreted. The lemmas show that \<open>TaskQueue\<close> is a queue and
  \<open>TaskList\<close> a stack of distinct tasks, that \<open>pop_if\<close> and the two \<open>remove\<close> loops terminate, and what
  they leave of the heap.

  An operation returns \<open>None\<close> when it does not return: a debug assertion or \<open>unwrap\<close> fails, or a
  loop does not end. \<open>dbg\<close> tells whether debug assertions are compiled in.
\<close>

section \<open>Tasks\<close>

datatype TaskState = Ready | Sleeping | Deleted

datatype Cpu = ProCpu | AppCpu

type_synonym TaskPtr = nat

text \<open>
  The fields of \<open>Task\<close> that the scheduler uses. The stack is its lowest address and its number of
  32-bit words; \<open>saved_sp\<close> is the stack pointer of the saved context and \<open>stack_guard\<close> the address of the
  guard word.
\<close>

record Task =
  task_state :: TaskState
  stack_bottom :: nat
  stack_words :: nat
  saved_sp :: nat
  stack_guard :: nat
  stack_guard_value :: u32
  priority :: nat
  pinned_to :: "Cpu option"
  wakeup_at :: u64
  in_run_or_wait_queue :: bool
  timer_queued :: bool
  current_wait_queue :: "nat option"
  alloc_list_item :: "TaskPtr option"
  ready_queue_item :: "TaskPtr option"
  timer_queue_item :: "TaskPtr option"
  delete_list_item :: "TaskPtr option"
  thread :: "nat option"

type_synonym heap = "TaskPtr \<Rightarrow> Task"

record TaskListElement =
  el_next :: "Task \<Rightarrow> TaskPtr option"
  el_set_next :: "TaskPtr option \<Rightarrow> Task \<Rightarrow> Task"
  el_is_in_queue :: "Task \<Rightarrow> bool option"
  el_mark_in_queue :: "bool \<Rightarrow> Task \<Rightarrow> Task"

definition TaskReadyQueueElement :: TaskListElement where
  "TaskReadyQueueElement = \<lparr>el_next = ready_queue_item, el_set_next = (\<lambda>n t. t\<lparr>ready_queue_item := n\<rparr>),
     el_is_in_queue = (\<lambda>t. Some (in_run_or_wait_queue t)),
     el_mark_in_queue = (\<lambda>b t. t\<lparr>in_run_or_wait_queue := b\<rparr>)\<rparr>"

definition TaskTimerQueueElement :: TaskListElement where
  "TaskTimerQueueElement = \<lparr>el_next = timer_queue_item, el_set_next = (\<lambda>n t. t\<lparr>timer_queue_item := n\<rparr>),
     el_is_in_queue = (\<lambda>t. Some (timer_queued t)), el_mark_in_queue = (\<lambda>b t. t\<lparr>timer_queued := b\<rparr>)\<rparr>"

definition TaskAllocListElement :: TaskListElement where
  "TaskAllocListElement = \<lparr>el_next = alloc_list_item, el_set_next = (\<lambda>n t. t\<lparr>alloc_list_item := n\<rparr>),
     el_is_in_queue = (\<lambda>_. None), el_mark_in_queue = (\<lambda>_ t. t)\<rparr>"

definition TaskDeleteListElement :: TaskListElement where
  "TaskDeleteListElement = \<lparr>el_next = delete_list_item, el_set_next = (\<lambda>n t. t\<lparr>delete_list_item := n\<rparr>),
     el_is_in_queue = (\<lambda>_. None), el_mark_in_queue = (\<lambda>_ t. t)\<rparr>"

definition set_next :: "TaskListElement \<Rightarrow> TaskPtr \<Rightarrow> TaskPtr option \<Rightarrow> heap \<Rightarrow> heap" where
  "set_next E task n h = h(task := el_set_next E n (h task))"

definition mark_in_queue :: "TaskListElement \<Rightarrow> TaskPtr \<Rightarrow> bool \<Rightarrow> heap \<Rightarrow> heap" where
  "mark_in_queue E task b h = h(task := el_mark_in_queue E b (h task))"

definition set_state :: "TaskPtr \<Rightarrow> TaskState \<Rightarrow> heap \<Rightarrow> heap" where
  "set_state task s h = h(task := (h task)\<lparr>task_state := s\<rparr>)"

text \<open>Whether \<open>sp\<close> points into the stack of the task.\<close>

definition stack_range :: "Task \<Rightarrow> nat \<times> nat" where
  "stack_range t = (stack_bottom t, (stack_bottom t + 4 * stack_words t) mod 2 ^ 32)"

definition owns_stack_pointer :: "Task \<Rightarrow> nat \<Rightarrow> bool" where
  "owns_stack_pointer t sp = (case stack_range t of (bottom, stop) \<Rightarrow> bottom < sp \<and> sp \<le> stop)"

section \<open>\<open>TaskList\<close>\<close>

record TaskList =
  list_head :: "TaskPtr option"

definition list_new :: TaskList where
  "list_new = \<lparr>list_head = None\<rparr>"

definition list_push :: "bool \<Rightarrow> TaskListElement \<Rightarrow> TaskList \<Rightarrow> TaskPtr \<Rightarrow> heap \<Rightarrow> (TaskList \<times> heap) option" where
  "list_push dbg E l task h =
    (if el_is_in_queue E (h task) = Some True then Some (l, h)
     else
       let h1 = mark_in_queue E task True h in
       if dbg \<and> el_next E (h1 task) \<noteq> None then None
       else Some (l\<lparr>list_head := Some task\<rparr>, set_next E task (list_head l) h1))"

definition list_pop :: "TaskListElement \<Rightarrow> TaskList \<Rightarrow> heap \<Rightarrow> TaskPtr option \<times> TaskList \<times> heap" where
  "list_pop E l h = (case list_head l of
      None \<Rightarrow> (None, l, h)
    | Some task \<Rightarrow>
        (Some task, l\<lparr>list_head := el_next E (h task)\<rparr>, mark_in_queue E task False (set_next E task None h)))"

text \<open>The loop of \<open>remove\<close>: \<open>l\<close> is the list that was taken, \<open>self\<close> the one that is rebuilt.\<close>

partial_function (option) list_remove_loop ::
  "bool \<Rightarrow> TaskListElement \<Rightarrow> TaskPtr \<Rightarrow> TaskList \<Rightarrow> TaskList \<Rightarrow> heap \<Rightarrow> (TaskList \<times> heap) option"
where
  "list_remove_loop dbg E task l self h = (case list_pop E l h of
      (None, l1, h1) \<Rightarrow> Some (self, h1)
    | (Some popped, l1, h1) \<Rightarrow>
        if popped \<noteq> task
        then Option.bind (list_push dbg E self popped h1) (\<lambda>(self', h2). list_remove_loop dbg E task l1 self' h2)
        else list_remove_loop dbg E task l1 self (mark_in_queue E task False h1))"

definition list_remove :: "bool \<Rightarrow> TaskListElement \<Rightarrow> TaskList \<Rightarrow> TaskPtr \<Rightarrow> heap \<Rightarrow> (TaskList \<times> heap) option" where
  "list_remove dbg E l task h =
    (if el_is_in_queue E (h task) = Some False then Some (l, h) else list_remove_loop dbg E task l list_new h)"

definition list_is_empty :: "TaskList \<Rightarrow> bool" where
  "list_is_empty l \<longleftrightarrow> list_head l = None"

section \<open>\<open>TaskQueue\<close>\<close>

record TaskQueue =
  queue_head :: "TaskPtr option"
  queue_tail :: "TaskPtr option"

definition queue_new :: TaskQueue where
  "queue_new = \<lparr>queue_head = None, queue_tail = None\<rparr>"

definition queue_push :: "bool \<Rightarrow> TaskListElement \<Rightarrow> TaskQueue \<Rightarrow> TaskPtr \<Rightarrow> heap \<Rightarrow> (TaskQueue \<times> heap) option" where
  "queue_push dbg E q task h =
    (if el_is_in_queue E (h task) = Some True then Some (q, h)
     else
       let h1 = mark_in_queue E task True h in
       if dbg \<and> el_next E (h1 task) \<noteq> None then None
       else case queue_tail q of
           Some tail \<Rightarrow> Some (q\<lparr>queue_tail := Some task\<rparr>, set_next E tail (Some task) h1)
         | None \<Rightarrow> Some (q\<lparr>queue_head := Some task, queue_tail := Some task\<rparr>, h1))"

definition queue_pop :: "TaskListElement \<Rightarrow> TaskQueue \<Rightarrow> heap \<Rightarrow> TaskPtr option \<times> TaskQueue \<times> heap" where
  "queue_pop E q h = (case queue_head q of
      None \<Rightarrow> (None, q, h)
    | Some task \<Rightarrow>
        let head' = el_next E (h task) in
        (Some task, q\<lparr>queue_head := head', queue_tail := (if head' = None then None else queue_tail q)\<rparr>,
         mark_in_queue E task False (set_next E task None h)))"

partial_function (option) pop_if_loop ::
  "bool \<Rightarrow> TaskListElement \<Rightarrow> (TaskPtr \<Rightarrow> Task \<Rightarrow> bool) \<Rightarrow> TaskQueue \<Rightarrow> TaskQueue \<Rightarrow> TaskPtr option \<Rightarrow> heap \<Rightarrow>
     (TaskPtr option \<times> TaskQueue \<times> heap) option"
where
  "pop_if_loop dbg E cond q self popped h = (case queue_pop E q h of
      (None, q1, h1) \<Rightarrow> Some (popped, self, h1)
    | (Some task, q1, h1) \<Rightarrow>
        if popped = None \<and> cond task (h1 task)
        then pop_if_loop dbg E cond q1 self (Some task) (mark_in_queue E task False h1)
        else Option.bind (queue_push dbg E self task h1) (\<lambda>(self', h2). pop_if_loop dbg E cond q1 self' popped h2))"

definition queue_pop_if ::
  "bool \<Rightarrow> TaskListElement \<Rightarrow> (TaskPtr \<Rightarrow> Task \<Rightarrow> bool) \<Rightarrow> TaskQueue \<Rightarrow> heap \<Rightarrow>
     (TaskPtr option \<times> TaskQueue \<times> heap) option"
where
  "queue_pop_if dbg E cond q h = pop_if_loop dbg E cond q queue_new None h"

definition queue_remove :: "bool \<Rightarrow> TaskListElement \<Rightarrow> TaskQueue \<Rightarrow> TaskPtr \<Rightarrow> heap \<Rightarrow> (TaskQueue \<times> heap) option" where
  "queue_remove dbg E q task h =
    (if el_is_in_queue E (h task) = Some False then Some (q, h)
     else Option.bind (queue_pop_if dbg E (\<lambda>t _. t = task) q h) (\<lambda>(_, q', h'). Some (q', h')))"

definition queue_is_empty :: "TaskQueue \<Rightarrow> bool" where
  "queue_is_empty q \<longleftrightarrow> queue_head q = None"

section \<open>The link fields\<close>

text \<open>
  The laws of a link: the next pointer and the mark are independent fields, and a link without a mark
  never answers whether the task is queued.
\<close>

locale list_element =
  fixes E :: TaskListElement
  assumes next_set [simp]: "el_next E (el_set_next E n t) = n"
    and next_mark [simp]: "el_next E (el_mark_in_queue E b t) = el_next E t"
    and queued_set [simp]: "el_is_in_queue E (el_set_next E n t) = el_is_in_queue E t"
    and queued_mark [simp]: "el_is_in_queue E (el_mark_in_queue E b t) = map_option (\<lambda>_. b) (el_is_in_queue E t)"
    and set_same: "el_set_next E (el_next E t) t = t"
    and set_set [simp]: "el_set_next E n (el_set_next E m t) = el_set_next E n t"
    and mark_same: "el_is_in_queue E t \<noteq> Some (\<not> b) \<Longrightarrow> el_mark_in_queue E b t = t"
    and mark_mark [simp]: "el_mark_in_queue E b (el_mark_in_queue E c t) = el_mark_in_queue E b t"
    and mark_set: "el_mark_in_queue E b (el_set_next E n t) = el_set_next E n (el_mark_in_queue E b t)"

lemmas element_defs = TaskReadyQueueElement_def TaskTimerQueueElement_def TaskAllocListElement_def TaskDeleteListElement_def

interpretation ready_link: list_element TaskReadyQueueElement
  by unfold_locales (simp_all add: element_defs)

interpretation timer_link: list_element TaskTimerQueueElement
  by unfold_locales (simp_all add: element_defs)

interpretation alloc_link: list_element TaskAllocListElement
  by unfold_locales (simp_all add: element_defs)

interpretation delete_link: list_element TaskDeleteListElement
  by unfold_locales (simp_all add: element_defs)

text \<open>The tasks that a chain of next pointers visits.\<close>

primrec chain :: "TaskListElement \<Rightarrow> heap \<Rightarrow> TaskPtr option \<Rightarrow> TaskPtr list \<Rightarrow> bool" where
  "chain E h p [] \<longleftrightarrow> p = None"
| "chain E h p (x # xs) \<longleftrightarrow> p = Some x \<and> chain E h (el_next E (h x)) xs"

definition queue_rel :: "TaskListElement \<Rightarrow> heap \<Rightarrow> TaskQueue \<Rightarrow> TaskPtr list \<Rightarrow> bool" where
  "queue_rel E h q xs \<longleftrightarrow> chain E h (queue_head q) xs \<and> distinct xs \<and>
     queue_tail q = (if xs = [] then None else Some (last xs)) \<and> (\<forall>x\<in>set xs. el_is_in_queue E (h x) \<noteq> Some False)"

definition list_rel :: "TaskListElement \<Rightarrow> heap \<Rightarrow> TaskList \<Rightarrow> TaskPtr list \<Rightarrow> bool" where
  "list_rel E h l xs \<longleftrightarrow> chain E h (list_head l) xs \<and> distinct xs \<and> (\<forall>x\<in>set xs. el_is_in_queue E (h x) \<noteq> Some False)"

text \<open>A task that can be pushed: its link is not in use.\<close>

definition unlinked :: "TaskListElement \<Rightarrow> Task \<Rightarrow> bool" where
  "unlinked E t \<longleftrightarrow> el_next E t = None \<and> el_is_in_queue E t \<noteq> Some True"

text \<open>\<open>relinks E X h h'\<close>: the tasks outside \<open>X\<close> are unchanged, the others except for the link \<open>E\<close>.\<close>

definition relinks :: "TaskListElement \<Rightarrow> TaskPtr set \<Rightarrow> heap \<Rightarrow> heap \<Rightarrow> bool" where
  "relinks E X h h' \<longleftrightarrow> (\<forall>y. y \<notin> X \<longrightarrow> h' y = h y) \<and>
     (\<forall>y. \<exists>n b. h' y = el_set_next E n (el_mark_in_queue E b (h y)))"

lemma chain_cong:
  assumes "\<And>x. x \<in> set xs \<Longrightarrow> el_next E (h' x) = el_next E (h x)"
  shows "chain E h' p xs = chain E h p xs"
  using assms by (induction xs arbitrary: p) auto

lemma queue_rel_cong:
  assumes "\<And>x. x \<in> set xs \<Longrightarrow> el_next E (h' x) = el_next E (h x)"
    and "\<And>x. x \<in> set xs \<Longrightarrow> el_is_in_queue E (h' x) = el_is_in_queue E (h x)"
  shows "queue_rel E h' q xs = queue_rel E h q xs"
  using assms chain_cong [of xs E h' h] by (auto simp: queue_rel_def)

lemma list_rel_cong:
  assumes "\<And>x. x \<in> set xs \<Longrightarrow> el_next E (h' x) = el_next E (h x)"
    and "\<And>x. x \<in> set xs \<Longrightarrow> el_is_in_queue E (h' x) = el_is_in_queue E (h x)"
  shows "list_rel E h' l xs = list_rel E h l xs"
  using assms chain_cong [of xs E h' h] by (auto simp: list_rel_def)

lemma relinks_outside: "relinks E X h h' \<Longrightarrow> y \<notin> X \<Longrightarrow> h' y = h y"
  by (simp add: relinks_def)

lemma queue_rel_frame:
  assumes "queue_rel E h q xs" "relinks E' X h h'" "set xs \<inter> X = {}"
  shows "queue_rel E h' q xs"
proof -
  have "h' x = h x" if "x \<in> set xs" for x using that assms(2,3) by (auto simp: relinks_def)
  with queue_rel_cong [of xs E h' h q] assms(1) show ?thesis by simp
qed

lemma list_rel_frame:
  assumes "list_rel E h l xs" "relinks E' X h h'" "set xs \<inter> X = {}"
  shows "list_rel E h' l xs"
proof -
  have "h' x = h x" if "x \<in> set xs" for x using that assms(2,3) by (auto simp: relinks_def)
  with list_rel_cong [of xs E h' h l] assms(1) show ?thesis by simp
qed

lemma relinks_mono: "relinks E X h h' \<Longrightarrow> X \<subseteq> Y \<Longrightarrow> relinks E Y h h'"
  by (auto simp: relinks_def)

text \<open>A field that the link does not touch keeps its value.\<close>

lemma relinks_field:
  assumes "relinks E X h h'" "\<And>n b t. f (el_set_next E n (el_mark_in_queue E b t)) = f t"
  shows "f (h' y) = f (h y)"
  using assms by (metis relinks_def)

context list_element
begin

lemma mark_id: "el_mark_in_queue E (el_is_in_queue E t = Some True) t = t"
proof (rule mark_same)
  show "el_is_in_queue E t \<noteq> Some (\<not> el_is_in_queue E t = Some True)"
    by (cases "el_is_in_queue E t") (auto split: if_splits)
qed

lemma relinks_refl [simp]: "relinks E X h h"
proof -
  have "h y = el_set_next E (el_next E (h y)) (el_mark_in_queue E (el_is_in_queue E (h y) = Some True) (h y))" for y
    by (simp add: mark_id set_same)
  then show ?thesis unfolding relinks_def by blast
qed

lemma relinks_trans:
  assumes "relinks E X h h'" "relinks E Y h' h''"
  shows "relinks E (X \<union> Y) h h''"
proof -
  have "\<exists>n b. h'' y = el_set_next E n (el_mark_in_queue E b (h y))" for y
  proof -
    from assms obtain n b m c where "h' y = el_set_next E n (el_mark_in_queue E b (h y))"
      "h'' y = el_set_next E m (el_mark_in_queue E c (h' y))" unfolding relinks_def by meson
    then have "h'' y = el_set_next E m (el_mark_in_queue E c (h y))" by (simp add: mark_set)
    then show ?thesis by blast
  qed
  with assms show ?thesis by (auto simp: relinks_def)
qed

lemma relinks_mark: "relinks E {x} h (mark_in_queue E x b h)"
  using relinks_refl [of "{}" h] by (auto simp: relinks_def mark_in_queue_def) (metis mark_mark mark_set set_same)

lemma relinks_set: "relinks E {x} h (set_next E x n h)"
proof -
  have "el_set_next E n t = el_set_next E n (el_mark_in_queue E (el_is_in_queue E t = Some True) t)" for t
    by (simp add: mark_id)
  then show ?thesis using relinks_refl [of "{}" h] by (auto simp: relinks_def set_next_def)
qed

section \<open>Queues\<close>

lemma queue_rel_new [simp]: "queue_rel E h queue_new []"
  by (simp add: queue_rel_def queue_new_def)

lemma list_rel_new [simp]: "list_rel E h list_new []"
  by (simp add: list_rel_def list_new_def)

lemma chain_snoc:
  assumes "chain E h p xs" "xs \<noteq> []" "distinct xs" "x \<notin> set xs" "el_next E (h x) = None"
  shows "chain E (set_next E (last xs) (Some x) h) p (xs @ [x])"
  using assms
proof (induction xs arbitrary: p)
  case (Cons a xs)
  show ?case
  proof (cases "xs = []")
    case True
    with Cons.prems show ?thesis by (simp add: set_next_def)
  next
    case False
    then have "last xs \<noteq> a" using Cons.prems(3) by auto
    with False Cons show ?thesis by (simp add: set_next_def)
  qed
qed simp

lemma queue_is_empty_iff: "queue_rel E h q xs \<Longrightarrow> queue_is_empty q \<longleftrightarrow> xs = []"
  by (cases xs) (auto simp: queue_rel_def queue_is_empty_def)

lemma list_is_empty_iff: "list_rel E h l xs \<Longrightarrow> list_is_empty l \<longleftrightarrow> xs = []"
  by (cases xs) (auto simp: list_rel_def list_is_empty_def)

lemma queue_push_queued: "el_is_in_queue E (h x) = Some True \<Longrightarrow> queue_push dbg E q x h = Some (q, h)"
  by (simp add: queue_push_def)

lemma queue_push_ok:
  assumes "queue_rel E h q xs" "x \<notin> set xs" "unlinked E (h x)"
  obtains q' h' where "queue_push dbg E q x h = Some (q', h')" "queue_rel E h' q' (xs @ [x])"
    "relinks E (insert x (set xs)) h h'"
proof -
  let ?h1 = "mark_in_queue E x True h"
  have u: "el_next E (?h1 x) = None" "el_is_in_queue E (h x) \<noteq> Some True" "el_is_in_queue E (?h1 x) \<noteq> Some False"
    using assms(3) by (auto simp: unlinked_def mark_in_queue_def)
  have q1: "queue_rel E ?h1 q xs"
    by (rule queue_rel_frame [OF assms(1) relinks_mark]) (use assms(2) in simp)
  show thesis
  proof (cases "xs = []")
    case True
    with q1 have "queue_tail q = None" by (simp add: queue_rel_def)
    with True u have "queue_push dbg E q x h = Some (q\<lparr>queue_head := Some x, queue_tail := Some x\<rparr>, ?h1)"
      by (simp add: queue_push_def Let_def)
    then show thesis
      by (rule that) (use True u relinks_mark in \<open>auto simp: queue_rel_def intro: relinks_mono\<close>)
  next
    case False
    let ?h2 = "set_next E (last xs) (Some x) ?h1"
    from False q1 have t: "queue_tail q = Some (last xs)" "chain E ?h1 (queue_head q) xs" "distinct xs"
      by (simp_all add: queue_rel_def)
    with False u have push: "queue_push dbg E q x h = Some (q\<lparr>queue_tail := Some x\<rparr>, ?h2)"
      by (simp add: queue_push_def Let_def)
    have c: "chain E ?h2 (queue_head q) (xs @ [x])"
      by (rule chain_snoc [OF t(2) False t(3) assms(2) u(1)])
    have "\<forall>y\<in>set (xs @ [x]). el_is_in_queue E (?h2 y) \<noteq> Some False"
      using q1 u(3) by (auto simp: queue_rel_def set_next_def)
    with c t(3) assms(2) have "queue_rel E ?h2 (q\<lparr>queue_tail := Some x\<rparr>) (xs @ [x])" by (simp add: queue_rel_def)
    moreover have "relinks E (insert x (set xs)) h ?h2"
      by (rule relinks_mono [OF relinks_trans [OF relinks_mark relinks_set]]) (use False in auto)
    ultimately show thesis using that push by blast
  qed
qed

lemma queue_pop_empty: "queue_rel E h q [] \<Longrightarrow> queue_pop E q h = (None, q, h)"
  by (simp add: queue_rel_def queue_pop_def)

lemma queue_pop_ok:
  assumes "queue_rel E h q (x # xs)"
  obtains q' h' where "queue_pop E q h = (Some x, q', h')" "queue_rel E h' q' xs" "unlinked E (h' x)"
    "relinks E {x} h h'"
proof -
  let ?h = "mark_in_queue E x False (set_next E x None h)"
  let ?q = "q\<lparr>queue_head := el_next E (h x), queue_tail := (if el_next E (h x) = None then None else queue_tail q)\<rparr>"
  from assms have *: "queue_head q = Some x" "chain E h (el_next E (h x)) xs" "x \<notin> set xs" "distinct xs"
    "\<And>y. y \<in> set xs \<Longrightarrow> el_is_in_queue E (h y) \<noteq> Some False" "queue_tail q = Some (last (x # xs))"
    by (auto simp: queue_rel_def)
  have e: "el_next E (h x) = None \<longleftrightarrow> xs = []" using *(2) by (cases xs) auto
  have same: "?h y = h y" if "y \<in> set xs" for y using that *(3) by (auto simp: mark_in_queue_def set_next_def)
  have "queue_rel E ?h ?q xs"
    using * e same chain_cong [of xs E ?h h] by (auto simp: queue_rel_def)
  moreover have "unlinked E (?h x)" by (auto simp: unlinked_def mark_in_queue_def set_next_def)
  moreover have "relinks E ({x} \<union> {x}) h ?h" by (rule relinks_trans [OF relinks_set relinks_mark])
  moreover have "queue_pop E q h = (Some x, ?q, ?h)" using *(1) by (simp add: queue_pop_def Let_def)
  ultimately show thesis using that by simp
qed

end

text \<open>\<open>pop_if\<close> takes out the first task that satisfies the condition and keeps the order of the others.\<close>

primrec remove_first :: "('a \<Rightarrow> bool) \<Rightarrow> 'a list \<Rightarrow> 'a list" where
  "remove_first P [] = []"
| "remove_first P (x # xs) = (if P x then xs else x # remove_first P xs)"

lemma remove_first_eq: "remove_first (\<lambda>y. y = x) xs = remove1 x xs"
  by (induction xs) auto

lemma remove_first_none: "find P xs = None \<Longrightarrow> remove_first P xs = xs"
  by (induction xs) (auto split: if_splits)

lemma set_remove_first: "set (remove_first P xs) \<subseteq> set xs"
  by (induction xs) auto

lemma distinct_remove_first: "distinct xs \<Longrightarrow> find P xs = Some x \<Longrightarrow>
    distinct (remove_first P xs) \<and> set (remove_first P xs) = set xs - {x}"
proof (induction xs)
  case (Cons a xs)
  show ?case
  proof (cases "P a")
    case False
    with Cons.prems have "P x" by (auto dest: find_SomeD)
    with False Cons show ?thesis by auto
  qed (use Cons.prems in auto)
qed simp

lemma find_eq: "find (\<lambda>y. y = x) xs = (if x \<in> set xs then Some x else None)"
  by (induction xs) auto

lemma find_cong_set: "(\<And>x. x \<in> set xs \<Longrightarrow> P x = Q x) \<Longrightarrow> find P xs = find Q xs"
  by (induction xs) auto

lemma remove_first_cong: "(\<And>x. x \<in> set xs \<Longrightarrow> P x = Q x) \<Longrightarrow> remove_first P xs = remove_first Q xs"
  by (induction xs) auto

context list_element
begin

lemma mark_unlinked: "unlinked E (h x) \<Longrightarrow> mark_in_queue E x False h = h"
  using mark_same [of "h x" False] by (auto simp: unlinked_def mark_in_queue_def)

lemma pop_if_loop_rest:
  assumes "queue_rel E h q ys" "queue_rel E h self zs" "set ys \<inter> set zs = {}" "popped \<noteq> None"
  shows "\<exists>q' h'. pop_if_loop dbg E cond q self popped h = Some (popped, q', h') \<and>
    queue_rel E h' q' (zs @ ys) \<and> relinks E (set zs \<union> set ys) h h'"
  using assms
proof (induction ys arbitrary: q self zs h)
  case Nil
  then show ?case by (subst pop_if_loop.simps) (simp add: queue_pop_empty)
next
  case (Cons x ys)
  obtain q1 h1 where pop: "queue_pop E q h = (Some x, q1, h1)" "queue_rel E h1 q1 ys" "unlinked E (h1 x)" "relinks E {x} h h1"
    using queue_pop_ok [OF Cons.prems(1)] .
  have x: "x \<notin> set zs" "x \<notin> set ys" "distinct ys" using Cons.prems by (auto simp: queue_rel_def)
  have "queue_rel E h1 self zs"
    by (rule queue_rel_frame [OF Cons.prems(2) pop(4)]) (use x(1) in simp)
  from queue_push_ok [OF this x(1) pop(3), of dbg] obtain self' h2 where
    push: "queue_push dbg E self x h1 = Some (self', h2)" "queue_rel E h2 self' (zs @ [x])" "relinks E (insert x (set zs)) h1 h2" .
  have "queue_rel E h2 q1 ys"
    by (rule queue_rel_frame [OF pop(2) push(3)]) (use x(2) Cons.prems(3) in auto)
  moreover have "set ys \<inter> set (zs @ [x]) = {}" using Cons.prems(3) x(2) by auto
  ultimately obtain q' h' where ih: "pop_if_loop dbg E cond q1 self' popped h2 = Some (popped, q', h')"
    "queue_rel E h' q' ((zs @ [x]) @ ys)" "relinks E (set (zs @ [x]) \<union> set ys) h2 h'"
    using Cons.IH [OF _ push(2) _ Cons.prems(4)] by blast
  have "relinks E (set zs \<union> set (x # ys)) h h'"
    using relinks_trans [OF relinks_trans [OF pop(4) push(3)] ih(3)] by (auto elim!: relinks_mono)
  moreover have "pop_if_loop dbg E cond q self popped h = Some (popped, q', h')"
    using pop(1) push(1) ih(1) Cons.prems(4) by (subst pop_if_loop.simps) auto
  ultimately show ?case using ih(2) by auto
qed

lemma pop_if_loop_ok:
  assumes "queue_rel E h q ys" "queue_rel E h self zs" "set ys \<inter> set zs = {}"
    and "\<And>p n b t. cond p (el_set_next E n (el_mark_in_queue E b t)) = cond p t"
  shows "\<exists>q' h'. pop_if_loop dbg E cond q self None h = Some (find (\<lambda>x. cond x (h x)) ys, q', h') \<and>
    queue_rel E h' q' (zs @ remove_first (\<lambda>x. cond x (h x)) ys) \<and> relinks E (set zs \<union> set ys) h h' \<and>
    (\<forall>x. find (\<lambda>x. cond x (h x)) ys = Some x \<longrightarrow> unlinked E (h' x))"
  using assms(1-3)
proof (induction ys arbitrary: q self zs h)
  case Nil
  then show ?case by (subst pop_if_loop.simps) (simp add: queue_pop_empty)
next
  case (Cons x ys)
  obtain q1 h1 where pop: "queue_pop E q h = (Some x, q1, h1)" "queue_rel E h1 q1 ys" "unlinked E (h1 x)" "relinks E {x} h h1"
    using queue_pop_ok [OF Cons.prems(1)] .
  have x: "x \<notin> set zs" "x \<notin> set ys" "distinct ys" using Cons.prems by (auto simp: queue_rel_def)
  have self1: "queue_rel E h1 self zs"
    by (rule queue_rel_frame [OF Cons.prems(2) pop(4)]) (use x(1) in simp)
  have cond1: "cond y (h1 z) = cond y (h z)" for y z
    using relinks_field [OF pop(4), of "cond y"] assms(4) by simp
  show ?case
  proof (cases "cond x (h x)")
    case True
    have "set ys \<inter> set zs = {}" using Cons.prems(3) by auto
    from pop_if_loop_rest [OF pop(2) self1 this, of "Some x" dbg cond] obtain q' h' where
      r: "pop_if_loop dbg E cond q1 self (Some x) h1 = Some (Some x, q', h')" "queue_rel E h' q' (zs @ ys)"
        "relinks E (set zs \<union> set ys) h1 h'" by auto
    have "h' x = h1 x" using relinks_outside [OF r(3)] x by simp
    moreover have "relinks E (set zs \<union> set (x # ys)) h h'"
      using relinks_trans [OF pop(4) r(3)] by (auto elim!: relinks_mono)
    moreover have "pop_if_loop dbg E cond q self None h = Some (Some x, q', h')"
      using pop(1) r(1) True mark_unlinked [of h1 x] pop(3) by (simp add: pop_if_loop.simps [of dbg E cond q] cond1)
    ultimately show ?thesis using r(2) True pop(3) by auto
  next
    case False
    from queue_push_ok [OF self1 x(1) pop(3), of dbg] obtain self' h2 where
      push: "queue_push dbg E self x h1 = Some (self', h2)" "queue_rel E h2 self' (zs @ [x])" "relinks E (insert x (set zs)) h1 h2" .
    have cond2: "cond y (h2 z) = cond y (h z)" for y z
      using relinks_field [OF push(3), of "cond y"] assms(4) cond1 by simp
    have "queue_rel E h2 q1 ys"
      by (rule queue_rel_frame [OF pop(2) push(3)]) (use x(2) Cons.prems(3) in auto)
    moreover have "set ys \<inter> set (zs @ [x]) = {}" using Cons.prems(3) x(2) by auto
    ultimately obtain q' h' where ih: "pop_if_loop dbg E cond q1 self' None h2 = Some (find (\<lambda>x. cond x (h2 x)) ys, q', h')"
      "queue_rel E h' q' ((zs @ [x]) @ remove_first (\<lambda>x. cond x (h2 x)) ys)" "relinks E (set (zs @ [x]) \<union> set ys) h2 h'"
      "\<forall>x. find (\<lambda>x. cond x (h2 x)) ys = Some x \<longrightarrow> unlinked E (h' x)"
      using Cons.IH [OF _ push(2)] by blast
    have "relinks E (set zs \<union> set (x # ys)) h h'"
      using relinks_trans [OF relinks_trans [OF pop(4) push(3)] ih(3)] by (auto elim!: relinks_mono)
    moreover have "pop_if_loop dbg E cond q self None h = Some (find (\<lambda>x. cond x (h2 x)) ys, q', h')"
      using pop(1) push(1) ih(1) False by (simp add: pop_if_loop.simps [of dbg E cond q] cond1)
    ultimately show ?thesis using ih(2,4) False by (auto simp: cond2)
  qed
qed

lemma queue_pop_if_ok:
  assumes "queue_rel E h q xs" "\<And>p n b t. cond p (el_set_next E n (el_mark_in_queue E b t)) = cond p t"
  obtains q' h' where "queue_pop_if dbg E cond q h = Some (find (\<lambda>x. cond x (h x)) xs, q', h')"
    "queue_rel E h' q' (remove_first (\<lambda>x. cond x (h x)) xs)" "relinks E (set xs) h h'"
    "\<And>x. find (\<lambda>x. cond x (h x)) xs = Some x \<Longrightarrow> unlinked E (h' x)"
  proof -
  have "\<exists>q' h'. queue_pop_if dbg E cond q h = Some (find (\<lambda>x. cond x (h x)) xs, q', h') \<and>
    queue_rel E h' q' (remove_first (\<lambda>x. cond x (h x)) xs) \<and> relinks E (set xs) h h' \<and>
    (\<forall>x. find (\<lambda>x. cond x (h x)) xs = Some x \<longrightarrow> unlinked E (h' x))"
    using pop_if_loop_ok [OF assms(1) queue_rel_new, where cond = cond and dbg = dbg] assms(2)
    by (simp add: queue_pop_if_def)
  with that show thesis by blast
qed

lemma queue_remove_ok:
  assumes "queue_rel E h q xs" "x \<notin> set xs \<Longrightarrow> unlinked E (h x)"
  obtains q' h' where "queue_remove dbg E q x h = Some (q', h')" "queue_rel E h' q' (remove1 x xs)"
    "relinks E (set xs) h h'" "unlinked E (h' x)"
proof (cases "el_is_in_queue E (h x) = Some False")
  case True
  then have "x \<notin> set xs" using assms(1) by (auto simp: queue_rel_def)
  with True assms show thesis by (intro that [of q h]) (auto simp: queue_remove_def remove1_idem)
next
  case False
  obtain q' h' where p: "queue_pop_if dbg E (\<lambda>t _. t = x) q h = Some (find (\<lambda>y. y = x) xs, q', h')"
    "queue_rel E h' q' (remove_first (\<lambda>y. y = x) xs)" "relinks E (set xs) h h'"
    "\<And>y. find (\<lambda>y. y = x) xs = Some y \<Longrightarrow> unlinked E (h' y)"
    using queue_pop_if_ok [OF assms(1), of "\<lambda>t _. t = x" dbg] by auto
  have "unlinked E (h' x)"
    using p(4) assms(2) relinks_outside [OF p(3), of x] by (cases "x \<in> set xs") (auto simp: find_eq)
  then show thesis using False p that [of q' h'] by (simp add: queue_remove_def remove_first_eq)
qed

section \<open>Stacks\<close>

lemma list_push_queued: "el_is_in_queue E (h x) = Some True \<Longrightarrow> list_push dbg E l x h = Some (l, h)"
  by (simp add: list_push_def)

lemma list_push_ok:
  assumes "list_rel E h l xs" "x \<notin> set xs" "unlinked E (h x)"
  obtains l' h' where "list_push dbg E l x h = Some (l', h')" "list_rel E h' l' (x # xs)" "relinks E {x} h h'"
proof -
  let ?h = "set_next E x (list_head l) (mark_in_queue E x True h)"
  have r: "relinks E {x} h ?h" by (rule relinks_mono [OF relinks_trans [OF relinks_mark relinks_set]]) simp
  have "list_rel E ?h l xs" by (rule list_rel_frame [OF assms(1) r]) (use assms(2) in simp)
  then have "list_rel E ?h (l\<lparr>list_head := Some x\<rparr>) (x # xs)"
    using assms(2,3) by (auto simp: list_rel_def unlinked_def set_next_def mark_in_queue_def)
  moreover have "list_push dbg E l x h = Some (l\<lparr>list_head := Some x\<rparr>, ?h)"
    using assms(3) by (auto simp: list_push_def unlinked_def Let_def mark_in_queue_def)
  ultimately show thesis using that r by blast
qed

lemma list_pop_empty: "list_rel E h l [] \<Longrightarrow> list_pop E l h = (None, l, h)"
  by (simp add: list_rel_def list_pop_def)

lemma list_pop_ok:
  assumes "list_rel E h l (x # xs)"
  obtains l' h' where "list_pop E l h = (Some x, l', h')" "list_rel E h' l' xs" "unlinked E (h' x)" "relinks E {x} h h'"
proof -
  let ?h = "mark_in_queue E x False (set_next E x None h)"
  have r: "relinks E {x} h ?h" by (rule relinks_mono [OF relinks_trans [OF relinks_set relinks_mark]]) simp
  have "list_rel E h (l\<lparr>list_head := el_next E (h x)\<rparr>) xs" using assms by (auto simp: list_rel_def)
  then have "list_rel E ?h (l\<lparr>list_head := el_next E (h x)\<rparr>) xs"
    by (rule list_rel_frame [OF _ r]) (use assms in \<open>simp add: list_rel_def\<close>)
  moreover have "unlinked E (?h x)" by (auto simp: unlinked_def mark_in_queue_def set_next_def)
  moreover have "list_pop E l h = (Some x, l\<lparr>list_head := el_next E (h x)\<rparr>, ?h)"
    using assms by (simp add: list_rel_def list_pop_def)
  ultimately show thesis using that r by blast
qed

lemma list_remove_loop_ok:
  assumes "list_rel E h l ys" "list_rel E h self zs" "set ys \<inter> set zs = {}" "x \<notin> set zs" "x \<notin> set ys \<Longrightarrow> unlinked E (h x)"
  shows "\<exists>l' h'. list_remove_loop dbg E x l self h = Some (l', h') \<and> list_rel E h' l' (rev (remove1 x ys) @ zs) \<and>
    relinks E (set ys) h h' \<and> unlinked E (h' x)"
  using assms
proof (induction ys arbitrary: l self zs h)
  case Nil
  then show ?case by (subst list_remove_loop.simps) (simp add: list_pop_empty)
next
  case (Cons y ys)
  obtain l1 h1 where pop: "list_pop E l h = (Some y, l1, h1)" "list_rel E h1 l1 ys" "unlinked E (h1 y)" "relinks E {y} h h1"
    using list_pop_ok [OF Cons.prems(1)] .
  have y: "y \<notin> set zs" "y \<notin> set ys" using Cons.prems by (auto simp: list_rel_def)
  have self1: "list_rel E h1 self zs" by (rule list_rel_frame [OF Cons.prems(2) pop(4)]) (use y(1) in simp)
  show ?case
  proof (cases "y = x")
    case True
    have "set ys \<inter> set zs = {}" using Cons.prems(3) by auto
    from Cons.IH [OF pop(2) self1 this Cons.prems(4)] pop(3) True obtain l' h' where
      ih: "list_remove_loop dbg E x l1 self h1 = Some (l', h')" "list_rel E h' l' (rev (remove1 x ys) @ zs)"
        "relinks E (set ys) h1 h'" "unlinked E (h' x)" by auto
    have "list_remove_loop dbg E x l self h = Some (l', h')"
      using pop(1) ih(1) True mark_unlinked [of h1 y] pop(3) by (subst list_remove_loop.simps) auto
    moreover have "relinks E (set (y # ys)) h h'"
      using relinks_trans [OF pop(4) ih(3)] by simp
    ultimately show ?thesis using ih(2,4) True y(2) by (auto simp: remove1_idem)
  next
    case False
    from list_push_ok [OF self1 y(1) pop(3), of dbg] obtain self' h2 where
      push: "list_push dbg E self y h1 = Some (self', h2)" "list_rel E h2 self' (y # zs)" "relinks E {y} h1 h2" .
    have l2: "list_rel E h2 l1 ys" by (rule list_rel_frame [OF pop(2) push(3)]) (use y(2) in simp)
    have "unlinked E (h2 x)" if "x \<notin> set ys"
      using Cons.prems(5) that False relinks_outside [OF pop(4), of x] relinks_outside [OF push(3), of x] by simp
    then obtain l' h' where ih: "list_remove_loop dbg E x l1 self' h2 = Some (l', h')"
        "list_rel E h' l' (rev (remove1 x ys) @ y # zs)" "relinks E (set ys) h2 h'" "unlinked E (h' x)"
      using Cons.IH [OF l2 push(2)] Cons.prems(3,4) False y(2) by auto
    have "list_remove_loop dbg E x l self h = Some (l', h')"
      using pop(1) push(1) ih(1) False by (subst list_remove_loop.simps) auto
    moreover have "relinks E (set (y # ys)) h h'"
      using relinks_trans [OF relinks_trans [OF pop(4) push(3)] ih(3)] by simp
    ultimately show ?thesis using ih(2,4) False by auto
  qed
qed

text \<open>\<open>TaskList::remove\<close> takes the task out and reverses the order of the others.\<close>

lemma list_remove_ok:
  assumes "list_rel E h l xs" "x \<notin> set xs \<Longrightarrow> unlinked E (h x)"
  obtains l' h' ys where "list_remove dbg E l x h = Some (l', h')" "list_rel E h' l' ys"
    "ys = xs \<and> x \<notin> set xs \<or> ys = rev (remove1 x xs)" "relinks E (set xs) h h'" "unlinked E (h' x)"
proof (cases "el_is_in_queue E (h x) = Some False")
  case True
  then have "x \<notin> set xs" using assms(1) by (auto simp: list_rel_def)
  with True assms show thesis by (intro that [of l h xs]) (auto simp: list_remove_def)
next
  case False
  from list_remove_loop_ok [OF assms(1) list_rel_new, of x dbg] assms(2) False that show thesis
    by (auto simp: list_remove_def)
qed

end

end
