(* ===== verification/Run_Queue.thy ===== *)
theory Run_Queue
  imports Task_Lists
begin

text \<open>
  \<open>esp-rtos/src/run_queue.rs\<close>: the ready queues, one per priority level, with a bit mask of the levels
  in use, and the part of \<open>wait_queue.rs\<close> that making a task ready uses. The run queue is shown to
  refine one list of tasks per level: \<open>mark_task_ready\<close> appends to the level of the task and takes
  it out of the wait queue it is in, \<open>pop\<close> takes the first runnable task of the highest level, and the
  mask and the cached maximum stay exact.
\<close>

section \<open>Priorities\<close>

definition MAX_PRIORITY :: nat where
  "MAX_PRIORITY = 31"

text \<open>A \<open>Priority\<close> wraps one of 32 values; \<open>P::from_usize\<close> clamps.\<close>

definition priority_new :: "nat \<Rightarrow> nat" where
  "priority_new p = (if p < 31 then p else 31)"

record MaxPriority =
  mp_max :: nat
  mp_mask :: u32

definition mp_new :: MaxPriority where
  "mp_new = \<lparr>mp_max = 0, mp_mask = 0\<rparr>"

definition mp_mark_ready :: "nat \<Rightarrow> MaxPriority \<Rightarrow> MaxPriority" where
  "mp_mark_ready level mp =
     \<lparr>mp_max = (if level > mp_max mp then level else mp_max mp), mp_mask = mp_mask mp OR push_bit level 1\<rparr>"

definition leading_zeros :: "u32 \<Rightarrow> nat" where
  "leading_zeros w = length (takeWhile (\<lambda>i. \<not> bit w (31 - i)) [0..<32])"

text \<open>\<open>saturating_sub\<close> is subtraction on the natural numbers.\<close>

definition mp_unmark :: "nat \<Rightarrow> MaxPriority \<Rightarrow> MaxPriority" where
  "mp_unmark level mp =
    (let mask = mp_mask mp AND NOT (push_bit level 1)
     in \<lparr>mp_max = priority_new (MAX_PRIORITY - leading_zeros mask), mp_mask = mask\<rparr>)"

definition mp_ready :: "MaxPriority \<Rightarrow> nat" where
  "mp_ready mp = mp_max mp"

section \<open>The run queue\<close>

record WaitQueue =
  waiting_tasks :: TaskList

definition wait_new :: WaitQueue where
  "wait_new = \<lparr>waiting_tasks = list_new\<rparr>"

definition wait_remove :: "bool \<Rightarrow> WaitQueue \<Rightarrow> TaskPtr \<Rightarrow> heap \<Rightarrow> (WaitQueue \<times> heap) option" where
  "wait_remove dbg wq task h =
     Option.bind (list_remove dbg TaskReadyQueueElement (waiting_tasks wq) task h)
       (\<lambda>(l, h'). Some (wq\<lparr>waiting_tasks := l\<rparr>, h'))"

record RunQueue =
  ready_priority :: MaxPriority
  ready_tasks :: "TaskQueue list"

datatype RunSchedulerOn = DontRun | RunOnCore Cpu

datatype ActiveCores = SingleCore Cpu | AllCores

definition rq_new :: RunQueue where
  "rq_new = \<lparr>ready_priority = mp_new, ready_tasks = replicate (MAX_PRIORITY + 1) queue_new\<rparr>"

definition all_cpus :: "Cpu list" where
  "all_cpus = [ProCpu, AppCpu]"

definition other_cpu :: "Cpu \<Rightarrow> Cpu" where
  "other_cpu cpu = (case cpu of AppCpu \<Rightarrow> ProCpu | ProCpu \<Rightarrow> AppCpu)"

text \<open>\<open>current\<close> gives the current task of each CPU, \<open>None\<close> for a null pointer.\<close>

definition priority_of_task :: "heap \<Rightarrow> TaskPtr option \<Rightarrow> nat" where
  "priority_of_task h task = (case task of None \<Rightarrow> 0 | Some t \<Rightarrow> priority (h t))"

definition priority_of_core :: "heap \<Rightarrow> (Cpu \<Rightarrow> TaskPtr option) \<Rightarrow> Cpu \<Rightarrow> nat" where
  "priority_of_core h current core = priority_of_task h (current core)"

definition select_scheduler_trigger_multi_core :: "heap \<Rightarrow> (Cpu \<Rightarrow> TaskPtr option) \<Rightarrow> TaskPtr \<Rightarrow> RunSchedulerOn" where
  "select_scheduler_trigger_multi_core h current task =
    (let (target_cpu, target_prio) = (case pinned_to (h task) of
         Some cpu \<Rightarrow> (cpu, priority_of_core h current cpu)
       | None \<Rightarrow>
           let p = priority_of_core h current ProCpu; a = priority_of_core h current AppCpu in
           if p \<le> a then (ProCpu, p) else (AppCpu, a))
     in if priority (h task) \<ge> target_prio then RunOnCore target_cpu else DontRun)"

definition select_scheduler_trigger_single_core :: "RunQueue \<Rightarrow> Cpu \<Rightarrow> nat \<Rightarrow> RunSchedulerOn" where
  "select_scheduler_trigger_single_core rq cpu prio =
    (if prio \<ge> mp_ready (ready_priority rq) then RunOnCore cpu else DontRun)"

text \<open>
  The wait queues are a map from their addresses. \<open>take_from_wait_queue\<close> is the block that
  removes the task from the wait queue it names.
\<close>

definition take_from_wait_queue ::
  "bool \<Rightarrow> TaskPtr \<Rightarrow> (nat \<Rightarrow> WaitQueue) \<Rightarrow> heap \<Rightarrow> ((nat \<Rightarrow> WaitQueue) \<times> heap) option"
where
  "take_from_wait_queue dbg task wqs h = (case current_wait_queue (h task) of
      None \<Rightarrow> Some (wqs, h)
    | Some i \<Rightarrow>
        Option.bind (wait_remove dbg (wqs i) task (h(task := (h task)\<lparr>current_wait_queue := None\<rparr>)))
          (\<lambda>(wq, h'). Some (wqs(i := wq), h')))"

definition mark_task_ready ::
  "bool \<Rightarrow> (Cpu \<Rightarrow> TaskPtr option) \<Rightarrow> ActiveCores \<Rightarrow> TaskPtr \<Rightarrow> (nat \<Rightarrow> WaitQueue) \<Rightarrow> RunQueue \<Rightarrow> heap \<Rightarrow>
     (RunSchedulerOn \<times> (nat \<Rightarrow> WaitQueue) \<times> RunQueue \<times> heap) option"
where
  "mark_task_ready dbg current active_cores ready_task wqs rq h =
    (let prio = priority (h ready_task);
         h1 = set_state ready_task Ready h in
     Option.bind (take_from_wait_queue dbg ready_task wqs h1) (\<lambda>(wqs', h2).
     Option.bind (queue_push dbg TaskReadyQueueElement (ready_tasks rq ! prio) ready_task h2) (\<lambda>(q, h3).
     let rq1 = rq\<lparr>ready_tasks := (ready_tasks rq)[prio := q]\<rparr>;
         run_on = (case active_cores of
             AllCores \<Rightarrow> select_scheduler_trigger_multi_core h3 current ready_task
           | SingleCore cpu \<Rightarrow> select_scheduler_trigger_single_core rq1 cpu prio)
     in Some (run_on, wqs', rq1\<lparr>ready_priority := mp_mark_ready prio (ready_priority rq1)\<rparr>, h3))))"

text \<open>After a removal the level is unmarked when it has become empty.\<close>

definition unmark_if_empty :: "nat \<Rightarrow> RunQueue \<Rightarrow> RunQueue" where
  "unmark_if_empty prio rq =
    (if queue_is_empty (ready_tasks rq ! prio) then rq\<lparr>ready_priority := mp_unmark prio (ready_priority rq)\<rparr> else rq)"

definition pop_single_core :: "RunQueue \<Rightarrow> heap \<Rightarrow> TaskPtr option \<times> RunQueue \<times> heap" where
  "pop_single_core rq h =
    (let prio = mp_ready (ready_priority rq) in
     case queue_pop TaskReadyQueueElement (ready_tasks rq ! prio) h of (popped, q, h') \<Rightarrow>
       (popped, unmark_if_empty prio (rq\<lparr>ready_tasks := (ready_tasks rq)[prio := q]\<rparr>), h'))"

definition can_run :: "Cpu \<Rightarrow> TaskPtr option \<Rightarrow> TaskPtr \<Rightarrow> Task \<Rightarrow> bool" where
  "can_run other other_cpu_task p t \<longleftrightarrow> pinned_to t \<noteq> Some other \<and> Some p \<noteq> other_cpu_task"

partial_function (option) pop_level_loop ::
  "bool \<Rightarrow> (TaskPtr \<Rightarrow> Task \<Rightarrow> bool) \<Rightarrow> MaxPriority \<Rightarrow> nat \<Rightarrow> RunQueue \<Rightarrow> heap \<Rightarrow>
     (TaskPtr option \<times> nat \<times> RunQueue \<times> heap) option"
where
  "pop_level_loop dbg cond priority_level prio rq h =
     Option.bind (queue_pop_if dbg TaskReadyQueueElement cond (ready_tasks rq ! prio) h) (\<lambda>(popped, q, h').
     let rq' = rq\<lparr>ready_tasks := (ready_tasks rq)[prio := q]\<rparr> in
     if popped = None then
       let level' = mp_unmark prio priority_level in
       if prio = 0 then Some (None, prio, rq', h')
       else pop_level_loop dbg cond level' (mp_ready level') rq' h'
     else Some (popped, prio, rq', h'))"

definition pop_multi_core ::
  "bool \<Rightarrow> Cpu \<Rightarrow> TaskPtr option \<Rightarrow> RunQueue \<Rightarrow> heap \<Rightarrow> (TaskPtr option \<times> RunQueue \<times> heap) option"
where
  "pop_multi_core dbg cpu other_cpu_task rq h =
     Option.bind (pop_level_loop dbg (can_run (other_cpu cpu) other_cpu_task) (ready_priority rq)
         (mp_ready (ready_priority rq)) rq h) (\<lambda>(popped, prio, rq', h').
     Some (popped, unmark_if_empty prio rq', h'))"

definition is_level_empty :: "RunQueue \<Rightarrow> nat \<Rightarrow> bool" where
  "is_level_empty rq level = queue_is_empty (ready_tasks rq ! level)"

definition has_ready_tasks :: "RunQueue \<Rightarrow> bool" where
  "has_ready_tasks rq \<longleftrightarrow> mp_mask (ready_priority rq) \<noteq> 0"

definition rq_remove :: "bool \<Rightarrow> RunQueue \<Rightarrow> TaskPtr \<Rightarrow> heap \<Rightarrow> (RunQueue \<times> heap) option" where
  "rq_remove dbg rq to_delete h =
    (let prio = priority (h to_delete) in
     Option.bind (queue_remove dbg TaskReadyQueueElement (ready_tasks rq ! prio) to_delete h) (\<lambda>(q, h').
     Some (unmark_if_empty prio (rq\<lparr>ready_tasks := (ready_tasks rq)[prio := q]\<rparr>), h')))"

section \<open>The mask\<close>

text \<open>The mask holds the levels of \<open>S\<close> and the cached maximum is the highest of them, 0 when there is none.\<close>

definition mp_rel :: "MaxPriority \<Rightarrow> nat set \<Rightarrow> bool" where
  "mp_rel mp S \<longleftrightarrow> S \<subseteq> {..31} \<and> {i. bit (mp_mask mp) i} = S \<and> mp_max mp = (if S = {} then 0 else Max S)"

lemma bit_u32_bound: "bit (w :: u32) i \<Longrightarrow> i \<le> 31"
  using bit_imp_le_length [of w i] by simp

lemma leading_zeros_max:
  assumes "bit (w :: u32) k" "\<And>i. bit w i \<Longrightarrow> i \<le> k"
  shows "leading_zeros w = 31 - k"
proof -
  have k: "k \<le> 31" using assms(1) by (rule bit_u32_bound)
  have split: "[0..<32] = [0..<31 - k] @ (31 - k) # [Suc (31 - k)..<32]"
    using upt_add_eq_append [of 0 "31 - k" "Suc k"] upt_conv_Cons [of "31 - k" 32] k by simp
  have "\<not> bit w (31 - i)" if "i < 31 - k" for i using assms(2) [of "31 - i"] that by linarith
  then have "takeWhile (\<lambda>i. \<not> bit w (31 - i)) [0..<32] = [0..<31 - k]"
    unfolding split using assms(1) k by (subst takeWhile_append2) auto
  then show ?thesis by (simp add: leading_zeros_def)
qed

lemma leading_zeros_0: "leading_zeros 0 = 32"
  by (simp add: leading_zeros_def takeWhile_eq_all_conv [THEN iffD2])

lemma mask_max:
  "priority_new (MAX_PRIORITY - leading_zeros w) = (if {i. bit w i} = {} then 0 else Max {i. bit (w :: u32) i})"
proof (cases "{i. bit w i} = {}")
  case True
  then have "w = 0" by (intro bit_eqI) auto
  then show ?thesis by (simp add: leading_zeros_0 MAX_PRIORITY_def priority_new_def)
next
  case False
  have fin: "finite {i. bit w i}" by (rule finite_subset [of _ "{..31}"]) (auto dest: bit_u32_bound)
  let ?k = "Max {i. bit w i}"
  have k: "bit w ?k" using Max_in [OF fin False] by simp
  have "\<And>i. bit w i \<Longrightarrow> i \<le> ?k" using Max_ge [OF fin] by simp
  from leading_zeros_max [OF k this] have lz: "leading_zeros w = 31 - ?k" .
  have "priority_new (MAX_PRIORITY - leading_zeros w) = ?k"
    unfolding lz MAX_PRIORITY_def priority_new_def using bit_u32_bound [OF k] by arith
  with False show ?thesis by (simp only: if_False)
qed

lemma mp_rel_new: "mp_rel mp_new {}"
  by (simp add: mp_rel_def mp_new_def)

lemma mp_rel_mark:
  assumes "mp_rel mp S" "p \<le> 31"
  shows "mp_rel (mp_mark_ready p mp) (insert p S)"
proof -
  have fin: "finite S" using assms(1) finite_subset [of S "{..31}"] by (simp add: mp_rel_def)
  have "mp_max (mp_mark_ready p mp) = Max (insert p S)"
    using assms(1) Max_insert [OF fin, of p] by (cases "S = {}") (auto simp: mp_rel_def mp_mark_ready_def)
  moreover have "{i. bit (mp_mask mp OR push_bit p 1) i} = insert p {i. bit (mp_mask mp) i}"
    using assms(2) by (auto simp: bit_or_iff bit_exp_iff)
  ultimately show ?thesis using assms by (simp add: mp_rel_def mp_mark_ready_def)
qed

lemma mp_rel_unmark: "mp_rel mp S \<Longrightarrow> mp_rel (mp_unmark p mp) (S - {p})"
proof -
  assume "mp_rel mp S"
  moreover have "{i. bit (mp_mask mp AND NOT (push_bit p 1)) i} = {i. bit (mp_mask mp) i} - {p}"
    by (auto simp: bit_and_iff bit_not_iff bit_exp_iff dest: bit_imp_le_length)
  ultimately show ?thesis by (auto simp: mp_rel_def mp_unmark_def Let_def mask_max)
qed

section \<open>The levels as lists\<close>

abbreviation ready_element :: TaskListElement where
  "ready_element \<equiv> TaskReadyQueueElement"

text \<open>\<open>f p\<close> lists the tasks of level \<open>p\<close> in the order in which they run.\<close>

definition rq_rel :: "heap \<Rightarrow> RunQueue \<Rightarrow> (nat \<Rightarrow> TaskPtr list) \<Rightarrow> bool" where
  "rq_rel h rq f \<longleftrightarrow> length (ready_tasks rq) = 32 \<and> (\<forall>p\<le>31. queue_rel ready_element h (ready_tasks rq ! p) (f p)) \<and>
     (\<forall>p>31. f p = []) \<and> (\<forall>p. \<forall>t\<in>set (f p). priority (h t) = p \<and> current_wait_queue (h t) = None) \<and>
     mp_rel (ready_priority rq) {p. f p \<noteq> []}"

definition waits_rel :: "heap \<Rightarrow> (nat \<Rightarrow> WaitQueue) \<Rightarrow> (nat \<Rightarrow> TaskPtr list) \<Rightarrow> bool" where
  "waits_rel h wqs w \<longleftrightarrow> (\<forall>i. list_rel ready_element h (waiting_tasks (wqs i)) (w i)) \<and>
     (\<forall>i. \<forall>t\<in>set (w i). current_wait_queue (h t) = Some i)"

text \<open>The run queue and the wait queues share one link: every task is in at most one of their lists.\<close>

definition ready_inv ::
  "heap \<Rightarrow> (nat \<Rightarrow> WaitQueue) \<Rightarrow> RunQueue \<Rightarrow> (nat \<Rightarrow> TaskPtr list) \<Rightarrow> (nat \<Rightarrow> TaskPtr list) \<Rightarrow> bool"
where
  "ready_inv h wqs rq f w \<longleftrightarrow> rq_rel h rq f \<and> waits_rel h wqs w \<and>
     (\<forall>t. (\<forall>p. t \<notin> set (f p)) \<and> (\<forall>i. t \<notin> set (w i)) \<longrightarrow> unlinked ready_element (h t))"

text \<open>The fields that these lists depend on.\<close>

definition same_ready :: "Task \<Rightarrow> Task \<Rightarrow> bool" where
  "same_ready t t' \<longleftrightarrow> ready_queue_item t' = ready_queue_item t \<and> in_run_or_wait_queue t' = in_run_or_wait_queue t \<and>
     priority t' = priority t \<and> current_wait_queue t' = current_wait_queue t"

lemma ready_element_simps [simp]:
  "el_next ready_element t = ready_queue_item t" "el_is_in_queue ready_element t = Some (in_run_or_wait_queue t)"
  "unlinked ready_element t \<longleftrightarrow> ready_queue_item t = None \<and> \<not> in_run_or_wait_queue t"
  by (simp_all add: element_defs unlinked_def)

lemma ready_inv_same:
  assumes "ready_inv h wqs rq f w" "\<And>y. same_ready (h y) (h' y)"
  shows "ready_inv h' wqs rq f w"
proof -
  have "queue_rel ready_element h' q xs = queue_rel ready_element h q xs"
    "list_rel ready_element h' l xs = list_rel ready_element h l xs" for q l xs
    using assms(2) by (auto simp: same_ready_def intro!: queue_rel_cong list_rel_cong)
  with assms show ?thesis by (auto simp: ready_inv_def rq_rel_def waits_rel_def same_ready_def)
qed

lemma ready_relinks:
  assumes "relinks ready_element X h h'"
  shows "priority (h' y) = priority (h y)" "current_wait_queue (h' y) = current_wait_queue (h y)"
    "pinned_to (h' y) = pinned_to (h y)" "task_state (h' y) = task_state (h y)" "wakeup_at (h' y) = wakeup_at (h y)"
    "timer_queued (h' y) = timer_queued (h y)" "timer_queue_item (h' y) = timer_queue_item (h y)"
    "alloc_list_item (h' y) = alloc_list_item (h y)" "delete_list_item (h' y) = delete_list_item (h y)"
    "stack_bottom (h' y) = stack_bottom (h y)" "stack_words (h' y) = stack_words (h y)"
    "saved_sp (h' y) = saved_sp (h y)" "thread (h' y) = thread (h y)"
  using assms by (rule relinks_field; simp add: element_defs)+

lemma level_disjoint:
  assumes "ready_inv h wqs rq f w"
  shows "p \<noteq> p' \<Longrightarrow> set (f p) \<inter> set (f p') = {}" "set (f p) \<inter> set (w i) = {}" "i \<noteq> j \<Longrightarrow> set (w i) \<inter> set (w j) = {}"
proof -
  from assms have f: "\<And>p t. t \<in> set (f p) \<Longrightarrow> priority (h t) = p \<and> current_wait_queue (h t) = None"
    and w: "\<And>i t. t \<in> set (w i) \<Longrightarrow> current_wait_queue (h t) = Some i"
    by (simp_all add: ready_inv_def rq_rel_def waits_rel_def)
  show "set (f p) \<inter> set (f p') = {}" if "p \<noteq> p'" using that by (auto dest!: f)
  show "set (f p) \<inter> set (w i) = {}" by (auto dest!: f w)
  show "set (w i) \<inter> set (w j) = {}" if "i \<noteq> j" using that by (auto dest!: w)
qed

lemma ready_inv_unlinked:
  assumes "ready_inv h wqs rq f w" "\<And>p. t \<notin> set (f p)" "\<And>i. t \<notin> set (w i)"
  shows "unlinked ready_element (h t)"
  using assms by (simp add: ready_inv_def)

text \<open>Replacing one level, when only the tasks of \<open>X\<close> were relinked.\<close>

lemma ready_inv_level:
  assumes inv: "ready_inv h wqs rq f w" and "p \<le> 31"
    and rel: "relinks ready_element X h h'" and q: "queue_rel ready_element h' q xs"
    and X: "set (f p) \<subseteq> X" "\<And>p'. p' \<noteq> p \<Longrightarrow> set (f p') \<inter> X = {}" "\<And>i. set (w i) \<inter> X = {}"
    and xs: "\<And>y. y \<in> set xs \<Longrightarrow> priority (h y) = p \<and> current_wait_queue (h y) = None"
    and out: "\<And>y. y \<in> X \<Longrightarrow> y \<notin> set xs \<Longrightarrow> unlinked ready_element (h' y)"
    and mp: "mp_rel mp {p'. (f(p := xs)) p' \<noteq> []}"
  shows "ready_inv h' wqs (rq\<lparr>ready_tasks := (ready_tasks rq)[p := q], ready_priority := mp\<rparr>) (f(p := xs)) w"
proof -
  have lv: "queue_rel ready_element h' (ready_tasks rq ! p') (f p')" if "p' \<le> 31" "p' \<noteq> p" for p'
    using inv that(1) X(2) [OF that(2)] by (intro queue_rel_frame [OF _ rel]) (simp_all add: ready_inv_def rq_rel_def)
  have wl: "list_rel ready_element h' (waiting_tasks (wqs i)) (w i)" for i
    using inv X(3) [of i] by (intro list_rel_frame [OF _ rel]) (simp_all add: ready_inv_def waits_rel_def)
  have fields: "priority (h' y) = priority (h y)" "current_wait_queue (h' y) = current_wait_queue (h y)" for y
    using ready_relinks [OF rel] by simp_all
  have members: "priority (h' y) = p' \<and> current_wait_queue (h' y) = None" if "y \<in> set ((f(p := xs)) p')" for y p'
    using inv that xs unfolding fields by (auto simp: ready_inv_def rq_rel_def split: if_splits)
  have "rq_rel h' (rq\<lparr>ready_tasks := (ready_tasks rq)[p := q], ready_priority := mp\<rparr>) (f(p := xs))"
    using inv lv q mp members assms(2) by (auto simp: rq_rel_def ready_inv_def nth_list_update)
  moreover have "waits_rel h' wqs w"
    using inv wl fields(2) by (simp add: waits_rel_def ready_inv_def)
  moreover have "unlinked ready_element (h' y)" if y: "\<forall>p'. y \<notin> set ((f(p := xs)) p')" "\<forall>i. y \<notin> set (w i)" for y
  proof (cases "y \<in> X")
    case True
    then show ?thesis using y(1) [rule_format, of p] by (intro out) simp_all
  next
    case False
    have "y \<notin> set (f p')" for p' using y(1) [rule_format, of p'] X(1) False by (cases "p' = p") auto
    then have "unlinked ready_element (h y)" using y(2) by (intro ready_inv_unlinked [OF inv]) simp_all
    then show ?thesis using relinks_outside [OF rel False] by simp
  qed
  ultimately show ?thesis by (simp add: ready_inv_def)
qed

text \<open>A level that loses tasks is unmarked when it becomes empty.\<close>

lemma ready_inv_shrink:
  assumes inv: "ready_inv h wqs rq f w" and p: "p \<le> 31"
    and rel: "relinks ready_element (set (f p)) h h'" and q: "queue_rel ready_element h' q xs" and xs: "set xs \<subseteq> set (f p)"
    and out: "\<And>y. y \<in> set (f p) \<Longrightarrow> y \<notin> set xs \<Longrightarrow> unlinked ready_element (h' y)"
  shows "ready_inv h' wqs (unmark_if_empty p (rq\<lparr>ready_tasks := (ready_tasks rq)[p := q]\<rparr>)) (f(p := xs)) w"
proof -
  let ?mp = "if xs = [] then mp_unmark p (ready_priority rq) else ready_priority rq"
  have r: "length (ready_tasks rq) = 32" "mp_rel (ready_priority rq) {p'. f p' \<noteq> []}"
    using inv by (simp_all add: ready_inv_def rq_rel_def)
  have "{p'. (f(p := xs)) p' \<noteq> []} = (if xs = [] then {p'. f p' \<noteq> []} - {p} else {p'. f p' \<noteq> []})"
    using xs by auto
  then have mp: "mp_rel ?mp {p'. (f(p := xs)) p' \<noteq> []}" using r(2) mp_rel_unmark [OF r(2)] by simp
  have "priority (h y) = p \<and> current_wait_queue (h y) = None" if "y \<in> set xs" for y
    using inv xs that by (auto simp: ready_inv_def rq_rel_def)
  with level_disjoint(1) [OF inv] level_disjoint(2) [OF inv] have
    "ready_inv h' wqs (rq\<lparr>ready_tasks := (ready_tasks rq)[p := q], ready_priority := ?mp\<rparr>) (f(p := xs)) w"
    by (intro ready_inv_level [OF inv p rel q _ _ _ _ out mp]) (simp_all add: Int_commute)
  moreover have "queue_is_empty q \<longleftrightarrow> xs = []" using q by (cases xs) (auto simp: queue_is_empty_def queue_rel_def)
  ultimately show ?thesis using p r(1) by (cases "xs = []") (simp_all add: unmark_if_empty_def)
qed

section \<open>Making a task ready\<close>

lemma take_from_wait_queue_ok:
  assumes inv: "ready_inv h wqs rq f w"
  obtains wqs' h' w' where "take_from_wait_queue dbg t wqs h = Some (wqs', h')" "ready_inv h' wqs' rq f w'"
    "\<And>i. set (w' i) = set (w i) - {t}" "current_wait_queue (h' t) = None"
    "relinks ready_element UNIV (h(t := (h t)\<lparr>current_wait_queue := None\<rparr>)) h'"
proof (cases "current_wait_queue (h t)")
  case None
  then have "t \<notin> set (w i)" for i using inv by (auto simp: ready_inv_def waits_rel_def)
  moreover have "h(t := (h t)\<lparr>current_wait_queue := None\<rparr>) = h" using None by (auto simp: fun_eq_iff)
  ultimately show thesis using None inv by (intro that [of wqs h w]) (simp_all add: take_from_wait_queue_def)
next
  case (Some i)
  let ?h = "h(t := (h t)\<lparr>current_wait_queue := None\<rparr>)"
  from Some inv have nf: "t \<notin> set (f p)" "j \<noteq> i \<Longrightarrow> t \<notin> set (w j)" for p j
    by (auto simp: ready_inv_def rq_rel_def waits_rel_def)
  have unl: "unlinked ready_element (?h t)" if "t \<notin> set (w i)"
  proof -
    have "t \<notin> set (w j)" for j using nf(2) that by (cases "j = i") auto
    from ready_inv_unlinked [OF inv nf(1) this] show ?thesis by simp
  qed
  have l: "list_rel ready_element ?h l xs = list_rel ready_element h l xs"
    "queue_rel ready_element ?h q xs = queue_rel ready_element h q xs" for l q xs
    by (rule list_rel_cong queue_rel_cong; simp)+
  have "list_rel ready_element ?h (waiting_tasks (wqs i)) (w i)" using inv l by (simp add: ready_inv_def waits_rel_def)
  from ready_link.list_remove_ok [OF this unl, of dbg] obtain l' h' ys where
    r: "list_remove dbg ready_element (waiting_tasks (wqs i)) t ?h = Some (l', h')" "list_rel ready_element h' l' ys"
      "ys = w i \<and> t \<notin> set (w i) \<or> ys = rev (remove1 t (w i))" "relinks ready_element (set (w i)) ?h h'"
      "unlinked ready_element (h' t)" by blast
  have "distinct (w i)" using inv by (simp add: ready_inv_def waits_rel_def list_rel_def)
  then have ys: "set ys = set (w i) - {t}" using r(3) by (auto simp: set_remove1_eq)
  let ?wqs = "wqs(i := (wqs i)\<lparr>waiting_tasks := l'\<rparr>)"
  have fields: "priority (h' y) = priority (h y)" "y \<noteq> t \<Longrightarrow> current_wait_queue (h' y) = current_wait_queue (h y)" for y
    using ready_relinks [OF r(4), of y] by auto
  have "queue_rel ready_element h' (ready_tasks rq ! p) (f p)" if "p \<le> 31" for p
    using inv that level_disjoint(2) [OF inv, of p i] l(2)
    by (intro queue_rel_frame [OF _ r(4)]) (auto simp: ready_inv_def rq_rel_def)
  moreover have "priority (h' y) = p \<and> current_wait_queue (h' y) = None" if "y \<in> set (f p)" for y p
  proof -
    have "y \<noteq> t" using nf(1) that by blast
    then show ?thesis using inv that fields [of y] by (simp add: ready_inv_def rq_rel_def)
  qed
  ultimately have "rq_rel h' rq f" using inv by (simp add: ready_inv_def rq_rel_def)
  moreover have "list_rel ready_element h' (waiting_tasks (?wqs j)) ((w(i := ys)) j)" for j
    using inv r(2) level_disjoint(3) [OF inv, of j i] l(1)
    by (cases "j = i") (auto simp: ready_inv_def waits_rel_def intro!: list_rel_frame [OF _ r(4)])
  moreover have "current_wait_queue (h' y) = Some j" if "y \<in> set ((w(i := ys)) j)" for y j
  proof -
    have y: "y \<in> set (w j)" "y \<noteq> t" using that ys nf(2) [of j] by (auto split: if_splits)
    then show ?thesis using inv fields(2) [of y] by (simp add: ready_inv_def waits_rel_def)
  qed
  ultimately have "rq_rel h' rq f" "waits_rel h' ?wqs (w(i := ys))" by (simp_all only: waits_rel_def) blast+
  moreover have "unlinked ready_element (h' y)" if y: "\<forall>p. y \<notin> set (f p)" "\<forall>j. y \<notin> set ((w(i := ys)) j)" for y
  proof (cases "y = t")
    case False
    have yw: "y \<notin> set (w j)" for j using y(2) [rule_format, of j] ys False by (cases "j = i") auto
    then have "h' y = ?h y" by (intro relinks_outside [OF r(4)])
    with False yw y(1) inv show ?thesis by (simp add: ready_inv_def)
  qed (use r(5) in simp)
  ultimately have "ready_inv h' ?wqs rq f (w(i := ys))" by (simp add: ready_inv_def)
  moreover have "take_from_wait_queue dbg t wqs h = Some (?wqs, h')"
    using Some r(1) by (simp add: take_from_wait_queue_def wait_remove_def)
  moreover have "current_wait_queue (h' t) = None" using ready_relinks(2) [OF r(4), of t] by simp
  moreover have "relinks ready_element UNIV ?h h'" using r(4) by (rule relinks_mono) simp
  ultimately show thesis using that [of ?wqs h' "w(i := ys)"] ys nf(2) by auto
qed

lemma level_push_ok:
  assumes inv: "ready_inv h wqs rq f w" and t: "current_wait_queue (h t) = None" "priority (h t) \<le> 31"
  obtains q h' where "queue_push dbg ready_element (ready_tasks rq ! priority (h t)) t h = Some (q, h')"
    "ready_inv h' wqs (rq\<lparr>ready_tasks := (ready_tasks rq)[priority (h t) := q],
        ready_priority := mp_mark_ready (priority (h t)) (ready_priority rq)\<rparr>)
      (f(priority (h t) := (if t \<in> set (f (priority (h t))) then f (priority (h t)) else f (priority (h t)) @ [t]))) w"
    "relinks ready_element UNIV h h'"
proof -
  let ?p = "priority (h t)"
  have q0: "queue_rel ready_element h (ready_tasks rq ! ?p) (f ?p)" and mp: "mp_rel (ready_priority rq) {p. f p \<noteq> []}"
    and len: "length (ready_tasks rq) = 32"
    using inv t(2) by (simp_all add: ready_inv_def rq_rel_def)
  have only: "\<And>p. t \<in> set (f p) \<Longrightarrow> p = ?p" and nw: "\<And>i. t \<notin> set (w i)"
    using inv t(1) by (auto simp: ready_inv_def rq_rel_def waits_rel_def)
  show thesis
  proof (cases "t \<in> set (f ?p)")
    case True
    then have "in_run_or_wait_queue (h t)" using q0 by (auto simp: queue_rel_def)
    then have push: "queue_push dbg ready_element (ready_tasks rq ! ?p) t h = Some (ready_tasks rq ! ?p, h)"
      by (intro ready_link.queue_push_queued) simp
    have "insert ?p {p. f p \<noteq> []} = {p. f p \<noteq> []}" using True by auto
    then have "mp_rel (mp_mark_ready ?p (ready_priority rq)) {p. f p \<noteq> []}" using mp_rel_mark [OF mp t(2)] by simp
    with inv have "ready_inv h wqs (rq\<lparr>ready_priority := mp_mark_ready ?p (ready_priority rq)\<rparr>) f w"
      by (simp add: ready_inv_def rq_rel_def)
    moreover have "rq\<lparr>ready_tasks := (ready_tasks rq)[?p := ready_tasks rq ! ?p], ready_priority := m\<rparr> = rq\<lparr>ready_priority := m\<rparr>" for m
      by simp
    ultimately show thesis using True by (intro that [OF push]) simp_all
  next
    case False
    then have "unlinked ready_element (h t)" using inv only nw by (intro ready_inv_unlinked [OF inv]) auto
    from ready_link.queue_push_ok [OF q0 False this, of dbg] obtain q h' where
      push: "queue_push dbg ready_element (ready_tasks rq ! ?p) t h = Some (q, h')"
        "queue_rel ready_element h' q (f ?p @ [t])" "relinks ready_element (insert t (set (f ?p))) h h'" .
    have "{p'. (f(?p := f ?p @ [t])) p' \<noteq> []} = insert ?p {p. f p \<noteq> []}" by auto
    then have mp': "mp_rel (mp_mark_ready ?p (ready_priority rq)) {p'. (f(?p := f ?p @ [t])) p' \<noteq> []}"
      using mp_rel_mark [OF mp t(2)] by simp
    have "ready_inv h' wqs (rq\<lparr>ready_tasks := (ready_tasks rq)[?p := q],
        ready_priority := mp_mark_ready ?p (ready_priority rq)\<rparr>) (f(?p := f ?p @ [t])) w"
    proof (rule ready_inv_level [OF inv t(2) push(3,2) _ _ _ _ _ mp'])
      show "set (f p') \<inter> insert t (set (f ?p)) = {}" if "p' \<noteq> ?p" for p'
        using level_disjoint(1) [OF inv that] only that by auto
      show "set (w i) \<inter> insert t (set (f ?p)) = {}" for i using level_disjoint(2) [OF inv, of ?p i] nw by auto
      show "priority (h y) = ?p \<and> current_wait_queue (h y) = None" if "y \<in> set (f ?p @ [t])" for y
        using inv t(1) that by (auto simp: ready_inv_def rq_rel_def)
    qed auto
    then show thesis using False push relinks_mono [OF push(3)] by (intro that) auto
  qed
qed

theorem mark_task_ready_ok:
  assumes inv: "ready_inv h wqs rq f w" and t: "priority (h t) \<le> 31"
  obtains run_on wqs' rq' h' w' where
    "mark_task_ready dbg current active t wqs rq h = Some (run_on, wqs', rq', h')"
    "ready_inv h' wqs' rq' (f(priority (h t) :=
        (if t \<in> set (f (priority (h t))) then f (priority (h t)) else f (priority (h t)) @ [t]))) w'"
    "\<And>i. set (w' i) = set (w i) - {t}"
    "relinks ready_element UNIV (h(t := (h t)\<lparr>task_state := Ready, current_wait_queue := None\<rparr>)) h'"
proof -
  let ?h1 = "set_state t Ready h" and ?p = "priority (h t)"
  have inv1: "ready_inv ?h1 wqs rq f w"
    by (rule ready_inv_same [OF inv]) (simp add: same_ready_def set_state_def)
  from take_from_wait_queue_ok [OF inv1, of dbg t] obtain wqs' h2 w' where
    take: "take_from_wait_queue dbg t wqs ?h1 = Some (wqs', h2)" "ready_inv h2 wqs' rq f w'"
      "\<And>i. set (w' i) = set (w i) - {t}" "current_wait_queue (h2 t) = None"
      "relinks ready_element UNIV (?h1(t := (?h1 t)\<lparr>current_wait_queue := None\<rparr>)) h2" by blast
  have p2: "priority (h2 t) = ?p" using ready_relinks(1) [OF take(5), of t] by (simp add: set_state_def)
  from level_push_ok [OF take(2,4), of dbg] t p2 obtain q h3 where
    push: "queue_push dbg ready_element (ready_tasks rq ! ?p) t h2 = Some (q, h3)"
      "ready_inv h3 wqs' (rq\<lparr>ready_tasks := (ready_tasks rq)[?p := q], ready_priority := mp_mark_ready ?p (ready_priority rq)\<rparr>)
        (f(?p := (if t \<in> set (f ?p) then f ?p else f ?p @ [t]))) w'"
      "relinks ready_element UNIV h2 h3" by metis
  have "relinks ready_element UNIV (h(t := (h t)\<lparr>task_state := Ready, current_wait_queue := None\<rparr>)) h3"
    using ready_link.relinks_trans [OF take(5) push(3)] by (simp add: set_state_def)
  moreover have "\<exists>run_on. mark_task_ready dbg current active t wqs rq h = Some (run_on, wqs',
      rq\<lparr>ready_tasks := (ready_tasks rq)[?p := q], ready_priority := mp_mark_ready ?p (ready_priority rq)\<rparr>, h3)"
    using take(1) push(1) by (simp add: mark_task_ready_def Let_def)
  ultimately show thesis using that push(2) take(3) by blast
qed

section \<open>Taking tasks out\<close>

lemma ready_level:
  assumes "ready_inv h wqs rq f w"
  shows "mp_ready (ready_priority rq) = (if {p. f p \<noteq> []} = {} then 0 else Max {p. f p \<noteq> []})"
    "mp_ready (ready_priority rq) \<le> 31" "finite {p. f p \<noteq> []}"
    "f p \<noteq> [] \<Longrightarrow> p \<le> mp_ready (ready_priority rq)" "f p \<noteq> [] \<Longrightarrow> f (mp_ready (ready_priority rq)) \<noteq> []"
proof -
  let ?S = "{p. f p \<noteq> []}"
  have S: "?S \<subseteq> {..31}" and max: "mp_ready (ready_priority rq) = (if ?S = {} then 0 else Max ?S)"
    using assms by (simp_all add: ready_inv_def rq_rel_def mp_rel_def mp_ready_def)
  show fin: "finite ?S" using finite_subset [OF S] by simp
  show "mp_ready (ready_priority rq) = (if ?S = {} then 0 else Max ?S)" by (rule max)
  show "mp_ready (ready_priority rq) \<le> 31"
    unfolding max using Max_in [OF fin] S by (cases "?S = {}") auto
  assume "f p \<noteq> []"
  then have p: "p \<in> ?S" "?S \<noteq> {}" by blast+
  show "p \<le> mp_ready (ready_priority rq)" unfolding max using Max_ge [OF fin p(1)] p(2) by (simp only: if_False)
  show "f (mp_ready (ready_priority rq)) \<noteq> []" unfolding max using Max_in [OF fin p(2)] p(2) by (simp only: if_False) blast
qed

lemma pop_single_core_ok:
  assumes inv: "ready_inv h wqs rq f w" and p: "p = mp_ready (ready_priority rq)"
  obtains rq' h' where "pop_single_core rq h = (case f p of [] \<Rightarrow> None | t # _ \<Rightarrow> Some t, rq', h')"
    "ready_inv h' wqs rq' (f(p := tl (f p))) w" "relinks ready_element (set (f p)) h h'"
    "\<And>t. f p = t # tl (f p) \<Longrightarrow> unlinked ready_element (h' t)"
proof -
  have p31: "p \<le> 31" using ready_level(2) [OF inv] p by simp
  have q: "queue_rel ready_element h (ready_tasks rq ! p) (f p)" using inv p31 by (simp add: ready_inv_def rq_rel_def)
  show thesis
  proof (cases "f p")
    case Nil
    have "ready_inv h wqs (unmark_if_empty p (rq\<lparr>ready_tasks := (ready_tasks rq)[p := ready_tasks rq ! p]\<rparr>)) (f(p := [])) w"
      by (rule ready_inv_shrink [OF inv p31 ready_link.relinks_refl]) (use q Nil in simp_all)
    then show thesis using Nil q ready_link.relinks_refl
      by (intro that) (auto simp: pop_single_core_def p [symmetric] ready_link.queue_pop_empty)
  next
    case (Cons t ts)
    from ready_link.queue_pop_ok [OF q [unfolded Cons]] obtain q' h' where
      pop: "queue_pop ready_element (ready_tasks rq ! p) h = (Some t, q', h')" "queue_rel ready_element h' q' ts"
        "unlinked ready_element (h' t)" "relinks ready_element {t} h h'" .
    have rel: "relinks ready_element (set (f p)) h h'" by (rule relinks_mono [OF pop(4)]) (simp add: Cons)
    have "ready_inv h' wqs (unmark_if_empty p (rq\<lparr>ready_tasks := (ready_tasks rq)[p := q']\<rparr>)) (f(p := ts)) w"
      by (rule ready_inv_shrink [OF inv p31 rel pop(2)]) (use Cons pop(3) in auto)
    then show thesis using Cons pop(1,3) rel
      by (intro that) (auto simp: pop_single_core_def p [symmetric])
  qed
qed

text \<open>A level whose queue was rebuilt with the same tasks.\<close>

lemma ready_inv_rebuilt:
  assumes inv: "ready_inv h wqs rq f w" and p: "p \<le> 31"
    and rel: "relinks ready_element (set (f p)) h h'" and q: "queue_rel ready_element h' q (f p)"
  shows "ready_inv h' wqs (rq\<lparr>ready_tasks := (ready_tasks rq)[p := q]\<rparr>) f w"
proof -
  have mp: "mp_rel (ready_priority rq) {p'. (f(p := f p)) p' \<noteq> []}" using inv by (simp add: ready_inv_def rq_rel_def)
  have "ready_inv h' wqs (rq\<lparr>ready_tasks := (ready_tasks rq)[p := q], ready_priority := ready_priority rq\<rparr>) (f(p := f p)) w"
    using level_disjoint(1) [OF inv] level_disjoint(2) [OF inv] inv
    by (intro ready_inv_level [OF inv p rel q _ _ _ _ _ mp]) (simp_all add: Int_commute ready_inv_def rq_rel_def)
  then show ?thesis by simp
qed

definition link_blind :: "(TaskPtr \<Rightarrow> Task \<Rightarrow> bool) \<Rightarrow> bool" where
  "link_blind cond \<longleftrightarrow> (\<forall>p n b t. cond p (el_set_next ready_element n (el_mark_in_queue ready_element b t)) = cond p t)"

lemma can_run_link_blind: "link_blind (can_run other t)"
  by (simp add: link_blind_def can_run_def element_defs)

lemma pop_level_loop_ok:
  assumes "ready_inv h wqs rq f w" "mp_rel level S" "S \<subseteq> {p. f p \<noteq> []}" "link_blind cond"
    and "\<forall>p. p \<notin> S \<longrightarrow> find (\<lambda>x. cond x (h x)) (f p) = None"
  shows "\<exists>p rq' h'. pop_level_loop dbg cond level (mp_ready level) rq h = Some (find (\<lambda>x. cond x (h x)) (f p), p, rq', h') \<and>
    ready_inv h' wqs (unmark_if_empty p rq') (f(p := remove_first (\<lambda>x. cond x (h x)) (f p))) w \<and>
    (\<forall>p'>p. find (\<lambda>x. cond x (h x)) (f p') = None) \<and>
    (find (\<lambda>x. cond x (h x)) (f p) = None \<longrightarrow> (\<forall>p'. find (\<lambda>x. cond x (h x)) (f p') = None)) \<and>
    relinks ready_element UNIV h h' \<and> (\<forall>t. find (\<lambda>x. cond x (h x)) (f p) = Some t \<longrightarrow> unlinked ready_element (h' t))"
  using assms
proof (induction "card S" arbitrary: S level rq h rule: less_induct)
  case less
  note inv = less.prems(1) and mp = less.prems(2)
  let ?p = "mp_ready level" and ?C = "\<lambda>h x. cond x (h x)"
  have S: "S \<subseteq> {..31}" "?p = (if S = {} then 0 else Max S)" using mp by (simp_all add: mp_rel_def mp_ready_def)
  have fin: "finite S" using finite_subset [OF S(1)] by simp
  have p31: "?p \<le> 31" using S Max_in [OF fin] by (cases "S = {}") auto
  have above: "find (?C h) (f p') = None" if "p' > ?p" for p'
  proof (rule less.prems(5) [rule_format])
    show "p' \<notin> S" using that S(2) Max_ge [OF fin, of p'] by (auto split: if_splits)
  qed
  have q: "queue_rel ready_element h (ready_tasks rq ! ?p) (f ?p)" using inv p31 by (simp add: ready_inv_def rq_rel_def)
  obtain q' h' where pop: "queue_pop_if dbg ready_element cond (ready_tasks rq ! ?p) h = Some (find (?C h) (f ?p), q', h')"
    "queue_rel ready_element h' q' (remove_first (?C h) (f ?p))" "relinks ready_element (set (f ?p)) h h'"
    "\<And>x. find (?C h) (f ?p) = Some x \<Longrightarrow> unlinked ready_element (h' x)"
    using ready_link.queue_pop_if_ok [OF q, of cond dbg] less.prems(4) by (auto simp: link_blind_def)
  let ?rq = "rq\<lparr>ready_tasks := (ready_tasks rq)[?p := q']\<rparr>"
  have rel: "relinks ready_element UNIV h h'" by (rule relinks_mono [OF pop(3)]) simp
  have shrink: "ready_inv h' wqs (unmark_if_empty ?p ?rq) (f(?p := remove_first (?C h) (f ?p))) w"
  proof (rule ready_inv_shrink [OF inv p31 pop(3,2) set_remove_first])
    fix y assume y: "y \<in> set (f ?p)" "y \<notin> set (remove_first (?C h) (f ?p))"
    with remove_first_none obtain x where x: "find (?C h) (f ?p) = Some x" by fastforce
    have "distinct (f ?p)" using q by (simp add: queue_rel_def)
    with y x distinct_remove_first [OF _ x] have "y = x" by auto
    with pop(4) x show "unlinked ready_element (h' y)" by simp
  qed
  show ?case
  proof (cases "find (?C h) (f ?p) = None \<and> ?p \<noteq> 0")
    case True
    then have p: "?p \<in> S" using S(2) Max_in [OF fin] by (cases "S = {}") auto
    let ?l = "mp_unmark ?p level"
    have same: "cond y (h' x) = cond y (h x)" for y x
      using relinks_field [OF rel, of "cond y"] less.prems(4) by (simp add: link_blind_def)
    have inv': "ready_inv h' wqs ?rq f w"
      using pop(2) True by (intro ready_inv_rebuilt [OF inv p31 pop(3)]) (simp add: remove_first_none)
    have none: "\<forall>p'. p' \<notin> S - {?p} \<longrightarrow> find (?C h') (f p') = None"
      using less.prems(5) True by (auto simp: same)
    have "card (S - {?p}) < card S" "S - {?p} \<subseteq> {p. f p \<noteq> []}"
      using card_Diff1_less [OF fin p] less.prems(3) by auto
    from less.hyps [OF this(1) inv' mp_rel_unmark [OF mp] this(2) less.prems(4) none]
    obtain k rq'' h'' where ih:
      "pop_level_loop dbg cond ?l (mp_ready ?l) ?rq h' = Some (find (?C h) (f k), k, rq'', h'')"
      "ready_inv h'' wqs (unmark_if_empty k rq'') (f(k := remove_first (?C h) (f k))) w"
      "\<forall>p'>k. find (?C h) (f p') = None"
      "find (?C h) (f k) = None \<longrightarrow> (\<forall>p'. find (?C h) (f p') = None)"
      "relinks ready_element UNIV h' h''" "\<forall>t. find (?C h) (f k) = Some t \<longrightarrow> unlinked ready_element (h'' t)"
      unfolding same by (elim exE conjE) (rule that; assumption)
    have "pop_level_loop dbg cond level ?p rq h = Some (find (?C h) (f k), k, rq'', h'')"
      using pop(1) True ih(1) by (subst pop_level_loop.simps) (simp add: Let_def)
    moreover have "relinks ready_element UNIV h h''" using ready_link.relinks_trans [OF rel ih(5)] by simp
    ultimately show ?thesis using ih(2,3,4,6) by (intro exI conjI)
  next
    case False
    then have "pop_level_loop dbg cond level ?p rq h = Some (find (?C h) (f ?p), ?p, ?rq, h')"
      using pop(1) by (subst pop_level_loop.simps) (auto simp: Let_def)
    moreover have "find (?C h) (f p') = None" if "find (?C h) (f ?p) = None" for p'
      using False that above [of p'] by (cases "p' = 0") auto
    ultimately show ?thesis using shrink above rel pop(4)
      by (intro exI [of _ ?p] exI [of _ ?rq] exI [of _ h'] conjI allI impI)
  qed
qed

lemma rq_remove_ok:
  assumes inv: "ready_inv h wqs rq f w" and t: "current_wait_queue (h t) = None" "priority (h t) \<le> 31"
  obtains rq' h' where "rq_remove dbg rq t h = Some (rq', h')"
    "ready_inv h' wqs rq' (f(priority (h t) := remove1 t (f (priority (h t))))) w"
    "relinks ready_element UNIV h h'" "unlinked ready_element (h' t)"
proof -
  let ?p = "priority (h t)"
  have q: "queue_rel ready_element h (ready_tasks rq ! ?p) (f ?p)" using inv t(2) by (simp add: ready_inv_def rq_rel_def)
  have "unlinked ready_element (h t)" if "t \<notin> set (f ?p)"
    using inv t(1) that by (intro ready_inv_unlinked [OF inv]) (auto simp: ready_inv_def rq_rel_def waits_rel_def)
  from ready_link.queue_remove_ok [OF q this, of dbg] obtain q' h' where
    r: "queue_remove dbg ready_element (ready_tasks rq ! ?p) t h = Some (q', h')"
      "queue_rel ready_element h' q' (remove1 t (f ?p))" "relinks ready_element (set (f ?p)) h h'"
      "unlinked ready_element (h' t)" by blast
  have "distinct (f ?p)" using q by (simp add: queue_rel_def)
  then have "ready_inv h' wqs (unmark_if_empty ?p (rq\<lparr>ready_tasks := (ready_tasks rq)[?p := q']\<rparr>)) (f(?p := remove1 t (f ?p))) w"
    using r(4) by (intro ready_inv_shrink [OF inv t(2) r(3,2)]) (auto simp: set_remove1_eq)
  then show thesis using r relinks_mono [OF r(3)] by (intro that) (simp_all add: rq_remove_def Let_def)
qed

end
