(* ===== verification/Hal_Timer.thy ===== *)
theory Hal_Timer
  imports Prelude
begin

text \<open>
  The timers of \<open>esp-hal\<close> that the scheduler uses as its alarm: the trait \<open>Timer\<close> of
  \<open>timer/mod.rs\<close> as a record of operations, \<open>OneShotTimer\<close> and \<open>PeriodicTimer\<close> over it, and its two
  implementations, a timer of a timer group (\<open>timer/timg.rs\<close>) and an alarm of the system timer
  (\<open>timer/systimer.rs\<close>). The locale \<open>one_shot_timer\<close> states what a client of \<open>schedule\<close> relies on: a zero
  timeout is always accepted, a timeout that does not fit is refused, and an accepted one never fires
  late. A \<open>Duration\<close> is its number of microseconds.
\<close>

section \<open>The trait and its clients\<close>

datatype TimerError = TimerActive | TimerInactive | AlarmInactive | InvalidTimeout

record 't Timer =
  tm_start :: "'t \<Rightarrow> 't"
  tm_stop :: "'t \<Rightarrow> 't"
  tm_reset :: "'t \<Rightarrow> 't"
  tm_is_running :: "'t \<Rightarrow> bool"
  tm_load_value :: "u64 \<Rightarrow> 't \<Rightarrow> TimerError + 't"
  tm_enable_auto_reload :: "bool \<Rightarrow> 't \<Rightarrow> 't"
  tm_enable_interrupt :: "bool \<Rightarrow> 't \<Rightarrow> 't"
  tm_clear_interrupt :: "'t \<Rightarrow> 't"
  tm_is_interrupt_set :: "'t \<Rightarrow> bool"

text \<open>
  \<open>OneShotTimer::schedule\<close> and \<open>PeriodicTimer::start\<close> differ in the reload flag only. The result is the
  error, if any, with the state in which the timer is left.
\<close>

definition prepare_timer :: "'t Timer \<Rightarrow> bool \<Rightarrow> 't \<Rightarrow> 't" where
  "prepare_timer T auto_reload t =
    (let t1 = (if tm_is_running T t then tm_stop T t else t)
     in tm_enable_auto_reload T auto_reload (tm_reset T (tm_clear_interrupt T t1)))"

definition schedule :: "'t Timer \<Rightarrow> u64 \<Rightarrow> 't \<Rightarrow> TimerError option \<times> 't" where
  "schedule T timeout t =
    (let t1 = prepare_timer T False t in
     case tm_load_value T timeout t1 of Inl e \<Rightarrow> (Some e, t1) | Inr t2 \<Rightarrow> (None, tm_start T t2))"

definition periodic_start :: "'t Timer \<Rightarrow> u64 \<Rightarrow> 't \<Rightarrow> TimerError option \<times> 't" where
  "periodic_start T period t =
    (let t1 = prepare_timer T True t in
     case tm_load_value T period t1 of Inl e \<Rightarrow> (Some e, t1) | Inr t2 \<Rightarrow> (None, tm_start T t2))"

definition periodic_cancel :: "'t Timer \<Rightarrow> 't \<Rightarrow> TimerError option \<times> 't" where
  "periodic_cancel T t = (if \<not> tm_is_running T t then (Some TimerInactive, t) else (None, tm_stop T t))"

section \<open>Timer groups\<close>

text \<open>
  The registers of one timer of a timer group. The counter is loaded with 0 by the load registers;
  \<open>timg_clock\<close> is the frequency of the clock source.
\<close>

record TimgTimer =
  timg_en :: bool
  timg_increase :: bool
  timg_autoreload :: bool
  timg_alarm_en :: bool
  timg_divider_bits :: u16
  timg_alarm_lo :: u32
  timg_alarm_hi :: u32
  timg_counter :: u64
  timg_int_ena :: bool
  timg_int_raw :: bool
  timg_clock :: u32

definition ticks_to_timeout :: "u64 \<Rightarrow> u32 \<Rightarrow> u32 \<Rightarrow> u64" where
  "ticks_to_timeout ticks clock divider =
    (let period = (1000000 * 1000000) div (ucast clock div ucast divider) in ticks * period div 1000000)"

definition timeout_to_ticks :: "u64 \<Rightarrow> u32 \<Rightarrow> u32 \<Rightarrow> u64 option" where
  "timeout_to_ticks micros clock divider =
    (let ticks_per_sec = ucast (clock div divider)
     in if unat micros * unat ticks_per_sec < 2 ^ 64 then Some (micros * ticks_per_sec div 1000000) else None)"

definition timg_divider :: "TimgTimer \<Rightarrow> u32" where
  "timg_divider t =
    (if timg_divider_bits t = 0 then 65536
     else if timg_divider_bits t = 1 \<or> timg_divider_bits t = 2 then 2
     else ucast (timg_divider_bits t))"

definition reset_counter :: "TimgTimer \<Rightarrow> TimgTimer" where
  "reset_counter t = t\<lparr>timg_counter := 0\<rparr>"

definition timg_start :: "TimgTimer \<Rightarrow> TimgTimer" where
  "timg_start t =
    (let t1 = t\<lparr>timg_en := False, timg_alarm_en := False\<rparr>;
         t2 = (reset_counter t1)\<lparr>timg_increase := True\<rparr>
     in t2\<lparr>timg_en := True, timg_alarm_en := True\<rparr>)"

definition timg_load_value :: "u64 \<Rightarrow> TimgTimer \<Rightarrow> TimerError + TimgTimer" where
  "timg_load_value value t = (case timeout_to_ticks value (timg_clock t) (timg_divider t) of
      None \<Rightarrow> Inl InvalidTimeout
    | Some ticks \<Rightarrow>
        if ticks AND NOT 0x3FFFFFFFFFFFFF \<noteq> 0 then Inl InvalidTimeout
        else Inr (t\<lparr>timg_alarm_lo := ucast (ticks AND 0xFFFFFFFF), timg_alarm_hi := ucast (drop_bit 32 ticks)\<rparr>))"

definition timg_clear_interrupt :: "TimgTimer \<Rightarrow> TimgTimer" where
  "timg_clear_interrupt t = t\<lparr>timg_int_raw := False, timg_alarm_en := timg_autoreload t\<rparr>"

definition timg_now :: "TimgTimer \<Rightarrow> u64" where
  "timg_now t = ticks_to_timeout (timg_counter t) (timg_clock t) (timg_divider t)"

definition timg_timer :: "TimgTimer Timer" where
  "timg_timer =
    \<lparr>tm_start = timg_start, tm_stop = (\<lambda>t. t\<lparr>timg_en := False\<rparr>), tm_reset = reset_counter, tm_is_running = timg_en,
     tm_load_value = timg_load_value, tm_enable_auto_reload = (\<lambda>b t. t\<lparr>timg_autoreload := b\<rparr>),
     tm_enable_interrupt = (\<lambda>b t. t\<lparr>timg_int_ena := b\<rparr>), tm_clear_interrupt = timg_clear_interrupt,
     tm_is_interrupt_set = timg_int_raw\<rparr>"

section \<open>The system timer\<close>

text \<open>
  Counters and comparators have 52 bits, so the high word of a target has 20. The comparator of an alarm, the counter it compares with and the packed conversion factor
  \<open>ESP_HAL_SYSTIMER_CORRECTION\<close>. \<open>h2\<close> tells whether the chip is an ESP32-H2; the ESP32-S2, whose
  registers differ, is not covered.
\<close>

record Alarm =
  al_work_en :: bool
  al_period_mode :: bool
  al_period :: u32
  al_target_lo :: u32
  al_target_hi :: u32
  al_unit_value :: u64
  al_core0_stall_en :: bool
  al_int_ena :: bool
  al_int_raw :: bool
  al_correction :: u32

definition SHIFT_TIMESTAMP_FLAG :: u32 where "SHIFT_TIMESTAMP_FLAG = 0x80000000"

definition SHIFT_MASK :: u32 where "SHIFT_MASK = 0xFFFF"

definition UNEVEN_DIVIDER_FLAG :: u32 where "UNEVEN_DIVIDER_FLAG = 0x40000000"

definition UNEVEN_DIVIDER_MASK :: u32 where "UNEVEN_DIVIDER_MASK = 0xFFFF"

definition UNEVEN_MULTIPLIER :: "bool \<Rightarrow> u32" where "UNEVEN_MULTIPLIER h2 = (if h2 then 2 else 5)"

definition BIT_MASK :: u64 where "BIT_MASK = 0xFFFFFFFFFFFFF"

definition PERIOD_MASK :: u64 where "PERIOD_MASK = 0x3FFFFFF"

primrec ilog2_fuel :: "nat \<Rightarrow> nat \<Rightarrow> nat" where
  "ilog2_fuel 0 n = 0"
| "ilog2_fuel (Suc k) n = (if n < 2 then 0 else Suc (ilog2_fuel k (n div 2)))"

definition ilog2 :: "u32 \<Rightarrow> nat" where
  "ilog2 w = ilog2_fuel 32 (unat w)"

definition is_power_of_two :: "u32 \<Rightarrow> bool" where
  "is_power_of_two w \<longleftrightarrow> w \<noteq> 0 \<and> w AND (w - 1) = 0"

definition init_timestamp_scaler :: "bool \<Rightarrow> u64 \<Rightarrow> u32" where
  "init_timestamp_scaler h2 rate =
    (if rate mod 1000000 = 0
     then let ticks_per_us = ucast rate div 1000000 in
       if is_power_of_two ticks_per_us then SHIFT_TIMESTAMP_FLAG OR (of_nat (ilog2 ticks_per_us) AND SHIFT_MASK)
       else ticks_per_us
     else UNEVEN_DIVIDER_FLAG OR ucast (rate * ucast (UNEVEN_MULTIPLIER h2) div 1000000))"

definition ticks_to_us :: "bool \<Rightarrow> u32 \<Rightarrow> u64 \<Rightarrow> u64" where
  "ticks_to_us h2 correction ticks =
    (let v = correction AND (SHIFT_TIMESTAMP_FLAG OR UNEVEN_DIVIDER_FLAG) in
     if v = SHIFT_TIMESTAMP_FLAG then drop_bit (unat (correction AND SHIFT_MASK)) ticks
     else if v = UNEVEN_DIVIDER_FLAG then
       let multiplied = (if is_power_of_two (UNEVEN_MULTIPLIER h2) then push_bit (ilog2 (UNEVEN_MULTIPLIER h2)) ticks
           else ticks * ucast (UNEVEN_MULTIPLIER h2))
       in multiplied div ucast (correction AND UNEVEN_DIVIDER_MASK)
     else ticks div ucast correction)"

definition us_to_ticks :: "bool \<Rightarrow> u32 \<Rightarrow> u64 \<Rightarrow> u64" where
  "us_to_ticks h2 correction us =
    (let v = correction AND (SHIFT_TIMESTAMP_FLAG OR UNEVEN_DIVIDER_FLAG) in
     if v = SHIFT_TIMESTAMP_FLAG then push_bit (unat (correction AND SHIFT_MASK)) us
     else if v = UNEVEN_DIVIDER_FLAG then
       let multiplied = us * ucast (correction AND UNEVEN_DIVIDER_MASK)
       in if is_power_of_two (UNEVEN_MULTIPLIER h2) then drop_bit (ilog2 (UNEVEN_MULTIPLIER h2)) multiplied
          else multiplied div ucast (UNEVEN_MULTIPLIER h2)
     else us * ucast correction)"

definition set_period :: "u32 \<Rightarrow> Alarm \<Rightarrow> Alarm" where
  "set_period v a = a\<lparr>al_period := v\<rparr>"

definition set_target :: "u64 \<Rightarrow> Alarm \<Rightarrow> Alarm" where
  "set_target v a = a\<lparr>al_target_hi := ucast (drop_bit 32 v) AND 0xFFFFF, al_target_lo := ucast (v AND 0xFFFFFFFF)\<rparr>"

definition alarm_load_value :: "bool \<Rightarrow> u64 \<Rightarrow> Alarm \<Rightarrow> TimerError + Alarm" where
  "alarm_load_value h2 value a =
    (let ticks = us_to_ticks h2 (al_correction a) value in
     if al_period_mode a then
       if ticks AND NOT PERIOD_MASK \<noteq> 0 then Inl InvalidTimeout
       else Inr (((set_period (ucast ticks) a)\<lparr>al_period_mode := False\<rparr>)\<lparr>al_period_mode := True\<rparr>)
     else
       if ticks AND NOT BIT_MASK \<noteq> 0 then Inl InvalidTimeout
       else Inr (set_target (al_unit_value a + ticks) a))"

definition alarm_now :: "bool \<Rightarrow> Alarm \<Rightarrow> u64" where
  "alarm_now h2 a = ticks_to_us h2 (al_correction a) (al_unit_value a)"

definition systimer_alarm :: "bool \<Rightarrow> Alarm Timer" where
  "systimer_alarm h2 =
    \<lparr>tm_start = (\<lambda>a. a\<lparr>al_work_en := True\<rparr>), tm_stop = (\<lambda>a. a\<lparr>al_work_en := False\<rparr>),
     tm_reset = (\<lambda>a. a\<lparr>al_core0_stall_en := False\<rparr>), tm_is_running = al_work_en,
     tm_load_value = alarm_load_value h2, tm_enable_auto_reload = (\<lambda>b a. a\<lparr>al_period_mode := b\<rparr>),
     tm_enable_interrupt = (\<lambda>b a. a\<lparr>al_int_ena := b\<rparr>), tm_clear_interrupt = (\<lambda>a. a\<lparr>al_int_raw := False\<rparr>),
     tm_is_interrupt_set = al_int_raw\<rparr>"

text \<open>A timer of either kind.\<close>

datatype AnyTimer = AnyTimgTimer TimgTimer | AnySystimerAlarm Alarm

definition any_op :: "(TimgTimer Timer \<Rightarrow> TimgTimer \<Rightarrow> TimgTimer) \<Rightarrow> (Alarm Timer \<Rightarrow> Alarm \<Rightarrow> Alarm) \<Rightarrow> bool \<Rightarrow> AnyTimer \<Rightarrow> AnyTimer" where
  "any_op f g h2 t = (case t of AnyTimgTimer x \<Rightarrow> AnyTimgTimer (f timg_timer x) | AnySystimerAlarm a \<Rightarrow> AnySystimerAlarm (g (systimer_alarm h2) a))"

definition any_load_value :: "bool \<Rightarrow> u64 \<Rightarrow> AnyTimer \<Rightarrow> TimerError + AnyTimer" where
  "any_load_value h2 v t = (case t of
      AnyTimgTimer x \<Rightarrow> map_sum id AnyTimgTimer (tm_load_value timg_timer v x)
    | AnySystimerAlarm a \<Rightarrow> map_sum id AnySystimerAlarm (tm_load_value (systimer_alarm h2) v a))"

definition any_timer :: "bool \<Rightarrow> AnyTimer Timer" where
  "any_timer h2 =
    \<lparr>tm_start = any_op tm_start tm_start h2, tm_stop = any_op tm_stop tm_stop h2, tm_reset = any_op tm_reset tm_reset h2,
     tm_is_running = (\<lambda>t. case t of AnyTimgTimer x \<Rightarrow> tm_is_running timg_timer x | AnySystimerAlarm a \<Rightarrow> tm_is_running (systimer_alarm h2) a),
     tm_load_value = any_load_value h2,
     tm_enable_auto_reload = (\<lambda>b. any_op (\<lambda>T. tm_enable_auto_reload T b) (\<lambda>T. tm_enable_auto_reload T b) h2),
     tm_enable_interrupt = (\<lambda>b. any_op (\<lambda>T. tm_enable_interrupt T b) (\<lambda>T. tm_enable_interrupt T b) h2),
     tm_clear_interrupt = any_op tm_clear_interrupt tm_clear_interrupt h2,
     tm_is_interrupt_set = (\<lambda>t. case t of AnyTimgTimer x \<Rightarrow> tm_is_interrupt_set timg_timer x
       | AnySystimerAlarm a \<Rightarrow> tm_is_interrupt_set (systimer_alarm h2) a)\<rparr>"

section \<open>Words\<close>

lemma unat_ucast_u32_u64 [simp]: "unat (ucast (w :: u32) :: u64) = unat w"
  by (simp add: unsigned_ucast_eq take_bit_nat_eq_self_iff) (use unat_u32_bound [of w] in simp)

lemma unat_u64_bound: "unat (w :: u64) < 18446744073709551616"
  using unsigned_less [of w] by simp

lemma unat_mult_u64: "unat a * unat b < 2 ^ 64 \<Longrightarrow> unat (a * b :: u64) = unat a * unat b"
  by (simp add: unat_word_ariths)

lemma unat_low_high:
  "unat (ucast (w AND 0xFFFFFFFF) :: u32) = unat (w :: u64) mod 2 ^ 32"
  "unat (ucast (drop_bit 32 w) :: u32) = unat w div 2 ^ 32"
proof -
  have "w AND 0xFFFFFFFF = take_bit 32 w" by (simp add: take_bit_eq_mask mask_numeral)
  then show "unat (ucast (w AND 0xFFFFFFFF) :: u32) = unat w mod 2 ^ 32"
    by (simp add: unsigned_ucast_eq unsigned_take_bit_eq flip: take_bit_eq_mod) (simp add: take_bit_eq_mod)
  show "unat (ucast (drop_bit 32 w) :: u32) = unat w div 2 ^ 32"
    using unat_u64_bound [of w] by (simp add: unsigned_ucast_eq unat_div_distrib drop_bit_eq_div take_bit_eq_mod)
qed

text \<open>A value with no bit outside a low mask is smaller than the mask's power of two.\<close>

lemma and_not_mask_bound:
  assumes "(w :: u64) AND NOT (mask n) = 0" "n < 64"
  shows "unat w < 2 ^ n"
proof -
  have "w = take_bit n w"
  proof (rule bit_eqI)
    fix i assume i: "possible_bit TYPE(u64) i"
    have "\<not> bit (w AND NOT (mask n)) i" unfolding assms(1) by simp
    then have "bit w i \<longrightarrow> i < n" using i by (simp add: bit_and_iff bit_not_iff bit_mask_iff)
    then show "bit w i = bit (take_bit n w) i" by (auto simp: bit_take_bit_iff)
  qed
  then have "unat w = take_bit n (unat w)" by (metis unsigned_take_bit_eq)
  then show ?thesis by (metis take_bit_nat_less_exp)
qed

section \<open>What a one-shot timer promises\<close>

text \<open>
  \<open>rate\<close> is the number of ticks per second and \<open>due\<close> the number of ticks after which a started timer
  fires. A timer that was prepared for one shot and accepts a timeout fires after exactly that time,
  rounded down to whole ticks.
\<close>

locale one_shot_timer =
  fixes T :: "'t Timer" and valid :: "'t \<Rightarrow> bool" and due :: "'t \<Rightarrow> nat" and rate :: nat
  assumes valid_ops: "valid t \<Longrightarrow> valid (tm_start T t)" "valid t \<Longrightarrow> valid (tm_stop T t)" "valid t \<Longrightarrow> valid (tm_reset T t)"
      "valid t \<Longrightarrow> valid (tm_enable_auto_reload T b t)" "valid t \<Longrightarrow> valid (tm_enable_interrupt T b t)"
      "valid t \<Longrightarrow> valid (tm_clear_interrupt T t)"
    and load_valid: "valid t \<Longrightarrow> tm_load_value T d t = Inr t' \<Longrightarrow> valid t'"
    and load_zero: "valid t \<Longrightarrow> \<exists>t'. tm_load_value T 0 t = Inr t'"
    and load_error: "valid t \<Longrightarrow> tm_load_value T d t = Inl e \<Longrightarrow> e = InvalidTimeout"
    and load_due: "valid t \<Longrightarrow> unat d < 2 ^ 52 \<Longrightarrow> tm_load_value T d (tm_enable_auto_reload T False t) = Inr t' \<Longrightarrow>
      due (tm_start T t') = unat d * rate div 1000000"
    and start_running: "tm_is_running T (tm_start T t)"
begin

lemma prepare_valid: "valid t \<Longrightarrow> valid (prepare_timer T b t)"
  by (simp add: prepare_timer_def Let_def valid_ops)

lemma schedule_valid: "valid t \<Longrightarrow> valid (snd (schedule T d t))"
  by (auto simp: schedule_def Let_def split: sum.split intro: valid_ops prepare_valid load_valid [OF prepare_valid])

lemma schedule_zero: "valid t \<Longrightarrow> fst (schedule T 0 t) = None"
  using load_zero [OF prepare_valid, of t False] by (auto simp: schedule_def Let_def)

lemma schedule_error: "valid t \<Longrightarrow> fst (schedule T d t) = Some e \<Longrightarrow> e = InvalidTimeout"
  using load_error [OF prepare_valid, of t d False e] by (auto simp: schedule_def Let_def split: sum.splits)

lemma schedule_due:
  assumes "valid t" "unat d < 2 ^ 52" "schedule T d t = (None, t')"
  shows "due t' = unat d * rate div 1000000" "tm_is_running T t'"
proof -
  obtain t0 where t0: "prepare_timer T False t = tm_enable_auto_reload T False t0" "valid t0"
    using assms(1) by (auto simp: prepare_timer_def Let_def valid_ops)
  with assms(3) obtain t2 where "tm_load_value T d (tm_enable_auto_reload T False t0) = Inr t2" "t' = tm_start T t2"
    by (auto simp: schedule_def Let_def split: sum.splits)
  with load_due [OF t0(2) assms(2)] start_running show "due t' = unat d * rate div 1000000" "tm_is_running T t'" by auto
qed

end

section \<open>The timer group timer keeps the promise\<close>

definition timg_valid :: "nat \<Rightarrow> TimgTimer \<Rightarrow> bool" where
  "timg_valid rate t \<longleftrightarrow> unat (timg_clock t div timg_divider t) = rate"

definition timg_due :: "TimgTimer \<Rightarrow> nat" where
  "timg_due t = unat (timg_alarm_hi t) * 2 ^ 32 + unat (timg_alarm_lo t) - unat (timg_counter t)"

lemma timeout_to_ticks_exact:
  assumes "timeout_to_ticks micros clock divider = Some ticks"
  shows "unat ticks = unat micros * unat (clock div divider) div 1000000"
  using assms by (auto simp: timeout_to_ticks_def Let_def unat_div_distrib unat_mult_u64 split: if_splits)

lemma timg_load_due:
  assumes "timg_load_value d t = Inr t'"
  shows "timg_due (timg_start t') = unat d * unat (timg_clock t div timg_divider t) div 1000000"
proof -
  from assms obtain ticks where ticks: "timeout_to_ticks d (timg_clock t) (timg_divider t) = Some ticks"
    "t' = t\<lparr>timg_alarm_lo := ucast (ticks AND 0xFFFFFFFF), timg_alarm_hi := ucast (drop_bit 32 ticks)\<rparr>"
    by (auto simp: timg_load_value_def split: option.splits if_splits)
  have "timg_due (timg_start t') = unat (timg_alarm_hi t') * 2 ^ 32 + unat (timg_alarm_lo t')"
    by (simp add: timg_due_def timg_start_def reset_counter_def Let_def)
  moreover have "timg_alarm_lo t' = ucast (ticks AND 0xFFFFFFFF)" "timg_alarm_hi t' = ucast (drop_bit 32 ticks)"
    using ticks(2) by simp_all
  ultimately have "timg_due (timg_start t') = unat ticks" by (simp only: unat_low_high div_mult_mod_eq)
  then show ?thesis using timeout_to_ticks_exact [OF ticks(1)] by simp
qed

lemma timg_valid_updates [simp]:
  "timg_valid r (t\<lparr>timg_en := b\<rparr>) = timg_valid r t" "timg_valid r (t\<lparr>timg_increase := b\<rparr>) = timg_valid r t"
  "timg_valid r (t\<lparr>timg_autoreload := b\<rparr>) = timg_valid r t" "timg_valid r (t\<lparr>timg_alarm_en := b\<rparr>) = timg_valid r t"
  "timg_valid r (t\<lparr>timg_alarm_lo := w\<rparr>) = timg_valid r t" "timg_valid r (t\<lparr>timg_alarm_hi := w\<rparr>) = timg_valid r t"
  "timg_valid r (t\<lparr>timg_counter := v\<rparr>) = timg_valid r t" "timg_valid r (t\<lparr>timg_int_ena := b\<rparr>) = timg_valid r t"
  "timg_valid r (t\<lparr>timg_int_raw := b\<rparr>) = timg_valid r t"
  by (simp_all add: timg_valid_def timg_divider_def)

interpretation timg: one_shot_timer timg_timer "timg_valid rate" timg_due rate for rate
proof
  fix t t' :: TimgTimer and d b e
  show "timg_valid rate t \<Longrightarrow> tm_load_value timg_timer d t = Inr t' \<Longrightarrow> timg_valid rate t'"
    by (auto simp: timg_timer_def timg_load_value_def split: option.splits if_splits)
  show "timg_valid rate t \<Longrightarrow> tm_load_value timg_timer d t = Inl e \<Longrightarrow> e = InvalidTimeout"
    by (auto simp: timg_timer_def timg_load_value_def split: option.splits if_splits)
  show "\<exists>t'. tm_load_value timg_timer 0 t = Inr t'"
    by (simp add: timg_timer_def timg_load_value_def timeout_to_ticks_def)
  assume v: "timg_valid rate t" and l: "tm_load_value timg_timer d (tm_enable_auto_reload timg_timer False t) = Inr t'"
  have "timg_valid rate (t\<lparr>timg_autoreload := False\<rparr>)" using v by simp
  then show "timg_due (tm_start timg_timer t') = unat d * rate div 1000000"
    using timg_load_due [of d "t\<lparr>timg_autoreload := False\<rparr>" t'] l by (simp add: timg_timer_def timg_valid_def)
qed (simp_all add: timg_timer_def timg_start_def timg_clear_interrupt_def reset_counter_def Let_def)

section \<open>The alarm of the system timer keeps the promise\<close>

text \<open>The tick rates that the conversion factor is made for.\<close>

definition scaler_rate :: "bool \<Rightarrow> nat \<Rightarrow> bool" where
  "scaler_rate h2 rate \<longleftrightarrow> 1000000 \<le> rate \<and> rate \<le> 80000000 \<and> rate * unat (UNEVEN_MULTIPLIER h2) mod 1000000 = 0"

lemma powers_of_two:
  "list_all (\<lambda>n. is_power_of_two (of_nat n) \<longrightarrow> ilog2 (of_nat n) < 7 \<and> 2 ^ ilog2 (of_nat n) = n) [1..<81]"
  by code_simp

lemma small_u32:
  assumes "unat (w :: u32) < 65536"
  shows "w AND 0xFFFF = w" "w AND 0xC0000000 = 0"
proof -
  have "take_bit 16 w = w"
    by (rule unsigned_word_eqI [where ?'a = nat]) (use assms in \<open>simp add: unsigned_take_bit_eq take_bit_nat_eq_self_iff\<close>)
  then show m: "w AND 0xFFFF = w" by (simp add: take_bit_eq_mask mask_numeral)
  have "(w AND 0xFFFF) AND 0xC0000000 = w AND (0xFFFF AND 0xC0000000)" by (rule and.assoc)
  then show "w AND 0xC0000000 = 0" unfolding m by simp
qed

lemmas scaler_consts = SHIFT_TIMESTAMP_FLAG_def UNEVEN_DIVIDER_FLAG_def SHIFT_MASK_def UNEVEN_DIVIDER_MASK_def

lemma flag_parts:
  assumes "unat (w :: u32) < 65536"
  shows "(0x80000000 OR w) AND 0xC0000000 = 0x80000000" "(0x40000000 OR w) AND 0xC0000000 = 0x40000000"
    "(0x80000000 OR w) AND 0xFFFF = w" "(0x40000000 OR w) AND 0xFFFF = w"
  using small_u32 [OF assms] by (simp_all add: bit.conj_disj_distrib2)

text \<open>The three forms of the conversion factor.\<close>

lemma unat_of_nat_u64 [simp]: "n < 18446744073709551616 \<Longrightarrow> unat (word_of_nat n :: u64) = n"
  by (simp add: unat_of_nat)

lemma scaler_cases:
  assumes "scaler_rate h2 rate"
  obtains (shift) k where "init_timestamp_scaler h2 (of_nat rate) = 0x80000000 OR of_nat k" "k < 7" "rate = 2 ^ k * 1000000"
  | (even) n where "init_timestamp_scaler h2 (of_nat rate) = of_nat n" "0 < n" "n \<le> 80" "rate = n * 1000000"
  | (uneven) m where "init_timestamp_scaler h2 (of_nat rate) = 0x40000000 OR of_nat m" "0 < m" "m \<le> 400"
      "rate * unat (UNEVEN_MULTIPLIER h2) = m * 1000000"
proof -
  have r: "unat (of_nat rate :: u64) = rate" using assms by (intro unat_of_nat_u64) (simp add: scaler_rate_def)
  show thesis
  proof (cases "rate mod 1000000 = 0")
    case True
    then obtain n where n: "rate = n * 1000000" by (metis div_mult_mod_eq add.right_neutral)
    have b: "0 < n" "n \<le> 80" using assms n by (simp_all add: scaler_rate_def)
    have "(of_nat rate :: u64) mod 1000000 = 0"
      by (rule unsigned_word_eqI [where ?'a = nat]) (use True r in \<open>simp add: unat_mod_distrib\<close>)
    moreover have "ucast (of_nat rate :: u64) div (1000000 :: u32) = of_nat n"
    proof (rule unsigned_word_eqI [where ?'a = nat])
      have "unat (ucast (of_nat rate :: u64) :: u32) = rate"
        using assms by (simp add: unsigned_ucast_eq r take_bit_nat_eq_self_iff scaler_rate_def)
      then show "unat (ucast (of_nat rate :: u64) div (1000000 :: u32)) = unat (of_nat n :: u32)"
        using b n by (simp add: unat_div_distrib)
    qed
    ultimately have c: "init_timestamp_scaler h2 (of_nat rate) =
        (if is_power_of_two (of_nat n) then 0x80000000 OR (of_nat (ilog2 (of_nat n)) AND 0xFFFF) else of_nat n)"
      by (simp only: init_timestamp_scaler_def Let_def scaler_consts simp_thms if_True)
    show thesis
    proof (cases "is_power_of_two (of_nat n)")
      case True
      then have "ilog2 (of_nat n) < 7" "2 ^ ilog2 (of_nat n) = n"
        using powers_of_two b by (auto simp: list_all_iff)
      moreover from this have "init_timestamp_scaler h2 (of_nat rate) = 0x80000000 OR of_nat (ilog2 (of_nat n))"
        unfolding c using True small_u32(1) [of "of_nat (ilog2 (of_nat n))"] by simp
      ultimately show thesis using n by (intro shift [of "ilog2 (of_nat n)"]) (simp_all only:)
    qed (use even c n b in simp)
  next
    case False
    let ?u = "unat (UNEVEN_MULTIPLIER h2)"
    have u: "?u \<le> 5" "0 < ?u" by (simp_all add: UNEVEN_MULTIPLIER_def)
    define m where "m = rate * ?u div 1000000"
    have m: "rate * ?u = m * 1000000"
      using assms div_mult_mod_eq [of "rate * ?u" 1000000] by (simp add: m_def scaler_rate_def)
    have bound: "rate * ?u \<le> 400000000" using assms u mult_le_mono [of rate 80000000 ?u 5] by (simp add: scaler_rate_def)
    have "0 < rate * ?u" using assms u by (simp add: scaler_rate_def)
    then have b: "0 < m" "m \<le> 400" using m bound by auto
    have "(of_nat rate :: u64) mod 1000000 \<noteq> 0"
    proof
      assume "(of_nat rate :: u64) mod 1000000 = 0"
      then have "unat ((of_nat rate :: u64) mod 1000000) = unat (0 :: u64)" by (rule arg_cong)
      with r False show False by (simp add: unat_mod_distrib)
    qed
    moreover have "ucast (of_nat rate * ucast (UNEVEN_MULTIPLIER h2) div 1000000 :: u64) = (of_nat m :: u32)"
    proof (rule unsigned_word_eqI [where ?'a = nat])
      have "unat (of_nat rate * ucast (UNEVEN_MULTIPLIER h2) :: u64) = rate * ?u"
        using bound r by (subst unat_mult_u64) simp_all
      then have "unat (of_nat rate * ucast (UNEVEN_MULTIPLIER h2) div 1000000 :: u64) = m"
        by (simp add: unat_div_distrib m_def)
      then show "unat (ucast (of_nat rate * ucast (UNEVEN_MULTIPLIER h2) div 1000000 :: u64) :: u32) = unat (of_nat m :: u32)"
        using b by (simp add: unsigned_ucast_eq take_bit_nat_eq_self_iff)
    qed
    ultimately have "init_timestamp_scaler h2 (of_nat rate) = 0x40000000 OR of_nat m"
      by (simp only: init_timestamp_scaler_def Let_def scaler_consts if_False)
    then show thesis using b m by (rule uneven)
  qed
qed

lemma unat_push_bit_u64: "unat w * 2 ^ k < 2 ^ 64 \<Longrightarrow> unat (push_bit k (w :: u64)) = unat w * 2 ^ k"
  by (simp only: unsigned_push_bit_eq push_bit_eq_mult [where ?'a = nat] take_bit_nat_eq_self_iff) simp

lemma unat_drop_bit_u64: "unat (drop_bit k (w :: u64)) = unat w div 2 ^ k"
proof -
  have "take_bit 64 (unat w) = unat w" using unat_u64_bound [of w] by (simp add: take_bit_nat_eq_self_iff)
  then show ?thesis by (simp only: unsigned_drop_bit_eq drop_bit_eq_div [where ?'a = nat]) simp
qed

lemma uneven_multiplier:
  "is_power_of_two (UNEVEN_MULTIPLIER True)" "\<not> is_power_of_two (UNEVEN_MULTIPLIER False)" "ilog2 (UNEVEN_MULTIPLIER True) = 1"
  by code_simp+

lemma scaled_div:
  assumes "(0 :: nat) < k" "r * k = m * q" "0 < q"
  shows "u * m div k = u * r div q"
proof -
  have "u * m div k = u * m * q div (k * q)" using assms by simp
  also have "\<dots> = u * r * k div (q * k)" using assms(2) by (simp only: mult.assoc mult.commute [of q k] flip: assms(2))
  also have "\<dots> = u * r div q" using assms by simp
  finally show ?thesis .
qed

lemma us_to_ticks_exact:
  assumes "scaler_rate h2 rate" "unat us < 2 ^ 52"
  shows "unat (us_to_ticks h2 (init_timestamp_scaler h2 (of_nat rate)) us) = unat us * rate div 1000000"
  using assms(1)
proof (cases rule: scaler_cases)
  case (shift k)
  have "unat us * 2 ^ k < 2 ^ 52 * 2 ^ 7"
    using assms(2) shift(2) by (intro mult_strict_mono power_strict_increasing) auto
  then have "unat (push_bit k us) = unat us * 2 ^ k" by (intro unat_push_bit_u64) simp
  moreover have "us_to_ticks h2 (0x80000000 OR of_nat k) us = push_bit k us"
    using shift(2) flag_parts [of "of_nat k"] by (simp add: us_to_ticks_def Let_def scaler_consts)
  ultimately show ?thesis using shift(1,3) by simp
next
  case (even n)
  have "unat us * n < 2 ^ 52 * 2 ^ 7" using assms(2) even(2,3) by (intro mult_strict_mono) auto
  then have "unat (us * ucast (of_nat n :: u32)) = unat us * n" using even(3) by (subst unat_mult_u64) simp_all
  moreover have "us_to_ticks h2 (of_nat n) us = us * ucast (of_nat n :: u32)"
    using even(3) small_u32 [of "of_nat n"] by (simp add: us_to_ticks_def Let_def scaler_consts)
  ultimately show ?thesis using even(1,4) by simp
next
  case (uneven m)
  have "unat us * m < 2 ^ 52 * 2 ^ 9" using assms(2) uneven(2,3) by (intro mult_strict_mono) auto
  then have m: "unat (us * ucast (of_nat m :: u32)) = unat us * m" using uneven(3) by (subst unat_mult_u64) simp_all
  have "us_to_ticks h2 (0x40000000 OR of_nat m) us =
      (if h2 then drop_bit 1 (us * ucast (of_nat m :: u32)) else us * ucast (of_nat m :: u32) div 5)"
    using uneven(3) flag_parts [of "of_nat m"] uneven_multiplier
    by (cases h2) (simp_all add: us_to_ticks_def Let_def scaler_consts, simp add: UNEVEN_MULTIPLIER_def)
  then have "unat (us_to_ticks h2 (0x40000000 OR of_nat m) us) = unat us * m div unat (UNEVEN_MULTIPLIER h2)"
    by (simp only: unat_drop_bit_u64 unat_div_distrib m UNEVEN_MULTIPLIER_def split: if_split) simp
  then show ?thesis using uneven(1,4) scaled_div [of "unat (UNEVEN_MULTIPLIER h2)" rate m 1000000 "unat us"]
    by (simp add: UNEVEN_MULTIPLIER_def split: if_splits)
qed

lemma ticks_to_us_exact:
  assumes "scaler_rate h2 rate" "unat ticks < 2 ^ 52"
  shows "unat (ticks_to_us h2 (init_timestamp_scaler h2 (of_nat rate)) ticks) = unat ticks * 1000000 div rate"
  using assms(1)
proof (cases rule: scaler_cases)
  case (shift k)
  have "ticks_to_us h2 (0x80000000 OR of_nat k) ticks = drop_bit k ticks"
    using shift(2) flag_parts [of "of_nat k"] by (simp add: ticks_to_us_def Let_def scaler_consts)
  then show ?thesis using shift(1,3) by (simp only: unat_drop_bit_u64) simp
next
  case (even n)
  have "ticks_to_us h2 (of_nat n) ticks = ticks div ucast (of_nat n :: u32)"
    using even(3) small_u32 [of "of_nat n"] by (simp add: ticks_to_us_def Let_def scaler_consts)
  then show ?thesis using even by (simp add: unat_div_distrib)
next
  case (uneven m)
  let ?k = "unat (UNEVEN_MULTIPLIER h2)"
  have k: "?k \<le> 5" "0 < ?k" by (simp_all add: UNEVEN_MULTIPLIER_def)
  have "ticks_to_us h2 (0x40000000 OR of_nat m) ticks = (if h2 then push_bit 1 ticks else ticks * 5) div ucast (of_nat m :: u32)"
    using uneven(3) flag_parts [of "of_nat m"] uneven_multiplier
    by (cases h2) (simp_all add: ticks_to_us_def Let_def scaler_consts, simp add: UNEVEN_MULTIPLIER_def)
  moreover have "unat (if h2 then push_bit 1 ticks else ticks * 5) = unat ticks * ?k"
    using assms(2) unat_push_bit_u64 [of ticks 1] unat_mult_u64 [of ticks 5] by (auto simp: UNEVEN_MULTIPLIER_def)
  ultimately have "unat (ticks_to_us h2 (0x40000000 OR of_nat m) ticks) = unat ticks * ?k div m"
    using uneven(3) by (simp add: unat_div_distrib)
  moreover have "0 < rate" using assms(1) by (simp add: scaler_rate_def)
  ultimately show ?thesis
    using uneven scaled_div [of m 1000000 ?k rate "unat ticks"] by (simp add: mult.commute)
qed

text \<open>A timeout converted to ticks and back loses less than two microseconds and is never longer.\<close>

lemma us_ticks_round_trip:
  assumes "scaler_rate h2 rate" "unat us * rate < 2 ^ 52 * 1000000"
  defines "c \<equiv> init_timestamp_scaler h2 (of_nat rate)"
  shows "unat (ticks_to_us h2 c (us_to_ticks h2 c us)) \<le> unat us" "unat us \<le> unat (ticks_to_us h2 c (us_to_ticks h2 c us)) + 1"
proof -
  have rate: "1000000 \<le> rate" "0 < rate" using assms(1) by (simp_all add: scaler_rate_def)
  let ?t = "unat us * rate div 1000000"
  have "unat us * 1000000 \<le> unat us * rate" using rate by simp
  then have us: "unat us < 2 ^ 52" using assms(2) by linarith
  have t: "unat (us_to_ticks h2 c us) = ?t" unfolding c_def by (rule us_to_ticks_exact [OF assms(1) us])
  have "?t < 2 ^ 52" using assms(2) by (simp add: less_mult_imp_div_less)
  with t have rt: "unat (ticks_to_us h2 c (us_to_ticks h2 c us)) = ?t * 1000000 div rate"
    unfolding c_def by (subst ticks_to_us_exact [OF assms(1)]) simp_all
  have "?t * 1000000 \<le> unat us * rate" by simp
  then show "unat (ticks_to_us h2 c (us_to_ticks h2 c us)) \<le> unat us" unfolding rt
    using div_le_mono [of "?t * 1000000" "unat us * rate" rate] rate(2) by simp
  have "unat us * rate < (?t + 1) * 1000000" using dividend_less_times_div [of 1000000 "unat us * rate"] by (simp add: mult.commute)
  also have "\<dots> \<le> ?t * 1000000 + rate" using rate(1) by simp
  finally have "unat us * rate div rate \<le> (?t * 1000000 + rate) div rate" by (intro div_le_mono) simp
  then show "unat us \<le> unat (ticks_to_us h2 c (us_to_ticks h2 c us)) + 1" unfolding rt
    using rate(2) div_add_self2 [of rate "?t * 1000000"] by simp
qed

text \<open>\<open>valid\<close> for an alarm: the factor belongs to the rate and the counter has 52 bits.\<close>

definition alarm_valid :: "bool \<Rightarrow> nat \<Rightarrow> Alarm \<Rightarrow> bool" where
  "alarm_valid h2 rate a \<longleftrightarrow> scaler_rate h2 rate \<and> al_correction a = init_timestamp_scaler h2 (of_nat rate) \<and>
     unat (al_unit_value a) < 2 ^ 52"

text \<open>The counter wraps at 52 bits.\<close>

definition alarm_due :: "Alarm \<Rightarrow> nat" where
  "alarm_due a = (unat (al_target_hi a) * 2 ^ 32 + unat (al_target_lo a) + 2 ^ 52 - unat (al_unit_value a)) mod 2 ^ 52"

lemma unat_and_20: "unat ((w :: u32) AND 0xFFFFF) = unat w mod 2 ^ 20"
proof -
  have "w AND 0xFFFFF = take_bit 20 w" by (simp add: take_bit_eq_mask mask_numeral)
  then have "unat (w AND 0xFFFFF) = take_bit 20 (unat w)" by (simp only: unsigned_take_bit_eq)
  then show ?thesis by (simp only: take_bit_eq_mod)
qed

lemma set_target_value:
  "unat (al_target_hi (set_target v a)) * 2 ^ 32 + unat (al_target_lo (set_target v a)) = unat v mod 2 ^ 52"
proof -
  have "al_target_hi (set_target v a) = ucast (drop_bit 32 v) AND 0xFFFFF" by (simp add: set_target_def)
  then have "unat (al_target_hi (set_target v a)) = unat v div 2 ^ 32 mod 2 ^ 20"
    by (simp only: unat_and_20 unat_low_high)
  moreover have "unat (al_target_lo (set_target v a)) = unat v mod 2 ^ 32"
    by (simp add: set_target_def unat_low_high)
  moreover have "unat v mod (2 ^ 32 * 2 ^ 20) = 2 ^ 32 * (unat v div 2 ^ 32 mod 2 ^ 20) + unat v mod 2 ^ 32"
    by (rule mod_mult2_eq)
  ultimately show ?thesis by simp
qed

lemma alarm_load_due:
  assumes v: "alarm_valid h2 rate a" and d: "unat d < 2 ^ 52" and m: "\<not> al_period_mode a" and l: "alarm_load_value h2 d a = Inr a'"
  shows "alarm_due a' = unat d * rate div 1000000"
proof -
  let ?ticks = "us_to_ticks h2 (al_correction a) d"
  from l m have nz: "?ticks AND NOT BIT_MASK = 0" and a': "a' = set_target (al_unit_value a + ?ticks) a"
    by (auto simp: alarm_load_value_def Let_def split: if_splits)
  have "BIT_MASK = mask 52" by (simp add: BIT_MASK_def mask_numeral)
  with nz have small: "unat ?ticks < 2 ^ 52" by (intro and_not_mask_bound) simp_all
  have ticks: "unat ?ticks = unat d * rate div 1000000"
    using v us_to_ticks_exact [OF _ d] by (simp add: alarm_valid_def)
  have u: "unat (al_unit_value a) < 2 ^ 52" using v by (simp add: alarm_valid_def)
  then have sum: "unat (al_unit_value a + ?ticks) = unat (al_unit_value a) + unat ?ticks"
    using small by (intro unat_add_small) simp
  have "al_unit_value a' = al_unit_value a" by (simp add: a' set_target_def)
  then have "alarm_due a' = ((unat (al_unit_value a) + unat ?ticks) mod 2 ^ 52 + (2 ^ 52 - unat (al_unit_value a))) mod 2 ^ 52"
    using u set_target_value [of "al_unit_value a + ?ticks" a] sum by (simp add: alarm_due_def a')
  also have "\<dots> = (unat (al_unit_value a) + unat ?ticks + (2 ^ 52 - unat (al_unit_value a))) mod 2 ^ 52" by (rule mod_add_left_eq)
  also have "\<dots> = unat ?ticks" using u small by simp
  finally show ?thesis using ticks by simp
qed

lemma us_to_ticks_0 [simp]: "us_to_ticks h2 c 0 = 0"
  by (simp add: us_to_ticks_def Let_def)

interpretation systimer: one_shot_timer "systimer_alarm h2" "alarm_valid h2 rate" alarm_due rate for h2 rate
proof
  fix a a' :: Alarm and d b e
  show "alarm_valid h2 rate a \<Longrightarrow> tm_load_value (systimer_alarm h2) d a = Inr a' \<Longrightarrow> alarm_valid h2 rate a'"
    by (auto simp: systimer_alarm_def alarm_load_value_def alarm_valid_def set_target_def set_period_def Let_def split: if_splits)
  show "alarm_valid h2 rate a \<Longrightarrow> tm_load_value (systimer_alarm h2) d a = Inl e \<Longrightarrow> e = InvalidTimeout"
    by (auto simp: systimer_alarm_def alarm_load_value_def Let_def split: if_splits)
  show "\<exists>a'. tm_load_value (systimer_alarm h2) 0 a = Inr a'"
    by (simp add: systimer_alarm_def alarm_load_value_def)
  assume v: "alarm_valid h2 rate a" and d: "unat d < 2 ^ 52"
    and l: "tm_load_value (systimer_alarm h2) d (tm_enable_auto_reload (systimer_alarm h2) False a) = Inr a'"
  have "alarm_due a' = unat d * rate div 1000000"
    by (rule alarm_load_due [of h2 rate "a\<lparr>al_period_mode := False\<rparr>"])
      (use v d l in \<open>simp_all add: alarm_valid_def systimer_alarm_def\<close>)
  then show "alarm_due (tm_start (systimer_alarm h2) a') = unat d * rate div 1000000"
    by (simp add: systimer_alarm_def alarm_due_def)
qed (simp_all add: systimer_alarm_def alarm_valid_def)

section \<open>A timer of either kind keeps the promise\<close>

definition any_valid :: "bool \<Rightarrow> nat \<Rightarrow> AnyTimer \<Rightarrow> bool" where
  "any_valid h2 rate t = (case t of AnyTimgTimer x \<Rightarrow> timg_valid rate x | AnySystimerAlarm a \<Rightarrow> alarm_valid h2 rate a)"

definition any_due :: "AnyTimer \<Rightarrow> nat" where
  "any_due t = (case t of AnyTimgTimer x \<Rightarrow> timg_due x | AnySystimerAlarm a \<Rightarrow> alarm_due a)"

lemmas any_defs = any_timer_def any_op_def any_load_value_def any_valid_def any_due_def

lemma map_sum_eq_Inr: "map_sum id f s = Inr y \<longleftrightarrow> (\<exists>x. s = Inr x \<and> y = f x)"
  by (cases s) auto

lemma map_sum_eq_Inl: "map_sum id f s = Inl e \<longleftrightarrow> s = Inl e"
  by (cases s) auto

interpretation any: one_shot_timer "any_timer h2" "any_valid h2 rate" any_due rate for h2 rate
proof
  fix t t' :: AnyTimer and d b e
  show "any_valid h2 rate t \<Longrightarrow> tm_load_value (any_timer h2) d t = Inr t' \<Longrightarrow> any_valid h2 rate t'"
    by (cases t) (auto simp: any_defs map_sum_eq_Inr timg.load_valid systimer.load_valid)
  show "any_valid h2 rate t \<Longrightarrow> \<exists>t'. tm_load_value (any_timer h2) 0 t = Inr t'"
    using timg.load_zero systimer.load_zero by (cases t) (fastforce simp: any_defs map_sum_eq_Inr)+
  show "any_valid h2 rate t \<Longrightarrow> tm_load_value (any_timer h2) d t = Inl e \<Longrightarrow> e = InvalidTimeout"
    by (cases t) (auto simp: any_defs map_sum_eq_Inl timg.load_error systimer.load_error)
  show "any_valid h2 rate t \<Longrightarrow> unat d < 2 ^ 52 \<Longrightarrow> tm_load_value (any_timer h2) d (tm_enable_auto_reload (any_timer h2) False t) = Inr t' \<Longrightarrow>
      any_due (tm_start (any_timer h2) t') = unat d * rate div 1000000"
    by (cases t) (auto simp: any_defs map_sum_eq_Inr timg.load_due systimer.load_due)
  show "tm_is_running (any_timer h2) (tm_start (any_timer h2) t)"
    by (cases t) (simp_all add: any_defs timg.start_running systimer.start_running)
  show "any_valid h2 rate t \<Longrightarrow> any_valid h2 rate (tm_start (any_timer h2) t)" "any_valid h2 rate t \<Longrightarrow> any_valid h2 rate (tm_stop (any_timer h2) t)"
    "any_valid h2 rate t \<Longrightarrow> any_valid h2 rate (tm_reset (any_timer h2) t)"
    "any_valid h2 rate t \<Longrightarrow> any_valid h2 rate (tm_enable_auto_reload (any_timer h2) b t)"
    "any_valid h2 rate t \<Longrightarrow> any_valid h2 rate (tm_enable_interrupt (any_timer h2) b t)"
    "any_valid h2 rate t \<Longrightarrow> any_valid h2 rate (tm_clear_interrupt (any_timer h2) t)"
    by (cases t; simp add: any_defs timg.valid_ops systimer.valid_ops)+
qed

end
