(* ===== verification/Timer_Queue.thy ===== *)
theory Timer_Queue
  imports Run_Queue Hal_Timer
begin

text \<open>
  \<open>esp-rtos/src/timer/mod.rs\<close>: the queue of sleeping tasks and the time driver that programs the alarm.
  The queue keeps a lower bound of the wakeup times; the lemmas show that no operation loses a
  wakeup, that \<open>retain\<close> wakes exactly the tasks whose time has come, and that arming the alarm
  terminates and never arms it too late. The closure that \<open>retain\<close> calls for an expired task is an
  argument; the locale \<open>wakeup_handler\<close> states what \<open>retain\<close> needs of it.
\<close>

section \<open>The timer queue\<close>

definition U64_MAX :: u64 where
  "U64_MAX = 0xFFFFFFFFFFFFFFFF"

record TimerQueue =
  tq_queue :: TaskQueue
  tq_next_wakeup :: u64
  time_slice_target :: "Cpu \<Rightarrow> u64"

definition timer_new :: TimerQueue where
  "timer_new = \<lparr>tq_queue = queue_new, tq_next_wakeup = U64_MAX, time_slice_target = (\<lambda>_. U64_MAX)\<rparr>"

definition timer_push :: "bool \<Rightarrow> TimerQueue \<Rightarrow> TaskPtr \<Rightarrow> u64 \<Rightarrow> heap \<Rightarrow> (TimerQueue \<times> heap) option" where
  "timer_push dbg tq task wakeup h =
     Option.bind (queue_push dbg TaskTimerQueueElement (tq_queue tq) task h)
       (\<lambda>(q, h'). Some (tq\<lparr>tq_queue := q, tq_next_wakeup := min (tq_next_wakeup tq) wakeup\<rparr>, h'))"

definition signal_next_embassy_wakeup :: "u64 \<Rightarrow> TimerQueue \<Rightarrow> TimerQueue" where
  "signal_next_embassy_wakeup wakeup tq = tq\<lparr>tq_next_wakeup := min (tq_next_wakeup tq) wakeup\<rparr>"

definition timer_pop :: "TimerQueue \<Rightarrow> heap \<Rightarrow> TaskPtr option \<times> TimerQueue \<times> heap" where
  "timer_pop tq h = (case queue_pop TaskTimerQueueElement (tq_queue tq) h of (p, q, h') \<Rightarrow> (p, tq\<lparr>tq_queue := q\<rparr>, h'))"

definition timer_remove :: "bool \<Rightarrow> TimerQueue \<Rightarrow> TaskPtr \<Rightarrow> heap \<Rightarrow> (TimerQueue \<times> heap) option" where
  "timer_remove dbg tq task h =
     Option.bind (queue_remove dbg TaskTimerQueueElement (tq_queue tq) task h) (\<lambda>(q, h'). Some (tq\<lparr>tq_queue := q\<rparr>, h'))"

definition timer_next_wakeup :: "TimerQueue \<Rightarrow> u64" where
  "timer_next_wakeup tq = fold (\<lambda>cpu wakeup. min wakeup (time_slice_target tq cpu)) all_cpus (tq_next_wakeup tq)"

text \<open>
  The loop of \<open>retain\<close>: \<open>tq\<close> is the queue that was taken, \<open>self\<close> the one that is rebuilt. The closure
  works on the heap and on a state \<open>s\<close> of its own.
\<close>

partial_function (option) retain_loop ::
  "bool \<Rightarrow> u64 \<Rightarrow> (TaskPtr \<Rightarrow> 's \<Rightarrow> heap \<Rightarrow> ('s \<times> heap) option) \<Rightarrow> TimerQueue \<Rightarrow> TimerQueue \<Rightarrow> 's \<Rightarrow> heap \<Rightarrow>
     (TimerQueue \<times> 's \<times> heap) option"
where
  "retain_loop dbg now on_task_ready tq self s h = (case timer_pop tq h of
      (None, tq1, h1) \<Rightarrow> Some (self, s, h1)
    | (Some task, tq1, h1) \<Rightarrow>
        let wakeup = wakeup_at (h1 task) in
        if wakeup \<le> now
        then Option.bind (on_task_ready task s h1) (\<lambda>(s', h2). retain_loop dbg now on_task_ready tq1 self s' h2)
        else Option.bind (timer_push dbg self task wakeup h1) (\<lambda>(self', h2). retain_loop dbg now on_task_ready tq1 self' s h2))"

definition retain ::
  "bool \<Rightarrow> u64 \<Rightarrow> (TaskPtr \<Rightarrow> 's \<Rightarrow> heap \<Rightarrow> ('s \<times> heap) option) \<Rightarrow> TimerQueue \<Rightarrow> 's \<Rightarrow> heap \<Rightarrow>
     (TimerQueue \<times> 's \<times> heap) option"
where
  "retain dbg now on_task_ready tq s h =
    (if now < tq_next_wakeup tq then Some (tq, s, h)
     else retain_loop dbg now on_task_ready tq (timer_new\<lparr>time_slice_target := time_slice_target tq\<rparr>) s h)"

section \<open>The time driver\<close>

record 't TimeDriver =
  td_timer :: 't
  timer_queue :: TimerQueue
  current_alarm :: u64

definition td_new :: "'t Timer \<Rightarrow> 't \<Rightarrow> 't TimeDriver" where
  "td_new T timer = \<lparr>td_timer = tm_enable_interrupt T True timer, timer_queue = timer_new, current_alarm = U64_MAX\<rparr>"

definition td_next_wakeup :: "'t TimeDriver \<Rightarrow> u64" where
  "td_next_wakeup td = timer_next_wakeup (timer_queue td)"

definition handle_alarm ::
  "bool \<Rightarrow> u64 \<Rightarrow> (TaskPtr \<Rightarrow> 's \<Rightarrow> heap \<Rightarrow> ('s \<times> heap) option) \<Rightarrow> 't TimeDriver \<Rightarrow> 's \<Rightarrow> heap \<Rightarrow>
     ('t TimeDriver \<times> 's \<times> heap) option"
where
  "handle_alarm dbg now on_task_ready td s h =
    (if now < current_alarm td then Some (td, s, h)
     else Option.bind (retain dbg now on_task_ready (timer_queue td) s h)
       (\<lambda>(tq, s', h'). Some (td\<lparr>current_alarm := U64_MAX, timer_queue := tq\<rparr>, s', h')))"

text \<open>The tick rate is a configuration value; a time slice is one tick long.\<close>

definition timeslice_duration :: "u32 \<Rightarrow> u64" where
  "timeslice_duration tick_rate = 1000000 div ucast tick_rate"

definition set_time_slice :: "u32 \<Rightarrow> Cpu \<Rightarrow> u64 \<Rightarrow> bool \<Rightarrow> 't TimeDriver \<Rightarrow> 't TimeDriver" where
  "set_time_slice tick_rate cpu now enable td =
    td\<lparr>timer_queue := (timer_queue td)\<lparr>time_slice_target := (time_slice_target (timer_queue td))
         (cpu := (if enable then now + timeslice_duration tick_rate else U64_MAX))\<rparr>\<rparr>"

definition ensure_time_slice :: "u32 \<Rightarrow> Cpu \<Rightarrow> u64 \<Rightarrow> 't TimeDriver \<Rightarrow> 't TimeDriver" where
  "ensure_time_slice tick_rate cpu now td =
    (if time_slice_target (timer_queue td) cpu = U64_MAX then set_time_slice tick_rate cpu now True td else td)"

function arm_loop :: "'t Timer \<Rightarrow> u64 \<Rightarrow> 't \<Rightarrow> 't option" where
  "arm_loop T timeout t = (case schedule T timeout t of
      (None, t') \<Rightarrow> Some t'
    | (Some e, t') \<Rightarrow> if e = InvalidTimeout \<and> timeout \<noteq> 0 then arm_loop T (timeout div 2) t' else None)"
  by pat_completeness auto

termination
proof (relation "measure (\<lambda>(T, timeout, t). unat timeout)")
  fix T :: "'t Timer" and timeout :: u64 and t p t' e
  assume "e = InvalidTimeout \<and> timeout \<noteq> 0"
  then have "0 < unat timeout" by (simp add: unat_gt_0)
  then show "((T, timeout div 2, t'), T, timeout, t) \<in> measure (\<lambda>(T, timeout, t). unat timeout)"
    by (simp add: unat_div_distrib)
qed simp

declare arm_loop.simps [simp del]

definition arm_next_wakeup :: "'t Timer \<Rightarrow> u64 \<Rightarrow> 't TimeDriver \<Rightarrow> 't TimeDriver option" where
  "arm_next_wakeup T now td =
    (let wakeup = timer_next_wakeup (timer_queue td) in
     if wakeup = current_alarm td then Some td
     else
       let sleep_duration = (if now \<le> wakeup then wakeup - now else 0);
           timeout = min sleep_duration (push_bit 52 1 - 1)
       in Option.bind (arm_loop T timeout (td_timer td)) (\<lambda>t. Some (td\<lparr>current_alarm := wakeup, td_timer := t\<rparr>)))"

definition rearm :: "'t Timer \<Rightarrow> u64 \<Rightarrow> 't TimeDriver \<Rightarrow> 't TimeDriver option" where
  "rearm T now td = arm_next_wakeup T now (td\<lparr>current_alarm := U64_MAX\<rparr>)"

text \<open>\<open>now\<close> is the time that \<open>schedule_wakeup\<close> reads; \<open>at\<close> the deadline in microseconds since boot.\<close>

definition schedule_wakeup ::
  "bool \<Rightarrow> u64 \<Rightarrow> TaskPtr \<Rightarrow> u64 \<Rightarrow> 't TimeDriver \<Rightarrow> heap \<Rightarrow> (bool \<times> 't TimeDriver \<times> heap) option"
where
  "schedule_wakeup dbg now task at td h =
    (if dbg \<and> task_state (h task) \<noteq> Ready then None
     else if at = U64_MAX then Some (True, td, set_state task Sleeping h)
     else if at \<le> now then Some (False, td, h)
     else
       Option.bind (timer_push dbg (timer_queue td) task at (set_state task Sleeping h)) (\<lambda>(tq, h').
         Some (True, td\<lparr>timer_queue := tq\<rparr>, h'(task := (h' task)\<lparr>wakeup_at := at\<rparr>))))"

section \<open>The timer queue as a list\<close>

abbreviation timer_element :: TaskListElement where
  "timer_element \<equiv> TaskTimerQueueElement"

lemma timer_element_simps [simp]:
  "el_next timer_element t = timer_queue_item t" "el_is_in_queue timer_element t = Some (timer_queued t)"
  "unlinked timer_element t \<longleftrightarrow> timer_queue_item t = None \<and> \<not> timer_queued t"
  by (simp_all add: element_defs unlinked_def)

lemma timer_relinks:
  assumes "relinks timer_element X h h'"
  shows "priority (h' y) = priority (h y)" "current_wait_queue (h' y) = current_wait_queue (h y)"
    "pinned_to (h' y) = pinned_to (h y)" "task_state (h' y) = task_state (h y)" "wakeup_at (h' y) = wakeup_at (h y)"
    "in_run_or_wait_queue (h' y) = in_run_or_wait_queue (h y)" "ready_queue_item (h' y) = ready_queue_item (h y)"
    "alloc_list_item (h' y) = alloc_list_item (h y)" "delete_list_item (h' y) = delete_list_item (h y)"
    "stack_bottom (h' y) = stack_bottom (h y)" "stack_words (h' y) = stack_words (h y)"
    "saved_sp (h' y) = saved_sp (h y)" "thread (h' y) = thread (h y)"
  using assms by (rule relinks_field; simp add: element_defs)+

text \<open>
  \<open>ts\<close> lists the tasks of the queue. The stored wakeup time is not later than any of theirs, and no
  other task is linked.
\<close>

definition timer_rel :: "heap \<Rightarrow> TimerQueue \<Rightarrow> TaskPtr list \<Rightarrow> bool" where
  "timer_rel h tq ts \<longleftrightarrow> queue_rel timer_element h (tq_queue tq) ts \<and> (\<forall>t\<in>set ts. tq_next_wakeup tq \<le> wakeup_at (h t))"

definition timer_inv :: "heap \<Rightarrow> TimerQueue \<Rightarrow> TaskPtr list \<Rightarrow> bool" where
  "timer_inv h tq ts \<longleftrightarrow> timer_rel h tq ts \<and> (\<forall>t. t \<notin> set ts \<longrightarrow> unlinked timer_element (h t))"

text \<open>The fields that the queue depends on.\<close>

definition same_timer :: "Task \<Rightarrow> Task \<Rightarrow> bool" where
  "same_timer t t' \<longleftrightarrow> timer_queue_item t' = timer_queue_item t \<and> timer_queued t' = timer_queued t \<and> wakeup_at t' = wakeup_at t"

lemma timer_rel_same:
  assumes "timer_rel h tq ts" "\<And>y. y \<in> set ts \<Longrightarrow> same_timer (h y) (h' y)"
  shows "timer_rel h' tq ts"
proof -
  have "queue_rel timer_element h' (tq_queue tq) ts = queue_rel timer_element h (tq_queue tq) ts"
    using assms(2) by (intro queue_rel_cong) (auto simp: same_timer_def)
  with assms show ?thesis by (auto simp: timer_rel_def same_timer_def)
qed

lemma timer_rel_frame:
  assumes "timer_rel h tq ts" "relinks E X h h'" "set ts \<inter> X = {}"
  shows "timer_rel h' tq ts"
proof (rule timer_rel_same [OF assms(1)])
  fix y assume "y \<in> set ts"
  then have "h' y = h y" using assms(3) by (intro relinks_outside [OF assms(2)]) blast
  then show "same_timer (h y) (h' y)" by (simp add: same_timer_def)
qed

lemma timer_inv_same:
  assumes "timer_inv h tq ts" "\<And>y. same_timer (h y) (h' y)"
  shows "timer_inv h' tq ts"
  using assms timer_rel_same [of h tq ts h'] by (auto simp: timer_inv_def same_timer_def)

lemma ready_relinks_timer: "relinks ready_element X h h' \<Longrightarrow> same_timer (h y) (h' y)"
  by (simp add: same_timer_def ready_relinks)

lemma timer_relinks_ready: "relinks timer_element X h h' \<Longrightarrow> same_ready (h y) (h' y)"
  by (simp add: same_ready_def timer_relinks)

lemma timer_queued_iff: "timer_inv h tq ts \<Longrightarrow> timer_queued (h t) \<longleftrightarrow> t \<in> set ts"
  by (auto simp: timer_inv_def timer_rel_def queue_rel_def)

lemma timer_rel_new: "timer_rel h (timer_new\<lparr>time_slice_target := f\<rparr>) []"
  by (simp add: timer_rel_def timer_new_def timer_link.queue_rel_new)

lemma timer_pop_empty: "timer_rel h tq [] \<Longrightarrow> timer_pop tq h = (None, tq, h)"
  by (simp add: timer_rel_def timer_pop_def timer_link.queue_pop_empty)

lemma timer_pop_ok:
  assumes "timer_rel h tq (t # ts)"
  obtains tq' h' where "timer_pop tq h = (Some t, tq', h')" "timer_rel h' tq' ts" "unlinked timer_element (h' t)"
    "relinks timer_element {t} h h'"
proof -
  have q: "queue_rel timer_element h (tq_queue tq) (t # ts)" using assms by (simp add: timer_rel_def)
  obtain q' h' where p: "queue_pop timer_element (tq_queue tq) h = (Some t, q', h')" "queue_rel timer_element h' q' ts"
    "unlinked timer_element (h' t)" "relinks timer_element {t} h h'"
    using timer_link.queue_pop_ok [OF q] .
  have "timer_rel h' (tq\<lparr>tq_queue := q'\<rparr>) ts" using assms p(2) timer_relinks(5) [OF p(4)] by (simp add: timer_rel_def)
  then show thesis using that [of "tq\<lparr>tq_queue := q'\<rparr>" h'] p by (simp add: timer_pop_def)
qed

lemma timer_push_ok:
  assumes "timer_rel h tq ts" "t \<notin> set ts" "unlinked timer_element (h t)" "wakeup \<le> wakeup_at (h t)"
  obtains tq' h' where "timer_push dbg tq t wakeup h = Some (tq', h')" "timer_rel h' tq' (ts @ [t])"
    "relinks timer_element (insert t (set ts)) h h'" "tq_next_wakeup tq' = min (tq_next_wakeup tq) wakeup"
    "time_slice_target tq' = time_slice_target tq"
proof -
  have "queue_rel timer_element h (tq_queue tq) ts" using assms(1) by (simp add: timer_rel_def)
  from timer_link.queue_push_ok [OF this assms(2,3), of dbg] obtain q h' where
    p: "queue_push dbg timer_element (tq_queue tq) t h = Some (q, h')" "queue_rel timer_element h' q (ts @ [t])"
      "relinks timer_element (insert t (set ts)) h h'" .
  let ?tq = "tq\<lparr>tq_queue := q, tq_next_wakeup := min (tq_next_wakeup tq) wakeup\<rparr>"
  have "timer_rel h' ?tq (ts @ [t])"
    using assms(1,4) p(2) timer_relinks(5) [OF p(3)] by (auto simp: timer_rel_def min_le_iff_disj)
  then show thesis using that [of ?tq h'] p by (simp add: timer_push_def)
qed

lemma timer_remove_ok:
  assumes "timer_inv h tq ts"
  obtains tq' h' where "timer_remove dbg tq t h = Some (tq', h')" "timer_inv h' tq' (remove1 t ts)"
    "relinks timer_element (set ts) h h'" "time_slice_target tq' = time_slice_target tq" "tq_next_wakeup tq' = tq_next_wakeup tq"
proof -
  have q: "queue_rel timer_element h (tq_queue tq) ts" and u: "t \<notin> set ts \<Longrightarrow> unlinked timer_element (h t)"
    using assms by (simp_all add: timer_inv_def timer_rel_def)
  from timer_link.queue_remove_ok [OF q u, of dbg] obtain q' h' where
    r: "queue_remove dbg timer_element (tq_queue tq) t h = Some (q', h')" "queue_rel timer_element h' q' (remove1 t ts)"
      "relinks timer_element (set ts) h h'" "unlinked timer_element (h' t)" by blast
  have "distinct ts" using q by (simp add: queue_rel_def)
  have "timer_rel h' (tq\<lparr>tq_queue := q'\<rparr>) (remove1 t ts)"
    using assms r(2) timer_relinks(5) [OF r(3)] notin_set_remove1 [of _ ts t] by (auto simp: timer_inv_def timer_rel_def)
  moreover have "unlinked timer_element (h' y)" if "y \<notin> set (remove1 t ts)" for y
  proof (cases "y = t")
    case False
    with that have "y \<notin> set ts" by simp
    then show ?thesis using assms relinks_outside [OF r(3)] by (simp add: timer_inv_def)
  qed (use r(4) in simp)
  ultimately have "timer_inv h' (tq\<lparr>tq_queue := q'\<rparr>) (remove1 t ts)" by (simp add: timer_inv_def)
  then show thesis using that [of "tq\<lparr>tq_queue := q'\<rparr>" h'] r by (simp add: timer_remove_def)
qed

section \<open>Waking the expired tasks\<close>

text \<open>
  What \<open>retain\<close> needs of its closure: it makes a sleeping task ready, leaves the timer links alone and
  works on a state whose invariant does not depend on them.
\<close>

locale wakeup_handler =
  fixes on_ready :: "TaskPtr \<Rightarrow> 's \<Rightarrow> heap \<Rightarrow> ('s \<times> heap) option" and inv :: "'s \<Rightarrow> heap \<Rightarrow> bool"
  assumes handles: "inv s h \<Longrightarrow> task_state (h t) = Sleeping \<Longrightarrow>
      \<exists>s' h'. on_ready t s h = Some (s', h') \<and> inv s' h' \<and> (\<forall>y. same_timer (h y) (h' y)) \<and>
        (\<forall>y. task_state (h' y) = (if y = t then Ready else task_state (h y)))"
    and inv_relinks: "inv s h \<Longrightarrow> relinks timer_element X h h' \<Longrightarrow> inv s h'"
begin

lemma retain_loop_ok:
  assumes "timer_rel h tq ys" "timer_rel h self zs" "set ys \<inter> set zs = {}" "\<forall>y. y \<notin> set ys \<union> set zs \<longrightarrow> unlinked timer_element (h y)"
    and "\<forall>t\<in>set ys. task_state (h t) = Sleeping" "inv s h"
  shows "\<exists>tq' s' h'. retain_loop dbg now on_ready tq self s h = Some (tq', s', h') \<and> inv s' h' \<and>
    timer_inv h' tq' (zs @ filter (\<lambda>t. now < wakeup_at (h t)) ys) \<and> time_slice_target tq' = time_slice_target self \<and>
    (\<forall>y. task_state (h' y) = (if y \<in> set ys \<and> wakeup_at (h y) \<le> now then Ready else task_state (h y))) \<and>
    (\<forall>y. wakeup_at (h' y) = wakeup_at (h y))"
  using assms
proof (induction ys arbitrary: tq self zs s h)
  case Nil
  then show ?case by (subst retain_loop.simps) (simp add: timer_pop_empty timer_inv_def)
next
  case (Cons t ys)
  obtain tq1 h1 where pop: "timer_pop tq h = (Some t, tq1, h1)" "timer_rel h1 tq1 ys" "unlinked timer_element (h1 t)"
    "relinks timer_element {t} h h1"
    using timer_pop_ok [OF Cons.prems(1)] .
  note f1 = timer_relinks(4,5) [OF pop(4)]
  have t: "t \<notin> set zs" "t \<notin> set ys" using Cons.prems(1,3) by (auto simp: timer_rel_def queue_rel_def)
  have u1: "unlinked timer_element (h1 y)" if "y \<notin> set ys \<union> set zs" for y
    using Cons.prems(4) that pop(3) relinks_outside [OF pop(4), of y] by (cases "y = t") auto
  have i1: "inv s h1" by (rule inv_relinks [OF Cons.prems(6) pop(4)])
  have self1: "timer_rel h1 self zs"
    by (rule timer_rel_frame [OF Cons.prems(2) pop(4)]) (use t(1) in simp)
  show ?case
  proof (cases "wakeup_at (h t) \<le> now")
    case True
    have "task_state (h1 t) = Sleeping" using Cons.prems(5) f1 by simp
    from handles [OF i1 this] obtain s2 h2 where on: "on_ready t s h1 = Some (s2, h2)" "inv s2 h2"
      "\<forall>y. same_timer (h1 y) (h2 y)" "\<forall>y. task_state (h2 y) = (if y = t then Ready else task_state (h1 y))" by blast
    have w2: "wakeup_at (h2 y) = wakeup_at (h y)" for y using on(3) f1 by (simp add: same_timer_def)
    have "\<exists>tq' s' h'. retain_loop dbg now on_ready tq1 self s2 h2 = Some (tq', s', h') \<and> inv s' h' \<and>
        timer_inv h' tq' (zs @ filter (\<lambda>t. now < wakeup_at (h2 t)) ys) \<and> time_slice_target tq' = time_slice_target self \<and>
        (\<forall>y. task_state (h' y) = (if y \<in> set ys \<and> wakeup_at (h2 y) \<le> now then Ready else task_state (h2 y))) \<and>
        (\<forall>y. wakeup_at (h' y) = wakeup_at (h2 y))"
    proof (rule Cons.IH)
      show "timer_rel h2 tq1 ys" "timer_rel h2 self zs" using on(3) by (auto intro: timer_rel_same [OF pop(2)] timer_rel_same [OF self1])
      show "\<forall>y. y \<notin> set ys \<union> set zs \<longrightarrow> unlinked timer_element (h2 y)" using u1 on(3) by (simp add: same_timer_def)
      show "\<forall>x\<in>set ys. task_state (h2 x) = Sleeping" using on(4) t(2) Cons.prems(5) f1 by auto
    qed (use on(2) Cons.prems(3) in auto)
    then show ?thesis using True pop(1) on(1,4) f1 t(2)
      by (simp add: retain_loop.simps [of dbg now on_ready tq self] w2 not_less [symmetric]) (metis)
  next
    case False
    from timer_push_ok [OF self1 t(1) pop(3), of "wakeup_at (h1 t)" dbg] obtain self2 h2 where
      push: "timer_push dbg self t (wakeup_at (h1 t)) h1 = Some (self2, h2)" "timer_rel h2 self2 (zs @ [t])"
        "relinks timer_element (insert t (set zs)) h1 h2" "time_slice_target self2 = time_slice_target self" by simp metis
    note f2 = timer_relinks(4,5) [OF push(3)]
    have same: "h2 y = h1 y" if "y \<notin> insert t (set zs)" for y using relinks_outside [OF push(3) that] .
    have "\<exists>tq' s' h'. retain_loop dbg now on_ready tq1 self2 s h2 = Some (tq', s', h') \<and> inv s' h' \<and>
        timer_inv h' tq' ((zs @ [t]) @ filter (\<lambda>t. now < wakeup_at (h2 t)) ys) \<and> time_slice_target tq' = time_slice_target self2 \<and>
        (\<forall>y. task_state (h' y) = (if y \<in> set ys \<and> wakeup_at (h2 y) \<le> now then Ready else task_state (h2 y))) \<and>
        (\<forall>y. wakeup_at (h' y) = wakeup_at (h2 y))"
    proof (rule Cons.IH [OF _ push(2)])
      show "timer_rel h2 tq1 ys"
        by (rule timer_rel_frame [OF pop(2) push(3)]) (use t(2) Cons.prems(3) in auto)
      show "\<forall>y. y \<notin> set ys \<union> set (zs @ [t]) \<longrightarrow> unlinked timer_element (h2 y)" using u1 same by auto
      show "\<forall>x\<in>set ys. task_state (h2 x) = Sleeping" using Cons.prems(5) f1 f2 by simp
      show "inv s h2" by (rule inv_relinks [OF i1 push(3)])
    qed (use Cons.prems(3) t(2) in auto)
    then show ?thesis using False pop(1) push(1,4) f1 f2
      by (simp add: retain_loop.simps [of dbg now on_ready tq self] not_less [symmetric]) (metis)
  qed
qed

lemma retain_ok:
  assumes "timer_inv h tq ts" "\<forall>t\<in>set ts. task_state (h t) = Sleeping" "inv s h"
  shows "\<exists>tq' s' h'. retain dbg now on_ready tq s h = Some (tq', s', h') \<and> inv s' h' \<and>
    timer_inv h' tq' (filter (\<lambda>t. now < wakeup_at (h t)) ts) \<and> time_slice_target tq' = time_slice_target tq \<and>
    (\<forall>y. task_state (h' y) = (if y \<in> set ts \<and> wakeup_at (h y) \<le> now then Ready else task_state (h y))) \<and>
    (\<forall>y. wakeup_at (h' y) = wakeup_at (h y))"
proof (cases "now < tq_next_wakeup tq")
  case True
  then have late: "now < wakeup_at (h t)" if "t \<in> set ts" for t
    using assms(1) that by (auto simp: timer_inv_def timer_rel_def)
  then have "filter (\<lambda>t. now < wakeup_at (h t)) ts = ts" by (simp add: filter_id_conv)
  then show ?thesis using True assms late by (auto simp: retain_def not_le)
next
  case False
  let ?self = "timer_new\<lparr>time_slice_target := time_slice_target tq\<rparr>"
  have "timer_rel h tq ts" using assms(1) by (simp add: timer_inv_def)
  from retain_loop_ok [OF this timer_rel_new [of h "time_slice_target tq"] _ _ assms(2,3), of dbg now] False assms(1)
  show ?thesis by (simp add: retain_def timer_inv_def)
qed

lemma handle_alarm_ok:
  assumes "timer_inv h (timer_queue td) ts" "\<forall>t\<in>set ts. task_state (h t) = Sleeping" "inv s h" "current_alarm td \<le> now"
  shows "\<exists>td' s' h'. handle_alarm dbg now on_ready td s h = Some (td', s', h') \<and> inv s' h' \<and>
    timer_inv h' (timer_queue td') (filter (\<lambda>t. now < wakeup_at (h t)) ts) \<and> td_timer td' = td_timer td \<and>
    time_slice_target (timer_queue td') = time_slice_target (timer_queue td) \<and>
    (\<forall>y. task_state (h' y) = (if y \<in> set ts \<and> wakeup_at (h y) \<le> now then Ready else task_state (h y))) \<and>
    (\<forall>y. wakeup_at (h' y) = wakeup_at (h y))"
  using retain_ok [OF assms(1-3), of dbg now] assms(4) by (force simp: handle_alarm_def not_less [symmetric])

end

section \<open>Arming the alarm\<close>

lemma timer_next_wakeup_eq:
  "timer_next_wakeup tq = min (min (tq_next_wakeup tq) (time_slice_target tq ProCpu)) (time_slice_target tq AppCpu)"
  by (simp only: timer_next_wakeup_def all_cpus_def fold_simps comp_apply id_apply)

lemma next_wakeup_le:
  "timer_next_wakeup tq \<le> tq_next_wakeup tq" "timer_next_wakeup tq \<le> time_slice_target tq cpu"
  unfolding timer_next_wakeup_eq
  by (blast intro: min.coboundedI1 min.cobounded1) (cases cpu; blast intro: min.coboundedI1 min.cobounded2)

lemma timeout_bound: "unat (min d (push_bit 52 1 - 1 :: u64)) < 2 ^ 52" "min d (push_bit 52 1 - 1 :: u64) \<le> d"
proof -
  have "min d (push_bit 52 1 - 1 :: u64) \<le> push_bit 52 1 - 1" by (rule min.cobounded2)
  then have "unat (min d (push_bit 52 1 - 1 :: u64)) \<le> unat (push_bit 52 1 - 1 :: u64)" by (simp only: word_le_nat_alt)
  also have "\<dots> < 2 ^ 52" by simp
  finally show "unat (min d (push_bit 52 1 - 1 :: u64)) < 2 ^ 52" .
qed (rule min.cobounded1)

context one_shot_timer
begin

lemma arm_loop_ok:
  assumes "valid t" "unat timeout < 2 ^ 52"
  shows "\<exists>t'. arm_loop T timeout t = Some t' \<and> valid t' \<and> tm_is_running T t' \<and> due t' \<le> unat timeout * rate div 1000000"
  using assms
proof (induction "unat timeout" arbitrary: timeout t rule: less_induct)
  case less
  obtain r t1 where r: "schedule T timeout t = (r, t1)" by fastforce
  have v: "valid t1" using schedule_valid [OF less.prems(1), of timeout] r by simp
  show ?case
  proof (cases r)
    case None
    with r schedule_due [OF less.prems(1,2)] v show ?thesis by (subst arm_loop.simps) simp
  next
    case (Some e)
    have e: "e = InvalidTimeout" using schedule_error [OF less.prems(1), of timeout e] r Some by simp
    have "timeout \<noteq> 0" using schedule_zero [OF less.prems(1)] r Some by auto
    then have "0 < unat timeout" by (simp add: unat_gt_0)
    then have half: "unat (timeout div 2) = unat timeout div 2" "unat (timeout div 2) < unat timeout" by (simp_all add: unat_div_distrib)
    with less.prems(2) have "unat (timeout div 2) < 2 ^ 52" by simp
    from less.hyps [OF half(2) v this] obtain t' where t': "arm_loop T (timeout div 2) t1 = Some t'" "valid t'"
      "tm_is_running T t'" "due t' \<le> unat (timeout div 2) * rate div 1000000" by blast
    have "unat (timeout div 2) * rate div 1000000 \<le> unat timeout * rate div 1000000"
      using half by (intro div_le_mono mult_le_mono1) simp
    then show ?thesis using t' r Some e \<open>timeout \<noteq> 0\<close> by (subst arm_loop.simps) auto
  qed
qed

text \<open>The alarm fires at the next wakeup at the latest, or at once when that has passed.\<close>

lemma arm_next_wakeup_ok:
  assumes "valid (td_timer td)" "timer_next_wakeup (timer_queue td) \<noteq> current_alarm td"
  defines "wakeup \<equiv> timer_next_wakeup (timer_queue td)"
  obtains t' where "arm_next_wakeup T now td = Some (td\<lparr>current_alarm := wakeup, td_timer := t'\<rparr>)" "valid t'"
    "tm_is_running T t'" "due t' \<le> (unat wakeup - unat now) * rate div 1000000"
proof -
  define sleep where "sleep = (if now \<le> wakeup then wakeup - now else 0)"
  let ?d = "min sleep (push_bit 52 1 - 1)"
  have "unat sleep = unat wakeup - unat now"
    unfolding sleep_def by (auto simp: word_le_nat_alt unat_sub_small)
  with timeout_bound(2) [of sleep] have le: "unat ?d \<le> unat wakeup - unat now" by (simp only: word_le_nat_alt)
  from arm_loop_ok [OF assms(1) timeout_bound(1), of sleep] obtain t' where
    t': "arm_loop T ?d (td_timer td) = Some t'" "valid t'" "tm_is_running T t'" "due t' \<le> unat ?d * rate div 1000000" by blast
  have "arm_next_wakeup T now td = Some (td\<lparr>current_alarm := wakeup, td_timer := t'\<rparr>)"
    using assms(2) t'(1) by (simp only: arm_next_wakeup_def Let_def flip: wakeup_def sleep_def) simp
  moreover have "due t' \<le> (unat wakeup - unat now) * rate div 1000000"
    using t'(4) div_le_mono [OF mult_le_mono1 [OF le, of rate], of 1000000] by linarith
  ultimately show thesis using that t'(2,3) by blast
qed

lemma arm_next_wakeup_total:
  assumes "valid (td_timer td)"
  obtains td' where "arm_next_wakeup T now td = Some td'" "valid (td_timer td')" "timer_queue td' = timer_queue td"
    "current_alarm td' = timer_next_wakeup (timer_queue td)"
proof (cases "timer_next_wakeup (timer_queue td) = current_alarm td")
  case True
  then show thesis using assms by (intro that [of td]) (simp_all add: arm_next_wakeup_def)
next
  case False
  show thesis
  proof (rule arm_next_wakeup_ok [OF assms False, of now])
    fix t' assume "arm_next_wakeup T now td = Some (td\<lparr>current_alarm := timer_next_wakeup (timer_queue td), td_timer := t'\<rparr>)" "valid t'"
    then show thesis
      by (intro that [of "td\<lparr>current_alarm := timer_next_wakeup (timer_queue td), td_timer := t'\<rparr>"]) simp_all
  qed
qed

lemma rearm_total:
  assumes "valid (td_timer td)"
  obtains td' where "rearm T now td = Some td'" "valid (td_timer td')" "timer_queue td' = timer_queue td"
    "current_alarm td' = timer_next_wakeup (timer_queue td)"
proof (rule arm_next_wakeup_total [of "td\<lparr>current_alarm := U64_MAX\<rparr>" now])
  fix td' assume "arm_next_wakeup T now (td\<lparr>current_alarm := U64_MAX\<rparr>) = Some td'" "valid (td_timer td')"
    "timer_queue td' = timer_queue (td\<lparr>current_alarm := U64_MAX\<rparr>)"
    "current_alarm td' = timer_next_wakeup (timer_queue (td\<lparr>current_alarm := U64_MAX\<rparr>))"
  then show thesis by (intro that [of td']) (simp_all add: rearm_def)
qed (use assms in simp)

end

section \<open>Putting a task to sleep\<close>

lemma timer_relinks_wakeup:
  assumes "relinks timer_element X h h'"
  shows "relinks timer_element X (h(t := (h t)\<lparr>wakeup_at := a\<rparr>)) (h'(t := (h' t)\<lparr>wakeup_at := a\<rparr>))"
proof -
  have "\<exists>n b. (h'(t := (h' t)\<lparr>wakeup_at := a\<rparr>)) y =
      el_set_next timer_element n (el_mark_in_queue timer_element b ((h(t := (h t)\<lparr>wakeup_at := a\<rparr>)) y))" for y
  proof -
    from assms obtain n b where "h' y = el_set_next timer_element n (el_mark_in_queue timer_element b (h y))"
      unfolding relinks_def by blast
    then show ?thesis by (intro exI [of _ n] exI [of _ b]) (auto simp: element_defs)
  qed
  with assms show ?thesis by (simp add: relinks_def)
qed

lemma schedule_wakeup_ok:
  assumes inv: "timer_inv h (timer_queue td) ts" and t: "task_state (h t) = Ready" "t \<notin> set ts"
  obtains slept td' h' where "schedule_wakeup dbg now t at td h = Some (slept, td', h')" "slept \<longleftrightarrow> now < at \<or> at = U64_MAX"
    "td_timer td' = td_timer td" "current_alarm td' = current_alarm td"
    "timer_inv h' (timer_queue td') (if slept \<and> at \<noteq> U64_MAX then ts @ [t] else ts)"
    "time_slice_target (timer_queue td') = time_slice_target (timer_queue td)"
    "relinks timer_element UNIV (h(t := (h t)\<lparr>task_state := (if slept then Sleeping else Ready),
        wakeup_at := (if slept \<and> at \<noteq> U64_MAX then at else wakeup_at (h t))\<rparr>)) h'"
proof -
  consider (forever) "at = U64_MAX" | (past) "at \<noteq> U64_MAX" "at \<le> now" | (future) "at \<noteq> U64_MAX" "now < at" by fastforce
  then show thesis
  proof cases
    case forever
    have "timer_inv (set_state t Sleeping h) (timer_queue td) ts"
      by (rule timer_inv_same [OF inv]) (simp add: same_timer_def set_state_def)
    moreover have "(h t)\<lparr>task_state := Sleeping, wakeup_at := wakeup_at (h t)\<rparr> = (h t)\<lparr>task_state := Sleeping\<rparr>" by simp
    ultimately show thesis using forever t timer_link.relinks_refl
      by (intro that [of True td "set_state t Sleeping h"]) (simp_all add: schedule_wakeup_def set_state_def)
  next
    case past
    have "h(t := (h t)\<lparr>task_state := Ready, wakeup_at := wakeup_at (h t)\<rparr>) = h" using t(1) by (auto simp: fun_eq_iff)
    then show thesis using past t inv timer_link.relinks_refl
      by (intro that [of False td h]) (simp_all add: schedule_wakeup_def not_less)
  next
    case future
    let ?h = "set_state t Sleeping h"
    have q: "queue_rel timer_element ?h (tq_queue (timer_queue td)) ts"
      using inv queue_rel_cong [of ts timer_element ?h h] by (simp add: timer_inv_def timer_rel_def set_state_def)
    have u: "unlinked timer_element (?h t)" using inv t(2) by (simp add: timer_inv_def set_state_def)
    from timer_link.queue_push_ok [OF q t(2) u, of dbg] obtain q1 h1 where
      push: "queue_push dbg timer_element (tq_queue (timer_queue td)) t ?h = Some (q1, h1)" "queue_rel timer_element h1 q1 (ts @ [t])"
        "relinks timer_element (insert t (set ts)) ?h h1" .
    let ?h2 = "h1(t := (h1 t)\<lparr>wakeup_at := at\<rparr>)"
    let ?tq = "(timer_queue td)\<lparr>tq_queue := q1, tq_next_wakeup := min (tq_next_wakeup (timer_queue td)) at\<rparr>"
    have q2: "queue_rel timer_element ?h2 q1 (ts @ [t])"
      using push(2) queue_rel_cong [of "ts @ [t]" timer_element ?h2 h1] by simp
    have w: "wakeup_at (?h2 y) = (if y = t then at else wakeup_at (h y))" for y
      using timer_relinks(5) [OF push(3), of y] by (simp add: set_state_def)
    have "tq_next_wakeup ?tq \<le> wakeup_at (?h2 y)" if "y \<in> set (ts @ [t])" for y
      unfolding w using that inv by (auto simp: timer_inv_def timer_rel_def min_le_iff_disj)
    moreover have "unlinked timer_element (?h2 y)" if "y \<notin> set (ts @ [t])" for y
      using that inv relinks_outside [OF push(3), of y] by (simp add: timer_inv_def set_state_def)
    ultimately have "timer_inv ?h2 ?tq (ts @ [t])" using q2 by (simp add: timer_inv_def timer_rel_def)
    moreover have "relinks timer_element UNIV (h(t := (h t)\<lparr>task_state := Sleeping, wakeup_at := at\<rparr>)) ?h2"
      using timer_relinks_wakeup [OF relinks_mono [OF push(3) subset_UNIV], of t at] by (simp add: set_state_def)
    ultimately show thesis using future t(1) push(1)
      by (intro that [of True "td\<lparr>timer_queue := ?tq\<rparr>" ?h2]) (simp_all add: schedule_wakeup_def timer_push_def not_le)
  qed
qed

end
