(* ===== verification/Scheduler.thy ===== *)
theory Scheduler
  imports Timer_Queue
begin

text \<open>
  \<open>esp-rtos/src/scheduler.rs\<close> for a build with two CPUs, with the parts of \<open>task/mod.rs\<close>,
  \<open>wait_queue.rs\<close>, \<open>thread.rs\<close> and \<open>lib.rs\<close> that work on the scheduler state. The record \<open>Kernel\<close> holds
  \<open>SchedulerState\<close> with the memory the scheduler works on: the tasks, the wait queues and the thread
  blocks by address, the thread pointer register of each CPU and the context switches that were
  requested. Every operation runs in the critical section of the scheduler, so it is one step of the
  system; \<open>None\<close> is a panic.
\<close>

section \<open>State\<close>

text \<open>The build configuration.\<close>

record Config =
  debug_assertions :: bool
  sw_task_overflow_detection :: bool
  stack_pointer_range_check :: bool
  tick_rate :: u32

text \<open>
  What a thread shares with its join handle. The task of a thread is the first field of its
  bookkeeping, so a thread and its task have the same address. \<open>join_queue\<close> is the address of the
  wait queue in the block. Of the payload only what it holds is kept.
\<close>

datatype Payload = NoPayload | Closure | ReturnValue

record ThreadInner =
  has_result :: bool
  detached :: bool
  released :: bool
  on_heap :: bool
  join_queue :: nat
  payload :: Payload
  payload_addr :: nat

text \<open>
  \<open>stack_words_at\<close> holds the stack guard words, \<open>freed\<close> the blocks returned to the allocator.
  \<open>pending\<close> marks the CPUs whose context switch interrupt is raised. A CPU that raised its own takes it
  as soon as it leaves the critical section, before thread code continues; \<open>yielded\<close> marks that.
\<close>

record 't Kernel =
  tasks :: heap
  wait_queues :: "nat \<Rightarrow> WaitQueue"
  threads :: "nat \<Rightarrow> ThreadInner option"
  freed :: "nat list"
  stack_words_at :: "nat \<Rightarrow> u32"
  all_tasks :: TaskList
  run_queue :: RunQueue
  time_driver :: "'t TimeDriver option"
  current_task :: "Cpu \<Rightarrow> TaskPtr option"
  to_delete :: "Cpu \<Rightarrow> TaskList"
  idle :: "Cpu \<Rightarrow> bool"
  idle_sp :: "Cpu \<Rightarrow> nat"
  main_task :: "Cpu \<Rightarrow> TaskPtr"
  active_cores :: ActiveCores
  thread_pointer :: "Cpu \<Rightarrow> TaskPtr option"
  pending :: "Cpu \<Rightarrow> bool"
  yielded :: "Cpu \<Rightarrow> bool"

definition contains :: "ActiveCores \<Rightarrow> Cpu \<Rightarrow> bool" where
  "contains cores cpu = (case cores of SingleCore c \<Rightarrow> c = cpu | AllCores \<Rightarrow> True)"

definition is_smp :: "ActiveCores \<Rightarrow> bool" where
  "is_smp cores \<longleftrightarrow> cores = AllCores"

text \<open>
  \<open>SchedulerState::new\<close>. \<open>mains\<close> are the addresses of the statically allocated main tasks. Memory that holds no
  task yet is filled with the initial main task; it is overwritten before it is used.
\<close>

definition main_task_new :: Task where
  "main_task_new =
     \<lparr>task_state = Ready, stack_bottom = 0, stack_words = 0, saved_sp = 0, stack_guard = 0, stack_guard_value = 0, priority = 0,
      pinned_to = None, wakeup_at = 0, in_run_or_wait_queue = False, timer_queued = False, current_wait_queue = None,
      alloc_list_item = None, ready_queue_item = None, timer_queue_item = None, delete_list_item = None, thread = None\<rparr>"

definition scheduler_new :: "(Cpu \<Rightarrow> TaskPtr) \<Rightarrow> (nat \<Rightarrow> u32) \<Rightarrow> 't Kernel" where
  "scheduler_new mains words =
     \<lparr>tasks = (\<lambda>_. main_task_new), wait_queues = (\<lambda>_. wait_new), threads = (\<lambda>_. None), freed = [], stack_words_at = words,
      all_tasks = list_new, run_queue = rq_new, time_driver = None, current_task = (\<lambda>_. None), to_delete = (\<lambda>_. list_new),
      idle = (\<lambda>_. False), idle_sp = (\<lambda>_. 0), main_task = mains, active_cores = SingleCore ProCpu, thread_pointer = (\<lambda>_. None),
      pending = (\<lambda>_. False), yielded = (\<lambda>_. False)\<rparr>"

section \<open>Requesting a context switch\<close>

definition request_context_switch :: "Cpu \<Rightarrow> 't Kernel \<Rightarrow> 't Kernel" where
  "request_context_switch cpu k = k\<lparr>pending := (pending k)(cpu := True)\<rparr>"

definition trigger_scheduler :: "RunSchedulerOn \<Rightarrow> 't Kernel \<Rightarrow> 't Kernel" where
  "trigger_scheduler r k = (case r of DontRun \<Rightarrow> k | RunOnCore core \<Rightarrow> request_context_switch core k)"

definition schedule_other_core :: "Cpu \<Rightarrow> 't Kernel \<Rightarrow> 't Kernel" where
  "schedule_other_core cpu k = request_context_switch (other_cpu cpu) k"

definition yield_task :: "Cpu \<Rightarrow> 't Kernel \<Rightarrow> 't Kernel" where
  "yield_task cpu k = request_context_switch cpu (k\<lparr>yielded := (yielded k)(cpu := True)\<rparr>)"

section \<open>Waking and sleeping\<close>

text \<open>\<open>RunQueue::mark_task_ready\<close> on the run queue of the kernel.\<close>

definition kernel_mark_ready :: "Config \<Rightarrow> TaskPtr \<Rightarrow> 't Kernel \<Rightarrow> (RunSchedulerOn \<times> 't Kernel) option" where
  "kernel_mark_ready cfg task k =
     Option.bind (mark_task_ready (debug_assertions cfg) (current_task k) (active_cores k) task (wait_queues k) (run_queue k) (tasks k))
       (\<lambda>(r, wqs, rq, h). Some (r, k\<lparr>wait_queues := wqs, run_queue := rq, tasks := h\<rparr>))"

definition resume_task :: "Config \<Rightarrow> TaskPtr \<Rightarrow> 't Kernel \<Rightarrow> 't Kernel option" where
  "resume_task cfg task k =
     Option.bind (time_driver k) (\<lambda>td.
     Option.bind (timer_remove (debug_assertions cfg) (timer_queue td) task (tasks k)) (\<lambda>(tq, h).
     Option.bind (kernel_mark_ready cfg task (k\<lparr>time_driver := Some (td\<lparr>timer_queue := tq\<rparr>), tasks := h\<rparr>)) (\<lambda>(r, k').
     Some (trigger_scheduler r k'))))"

definition sleep_task_until :: "Config \<Rightarrow> u64 \<Rightarrow> TaskPtr \<Rightarrow> u64 \<Rightarrow> 't Kernel \<Rightarrow> (bool \<times> 't Kernel) option" where
  "sleep_task_until cfg now task at k =
     Option.bind (time_driver k) (\<lambda>td.
     Option.bind (schedule_wakeup (debug_assertions cfg) now task at td (tasks k)) (\<lambda>(slept, td', h).
     Some (slept, k\<lparr>time_driver := Some td', tasks := h\<rparr>)))"

text \<open>\<open>Scheduler::sleep_until\<close>, called by the current task of \<open>cpu\<close>.\<close>

definition sleep_until :: "Config \<Rightarrow> Cpu \<Rightarrow> u64 \<Rightarrow> u64 \<Rightarrow> 't Kernel \<Rightarrow> (bool \<times> 't Kernel) option" where
  "sleep_until cfg cpu now wake_at k =
     Option.bind (thread_pointer k cpu) (\<lambda>current.
     Option.bind (sleep_task_until cfg now current wake_at k) (\<lambda>(slept, k').
     Some (slept, if slept then yield_task cpu k' else k')))"

partial_function (option) notify :: "Config \<Rightarrow> nat \<Rightarrow> 't Kernel \<Rightarrow> 't Kernel option" where
  "notify cfg wq k = (case list_pop TaskReadyQueueElement (waiting_tasks (wait_queues k wq)) (tasks k) of
      (None, l, h) \<Rightarrow> Some (k\<lparr>wait_queues := (wait_queues k)(wq := \<lparr>waiting_tasks = l\<rparr>), tasks := h\<rparr>)
    | (Some task, l, h) \<Rightarrow>
        Option.bind (resume_task cfg task (k\<lparr>wait_queues := (wait_queues k)(wq := \<lparr>waiting_tasks = l\<rparr>), tasks := h\<rparr>))
          (\<lambda>k'. notify cfg wq k'))"

definition wait_with_deadline :: "Config \<Rightarrow> Cpu \<Rightarrow> u64 \<Rightarrow> nat \<Rightarrow> u64 \<Rightarrow> 't Kernel \<Rightarrow> 't Kernel option" where
  "wait_with_deadline cfg cpu now wq deadline k =
     Option.bind (thread_pointer k cpu) (\<lambda>task.
     Option.bind (sleep_task_until cfg now task deadline k) (\<lambda>(slept, k1).
     if slept then
       Option.bind (list_push (debug_assertions cfg) TaskReadyQueueElement (waiting_tasks (wait_queues k1 wq)) task (tasks k1))
         (\<lambda>(l, h). Some (yield_task cpu (k1\<lparr>wait_queues := (wait_queues k1)(wq := \<lparr>waiting_tasks = l\<rparr>),
            tasks := h(task := (h task)\<lparr>current_wait_queue := Some wq\<rparr>)\<rparr>)))
     else Some k1))"

section \<open>Deleting tasks\<close>

text \<open>
  \<open>ThreadPtr::destroy\<close> drops the wait queue, which must be empty then. \<open>deallocate\<close> returns the
  block, that starts where the stack does, to the allocator.
\<close>

definition destroy :: "Config \<Rightarrow> nat \<Rightarrow> 't Kernel \<Rightarrow> 't Kernel option" where
  "destroy cfg th k =
     Option.bind (threads k th) (\<lambda>inner.
     if debug_assertions cfg \<and> \<not> list_is_empty (waiting_tasks (wait_queues k (join_queue inner))) then None
     else Some (k\<lparr>threads := (threads k)(th := None)\<rparr>))"

definition deallocate :: "nat \<Rightarrow> bool \<Rightarrow> 't Kernel \<Rightarrow> 't Kernel" where
  "deallocate base from_heap k = (if from_heap then k\<lparr>freed := base # freed k\<rparr> else k)"

definition free :: "Config \<Rightarrow> nat \<Rightarrow> 't Kernel \<Rightarrow> 't Kernel option" where
  "free cfg th k =
     Option.bind (threads k th) (\<lambda>inner.
     let base = stack_bottom (tasks k th) in
     Option.bind (destroy cfg th k) (\<lambda>k'. Some (deallocate base (on_heap inner) k')))"

definition release :: "Config \<Rightarrow> nat \<Rightarrow> 't Kernel \<Rightarrow> 't Kernel option" where
  "release cfg th k =
     Option.bind (threads k th) (\<lambda>inner.
     let k1 = k\<lparr>threads := (threads k)(th \<mapsto> inner\<lparr>released := True\<rparr>)\<rparr> in
     if detached inner then free cfg th k1 else notify cfg (join_queue inner) k1)"

definition ensure_no_stack_overflow :: "Config \<Rightarrow> 't Kernel \<Rightarrow> TaskPtr \<Rightarrow> nat \<Rightarrow> bool" where
  "ensure_no_stack_overflow cfg k task sp \<longleftrightarrow>
     (sw_task_overflow_detection cfg \<longrightarrow> stack_words_at k (stack_guard (tasks k task)) = stack_guard_value (tasks k task)) \<and>
     (stack_pointer_range_check cfg \<longrightarrow> owns_stack_pointer (tasks k task) sp)"

definition delete_task :: "Config \<Rightarrow> TaskPtr \<Rightarrow> 't Kernel \<Rightarrow> 't Kernel option" where
  "delete_task cfg task k =
    (if \<not> ensure_no_stack_overflow cfg k task (saved_sp (tasks k task)) then None
     else Option.bind (thread (tasks k task)) (\<lambda>th. release cfg th k))"

partial_function (option) delete_marked_loop ::
  "Config \<Rightarrow> Cpu \<Rightarrow> nat \<Rightarrow> TaskPtr option \<Rightarrow> 't Kernel \<Rightarrow> (TaskPtr option \<times> 't Kernel) option"
where
  "delete_marked_loop cfg cpu sp in_use k = (case list_pop TaskDeleteListElement (to_delete k cpu) (tasks k) of
      (None, l, h) \<Rightarrow> Some (in_use, k\<lparr>to_delete := (to_delete k)(cpu := l), tasks := h\<rparr>)
    | (Some task, l, h) \<Rightarrow>
        let k1 = k\<lparr>to_delete := (to_delete k)(cpu := l), tasks := h\<rparr> in
        if task_state (h task) \<noteq> Deleted then None
        else if owns_stack_pointer (h task) sp then delete_marked_loop cfg cpu sp (Some task) k1
        else Option.bind (delete_task cfg task k1) (\<lambda>k2. delete_marked_loop cfg cpu sp in_use k2))"

definition delete_marked_tasks :: "Config \<Rightarrow> Cpu \<Rightarrow> nat \<Rightarrow> 't Kernel \<Rightarrow> 't Kernel option" where
  "delete_marked_tasks cfg cpu sp k =
     Option.bind (delete_marked_loop cfg cpu sp None k) (\<lambda>(in_use, k1). case in_use of
         None \<Rightarrow> Some k1
       | Some task \<Rightarrow>
           Option.bind (list_push (debug_assertions cfg) TaskDeleteListElement (to_delete k1 cpu) task (tasks k1)) (\<lambda>(l, h).
           Some (trigger_scheduler (RunOnCore cpu) (k1\<lparr>to_delete := (to_delete k1)(cpu := l), tasks := h\<rparr>))))"

section \<open>The scheduler run\<close>

text \<open>
  The parts of \<open>run_scheduler\<close> in the order in which it executes them. \<open>sp\<close> is the stack pointer it
  reads, \<open>isp\<close> the one of the interrupted context that the context switch saves. Neither the watchpoint
  nor the registers other than the stack pointer and the thread pointer are modelled.
\<close>

definition stack_owner :: "Cpu \<Rightarrow> 't Kernel \<Rightarrow> TaskPtr option" where
  "stack_owner cpu k = (case thread_pointer k cpu of
      Some task \<Rightarrow> Some task
    | None \<Rightarrow> if idle k cpu then Some (main_task k cpu) else None)"

definition check_stack :: "Config \<Rightarrow> Cpu \<Rightarrow> nat \<Rightarrow> 't Kernel \<Rightarrow> bool" where
  "check_stack cfg cpu sp k = (case stack_owner cpu k of None \<Rightarrow> True | Some task \<Rightarrow> ensure_no_stack_overflow cfg k task sp)"

definition requeue_current :: "Config \<Rightarrow> Cpu \<Rightarrow> 't Kernel \<Rightarrow> 't Kernel option" where
  "requeue_current cfg cpu k = (case thread_pointer k cpu of
      Some task \<Rightarrow>
        if task_state (tasks k task) = Ready then map_option snd (kernel_mark_ready cfg task k) else Some k
    | None \<Rightarrow> Some k)"

text \<open>
  A task that is switched out but still ready is offered to the other CPU: at once when that one
  idles or runs a less important task, at the end of a time slice when it runs an equally important one.
\<close>

definition offer_to_peer :: "Cpu \<Rightarrow> TaskPtr option \<Rightarrow> 't Kernel \<Rightarrow> bool \<times> 't Kernel" where
  "offer_to_peer cpu other_task k = (case thread_pointer k cpu of
      None \<Rightarrow> (False, k)
    | Some current \<Rightarrow>
        if is_smp (active_cores k) \<and> task_state (tasks k current) = Ready \<and> pinned_to (tasks k current) = None then
          let peer_priority = priority_of_task (tasks k) other_task in
          if other_task = None \<or> priority (tasks k current) > peer_priority then (False, schedule_other_core cpu k)
          else if priority (tasks k current) = peer_priority then (True, k)
          else (False, k)
        else (False, k))"

definition idle_stack :: "Cpu \<Rightarrow> nat \<Rightarrow> 't Kernel \<Rightarrow> nat" where
  "idle_stack cpu sp k =
    (if thread_pointer k cpu = Some (main_task k cpu) then sp else saved_sp (tasks k (main_task k cpu)))"

definition task_switch :: "Cpu \<Rightarrow> nat \<Rightarrow> TaskPtr option \<Rightarrow> 't Kernel \<Rightarrow> 't Kernel" where
  "task_switch cpu isp next_task k =
    (let h = (case thread_pointer k cpu of None \<Rightarrow> tasks k | Some c \<Rightarrow> (tasks k)(c := (tasks k c)\<lparr>saved_sp := isp\<rparr>))
     in k\<lparr>tasks := h, thread_pointer := (thread_pointer k)(cpu := next_task)\<rparr>)"

text \<open>The branch of \<open>run_scheduler\<close> that switches; it answers whether to arm the two time slices.\<close>

definition switch_to :: "Cpu \<Rightarrow> nat \<Rightarrow> nat \<Rightarrow> TaskPtr option \<Rightarrow> TaskPtr option \<Rightarrow> 't Kernel \<Rightarrow> bool \<times> bool \<times> 't Kernel" where
  "switch_to cpu sp isp other_task next_task k =
    (case offer_to_peer cpu other_task k of (arm_peer, k1) \<Rightarrow>
     let arm_slice = (case next_task of
           Some t \<Rightarrow> \<not> is_level_empty (run_queue k1) (priority (tasks k1 t))
         | None \<Rightarrow> False);
         k2 = (if next_task = None then k1\<lparr>idle_sp := (idle_sp k1)(cpu := idle_stack cpu sp k1)\<rparr> else k1);
         k3 = task_switch cpu isp next_task (k2\<lparr>idle := (idle k2)(cpu := (next_task = None))\<rparr>)
     in (arm_slice, arm_peer, k3\<lparr>current_task := (current_task k3)(cpu := next_task)\<rparr>))"

definition update_alarm :: "Config \<Rightarrow> 't Timer \<Rightarrow> Cpu \<Rightarrow> u64 \<Rightarrow> bool \<Rightarrow> bool \<Rightarrow> 't Kernel \<Rightarrow> 't Kernel option" where
  "update_alarm cfg T cpu now arm_slice arm_peer k =
     Option.bind (time_driver k) (\<lambda>td.
     let td1 = set_time_slice (tick_rate cfg) cpu now arm_slice td;
         td2 = (if arm_peer then ensure_time_slice (tick_rate cfg) (other_cpu cpu) now td1 else td1)
     in Option.bind (arm_next_wakeup T now td2) (\<lambda>td3. Some (k\<lparr>time_driver := Some td3\<rparr>)))"

text \<open>What follows the deletion of the marked tasks.\<close>

definition reschedule :: "Config \<Rightarrow> 't Timer \<Rightarrow> Cpu \<Rightarrow> nat \<Rightarrow> nat \<Rightarrow> u64 \<Rightarrow> 't Kernel \<Rightarrow> 't Kernel option" where
  "reschedule cfg T cpu sp isp now k =
    (let deleted_self = (thread_pointer k cpu = None \<and> \<not> idle k cpu) in
     if \<not> check_stack cfg cpu sp k then None
     else
       Option.bind (requeue_current cfg cpu k) (\<lambda>k1.
       let other_task = current_task k1 (other_cpu cpu) in
       Option.bind (pop_multi_core (debug_assertions cfg) cpu other_task (run_queue k1) (tasks k1)) (\<lambda>(next_task, rq, h).
       let k2 = k1\<lparr>run_queue := rq, tasks := h\<rparr>;
           (arm_slice, arm_peer, k3) =
             (if next_task \<noteq> thread_pointer k2 cpu \<or> deleted_self then switch_to cpu sp isp other_task next_task k2
              else (False, False, k2))
       in update_alarm cfg T cpu now arm_slice arm_peer k3)))"

definition run_scheduler :: "Config \<Rightarrow> 't Timer \<Rightarrow> Cpu \<Rightarrow> nat \<Rightarrow> nat \<Rightarrow> u64 \<Rightarrow> 't Kernel \<Rightarrow> 't Kernel option" where
  "run_scheduler cfg T cpu sp isp now k =
     Option.bind (if list_is_empty (to_delete k cpu) then Some k else delete_marked_tasks cfg cpu sp k)
       (reschedule cfg T cpu sp isp now)"

text \<open>The context switch interrupt: it is acknowledged, then the scheduler runs.\<close>

definition switch_task :: "Config \<Rightarrow> 't Timer \<Rightarrow> Cpu \<Rightarrow> nat \<Rightarrow> nat \<Rightarrow> u64 \<Rightarrow> 't Kernel \<Rightarrow> 't Kernel option" where
  "switch_task cfg T cpu sp isp now k =
     run_scheduler cfg T cpu sp isp now (k\<lparr>pending := (pending k)(cpu := False), yielded := (yielded k)(cpu := False)\<rparr>)"

section \<open>Task management\<close>

definition scheduler_setup :: "'t Timer \<Rightarrow> Cpu \<Rightarrow> 't \<Rightarrow> 't Kernel \<Rightarrow> 't Kernel option" where
  "scheduler_setup T cpu timer k =
    (if time_driver k \<noteq> None then None
     else Some (k\<lparr>time_driver := Some (td_new T timer), active_cores := SingleCore cpu\<rparr>))"

definition register_task :: "Config \<Rightarrow> TaskPtr \<Rightarrow> 't Kernel \<Rightarrow> 't Kernel option" where
  "register_task cfg task k =
    (if (case pinned_to (tasks k task) of Some cpu \<Rightarrow> \<not> contains (active_cores k) cpu | None \<Rightarrow> False) then None
     else
       Option.bind (list_push (debug_assertions cfg) TaskAllocListElement (all_tasks k) task (tasks k)) (\<lambda>(l, h).
       Option.bind (kernel_mark_ready cfg task (k\<lparr>all_tasks := l, tasks := h\<rparr>)) (\<lambda>(r, k').
       Some (trigger_scheduler r k'))))"

definition is_main_task :: "'t Kernel \<Rightarrow> TaskPtr \<Rightarrow> bool" where
  "is_main_task k task = list_ex (\<lambda>cpu. task = main_task k cpu) all_cpus"

definition other_cpu_running :: "Cpu \<Rightarrow> 't Kernel \<Rightarrow> TaskPtr \<Rightarrow> Cpu option" where
  "other_cpu_running current_cpu k task = find (\<lambda>cpu. cpu \<noteq> current_cpu \<and> current_task k cpu = Some task) all_cpus"

definition mark_for_deletion :: "Config \<Rightarrow> Cpu \<Rightarrow> TaskPtr \<Rightarrow> 't Kernel \<Rightarrow> 't Kernel option" where
  "mark_for_deletion cfg cpu task k =
    (if task_state (tasks k task) \<noteq> Deleted then
       Option.bind (list_push (debug_assertions cfg) TaskDeleteListElement (to_delete k cpu) task (tasks k)) (\<lambda>(l, h).
       Some (k\<lparr>to_delete := (to_delete k)(cpu := l), tasks := set_state task Deleted h\<rparr>))
     else Some k)"

text \<open>The last step of \<open>remove_from_all_queues\<close> and the three lists before it.\<close>

definition leave_ready_or_wait_queue :: "Config \<Rightarrow> TaskPtr \<Rightarrow> 't Kernel \<Rightarrow> 't Kernel option" where
  "leave_ready_or_wait_queue cfg task k = (case current_wait_queue (tasks k task) of
      Some wq \<Rightarrow>
        Option.bind (wait_remove (debug_assertions cfg) (wait_queues k wq) task
            ((tasks k)(task := (tasks k task)\<lparr>current_wait_queue := None\<rparr>))) (\<lambda>(q, h).
        Some (k\<lparr>wait_queues := (wait_queues k)(wq := q), tasks := h\<rparr>))
    | None \<Rightarrow>
        Option.bind (rq_remove (debug_assertions cfg) (run_queue k) task (tasks k)) (\<lambda>(rq, h).
        Some (k\<lparr>run_queue := rq, tasks := h\<rparr>)))"

definition remove_from_all_queues :: "Config \<Rightarrow> TaskPtr \<Rightarrow> 't Kernel \<Rightarrow> 't Kernel option" where
  "remove_from_all_queues cfg task k =
     Option.bind (list_remove (debug_assertions cfg) TaskAllocListElement (all_tasks k) task (tasks k)) (\<lambda>(l, h1).
     Option.bind (time_driver k) (\<lambda>td.
     Option.bind (timer_remove (debug_assertions cfg) (timer_queue td) task h1) (\<lambda>(tq, h2).
     leave_ready_or_wait_queue cfg task
       (k\<lparr>all_tasks := l, time_driver := Some (td\<lparr>timer_queue := tq\<rparr>), tasks := h2\<rparr>))))"

definition schedule_task_deletion :: "Config \<Rightarrow> Cpu \<Rightarrow> TaskPtr option \<Rightarrow> 't Kernel \<Rightarrow> (bool \<times> 't Kernel) option" where
  "schedule_task_deletion cfg cpu target k =
     Option.bind (thread_pointer k cpu) (\<lambda>current.
     let task = (case target of Some t \<Rightarrow> t | None \<Rightarrow> current) in
     if is_main_task k task then None
     else
       Option.bind (remove_from_all_queues cfg task k) (\<lambda>k1.
       if task = current then
         Option.bind (mark_for_deletion cfg cpu task k1) (\<lambda>k2.
         Some (True, k2\<lparr>thread_pointer := (thread_pointer k2)(cpu := None)\<rparr>))
       else case other_cpu_running cpu k1 task of
           Some c \<Rightarrow> Option.bind (mark_for_deletion cfg c task k1) (\<lambda>k2. Some (False, schedule_other_core cpu k2))
         | None \<Rightarrow> Option.bind (delete_task cfg task k1) (\<lambda>k2. Some (False, k2))))"

definition set_priority :: "Config \<Rightarrow> TaskPtr \<Rightarrow> nat \<Rightarrow> 't Kernel \<Rightarrow> 't Kernel option" where
  "set_priority cfg task new_priority k =
    (let in_run_queue = (in_run_or_wait_queue (tasks k task) \<and> current_wait_queue (tasks k task) = None) in
     Option.bind (if in_run_queue
         then Option.bind (rq_remove (debug_assertions cfg) (run_queue k) task (tasks k)) (\<lambda>(rq, h). Some (k\<lparr>run_queue := rq, tasks := h\<rparr>))
         else Some k) (\<lambda>k1.
     let k2 = k1\<lparr>tasks := (tasks k1)(task := (tasks k1 task)\<lparr>priority := new_priority\<rparr>)\<rparr>
     in if in_run_queue then resume_task cfg task k2 else Some k2))"

text \<open>\<open>CurrentThreadHandle::set_priority\<close>, called by the current task of \<open>cpu\<close>.\<close>

definition set_current_priority :: "Config \<Rightarrow> Cpu \<Rightarrow> nat \<Rightarrow> 't Kernel \<Rightarrow> 't Kernel option" where
  "set_current_priority cfg cpu p k =
     Option.bind (thread_pointer k cpu) (\<lambda>task.
     let old = priority (tasks k task); new = priority_new p in
     Option.bind (set_priority cfg task new k) (\<lambda>k'. Some (if old > new then yield_task cpu k' else k')))"

text \<open>
  \<open>task_priority\<close> and \<open>set_task_priority\<close> of \<open>esp_radio/mod.rs\<close>, called by the semaphores of
  \<open>esp-radio-rtos-driver\<close>.
\<close>

definition task_priority :: "TaskPtr \<Rightarrow> 't Kernel \<Rightarrow> u32" where
  "task_priority task k = word_of_nat (priority (tasks k task))"

definition set_task_priority :: "Config \<Rightarrow> TaskPtr \<Rightarrow> u32 \<Rightarrow> 't Kernel \<Rightarrow> 't Kernel option" where
  "set_task_priority cfg task p k = set_priority cfg task (priority_new (unat p)) k"

definition cpu_idle :: "'t Kernel \<Rightarrow> Cpu \<Rightarrow> bool" where
  "cpu_idle k cpu = (if contains (active_cores k) cpu then idle k cpu else cpu \<noteq> ProCpu)"

definition can_sleep :: "bool \<Rightarrow> Cpu \<Rightarrow> 't Kernel \<Rightarrow> bool" where
  "can_sleep wake_lock cpu k \<longleftrightarrow> \<not> wake_lock \<and> \<not> has_ready_tasks (run_queue k) \<and> cpu_idle k cpu"

section \<open>Starting the scheduler\<close>

definition set_up_stack_guard :: "Config \<Rightarrow> TaskPtr \<Rightarrow> nat \<Rightarrow> u32 \<Rightarrow> 't Kernel \<Rightarrow> 't Kernel" where
  "set_up_stack_guard cfg task offset value k =
    (let guard = stack_bottom (tasks k task) + offset;
         k1 = (if sw_task_overflow_detection cfg
           then k\<lparr>stack_words_at := (stack_words_at k)(guard := value),
              tasks := (tasks k)(task := (tasks k task)\<lparr>stack_guard_value := value\<rparr>)\<rparr>
           else k)
     in k1\<lparr>tasks := (tasks k1)(task := (tasks k1 task)\<lparr>stack_guard := guard\<rparr>)\<rparr>)"

definition allocate_main_task :: "Config \<Rightarrow> Cpu \<Rightarrow> nat \<Rightarrow> nat \<Rightarrow> nat \<Rightarrow> u32 \<Rightarrow> 't Kernel \<Rightarrow> 't Kernel option" where
  "allocate_main_task cfg cpu bottom words guard_offset guard_value k =
    (let m = main_task k cpu;
         k1 = k\<lparr>tasks := (tasks k)(m := (tasks k m)\<lparr>priority := 0, task_state := Ready, stack_bottom := bottom, stack_words := words,
            in_run_or_wait_queue := False, timer_queued := False, pinned_to := Some cpu\<rparr>)\<rparr>;
         k2 = set_up_stack_guard cfg m guard_offset guard_value k1;
         k3 = k2\<lparr>thread_pointer := (thread_pointer k2)(cpu := Some m)\<rparr>
     in Option.bind (list_push (debug_assertions cfg) TaskAllocListElement (all_tasks k3) m (tasks k3)) (\<lambda>(l, h).
        let k4 = k3\<lparr>all_tasks := l, tasks := h, current_task := (current_task k3)(cpu := Some m)\<rparr>
        in map_option snd (kernel_mark_ready cfg m k4)))"

text \<open>
  \<open>start_with_idle_hook\<close> on the first CPU, and what \<open>start_second_core\<close> and \<open>start_on_second_core_only\<close>
  run on the second one, whose stack guard keeps the word found in its place. The stack of the main
  task comes from the linker script or from the caller.
\<close>

definition start_first_core ::
  "Config \<Rightarrow> 't Timer \<Rightarrow> Cpu \<Rightarrow> 't \<Rightarrow> nat \<Rightarrow> nat \<Rightarrow> nat \<Rightarrow> u32 \<Rightarrow> 't Kernel \<Rightarrow> 't Kernel option"
where
  "start_first_core cfg T cpu timer bottom words guard_offset guard_value k =
    (if cpu \<noteq> ProCpu then None
     else
       Option.bind (scheduler_setup T cpu timer k) (\<lambda>k1.
       Option.bind (allocate_main_task cfg cpu bottom words guard_offset guard_value k1) (\<lambda>k2. Some (yield_task cpu k2))))"

definition start_second_core :: "Config \<Rightarrow> nat \<Rightarrow> nat \<Rightarrow> nat \<Rightarrow> 't Kernel \<Rightarrow> 't Kernel option" where
  "start_second_core cfg bottom words guard_offset k =
    (if active_cores k \<noteq> SingleCore ProCpu \<or> time_driver k = None then None
     else
       Option.bind (allocate_main_task cfg AppCpu bottom words guard_offset (stack_words_at k (bottom + guard_offset))
           (k\<lparr>active_cores := AllCores\<rparr>))
         (\<lambda>k1. Some (yield_task AppCpu k1)))"

definition start_on_second_core_only :: "Config \<Rightarrow> 't Timer \<Rightarrow> 't \<Rightarrow> nat \<Rightarrow> nat \<Rightarrow> nat \<Rightarrow> 't Kernel \<Rightarrow> 't Kernel option" where
  "start_on_second_core_only cfg T timer bottom words guard_offset k =
     Option.bind (scheduler_setup T AppCpu timer k) (\<lambda>k1.
     Option.bind (allocate_main_task cfg AppCpu bottom words guard_offset (stack_words_at k (bottom + guard_offset)) k1)
       (\<lambda>k2. Some (yield_task AppCpu k2)))"

definition rearm_alarm :: "'t Timer \<Rightarrow> u64 \<Rightarrow> 't Kernel \<Rightarrow> 't Kernel option" where
  "rearm_alarm T now k = (case time_driver k of
      None \<Rightarrow> Some k
    | Some td \<Rightarrow> Option.bind (rearm T now td) (\<lambda>td'. Some (k\<lparr>time_driver := Some td'\<rparr>)))"

section \<open>The timer interrupt\<close>

text \<open>
  The closure that makes an expired task ready. It works on the wait queues, the run queue and the
  requested context switches.
\<close>

definition tick_ready ::
  "Config \<Rightarrow> (Cpu \<Rightarrow> TaskPtr option) \<Rightarrow> ActiveCores \<Rightarrow> TaskPtr \<Rightarrow>
     (nat \<Rightarrow> WaitQueue) \<times> RunQueue \<times> (Cpu \<Rightarrow> bool) \<Rightarrow> heap \<Rightarrow> (((nat \<Rightarrow> WaitQueue) \<times> RunQueue \<times> (Cpu \<Rightarrow> bool)) \<times> heap) option"
where
  "tick_ready cfg current active task s h = (case s of (wqs, rq, pend) \<Rightarrow>
     if debug_assertions cfg \<and> task_state (h task) \<noteq> Sleeping then None
     else Option.bind (mark_task_ready (debug_assertions cfg) current active task wqs rq h) (\<lambda>(r, wqs', rq', h').
       Some ((wqs', rq', (case r of DontRun \<Rightarrow> pend | RunOnCore core \<Rightarrow> pend(core := True))), h')))"

definition expire_time_slices :: "Config \<Rightarrow> u64 \<Rightarrow> 't TimeDriver \<times> 't Kernel \<Rightarrow> 't TimeDriver \<times> 't Kernel" where
  "expire_time_slices cfg now = fold (\<lambda>cpu (td, k).
     if contains (active_cores k) cpu \<and> time_slice_target (timer_queue td) cpu \<le> now
     then (set_time_slice (tick_rate cfg) cpu now False td, trigger_scheduler (RunOnCore cpu) k) else (td, k)) all_cpus"

text \<open>
  \<open>embassy\<close> is the next wakeup of the embassy timer queue, if that feature is on; the wakers that its
  queue calls before are separate steps.
\<close>

definition timer_tick_handler :: "Config \<Rightarrow> 't Timer \<Rightarrow> u64 \<Rightarrow> u64 option \<Rightarrow> 't Kernel \<Rightarrow> 't Kernel option" where
  "timer_tick_handler cfg T now embassy k =
     Option.bind (time_driver k) (\<lambda>td.
     let td0 = td\<lparr>td_timer := tm_clear_interrupt T (td_timer td)\<rparr> in
     Option.bind (handle_alarm (debug_assertions cfg) now (tick_ready cfg (current_task k) (active_cores k)) td0
         (wait_queues k, run_queue k, pending k) (tasks k)) (\<lambda>(td1, (wqs, rq, pend), h).
     let k1 = k\<lparr>wait_queues := wqs, run_queue := rq, pending := pend, tasks := h\<rparr>;
         td2 = (case embassy of None \<Rightarrow> td1
           | Some w \<Rightarrow> td1\<lparr>timer_queue := signal_next_embassy_wakeup w (timer_queue td1)\<rparr>);
         (td3, k2) = expire_time_slices cfg now (td2, k1)
     in Option.bind (rearm T now td3) (\<lambda>td4. Some (k2\<lparr>time_driver := Some td4\<rparr>))))"

end
