(* ===== verification/Scheduler_View.thy ===== *)
theory Scheduler_View
  imports Scheduler
begin

text \<open>
  The abstract state of the scheduler: the ready tasks of every level in order, and the sets of tasks
  that wait, sleep, are allocated or are about to be deleted. \<open>kernel_inv\<close> relates it to the linked lists
  of the kernel. The lemmas lift every list operation of the scheduler to an operation on this state.
\<close>

section \<open>The abstract state\<close>

record View =
  v_ready :: "nat \<Rightarrow> TaskPtr list"
  v_wait :: "nat \<Rightarrow> TaskPtr set"
  v_timer :: "TaskPtr set"
  v_all :: "TaskPtr set"
  v_del :: "Cpu \<Rightarrow> TaskPtr set"

definition enqueue :: "nat \<Rightarrow> TaskPtr \<Rightarrow> (nat \<Rightarrow> TaskPtr list) \<Rightarrow> nat \<Rightarrow> TaskPtr list" where
  "enqueue p t f = f(p := (if t \<in> set (f p) then f p else f p @ [t]))"

definition ready_set :: "(nat \<Rightarrow> TaskPtr list) \<Rightarrow> TaskPtr set" where
  "ready_set f = (\<Union>p. set (f p))"

text \<open>
  \<open>picks C f next_task f'\<close>: \<open>next_task\<close> is the first task that satisfies \<open>C\<close> in the highest level that has
  one, and \<open>f'\<close> is what remains.
\<close>

definition picks :: "(TaskPtr \<Rightarrow> bool) \<Rightarrow> (nat \<Rightarrow> TaskPtr list) \<Rightarrow> TaskPtr option \<Rightarrow> (nat \<Rightarrow> TaskPtr list) \<Rightarrow> bool" where
  "picks C f next_task f' \<longleftrightarrow>
     (next_task = None \<and> f' = f \<and> (\<forall>p. \<forall>t\<in>set (f p). \<not> C t)) \<or>
     (\<exists>p t. next_task = Some t \<and> find C (f p) = Some t \<and> (\<forall>p'>p. \<forall>t\<in>set (f p'). \<not> C t) \<and> f' = f(p := remove_first C (f p)))"

text \<open>A task without its list links.\<close>

definition core :: "Task \<Rightarrow> Task" where
  "core t = t\<lparr>in_run_or_wait_queue := False, timer_queued := False, current_wait_queue := None, alloc_list_item := None,
     ready_queue_item := None, timer_queue_item := None, delete_list_item := None\<rparr>"

lemma core_fields [simp]:
  "task_state (core t) = task_state t" "priority (core t) = priority t" "pinned_to (core t) = pinned_to t"
  "wakeup_at (core t) = wakeup_at t" "thread (core t) = thread t" "stack_bottom (core t) = stack_bottom t"
  "stack_words (core t) = stack_words t" "saved_sp (core t) = saved_sp t" "stack_guard (core t) = stack_guard t"
  "stack_guard_value (core t) = stack_guard_value t"
  by (simp_all add: core_def)

lemma core_eqD:
  assumes "core t' = core t"
  shows "task_state t' = task_state t" "priority t' = priority t" "pinned_to t' = pinned_to t" "wakeup_at t' = wakeup_at t"
    "thread t' = thread t" "stack_bottom t' = stack_bottom t" "stack_words t' = stack_words t" "saved_sp t' = saved_sp t"
    "stack_guard t' = stack_guard t" "stack_guard_value t' = stack_guard_value t"
  using assms by (metis core_fields)+

lemma core_updates [simp]:
  "core (t\<lparr>in_run_or_wait_queue := b\<rparr>) = core t" "core (t\<lparr>timer_queued := b\<rparr>) = core t"
  "core (t\<lparr>current_wait_queue := i\<rparr>) = core t" "core (t\<lparr>alloc_list_item := p\<rparr>) = core t"
  "core (t\<lparr>ready_queue_item := p\<rparr>) = core t" "core (t\<lparr>timer_queue_item := p\<rparr>) = core t"
  "core (t\<lparr>delete_list_item := p\<rparr>) = core t" "core (t\<lparr>task_state := s\<rparr>) = (core t)\<lparr>task_state := s\<rparr>"
  "core (t\<lparr>priority := n\<rparr>) = (core t)\<lparr>priority := n\<rparr>" "core (t\<lparr>wakeup_at := w\<rparr>) = (core t)\<lparr>wakeup_at := w\<rparr>"
  "core (t\<lparr>saved_sp := n\<rparr>) = (core t)\<lparr>saved_sp := n\<rparr>"
  by (simp_all add: core_def)

lemma core_relinks: "relinks E X h h' \<Longrightarrow> E \<in> {TaskReadyQueueElement, TaskTimerQueueElement, TaskAllocListElement, TaskDeleteListElement}
    \<Longrightarrow> core (h' y) = core (h y)"
  by (erule relinks_field) (auto simp: element_defs)

section \<open>The parts of the invariant\<close>

abbreviation alloc_element :: TaskListElement where
  "alloc_element \<equiv> TaskAllocListElement"

abbreviation delete_element :: TaskListElement where
  "delete_element \<equiv> TaskDeleteListElement"

lemma plain_element_simps [simp]:
  "el_next alloc_element t = alloc_list_item t" "el_is_in_queue alloc_element t = None"
  "unlinked alloc_element t \<longleftrightarrow> alloc_list_item t = None"
  "el_next delete_element t = delete_list_item t" "el_is_in_queue delete_element t = None"
  "unlinked delete_element t \<longleftrightarrow> delete_list_item t = None"
  by (simp_all add: element_defs unlinked_def)

definition ready_part :: "heap \<Rightarrow> (nat \<Rightarrow> WaitQueue) \<Rightarrow> RunQueue \<Rightarrow> (nat \<Rightarrow> TaskPtr list) \<Rightarrow> (nat \<Rightarrow> TaskPtr set) \<Rightarrow> bool" where
  "ready_part h wqs rq f W \<longleftrightarrow> (\<exists>w. ready_inv h wqs rq f w \<and> (\<forall>i. set (w i) = W i))"

definition timer_part :: "heap \<Rightarrow> 't TimeDriver option \<Rightarrow> TaskPtr set \<Rightarrow> bool" where
  "timer_part h d S = (case d of
      None \<Rightarrow> S = {} \<and> (\<forall>t. unlinked timer_element (h t))
    | Some td \<Rightarrow> \<exists>ts. timer_inv h (timer_queue td) ts \<and> set ts = S)"

definition alloc_part :: "heap \<Rightarrow> TaskList \<Rightarrow> TaskPtr set \<Rightarrow> bool" where
  "alloc_part h l S \<longleftrightarrow> (\<exists>xs. list_rel alloc_element h l xs \<and> set xs = S) \<and> (\<forall>t. t \<notin> S \<longrightarrow> unlinked alloc_element (h t))"

definition delete_part :: "heap \<Rightarrow> (Cpu \<Rightarrow> TaskList) \<Rightarrow> (Cpu \<Rightarrow> TaskPtr set) \<Rightarrow> bool" where
  "delete_part h l S \<longleftrightarrow> (\<forall>c. \<exists>xs. list_rel delete_element h (l c) xs \<and> set xs = S c) \<and> S ProCpu \<inter> S AppCpu = {} \<and>
     (\<forall>t. (\<forall>c. t \<notin> S c) \<longrightarrow> unlinked delete_element (h t))"

text \<open>Each part depends on its own link only.\<close>

definition same_alloc :: "Task \<Rightarrow> Task \<Rightarrow> bool" where
  "same_alloc t t' \<longleftrightarrow> alloc_list_item t' = alloc_list_item t"

definition same_delete :: "Task \<Rightarrow> Task \<Rightarrow> bool" where
  "same_delete t t' \<longleftrightarrow> delete_list_item t' = delete_list_item t"

lemmas same_defs = same_ready_def same_timer_def same_alloc_def same_delete_def

lemma ready_part_same: "ready_part h wqs rq f W \<Longrightarrow> (\<And>y. same_ready (h y) (h' y)) \<Longrightarrow> ready_part h' wqs rq f W"
  unfolding ready_part_def using ready_inv_same by blast

lemma timer_part_same: "timer_part h d S \<Longrightarrow> (\<And>y. same_timer (h y) (h' y)) \<Longrightarrow> timer_part h' d S"
  unfolding timer_part_def using timer_inv_same [of h _ _ h'] by (cases d) (auto simp: same_timer_def)

lemma alloc_part_same: "alloc_part h l S \<Longrightarrow> (\<And>y. same_alloc (h y) (h' y)) \<Longrightarrow> alloc_part h' l S"
  unfolding alloc_part_def using list_rel_cong [of _ alloc_element h' h] by (fastforce simp: same_alloc_def)

lemma delete_part_same: "delete_part h l S \<Longrightarrow> (\<And>y. same_delete (h y) (h' y)) \<Longrightarrow> delete_part h' l S"
  unfolding delete_part_def using list_rel_cong [of _ delete_element h' h] by (fastforce simp: same_delete_def)

lemma relinks_same:
  "relinks ready_element X h h' \<Longrightarrow> same_timer (h y) (h' y) \<and> same_alloc (h y) (h' y) \<and> same_delete (h y) (h' y)"
  "relinks timer_element X h h' \<Longrightarrow> same_ready (h y) (h' y) \<and> same_alloc (h y) (h' y) \<and> same_delete (h y) (h' y)"
  "relinks alloc_element X h h' \<Longrightarrow> same_ready (h y) (h' y) \<and> same_timer (h y) (h' y) \<and> same_delete (h y) (h' y)"
  "relinks delete_element X h h' \<Longrightarrow> same_ready (h y) (h' y) \<and> same_timer (h y) (h' y) \<and> same_alloc (h y) (h' y)"
  unfolding same_defs by (intro conjI; rule relinks_field, assumption, simp add: element_defs)+

section \<open>Operations on the ready queues and the wait queues\<close>

lemma ready_part_facts:
  assumes "ready_part h wqs rq f W"
  shows "t \<in> set (f p) \<Longrightarrow> priority (h t) = p" "t \<in> set (f p) \<Longrightarrow> current_wait_queue (h t) = None" "t \<in> W i \<Longrightarrow> current_wait_queue (h t) = Some i"
    "t \<in> set (f p) \<Longrightarrow> p \<le> 31" "distinct (f p)" "in_run_or_wait_queue (h t) \<longleftrightarrow> t \<in> ready_set f \<or> (\<exists>i. t \<in> W i)"
proof -
  from assms obtain w where inv: "ready_inv h wqs rq f w" and W: "\<And>i. set (w i) = W i" by (auto simp: ready_part_def)
  show "t \<in> set (f p) \<Longrightarrow> priority (h t) = p" "t \<in> set (f p) \<Longrightarrow> current_wait_queue (h t) = None"
    "t \<in> W i \<Longrightarrow> current_wait_queue (h t) = Some i"
    using inv W [of i] by (auto simp: ready_inv_def rq_rel_def waits_rel_def)
  have le: "p \<le> 31" if "t \<in> set (f p)" for t p
  proof (rule ccontr)
    assume "\<not> p \<le> 31"
    then have "f p = []" using inv by (simp add: ready_inv_def rq_rel_def)
    with that show False by simp
  qed
  then show "t \<in> set (f p) \<Longrightarrow> p \<le> 31" .
  show "distinct (f p)"
    using inv by (cases "p \<le> 31") (auto simp: ready_inv_def rq_rel_def queue_rel_def)
  have "in_run_or_wait_queue (h t)" if "t \<in> set (f p)" for p
    using inv that le [OF that] by (auto simp: ready_inv_def rq_rel_def queue_rel_def)
  moreover have "in_run_or_wait_queue (h t)" if "t \<in> W i" for i
    using inv that W [of i] by (auto simp: ready_inv_def waits_rel_def list_rel_def)
  moreover have "\<not> in_run_or_wait_queue (h t)" if "\<And>p. t \<notin> set (f p)" "\<And>i. t \<notin> W i"
    using inv that W by (auto simp: ready_inv_def)
  ultimately show "in_run_or_wait_queue (h t) \<longleftrightarrow> t \<in> ready_set f \<or> (\<exists>i. t \<in> W i)" by (auto simp: ready_set_def)
qed

lemma mark_ready_part:
  assumes "ready_part h wqs rq f W" "priority (h t) \<le> 31"
  obtains r wqs' rq' h' where "mark_task_ready dbg current active t wqs rq h = Some (r, wqs', rq', h')"
    "ready_part h' wqs' rq' (enqueue (priority (h t)) t f) (\<lambda>i. W i - {t})"
    "relinks ready_element UNIV (h(t := (h t)\<lparr>task_state := Ready, current_wait_queue := None\<rparr>)) h'"
proof -
  from assms(1) obtain w where inv: "ready_inv h wqs rq f w" and W: "\<And>i. set (w i) = W i" by (auto simp: ready_part_def)
  show thesis
  proof (rule mark_task_ready_ok [OF inv assms(2), of dbg current active])
    fix r wqs' rq' h' w'
    assume m: "mark_task_ready dbg current active t wqs rq h = Some (r, wqs', rq', h')"
      "ready_inv h' wqs' rq' (f(priority (h t) :=
          (if t \<in> set (f (priority (h t))) then f (priority (h t)) else f (priority (h t)) @ [t]))) w'"
      "\<And>i. set (w' i) = set (w i) - {t}"
      "relinks ready_element UNIV (h(t := (h t)\<lparr>task_state := Ready, current_wait_queue := None\<rparr>)) h'"
    have "ready_part h' wqs' rq' (enqueue (priority (h t)) t f) (\<lambda>i. W i - {t})"
      unfolding ready_part_def enqueue_def using m(2,3) W by (intro exI [of _ w']) simp
    with m(1,4) show thesis by (intro that)
  qed
qed

lemma pop_part:
  assumes "ready_part h wqs rq f W"
  obtains next_task f' rq' h' where "pop_multi_core dbg cpu other_task rq h = Some (next_task, rq', h')"
    "picks (\<lambda>t. pinned_to (h t) \<noteq> Some (other_cpu cpu) \<and> Some t \<noteq> other_task) f next_task f'"
    "ready_part h' wqs rq' f' W" "relinks ready_element UNIV h h'"
proof -
  from assms obtain w where inv: "ready_inv h wqs rq f w" and W: "\<And>i. set (w i) = W i" by (auto simp: ready_part_def)
  let ?c = "can_run (other_cpu cpu) other_task" and ?S = "{p. f p \<noteq> []}"
  let ?C = "\<lambda>t. ?c t (h t)"
  have mp: "mp_rel (ready_priority rq) ?S" using inv by (simp add: ready_inv_def rq_rel_def)
  obtain p rq' h' where loop:
    "pop_level_loop dbg ?c (ready_priority rq) (mp_ready (ready_priority rq)) rq h = Some (find ?C (f p), p, rq', h')"
    "ready_inv h' wqs (unmark_if_empty p rq') (f(p := remove_first ?C (f p))) w"
    "\<forall>p'>p. find ?C (f p') = None" "find ?C (f p) = None \<longrightarrow> (\<forall>p'. find ?C (f p') = None)" "relinks ready_element UNIV h h'"
    using pop_level_loop_ok [OF inv mp _ can_run_link_blind, of "other_cpu cpu" other_task dbg] by auto
  have none: "find ?C (f q) = None \<longleftrightarrow> (\<forall>t\<in>set (f q). \<not> ?C t)" for q by (auto simp: find_None_iff)
  have "picks ?C f (find ?C (f p)) (f(p := remove_first ?C (f p)))"
  proof (cases "find ?C (f p)")
    case None
    then have "remove_first ?C (f p) = f p" by (rule remove_first_none)
    with None loop(4) show ?thesis by (simp add: picks_def none)
  next
    case (Some t)
    with loop(3) show ?thesis unfolding picks_def none by auto
  qed
  moreover have "ready_part h' wqs (unmark_if_empty p rq') (f(p := remove_first ?C (f p))) W"
    unfolding ready_part_def using loop(2) W by blast
  moreover have "pop_multi_core dbg cpu other_task rq h = Some (find ?C (f p), unmark_if_empty p rq', h')"
    using loop(1) by (simp add: pop_multi_core_def)
  moreover have "?C = (\<lambda>t. pinned_to (h t) \<noteq> Some (other_cpu cpu) \<and> Some t \<noteq> other_task)" by (simp add: can_run_def fun_eq_iff)
  ultimately show thesis using that loop(5) by simp
qed

lemma rq_remove_part:
  assumes "ready_part h wqs rq f W" "current_wait_queue (h t) = None" "priority (h t) \<le> 31"
  obtains rq' h' where "rq_remove dbg rq t h = Some (rq', h')"
    "ready_part h' wqs rq' (f(priority (h t) := remove1 t (f (priority (h t))))) W" "relinks ready_element UNIV h h'"
proof -
  from assms(1) obtain w where inv: "ready_inv h wqs rq f w" and W: "\<And>i. set (w i) = W i" by (auto simp: ready_part_def)
  show thesis
  proof (rule rq_remove_ok [OF inv assms(2,3), of dbg])
    fix rq' h' assume "rq_remove dbg rq t h = Some (rq', h')" "relinks ready_element UNIV h h'"
      "ready_inv h' wqs rq' (f(priority (h t) := remove1 t (f (priority (h t))))) w"
    then show thesis using W by (intro that) (auto simp: ready_part_def)
  qed
qed

lemma take_wait_part:
  assumes "ready_part h wqs rq f W"
  obtains wqs' h' where "take_from_wait_queue dbg t wqs h = Some (wqs', h')" "ready_part h' wqs' rq f (\<lambda>i. W i - {t})"
    "relinks ready_element UNIV (h(t := (h t)\<lparr>current_wait_queue := None\<rparr>)) h'"
proof -
  from assms(1) obtain w where inv: "ready_inv h wqs rq f w" and W: "\<And>i. set (w i) = W i" by (auto simp: ready_part_def)
  show thesis
  proof (rule take_from_wait_queue_ok [OF inv, of dbg t])
    fix wqs' h' w' assume *: "take_from_wait_queue dbg t wqs h = Some (wqs', h')" "ready_inv h' wqs' rq f w'"
      "\<And>i. set (w' i) = set (w i) - {t}" "relinks ready_element UNIV (h(t := (h t)\<lparr>current_wait_queue := None\<rparr>)) h'"
    then have "ready_part h' wqs' rq f (\<lambda>i. W i - {t})" unfolding ready_part_def using W by (intro exI [of _ w']) simp
    with *(1,4) show thesis by (intro that)
  qed
qed

text \<open>Pushing an unqueued task to a wait queue and popping the first task of one.\<close>

lemma ready_inv_wait:
  assumes inv: "ready_inv h wqs rq f w" and rel: "relinks ready_element {t} h h'" and t: "\<And>p. t \<notin> set (f p)" "\<And>j. j \<noteq> i \<Longrightarrow> t \<notin> set (w j)"
    and l: "list_rel ready_element h' l xs" and xs: "set xs - {t} = set (w i) - {t}"
    and cwq: "t \<in> set xs \<Longrightarrow> c = Some i" and out: "t \<notin> set xs \<Longrightarrow> unlinked ready_element (h' t)"
  shows "ready_inv (h'(t := (h' t)\<lparr>current_wait_queue := c\<rparr>)) (wqs(i := \<lparr>waiting_tasks = l\<rparr>)) rq f (w(i := xs))"
proof -
  let ?h = "h'(t := (h' t)\<lparr>current_wait_queue := c\<rparr>)"
  have cong: "queue_rel ready_element ?h q ys = queue_rel ready_element h' q ys"
    "list_rel ready_element ?h l ys = list_rel ready_element h' l ys" for q l ys
    by (rule queue_rel_cong list_rel_cong; simp)+
  have same: "?h y = h y" if "y \<noteq> t" for y using relinks_outside [OF rel, of y] that by simp
  have "queue_rel ready_element ?h (ready_tasks rq ! p) (f p)" if "p \<le> 31" for p
    unfolding cong using inv that t(1) by (intro queue_rel_frame [OF _ rel]) (auto simp: ready_inv_def rq_rel_def)
  moreover have "priority (?h y) = p \<and> current_wait_queue (?h y) = None" if "y \<in> set (f p)" for y p
  proof -
    have "y \<noteq> t" using that t(1) by blast
    then show ?thesis unfolding same [OF \<open>y \<noteq> t\<close>] using inv that by (simp add: ready_inv_def rq_rel_def)
  qed
  ultimately have "rq_rel ?h rq f" using inv unfolding ready_inv_def rq_rel_def by blast
  moreover have "list_rel ready_element ?h (waiting_tasks ((wqs(i := \<lparr>waiting_tasks = l\<rparr>)) j)) ((w(i := xs)) j)" for j
  proof (cases "j = i")
    case False
    have "list_rel ready_element h' (waiting_tasks (wqs j)) (w j)"
      using inv t(2) [OF False] by (intro list_rel_frame [OF _ rel]) (auto simp: ready_inv_def waits_rel_def)
    with False show ?thesis unfolding cong by simp
  qed (use l cong in simp)
  moreover have "current_wait_queue (?h y) = Some j" if "y \<in> set ((w(i := xs)) j)" for y j
  proof (cases "y = t")
    case True
    then show ?thesis using that t(2) [of j] cwq by (cases "j = i") auto
  next
    case False
    with that xs have "y \<in> set (w j)" by (auto split: if_splits)
    then show ?thesis unfolding same [OF False] using inv by (simp add: ready_inv_def waits_rel_def)
  qed
  ultimately have "rq_rel ?h rq f" "waits_rel ?h (wqs(i := \<lparr>waiting_tasks = l\<rparr>)) (w(i := xs))" unfolding waits_rel_def by blast+
  moreover have "unlinked ready_element (?h y)" if y: "\<forall>p. y \<notin> set (f p)" "\<forall>j. y \<notin> set ((w(i := xs)) j)" for y
  proof (cases "y = t")
    case True
    with y(2) [rule_format, of i] out show ?thesis by simp
  next
    case False
    have "y \<notin> set (w j)" for j using y(2) [rule_format, of j] xs False by (cases "j = i") auto
    then show ?thesis unfolding same [OF False] using y(1) by (intro ready_inv_unlinked [OF inv]) simp_all
  qed
  ultimately show ?thesis by (simp add: ready_inv_def)
qed

lemma wait_push_part:
  assumes "ready_part h wqs rq f W" "t \<notin> ready_set f" "\<And>j. t \<notin> W j"
  obtains l h' where "list_push dbg ready_element (waiting_tasks (wqs i)) t h = Some (l, h')"
    "ready_part (h'(t := (h' t)\<lparr>current_wait_queue := Some i\<rparr>)) (wqs(i := \<lparr>waiting_tasks = l\<rparr>)) rq f (W(i := insert t (W i)))"
    "relinks ready_element {t} h h'"
proof -
  from assms(1) obtain w where inv: "ready_inv h wqs rq f w" and W: "\<And>i. set (w i) = W i" by (auto simp: ready_part_def)
  have t: "\<And>p. t \<notin> set (f p)" "\<And>j. t \<notin> set (w j)" using assms(2,3) W by (auto simp: ready_set_def)
  have l: "list_rel ready_element h (waiting_tasks (wqs i)) (w i)" using inv by (simp add: ready_inv_def waits_rel_def)
  have u: "unlinked ready_element (h t)" using t by (intro ready_inv_unlinked [OF inv])
  from ready_link.list_push_ok [OF l t(2) u, of dbg] obtain l' h' where
    p: "list_push dbg ready_element (waiting_tasks (wqs i)) t h = Some (l', h')" "list_rel ready_element h' l' (t # w i)"
      "relinks ready_element {t} h h'" .
  have "ready_inv (h'(t := (h' t)\<lparr>current_wait_queue := Some i\<rparr>)) (wqs(i := \<lparr>waiting_tasks = l'\<rparr>)) rq f (w(i := t # w i))"
    by (rule ready_inv_wait [OF inv p(3) t(1) _ p(2)]) (use t in auto)
  then have "ready_part (h'(t := (h' t)\<lparr>current_wait_queue := Some i\<rparr>)) (wqs(i := \<lparr>waiting_tasks = l'\<rparr>)) rq f (W(i := insert t (W i)))"
    unfolding ready_part_def using W by (intro exI [of _ "w(i := t # w i)"]) auto
  with p(1,3) show thesis by (intro that)
qed

lemma wait_pop_part:
  assumes "ready_part h wqs rq f W"
  obtains (empty) l where "list_pop ready_element (waiting_tasks (wqs i)) h = (None, l, h)" "W i = {}" "wqs(i := \<lparr>waiting_tasks = l\<rparr>) = wqs"
  | (task) t l h' where "list_pop ready_element (waiting_tasks (wqs i)) h = (Some t, l, h')" "t \<in> W i"
      "ready_part h' (wqs(i := \<lparr>waiting_tasks = l\<rparr>)) rq f (W(i := W i - {t}))" "relinks ready_element {t} h h'"
proof -
  from assms(1) obtain w where inv: "ready_inv h wqs rq f w" and W: "\<And>i. set (w i) = W i" by (auto simp: ready_part_def)
  have l: "list_rel ready_element h (waiting_tasks (wqs i)) (w i)" using inv by (simp add: ready_inv_def waits_rel_def)
  show thesis
  proof (cases "w i")
    case Nil
    have "\<lparr>waiting_tasks = waiting_tasks (wqs i)\<rparr> = wqs i" by simp
    with Nil l W [of i] show thesis by (intro empty) (auto simp: ready_link.list_pop_empty)
  next
    case (Cons t ts)
    from ready_link.list_pop_ok [OF l [unfolded Cons]] obtain l' h' where
      p: "list_pop ready_element (waiting_tasks (wqs i)) h = (Some t, l', h')" "list_rel ready_element h' l' ts"
        "unlinked ready_element (h' t)" "relinks ready_element {t} h h'" .
    have tw: "t \<in> set (w i)" using Cons by simp
    have t: "t \<notin> set ts" "\<And>p. t \<notin> set (f p)" "\<And>j. j \<noteq> i \<Longrightarrow> t \<notin> set (w j)"
      using l Cons tw level_disjoint(2) [OF inv, of _ i] level_disjoint(3) [OF inv, of _ i] by (auto simp: list_rel_def)
    have eq: "h'(t := (h' t)\<lparr>current_wait_queue := current_wait_queue (h' t)\<rparr>) = h'" by simp
    have "ready_inv (h'(t := (h' t)\<lparr>current_wait_queue := current_wait_queue (h' t)\<rparr>)) (wqs(i := \<lparr>waiting_tasks = l'\<rparr>)) rq f (w(i := ts))"
      by (rule ready_inv_wait [OF inv p(4) t(2,3) p(2)]) (use t(1) Cons p(3) in auto)
    then have "ready_part h' (wqs(i := \<lparr>waiting_tasks = l'\<rparr>)) rq f (W(i := W i - {t}))"
      unfolding ready_part_def eq using W [of i] W Cons t(1) by (intro exI [of _ "w(i := ts)"]) auto
    moreover have "t \<in> W i" using W [of i] Cons by auto
    ultimately show thesis using p(1,4) by (intro task)
  qed
qed

section \<open>Operations on the timer queue and the task lists\<close>

lemma timer_remove_part:
  assumes "timer_part h (Some td) S"
  obtains tq h' where "timer_remove dbg (timer_queue td) t h = Some (tq, h')"
    "timer_part h' (Some (td\<lparr>timer_queue := tq\<rparr>)) (S - {t})" "relinks timer_element UNIV h h'"
    "time_slice_target tq = time_slice_target (timer_queue td)"
proof -
  from assms obtain ts where inv: "timer_inv h (timer_queue td) ts" and S: "set ts = S" by (auto simp: timer_part_def)
  have "distinct ts" using inv by (simp add: timer_inv_def timer_rel_def queue_rel_def)
  then have S': "set (remove1 t ts) = S - {t}" using S by simp
  show thesis
  proof (rule timer_remove_ok [OF inv, of dbg t])
    fix tq h' assume r: "timer_remove dbg (timer_queue td) t h = Some (tq, h')" "timer_inv h' tq (remove1 t ts)"
      "relinks timer_element (set ts) h h'" "time_slice_target tq = time_slice_target (timer_queue td)"
    have "timer_part h' (Some (td\<lparr>timer_queue := tq\<rparr>)) (S - {t})"
      unfolding timer_part_def using r(2) S' by auto
    from r(1) this relinks_mono [OF r(3) subset_UNIV] r(4) show thesis by (rule that)
  qed
qed

lemma schedule_wakeup_part:
  assumes "timer_part h (Some td) S" "task_state (h t) = Ready" "t \<notin> S"
  obtains slept td' h' where "schedule_wakeup dbg now t at td h = Some (slept, td', h')" "slept \<longleftrightarrow> now < at \<or> at = U64_MAX"
    "timer_part h' (Some td') (if slept \<and> at \<noteq> U64_MAX then insert t S else S)"
    "td_timer td' = td_timer td"
    "relinks timer_element UNIV (h(t := (h t)\<lparr>task_state := (if slept then Sleeping else Ready),
        wakeup_at := (if slept \<and> at \<noteq> U64_MAX then at else wakeup_at (h t))\<rparr>)) h'"
proof -
  from assms obtain ts where inv: "timer_inv h (timer_queue td) ts" and S: "set ts = S" by (auto simp: timer_part_def)
  have t: "t \<notin> set ts" using assms(3) S by simp
  show thesis
  proof (rule schedule_wakeup_ok [OF inv assms(2) t, of dbg now at])
    fix slept td' h' assume r: "schedule_wakeup dbg now t at td h = Some (slept, td', h')" "slept \<longleftrightarrow> now < at \<or> at = U64_MAX"
      "td_timer td' = td_timer td" "timer_inv h' (timer_queue td') (if slept \<and> at \<noteq> U64_MAX then ts @ [t] else ts)"
      "relinks timer_element UNIV (h(t := (h t)\<lparr>task_state := (if slept then Sleeping else Ready),
        wakeup_at := (if slept \<and> at \<noteq> U64_MAX then at else wakeup_at (h t))\<rparr>)) h'"
    have "timer_part h' (Some td') (if slept \<and> at \<noteq> U64_MAX then insert t S else S)"
      unfolding timer_part_def using r(4) S by (cases "slept \<and> at \<noteq> U64_MAX") auto
    with r show thesis by (intro that)
  qed
qed

lemma alloc_push_part:
  assumes "alloc_part h l S" "t \<notin> S"
  obtains l' h' where "list_push dbg alloc_element l t h = Some (l', h')" "alloc_part h' l' (insert t S)" "relinks alloc_element UNIV h h'"
proof -
  from assms obtain xs where xs: "list_rel alloc_element h l xs" "set xs = S" "unlinked alloc_element (h t)" by (auto simp: alloc_part_def)
  have "t \<notin> set xs" using assms(2) xs(2) by simp
  from alloc_link.list_push_ok [OF xs(1) this xs(3), of dbg] obtain l' h' where
    p: "list_push dbg alloc_element l t h = Some (l', h')" "list_rel alloc_element h' l' (t # xs)" "relinks alloc_element {t} h h'" .
  have "unlinked alloc_element (h' y)" if "y \<notin> insert t S" for y
    using assms(1) that relinks_outside [OF p(3), of y] by (simp add: alloc_part_def)
  then have "alloc_part h' l' (insert t S)" unfolding alloc_part_def using p(2) xs(2) by (auto intro!: exI [of _ "t # xs"])
  from p(1) this relinks_mono [OF p(3) subset_UNIV] show thesis by (rule that)
qed

lemma alloc_remove_part:
  assumes "alloc_part h l S"
  obtains l' h' where "list_remove dbg alloc_element l t h = Some (l', h')" "alloc_part h' l' (S - {t})" "relinks alloc_element UNIV h h'"
proof -
  from assms obtain xs where xs: "list_rel alloc_element h l xs" "set xs = S" by (auto simp: alloc_part_def)
  have u: "t \<notin> set xs \<Longrightarrow> unlinked alloc_element (h t)" using assms xs(2) by (simp add: alloc_part_def)
  show thesis
  proof (rule alloc_link.list_remove_ok [OF xs(1) u, of dbg])
    fix l' h' ys assume r: "list_remove dbg alloc_element l t h = Some (l', h')" "list_rel alloc_element h' l' ys"
      "ys = xs \<and> t \<notin> set xs \<or> ys = rev (remove1 t xs)" "relinks alloc_element (set xs) h h'" "unlinked alloc_element (h' t)"
    have "distinct xs" using xs(1) by (simp add: list_rel_def)
    then have ys: "set ys = S - {t}" using r(3) xs(2) by auto
    have "unlinked alloc_element (h' y)" if "y \<notin> S - {t}" for y
    proof (cases "y = t")
      case False
      then show ?thesis using assms that xs(2) relinks_outside [OF r(4), of y] by (simp add: alloc_part_def)
    qed (use r(5) in simp)
    then have "alloc_part h' l' (S - {t})" unfolding alloc_part_def using r(2) ys by blast
    from r(1) this relinks_mono [OF r(4) subset_UNIV] show thesis by (rule that)
  qed
qed

lemma delete_push_part:
  assumes "delete_part h l S" "\<And>c. t \<notin> S c"
  obtains l' h' where "list_push dbg delete_element (l c) t h = Some (l', h')" "delete_part h' (l(c := l')) (S(c := insert t (S c)))"
    "relinks delete_element UNIV h h'"
proof -
  from assms obtain xs where xs: "list_rel delete_element h (l c) xs" "set xs = S c" "unlinked delete_element (h t)"
    unfolding delete_part_def by blast
  have "t \<notin> set xs" using assms(2) xs(2) by simp
  from delete_link.list_push_ok [OF xs(1) this xs(3), of dbg] obtain l' h' where
    p: "list_push dbg delete_element (l c) t h = Some (l', h')" "list_rel delete_element h' l' (t # xs)" "relinks delete_element {t} h h'" .
  have "unlinked delete_element (h' y)" if "\<forall>d. y \<notin> (S(c := insert t (S c))) d" for y
  proof -
    have "y \<noteq> t" "\<forall>d. y \<notin> S d" using that by (metis fun_upd_apply insertCI)+
    then show ?thesis using assms(1) relinks_outside [OF p(3), of y] by (simp add: delete_part_def)
  qed
  moreover have "\<exists>ys. list_rel delete_element h' ((l(c := l')) d) ys \<and> set ys = (S(c := insert t (S c))) d" for d
  proof (cases "d = c")
    case True
    then show ?thesis using p(2) xs(2) by (auto intro!: exI [of _ "t # xs"])
  next
    case False
    from assms(1) obtain ys where ys: "list_rel delete_element h (l d) ys" "set ys = S d" unfolding delete_part_def by blast
    moreover have "list_rel delete_element h' (l d) ys" using assms(2) ys by (intro list_rel_frame [OF ys(1) p(3)]) simp
    ultimately show ?thesis using False by auto
  qed
  ultimately have "delete_part h' (l(c := l')) (S(c := insert t (S c)))"
    using assms unfolding delete_part_def by (cases c) auto
  from p(1) this relinks_mono [OF p(3) subset_UNIV] show thesis by (rule that)
qed

lemma delete_pop_part:
  assumes "delete_part h l S"
  obtains (empty) l' where "list_pop delete_element (l c) h = (None, l', h)" "S c = {}" "l(c := l') = l"
  | (task) t l' h' where "list_pop delete_element (l c) h = (Some t, l', h')" "t \<in> S c" "delete_part h' (l(c := l')) (S(c := S c - {t}))"
      "relinks delete_element UNIV h h'"
proof -
  from assms obtain xs where xs: "list_rel delete_element h (l c) xs" "set xs = S c" unfolding delete_part_def by blast
  show thesis
  proof (cases xs)
    case Nil
    with xs show thesis by (intro empty [of "l c"]) (auto simp: delete_link.list_pop_empty)
  next
    case (Cons t ts)
    from delete_link.list_pop_ok [OF xs(1) [unfolded Cons]] obtain l' h' where
      p: "list_pop delete_element (l c) h = (Some t, l', h')" "list_rel delete_element h' l' ts" "unlinked delete_element (h' t)"
        "relinks delete_element {t} h h'" .
    have t: "t \<in> S c" "set ts = S c - {t}" "t \<notin> S d \<or> d = c" for d
      using xs Cons assms by (auto simp: list_rel_def delete_part_def) (cases c; cases d; auto)
    have "\<exists>ys. list_rel delete_element h' ((l(c := l')) d) ys \<and> set ys = (S(c := S c - {t})) d" for d
    proof (cases "d = c")
      case False
      from assms obtain ys where ys: "list_rel delete_element h (l d) ys" "set ys = S d" unfolding delete_part_def by blast
      moreover have "list_rel delete_element h' (l d) ys" using t(3) [of d] False ys by (intro list_rel_frame [OF ys(1) p(4)]) simp
      ultimately show ?thesis using False by auto
    qed (use p(2) t(2) in auto)
    moreover have "unlinked delete_element (h' y)" if "\<forall>d. y \<notin> (S(c := S c - {t})) d" for y
    proof (cases "y = t")
      case False
      have "\<forall>d. y \<notin> S d" using that False by (metis Diff_iff fun_upd_apply singletonD)
      then show ?thesis using assms relinks_outside [OF p(4), of y] False by (simp add: delete_part_def)
    qed (use p(3) in simp)
    moreover have "(S(c := S c - {t})) ProCpu \<inter> (S(c := S c - {t})) AppCpu = {}" using assms by (auto simp: delete_part_def)
    ultimately have "delete_part h' (l(c := l')) (S(c := S c - {t}))" unfolding delete_part_def by blast
    from p(1) t(1) this relinks_mono [OF p(4) subset_UNIV] show thesis by (rule task)
  qed
qed

end
