(* ===== verification/Scheduler_Invariant.thy ===== *)
theory Scheduler_Invariant
  imports Scheduler_View
begin

text \<open>
  The invariant of the scheduler and its preservation by every operation. \<open>links_inv\<close> says that the
  linked lists hold what the abstract state says, \<open>policy_inv\<close> what the task states, the current
  tasks and the lists have to do with each other: the tasks of a list are in the matching state, no
  ready task is lost, no two CPUs run the same task, and a CPU whose task sleeps or is queued has a
  context switch on the way.
\<close>

section \<open>The invariant\<close>

definition links_inv :: "'t Kernel \<Rightarrow> View \<Rightarrow> bool" where
  "links_inv k v \<longleftrightarrow> ready_part (tasks k) (wait_queues k) (run_queue k) (v_ready v) (v_wait v) \<and>
     timer_part (tasks k) (time_driver k) (v_timer v) \<and> alloc_part (tasks k) (all_tasks k) (v_all v) \<and>
     delete_part (tasks k) (to_delete k) (v_del v) \<and> (\<forall>t. priority (tasks k t) \<le> 31)"

text \<open>The last clause is required of the CPUs in \<open>C\<close> only: a CPU in its context switch is exempt.\<close>

definition policy_inv :: "Cpu set \<Rightarrow> 't Kernel \<Rightarrow> View \<Rightarrow> bool" where
  "policy_inv C k v \<longleftrightarrow>
     (\<forall>t\<in>ready_set (v_ready v). task_state (tasks k t) = Ready \<and> t \<in> v_all v) \<and>
     (\<forall>i. \<forall>t\<in>v_wait v i. task_state (tasks k t) = Sleeping \<and> t \<in> v_all v) \<and>
     (\<forall>t\<in>v_timer v. task_state (tasks k t) = Sleeping \<and> t \<in> v_all v) \<and>
     (\<forall>c. \<forall>t\<in>v_del v c. task_state (tasks k t) = Deleted) \<and>
     (\<forall>t\<in>v_all v. task_state (tasks k t) \<noteq> Deleted) \<and>
     (\<forall>t\<in>v_all v. task_state (tasks k t) = Ready \<longrightarrow> t \<in> ready_set (v_ready v) \<or> (\<exists>c. current_task k c = Some t)) \<and>
     (\<forall>c t. current_task k c = Some t \<longrightarrow> t \<in> v_all v \<or> task_state (tasks k t) = Deleted) \<and>
     (\<forall>t. current_task k ProCpu = Some t \<longrightarrow> current_task k AppCpu \<noteq> Some t) \<and>
     (\<forall>c. thread_pointer k c \<noteq> current_task k c \<longrightarrow>
        thread_pointer k c = None \<and> (\<forall>t. current_task k c = Some t \<longrightarrow> task_state (tasks k t) = Deleted)) \<and>
     (\<forall>c. idle k c \<longrightarrow> current_task k c = None) \<and>
     (\<forall>c\<in>C. \<forall>t. current_task k c = Some t \<and> (task_state (tasks k t) = Sleeping \<or> t \<in> ready_set (v_ready v)) \<longrightarrow> yielded k c)"

lemma policy_invD:
  assumes "policy_inv C k v"
  shows "t \<in> ready_set (v_ready v) \<Longrightarrow> task_state (tasks k t) = Ready" "t \<in> ready_set (v_ready v) \<Longrightarrow> t \<in> v_all v"
    "t \<in> v_wait v i \<Longrightarrow> task_state (tasks k t) = Sleeping" "t \<in> v_wait v i \<Longrightarrow> t \<in> v_all v"
    "t \<in> v_timer v \<Longrightarrow> task_state (tasks k t) = Sleeping" "t \<in> v_timer v \<Longrightarrow> t \<in> v_all v"
    "t \<in> v_del v c \<Longrightarrow> task_state (tasks k t) = Deleted" "t \<in> v_all v \<Longrightarrow> task_state (tasks k t) \<noteq> Deleted"
    "current_task k c = Some t \<Longrightarrow> t \<in> v_all v \<or> task_state (tasks k t) = Deleted"
    "current_task k c = Some t \<Longrightarrow> current_task k d = Some t \<Longrightarrow> c = d"
    "thread_pointer k c \<noteq> current_task k c \<Longrightarrow> thread_pointer k c = None"
    "thread_pointer k c \<noteq> current_task k c \<Longrightarrow> current_task k c = Some t \<Longrightarrow> task_state (tasks k t) = Deleted"
    "idle k c \<Longrightarrow> current_task k c = None"
    "c \<in> C \<Longrightarrow> current_task k c = Some t \<Longrightarrow> task_state (tasks k t) = Sleeping \<or> t \<in> ready_set (v_ready v) \<Longrightarrow> yielded k c"
    "t \<in> v_all v \<Longrightarrow> task_state (tasks k t) = Ready \<Longrightarrow> t \<in> ready_set (v_ready v) \<or> (\<exists>c. current_task k c = Some t)"
proof -
  note * = assms [unfolded policy_inv_def]
  show "current_task k c = Some t \<Longrightarrow> current_task k d = Some t \<Longrightarrow> c = d" using * by (cases c; cases d; simp)
qed (use assms [unfolded policy_inv_def] in blast)+

lemma policy_invI:
  assumes "\<And>t. t \<in> ready_set (v_ready v) \<Longrightarrow> task_state (tasks k t) = Ready \<and> t \<in> v_all v"
    and "\<And>i t. t \<in> v_wait v i \<Longrightarrow> task_state (tasks k t) = Sleeping \<and> t \<in> v_all v"
    and "\<And>t. t \<in> v_timer v \<Longrightarrow> task_state (tasks k t) = Sleeping \<and> t \<in> v_all v"
    and "\<And>c t. t \<in> v_del v c \<Longrightarrow> task_state (tasks k t) = Deleted"
    and "\<And>t. t \<in> v_all v \<Longrightarrow> task_state (tasks k t) \<noteq> Deleted"
    and "\<And>t. t \<in> v_all v \<Longrightarrow> task_state (tasks k t) = Ready \<Longrightarrow> t \<in> ready_set (v_ready v) \<or> (\<exists>c. current_task k c = Some t)"
    and "\<And>c t. current_task k c = Some t \<Longrightarrow> t \<in> v_all v \<or> task_state (tasks k t) = Deleted"
    and "\<And>t. current_task k ProCpu = Some t \<Longrightarrow> current_task k AppCpu \<noteq> Some t"
    and "\<And>c. thread_pointer k c \<noteq> current_task k c \<Longrightarrow>
      thread_pointer k c = None \<and> (\<forall>t. current_task k c = Some t \<longrightarrow> task_state (tasks k t) = Deleted)"
    and "\<And>c. idle k c \<Longrightarrow> current_task k c = None"
    and "\<And>c t. c \<in> C \<Longrightarrow> current_task k c = Some t \<Longrightarrow> task_state (tasks k t) = Sleeping \<or> t \<in> ready_set (v_ready v) \<Longrightarrow> yielded k c"
  shows "policy_inv C k v"
  unfolding policy_inv_def using assms by blast

definition kernel_inv :: "'t Kernel \<Rightarrow> View \<Rightarrow> bool" where
  "kernel_inv k v \<longleftrightarrow> links_inv k v \<and> policy_inv UNIV k v"

text \<open>What an operation that only moves tasks between lists keeps.\<close>

definition same_cpus :: "'t Kernel \<Rightarrow> 't Kernel \<Rightarrow> bool" where
  "same_cpus k k' \<longleftrightarrow> current_task k' = current_task k \<and> thread_pointer k' = thread_pointer k \<and> idle k' = idle k \<and>
     idle_sp k' = idle_sp k \<and> main_task k' = main_task k \<and> active_cores k' = active_cores k \<and> yielded k' = yielded k \<and>
     stack_words_at k' = stack_words_at k \<and> (\<forall>c. pending k c \<longrightarrow> pending k' c) \<and>
     map_option td_timer (time_driver k') = map_option td_timer (time_driver k)"

definition same_blocks :: "'t Kernel \<Rightarrow> 't Kernel \<Rightarrow> bool" where
  "same_blocks k k' \<longleftrightarrow> threads k' = threads k \<and> freed k' = freed k"

text \<open>The same without the requests for a context switch.\<close>

definition frame :: "'t Kernel \<Rightarrow> 't Kernel \<Rightarrow> bool" where
  "frame k k' \<longleftrightarrow> current_task k' = current_task k \<and> thread_pointer k' = thread_pointer k \<and> idle k' = idle k \<and> main_task k' = main_task k \<and>
     active_cores k' = active_cores k \<and> threads k' = threads k \<and> freed k' = freed k \<and> (\<forall>c. pending k c \<longrightarrow> pending k' c) \<and>
     (\<forall>t. thread (tasks k' t) = thread (tasks k t)) \<and> map_option td_timer (time_driver k') = map_option td_timer (time_driver k)"

lemma frameI: "same_cpus k k' \<Longrightarrow> same_blocks k k' \<Longrightarrow> (\<And>t. thread (tasks k' t) = thread (tasks k t)) \<Longrightarrow> frame k k'"
  by (simp add: frame_def same_cpus_def same_blocks_def)

lemma kernel_frame_trans: "frame k k' \<Longrightarrow> frame k' k'' \<Longrightarrow> frame k k''"
  by (simp add: frame_def)

lemma same_cpus_refl [simp]: "same_cpus k k"
  by (simp add: same_cpus_def)

lemma same_cpus_trans: "same_cpus k k' \<Longrightarrow> same_cpus k' k'' \<Longrightarrow> same_cpus k k''"
  by (simp add: same_cpus_def)

lemma same_blocks_trans: "same_blocks k k' \<Longrightarrow> same_blocks k' k'' \<Longrightarrow> same_blocks k k''"
  by (simp add: same_blocks_def)

lemma trigger_scheduler_simps [simp]:
  "tasks (trigger_scheduler r k) = tasks k" "wait_queues (trigger_scheduler r k) = wait_queues k"
  "run_queue (trigger_scheduler r k) = run_queue k" "time_driver (trigger_scheduler r k) = time_driver k"
  "all_tasks (trigger_scheduler r k) = all_tasks k" "to_delete (trigger_scheduler r k) = to_delete k"
  "same_cpus k (trigger_scheduler r k)" "same_blocks k (trigger_scheduler r k)"
  by (cases r; simp add: trigger_scheduler_def request_context_switch_def same_cpus_def same_blocks_def)+

lemma links_inv_trigger [simp]: "links_inv (trigger_scheduler r k) v = links_inv k v"
  by (simp add: links_inv_def)

lemma policy_inv_cong: "tasks k' = tasks k \<Longrightarrow> same_cpus k k' \<Longrightarrow> policy_inv C k' v = policy_inv C k v"
  by (simp add: policy_inv_def same_cpus_def)

lemma policy_inv_trigger [simp]: "policy_inv C (trigger_scheduler r k) v = policy_inv C k v"
  by (rule policy_inv_cong) simp_all

section \<open>Making a task ready\<close>

abbreviation resumed :: "nat \<Rightarrow> TaskPtr \<Rightarrow> View \<Rightarrow> View" where
  "resumed p t v \<equiv> v\<lparr>v_ready := enqueue p t (v_ready v), v_wait := (\<lambda>i. v_wait v i - {t})\<rparr>"

lemma ready_set_enqueue [simp]: "ready_set (enqueue p t f) = insert t (ready_set f)"
  by (auto simp: ready_set_def enqueue_def split: if_splits)

lemma kernel_mark_ready_links:
  assumes "links_inv k v"
  obtains r k' where "kernel_mark_ready cfg t k = Some (r, k')" "links_inv k' (resumed (priority (tasks k t)) t v)"
    "same_cpus k k'" "same_blocks k k'" "time_driver k' = time_driver k"
    "\<And>y. core (tasks k' y) = (if y = t then (core (tasks k y))\<lparr>task_state := Ready\<rparr> else core (tasks k y))"
proof -
  let ?h = "(tasks k)(t := (tasks k t)\<lparr>task_state := Ready, current_wait_queue := None\<rparr>)"
  from assms have parts: "ready_part (tasks k) (wait_queues k) (run_queue k) (v_ready v) (v_wait v)" "priority (tasks k t) \<le> 31"
    by (simp_all add: links_inv_def)
  show thesis
  proof (rule mark_ready_part [OF parts, of "debug_assertions cfg" "current_task k" "active_cores k"])
    fix r wqs rq h'
    assume m: "mark_task_ready (debug_assertions cfg) (current_task k) (active_cores k) t (wait_queues k) (run_queue k) (tasks k) =
        Some (r, wqs, rq, h')"
      "ready_part h' wqs rq (enqueue (priority (tasks k t)) t (v_ready v)) (\<lambda>i. v_wait v i - {t})"
      "relinks ready_element UNIV ?h h'"
    note same = relinks_same(1) [OF m(3)]
    let ?k = "k\<lparr>wait_queues := wqs, run_queue := rq, tasks := h'\<rparr>"
    have core: "core (h' y) = (if y = t then (core (tasks k y))\<lparr>task_state := Ready\<rparr> else core (tasks k y))" for y
      using core_relinks [OF m(3), of y] by simp
    have "same_timer (tasks k y) (h' y)" "same_alloc (tasks k y) (h' y)" "same_delete (tasks k y) (h' y)" for y
      using same [of y] by (simp_all add: same_defs split: if_splits)
    with assms have "timer_part h' (time_driver k) (v_timer v)" "alloc_part h' (all_tasks k) (v_all v)"
      "delete_part h' (to_delete k) (v_del v)"
      by (auto simp: links_inv_def intro: timer_part_same alloc_part_same delete_part_same)
    moreover have "priority (h' y) = priority (tasks k y)" for y
      using arg_cong [OF core [of y], of priority] by (simp split: if_splits)
    ultimately have "links_inv ?k (resumed (priority (tasks k t)) t v)" using assms m(2) by (simp add: links_inv_def)
    then show thesis using m(1) core
      by (intro that [of r ?k]) (simp_all add: kernel_mark_ready_def same_cpus_def same_blocks_def)
  qed
qed

text \<open>The abstract step: the task enters its level and leaves the wait queue and the timer queue.\<close>

definition woken :: "nat \<Rightarrow> TaskPtr \<Rightarrow> View \<Rightarrow> View" where
  "woken p t v = v\<lparr>v_ready := enqueue p t (v_ready v), v_wait := (\<lambda>i. v_wait v i - {t}), v_timer := v_timer v - {t}\<rparr>"

lemma woken_simps [simp]:
  "v_ready (woken p t v) = enqueue p t (v_ready v)" "v_wait (woken p t v) i = v_wait v i - {t}"
  "v_timer (woken p t v) = v_timer v - {t}" "v_all (woken p t v) = v_all v" "v_del (woken p t v) = v_del v"
  by (simp_all add: woken_def)

lemma resumed_woken: "t \<notin> v_timer v \<Longrightarrow> resumed p t v = woken p t v"
  by (simp add: woken_def)

lemma core_state:
  assumes "\<And>y. core (h' y) = (if y = t then (core (h y))\<lparr>task_state := s\<rparr> else core (h y))"
  shows "task_state (h' y) = (if y = t then s else task_state (h y))" "priority (h' y) = priority (h y)"
  using arg_cong [OF assms [of y], of task_state] arg_cong [OF assms [of y], of priority] by (simp_all split: if_splits)

lemma policy_woken:
  assumes inv: "policy_inv C k v" and t: "t \<in> v_all v" "\<And>c. c \<in> C \<Longrightarrow> current_task k c = Some t \<Longrightarrow> yielded k c"
    and k': "same_cpus k k'" and core: "\<And>y. core (tasks k' y) = (if y = t then (core (tasks k y))\<lparr>task_state := Ready\<rparr> else core (tasks k y))"
  shows "policy_inv C k' (woken p t v)"
proof -
  note st = core_state(1) [OF core]
  have nd: "task_state (tasks k t) \<noteq> Deleted" using inv t(1) by (simp add: policy_inv_def)
  have cpus: "current_task k' = current_task k" "thread_pointer k' = thread_pointer k" "idle k' = idle k" "yielded k' = yielded k"
    using k' by (simp_all add: same_cpus_def)
  show ?thesis unfolding policy_inv_def cpus st woken_simps ready_set_enqueue using inv t nd by (auto simp: policy_inv_def)
qed

lemma resume_task_links:
  assumes inv: "links_inv k v" and td: "time_driver k \<noteq> None"
  obtains k' where "resume_task cfg t k = Some k'" "links_inv k' (woken (priority (tasks k t)) t v)"
    "same_cpus k k'" "same_blocks k k'"
    "\<And>y. core (tasks k' y) = (if y = t then (core (tasks k y))\<lparr>task_state := Ready\<rparr> else core (tasks k y))"
proof -
  from td obtain td where td: "time_driver k = Some td" by auto
  with inv have "timer_part (tasks k) (Some td) (v_timer v)" by (simp add: links_inv_def)
  then show thesis
  proof (rule timer_remove_part [of _ _ _ "debug_assertions cfg" t])
    fix tq h
    assume r: "timer_remove (debug_assertions cfg) (timer_queue td) t (tasks k) = Some (tq, h)"
      "timer_part h (Some (td\<lparr>timer_queue := tq\<rparr>)) (v_timer v - {t})" "relinks timer_element UNIV (tasks k) h"
    let ?k = "k\<lparr>time_driver := Some (td\<lparr>timer_queue := tq\<rparr>), tasks := h\<rparr>" and ?v = "v\<lparr>v_timer := v_timer v - {t}\<rparr>"
    have core: "core (h y) = core (tasks k y)" for y using core_relinks [OF r(3)] by simp
    have "links_inv ?k ?v"
      using inv r(2) core_eqD(2) [OF core] relinks_same(2) [OF r(3)] unfolding links_inv_def
      by (auto intro: ready_part_same alloc_part_same delete_part_same)
    then show thesis
    proof (rule kernel_mark_ready_links [of _ _ cfg t])
      fix w k'
      assume m: "kernel_mark_ready cfg t ?k = Some (w, k')" "links_inv k' (resumed (priority (tasks ?k t)) t ?v)" "same_cpus ?k k'"
        "same_blocks ?k k'" "\<And>y. core (tasks k' y) = (if y = t then (core (tasks ?k y))\<lparr>task_state := Ready\<rparr> else core (tasks ?k y))"
      have "resumed (priority (tasks ?k t)) t ?v = woken (priority (tasks k t)) t v"
        using core_eqD(2) [OF core] by (simp add: woken_def)
      with m(2) have "links_inv (trigger_scheduler w k') (woken (priority (tasks k t)) t v)" by simp
      moreover have "resume_task cfg t k = Some (trigger_scheduler w k')" using td r(1) m(1) by (simp add: resume_task_def)
      moreover have "same_cpus k k'" using m(3) td by (simp add: same_cpus_def)
      then have "same_cpus k (trigger_scheduler w k')" by (rule same_cpus_trans) simp
      moreover have "same_blocks k k'" using m(4) by (simp add: same_blocks_def)
      then have "same_blocks k (trigger_scheduler w k')" by (rule same_blocks_trans) simp
      moreover have "core (tasks (trigger_scheduler w k') y) = (if y = t then (core (tasks k y))\<lparr>task_state := Ready\<rparr> else core (tasks k y))" for y
        using m(5) [of y] core [of y] by (cases "y = t") simp_all
      ultimately show thesis by (intro that)
    qed
  qed
qed

lemma resume_task_inv:
  assumes "links_inv k v" "policy_inv C k v" "time_driver k \<noteq> None" "t \<in> v_all v"
    and "\<And>c. c \<in> C \<Longrightarrow> current_task k c = Some t \<Longrightarrow> yielded k c"
  obtains k' where "resume_task cfg t k = Some k'" "links_inv k' (woken (priority (tasks k t)) t v)"
    "policy_inv C k' (woken (priority (tasks k t)) t v)" "same_cpus k k'" "same_blocks k k'"
    "\<And>y. core (tasks k' y) = (if y = t then (core (tasks k y))\<lparr>task_state := Ready\<rparr> else core (tasks k y))"
proof (rule resume_task_links [OF assms(1,3), of cfg t])
  fix k' assume r: "resume_task cfg t k = Some k'" "links_inv k' (woken (priority (tasks k t)) t v)" "same_cpus k k'" "same_blocks k k'"
    "\<And>y. core (tasks k' y) = (if y = t then (core (tasks k y))\<lparr>task_state := Ready\<rparr> else core (tasks k y))"
  have "policy_inv C k' (woken (priority (tasks k t)) t v)" by (rule policy_woken [OF assms(2,4,5) r(3,5)])
  with r show thesis by (intro that)
qed

section \<open>Waking every task of a wait queue\<close>

text \<open>
  What a sequence of wakeups does to the abstract state: some ready tasks are appended, tasks leave the
  wait queues and the timer queue.
\<close>

definition wakes :: "TaskPtr set \<Rightarrow> View \<Rightarrow> View \<Rightarrow> bool" where
  "wakes S v v' \<longleftrightarrow> ready_set (v_ready v') = ready_set (v_ready v) \<union> S \<and> (\<forall>p. \<exists>xs. v_ready v' p = v_ready v p @ xs \<and> set xs \<subseteq> S) \<and>
     (\<forall>i. v_wait v' i = v_wait v i - S) \<and> v_timer v' = v_timer v - S \<and> v_all v' = v_all v \<and> v_del v' = v_del v"

lemma wakes_refl: "wakes {} v v"
  by (simp add: wakes_def)

lemma wakes_woken:
  assumes "wakes S (woken p t v) v'"
  shows "wakes (insert t S) v v'"
proof -
  have "\<exists>xs. v_ready v' q = v_ready v q @ xs \<and> set xs \<subseteq> insert t S" for q
  proof -
    have "\<forall>q. \<exists>xs. v_ready v' q = enqueue p t (v_ready v) q @ xs \<and> set xs \<subseteq> S" 
      using assms unfolding wakes_def woken_simps by (elim conjE)
    then obtain xs where xs: "v_ready v' q = enqueue p t (v_ready v) q @ xs" "set xs \<subseteq> S" by blast
    show ?thesis
    proof (cases "q = p \<and> t \<notin> set (v_ready v p)")
      case True
      with xs show ?thesis by (intro exI [of _ "t # xs"]) (auto simp: enqueue_def)
    next
      case False
      with xs show ?thesis by (intro exI [of _ xs]) (auto simp: enqueue_def)
    qed
  qed
  with assms show ?thesis by (auto simp: wakes_def)
qed

definition woken_tasks :: "TaskPtr set \<Rightarrow> heap \<Rightarrow> heap \<Rightarrow> bool" where
  "woken_tasks S h h' \<longleftrightarrow> (\<forall>y. core (h' y) = (if y \<in> S then (core (h y))\<lparr>task_state := Ready\<rparr> else core (h y)))"

lemma woken_tasks_insert:
  assumes "\<And>y. core (h1 y) = (if y = t then (core (h y))\<lparr>task_state := Ready\<rparr> else core (h y))" "woken_tasks S h1 h'"
  shows "woken_tasks (insert t S) h h'"
  using assms unfolding woken_tasks_def by (auto split: if_splits)

lemma notify_inv:
  assumes "links_inv k v" "policy_inv C k v" "time_driver k \<noteq> None"
  shows "\<exists>k' v'. notify cfg i k = Some k' \<and> links_inv k' v' \<and> policy_inv C k' v' \<and> same_cpus k k' \<and> same_blocks k k' \<and>
    wakes (v_wait v i) v v' \<and> woken_tasks (v_wait v i) (tasks k) (tasks k')"
  using assms
proof (induction "card (v_wait v i)" arbitrary: k v rule: less_induct)
  case less
  note inv = less.prems(1) and pol = less.prems(2)
  have "ready_part (tasks k) (wait_queues k) (run_queue k) (v_ready v) (v_wait v)" using inv by (simp add: links_inv_def)
  then have fin: "finite (v_wait v i)" unfolding ready_part_def by (metis List.finite_set)
  from \<open>ready_part _ _ _ _ _\<close> show ?case
  proof (cases rule: wait_pop_part [of _ _ _ _ _ i])
    case (empty l)
    have "k\<lparr>wait_queues := (wait_queues k)(i := \<lparr>waiting_tasks = l\<rparr>), tasks := tasks k\<rparr> = k" unfolding empty(3) by simp
    then have "notify cfg i k = Some k" using empty(1) by (subst notify.simps) simp
    with less.prems empty(2) wakes_refl [of v] show ?thesis by (auto simp: woken_tasks_def same_blocks_def)
  next
    case (task t l h)
    let ?k = "k\<lparr>wait_queues := (wait_queues k)(i := \<lparr>waiting_tasks = l\<rparr>), tasks := h\<rparr>" and ?v = "v\<lparr>v_wait := (v_wait v)(i := v_wait v i - {t})\<rparr>"
    have core: "core (h y) = core (tasks k y)" for y using core_relinks [OF task(4)] by simp
    note st = core_eqD(1) [OF core]
    have inv1: "links_inv ?k ?v"
      using inv task(3) core_eqD(2) [OF core] relinks_same(1) [OF task(4)] unfolding links_inv_def
      by (auto intro: timer_part_same alloc_part_same delete_part_same)
    have pol1: "policy_inv C ?k ?v" using pol unfolding policy_inv_def by (simp add: st) blast
    have t: "t \<in> v_all ?v" "c \<in> C \<Longrightarrow> current_task ?k c = Some t \<Longrightarrow> yielded ?k c" for c
      using pol task(2) unfolding policy_inv_def by auto
    have td: "time_driver ?k \<noteq> None" using less.prems(3) by simp
    show ?thesis
    proof (rule resume_task_inv [OF inv1 pol1 td t, of cfg])
      fix k1 assume r: "resume_task cfg t ?k = Some k1" "links_inv k1 (woken (priority (tasks ?k t)) t ?v)"
        "policy_inv C k1 (woken (priority (tasks ?k t)) t ?v)" "same_cpus ?k k1" "same_blocks ?k k1"
        "\<And>y. core (tasks k1 y) = (if y = t then (core (tasks ?k y))\<lparr>task_state := Ready\<rparr> else core (tasks ?k y))"
      have v1: "woken (priority (tasks ?k t)) t ?v = woken (priority (tasks k t)) t v"
        using core_eqD(2) [OF core] by (auto simp: woken_def fun_eq_iff)
      let ?v1 = "woken (priority (tasks k t)) t v"
      have less: "card (v_wait ?v1 i) < card (v_wait v i)" using card_Diff1_less [OF fin task(2)] by simp
      have td1: "time_driver k1 \<noteq> None" using r(4) less.prems(3) by (auto simp: same_cpus_def)
      from less.hyps [OF less r(2,3) [unfolded v1] td1] obtain k' v' where
        ih: "notify cfg i k1 = Some k'" "links_inv k' v'" "policy_inv C k' v'" "same_cpus k1 k'" "same_blocks k1 k'"
          "wakes (v_wait ?v1 i) ?v1 v'" "woken_tasks (v_wait ?v1 i) (tasks k1) (tasks k')" by blast
      have S: "insert t (v_wait ?v1 i) = v_wait v i" using task(2) by auto
      have "notify cfg i k = Some k'" using task(1) r(1) ih(1) by (subst notify.simps) simp
      moreover have "wakes (v_wait v i) v v'" using wakes_woken [OF ih(6)] S by simp
      moreover have "core (tasks k1 y) = (if y = t then (core (tasks k y))\<lparr>task_state := Ready\<rparr> else core (tasks k y))" for y
        using r(6) [of y] core [of y] by (cases "y = t") simp_all
      from woken_tasks_insert [OF this ih(7)] have "woken_tasks (v_wait v i) (tasks k) (tasks k')" using S by simp
      moreover have "same_cpus k k'" "same_blocks k k'"
        using same_cpus_trans [OF r(4) ih(4)] same_blocks_trans [OF r(5) ih(5)] by (simp_all add: same_cpus_def same_blocks_def)
      ultimately show ?thesis using ih(2,3) by blast
    qed
  qed
qed

section \<open>Putting the current task to sleep\<close>

lemma sleep_task_until_links:
  assumes inv: "links_inv k v" and td: "time_driver k \<noteq> None" and t: "task_state (tasks k t) = Ready" "t \<notin> v_timer v"
  obtains slept k' where "sleep_task_until cfg now t at k = Some (slept, k')" "slept \<longleftrightarrow> now < at \<or> at = U64_MAX"
    "links_inv k' (v\<lparr>v_timer := (if slept \<and> at \<noteq> U64_MAX then insert t (v_timer v) else v_timer v)\<rparr>)"
    "same_cpus k k'" "same_blocks k k'" "wait_queues k' = wait_queues k" "run_queue k' = run_queue k"
    "\<And>y. core (tasks k' y) = (if y = t then (core (tasks k y))\<lparr>task_state := (if slept then Sleeping else Ready),
        wakeup_at := (if slept \<and> at \<noteq> U64_MAX then at else wakeup_at (tasks k t))\<rparr> else core (tasks k y))"
proof -
  from td obtain td where td: "time_driver k = Some td" by auto
  with inv have tp: "timer_part (tasks k) (Some td) (v_timer v)" by (simp add: links_inv_def)
  show thesis
  proof (rule schedule_wakeup_part [OF tp t, of "debug_assertions cfg" now at])
    fix slept td' h'
    assume r: "schedule_wakeup (debug_assertions cfg) now t at td (tasks k) = Some (slept, td', h')" "slept \<longleftrightarrow> now < at \<or> at = U64_MAX"
      "timer_part h' (Some td') (if slept \<and> at \<noteq> U64_MAX then insert t (v_timer v) else v_timer v)" "td_timer td' = td_timer td"
      "relinks timer_element UNIV ((tasks k)(t := (tasks k t)\<lparr>task_state := (if slept then Sleeping else Ready),
        wakeup_at := (if slept \<and> at \<noteq> U64_MAX then at else wakeup_at (tasks k t))\<rparr>)) h'"
    let ?k = "k\<lparr>time_driver := Some td', tasks := h'\<rparr>"
    have core: "core (h' y) = (if y = t then (core (tasks k y))\<lparr>task_state := (if slept then Sleeping else Ready),
        wakeup_at := (if slept \<and> at \<noteq> U64_MAX then at else wakeup_at (tasks k t))\<rparr> else core (tasks k y))" for y
      using core_relinks [OF r(5), of y] by simp
    have "same_ready (tasks k y) (h' y)" "same_alloc (tasks k y) (h' y)" "same_delete (tasks k y) (h' y)" for y
      using relinks_same(2) [OF r(5), of y] by (simp_all add: same_defs split: if_splits)
    with inv have "ready_part h' (wait_queues k) (run_queue k) (v_ready v) (v_wait v)" "alloc_part h' (all_tasks k) (v_all v)"
      "delete_part h' (to_delete k) (v_del v)" by (auto simp: links_inv_def intro: ready_part_same alloc_part_same delete_part_same)
    moreover have "priority (h' y) = priority (tasks k y)" for y
      using arg_cong [OF core [of y], of priority] by (simp split: if_splits)
    ultimately have "links_inv ?k (v\<lparr>v_timer := (if slept \<and> at \<noteq> U64_MAX then insert t (v_timer v) else v_timer v)\<rparr>)"
      using inv r(3) by (simp add: links_inv_def)
    then show thesis using r(1,2,4) td core
      by (intro that [of slept ?k]) (simp_all add: sleep_task_until_def same_cpus_def same_blocks_def)
  qed
qed

text \<open>A task that runs and was not asked to yield is in no queue.\<close>

lemma running_task:
  assumes "policy_inv C k v" "cpu \<in> C" "thread_pointer k cpu = Some t" "\<not> yielded k cpu" "task_state (tasks k t) = Ready"
  shows "current_task k cpu = Some t" "t \<in> v_all v" "t \<notin> ready_set (v_ready v)" "t \<notin> v_timer v" "t \<notin> v_wait v i"
    "current_task k c = Some t \<Longrightarrow> c = cpu"
proof -
  note pol = policy_invD [OF assms(1)]
  show cur: "current_task k cpu = Some t" using pol(11) [of cpu] assms(3) by force
  have "task_state (tasks k t) \<noteq> Sleeping" "task_state (tasks k t) \<noteq> Deleted" using assms(5) by simp_all
  then show "t \<in> v_all v" "t \<notin> ready_set (v_ready v)" "t \<notin> v_timer v" "t \<notin> v_wait v i"
    using pol(9) [OF cur] pol(14) [OF assms(2) cur] pol(5) [of t] pol(3) [of t i] assms(4) by blast+
  show "c = cpu" if "current_task k c = Some t" using pol(10) [OF that cur] .
qed

lemma policy_asleep:
  assumes inv: "policy_inv C k v" and run: "cpu \<in> C" "thread_pointer k cpu = Some t" "\<not> yielded k cpu" "task_state (tasks k t) = Ready"
    and st: "\<And>y. task_state (h y) = (if y = t then Sleeping else task_state (tasks k y))"
    and k': "tasks k' = h" "current_task k' = current_task k" "thread_pointer k' = thread_pointer k" "idle k' = idle k"
      "yielded k' = (yielded k)(cpu := True)"
    and v': "v_ready v' = v_ready v" "\<And>i. v_wait v' i \<subseteq> insert t (v_wait v i)" "v_timer v' \<subseteq> insert t (v_timer v)" "v_all v' = v_all v" "v_del v' = v_del v"
  shows "policy_inv C k' v'"
proof -
  note r = running_task [OF inv run] and pol = policy_invD [OF inv]
  show ?thesis
  proof (rule policy_invI, unfold k' v' st)
    fix u assume u: "u \<in> ready_set (v_ready v)"
    then have "u \<noteq> t" using r(3) by blast
    then show "(if u = t then Sleeping else task_state (tasks k u)) = Ready \<and> u \<in> v_all v" using pol(1,2) [OF u] by simp
  next
    fix i u assume "u \<in> v_wait v' i"
    then have "u = t \<or> u \<in> v_wait v i" using v'(2) by blast
    then show "(if u = t then Sleeping else task_state (tasks k u)) = Sleeping \<and> u \<in> v_all v" using pol(3,4) [of u i] r(2) by auto
  next
    fix u assume "u \<in> v_timer v'"
    then have "u = t \<or> u \<in> v_timer v" using v'(3) by blast
    then show "(if u = t then Sleeping else task_state (tasks k u)) = Sleeping \<and> u \<in> v_all v" using pol(5,6) [of u] r(2) by auto
  next
    fix c u assume "u \<in> v_del v c"
    then show "(if u = t then Sleeping else task_state (tasks k u)) = Deleted" using pol(7) [of u c] run(4) by auto
  next
    fix c assume "thread_pointer k c \<noteq> current_task k c"
    then show "thread_pointer k c = None \<and> (\<forall>u. current_task k c = Some u \<longrightarrow> (if u = t then Sleeping else task_state (tasks k u)) = Deleted)"
      using pol(11,12) [of c] run(4) by force
  next
    fix c u assume "c \<in> C" "current_task k c = Some u" "(if u = t then Sleeping else task_state (tasks k u)) = Sleeping \<or> u \<in> ready_set (v_ready v)"
    then show "((yielded k)(cpu := True)) c" using pol(14) [of c u] r(6) [of c] by (cases "u = t") auto
  next
    fix c u assume "current_task k c = Some u"
    then show "u \<in> v_all v \<or> (if u = t then Sleeping else task_state (tasks k u)) = Deleted" using pol(9) [of c u] r(2) by auto
  qed (use pol(8,13,15) pol(10) [of ProCpu _ AppCpu] in \<open>auto split: if_splits\<close>)
qed

lemma yield_task_simps [simp]:
  "tasks (yield_task c k) = tasks k" "wait_queues (yield_task c k) = wait_queues k" "run_queue (yield_task c k) = run_queue k"
  "time_driver (yield_task c k) = time_driver k" "all_tasks (yield_task c k) = all_tasks k" "to_delete (yield_task c k) = to_delete k"
  "current_task (yield_task c k) = current_task k" "thread_pointer (yield_task c k) = thread_pointer k" "idle (yield_task c k) = idle k"
  "yielded (yield_task c k) = (yielded k)(c := True)" "pending (yield_task c k) c" "threads (yield_task c k) = threads k"
  "freed (yield_task c k) = freed k" "links_inv (yield_task c k) v = links_inv k v"
  by (simp_all add: yield_task_def request_context_switch_def links_inv_def)

lemma frame_yield: "frame k k' \<Longrightarrow> frame k (yield_task c k')"
  by (auto simp: frame_def yield_task_def request_context_switch_def)

lemma sleep_until_inv:
  assumes inv: "kernel_inv k v" and td: "time_driver k \<noteq> None"
    and run: "thread_pointer k cpu = Some t" "\<not> yielded k cpu" "task_state (tasks k t) = Ready"
  obtains slept k' where "sleep_until cfg cpu now at k = Some (slept, k')" "slept \<longleftrightarrow> now < at \<or> at = U64_MAX"
    "kernel_inv k' (v\<lparr>v_timer := (if slept \<and> at \<noteq> U64_MAX then insert t (v_timer v) else v_timer v)\<rparr>)"
    "slept \<Longrightarrow> task_state (tasks k' t) = Sleeping \<and> pending k' cpu"
    "slept \<Longrightarrow> at \<noteq> U64_MAX \<Longrightarrow> wakeup_at (tasks k' t) = at" "frame k k'" "\<And>y. pinned_to (tasks k' y) = pinned_to (tasks k y)"
proof -
  have links: "links_inv k v" and pol: "policy_inv UNIV k v" using inv by (simp_all add: kernel_inv_def)
  note r = running_task [OF pol UNIV_I run]
  show thesis
  proof (rule sleep_task_until_links [OF links td run(3) r(4), of cfg now at])
    fix slept k1
    assume s: "sleep_task_until cfg now t at k = Some (slept, k1)" "slept \<longleftrightarrow> now < at \<or> at = U64_MAX"
      "links_inv k1 (v\<lparr>v_timer := (if slept \<and> at \<noteq> U64_MAX then insert t (v_timer v) else v_timer v)\<rparr>)" "same_cpus k k1"
      "\<And>y. core (tasks k1 y) = (if y = t then (core (tasks k y))\<lparr>task_state := (if slept then Sleeping else Ready),
        wakeup_at := (if slept \<and> at \<noteq> U64_MAX then at else wakeup_at (tasks k t))\<rparr> else core (tasks k y))" "same_blocks k k1"
    let ?v = "v\<lparr>v_timer := (if slept \<and> at \<noteq> U64_MAX then insert t (v_timer v) else v_timer v)\<rparr>"
    let ?k = "if slept then yield_task cpu k1 else k1"
    have st: "task_state (tasks k1 y) = (if y = t then if slept then Sleeping else Ready else task_state (tasks k y))" for y
      using arg_cong [OF s(5) [of y], of task_state] by (simp split: if_splits)
    have "policy_inv UNIV ?k ?v"
    proof (cases slept)
      case True
      then show ?thesis using s(4)
        by (intro policy_asleep [OF pol UNIV_I run, where h = "tasks k1"]) (auto simp: st same_cpus_def)
    next
      case False
      have "task_state (tasks k1 y) = task_state (tasks k y)" for y using st [of y] False run(3) by simp
      then show ?thesis using pol False s(4) by (simp add: policy_inv_def same_cpus_def)
    qed
    with s(3) have "kernel_inv ?k ?v" by (cases slept) (simp_all add: kernel_inv_def)
    moreover have "sleep_until cfg cpu now at k = Some (slept, ?k)" using run(1) s(1) by (simp add: sleep_until_def)
    moreover have "slept \<Longrightarrow> task_state (tasks ?k t) = Sleeping \<and> pending ?k cpu" using st [of t] by simp
    moreover have "slept \<Longrightarrow> at \<noteq> U64_MAX \<Longrightarrow> wakeup_at (tasks ?k t) = at" using arg_cong [OF s(5) [of t], of wakeup_at] by simp
    moreover have "thread (tasks k1 y) = thread (tasks k y)" for y using arg_cong [OF s(5) [of y], of thread] by (simp split: if_splits)
    then have "frame k ?k" using frameI [OF s(4,6)] by (simp add: frame_yield)
    moreover have "pinned_to (tasks ?k y) = pinned_to (tasks k y)" for y using arg_cong [OF s(5) [of y], of pinned_to] by (simp split: if_splits)
    ultimately show thesis using s(2) by (intro that [of slept ?k])
  qed
qed

lemma wait_with_deadline_inv:
  fixes now at :: u64
  assumes inv: "kernel_inv k v" and td: "time_driver k \<noteq> None"
    and run: "thread_pointer k cpu = Some t" "\<not> yielded k cpu" "task_state (tasks k t) = Ready"
  defines "slept \<equiv> now < at \<or> at = U64_MAX"
  obtains k' where "wait_with_deadline cfg cpu now i at k = Some k'"
    "kernel_inv k' (v\<lparr>v_timer := (if slept \<and> at \<noteq> U64_MAX then insert t (v_timer v) else v_timer v),
       v_wait := (if slept then (v_wait v)(i := insert t (v_wait v i)) else v_wait v)\<rparr>)"
    "slept \<Longrightarrow> task_state (tasks k' t) = Sleeping \<and> pending k' cpu" "frame k k'"
proof -
  have links: "links_inv k v" and pol: "policy_inv UNIV k v" using inv by (simp_all add: kernel_inv_def)
  note r = running_task [OF pol UNIV_I run]
  show thesis
  proof (rule sleep_task_until_links [OF links td run(3) r(4), of cfg now at])
    fix s k1
    assume "s \<longleftrightarrow> now < at \<or> at = U64_MAX"
    then have s: "s = slept" by (simp add: slept_def)
    let ?v1 = "v\<lparr>v_timer := (if slept \<and> at \<noteq> U64_MAX then insert t (v_timer v) else v_timer v)\<rparr>"
    assume "sleep_task_until cfg now t at k = Some (s, k1)"
      "links_inv k1 (v\<lparr>v_timer := (if s \<and> at \<noteq> U64_MAX then insert t (v_timer v) else v_timer v)\<rparr>)" and cpus: "same_cpus k k1" "same_blocks k k1"
      and "\<And>y. core (tasks k1 y) = (if y = t then (core (tasks k y))\<lparr>task_state := (if s then Sleeping else Ready),
        wakeup_at := (if s \<and> at \<noteq> U64_MAX then at else wakeup_at (tasks k t))\<rparr> else core (tasks k y))"
    then have sl: "sleep_task_until cfg now t at k = Some (slept, k1)" "links_inv k1 ?v1"
      and core: "\<And>y. core (tasks k1 y) = (if y = t then (core (tasks k y))\<lparr>task_state := (if slept then Sleeping else Ready),
        wakeup_at := (if slept \<and> at \<noteq> U64_MAX then at else wakeup_at (tasks k t))\<rparr> else core (tasks k y))" unfolding s by simp_all
    have st: "task_state (tasks k1 y) = (if y = t then if slept then Sleeping else Ready else task_state (tasks k y))" for y
      using arg_cong [OF core [of y], of task_state] by (simp split: if_splits)
    have thr: "thread (tasks k1 y) = thread (tasks k y)" for y using arg_cong [OF core [of y], of thread] by (simp split: if_splits)
    have fr: "frame k k1" by (rule frameI [OF cpus thr])
    show thesis
    proof (cases slept)
      case False
      have "task_state (tasks k1 y) = task_state (tasks k y)" for y using st [of y] False run(3) by simp
      then have "policy_inv UNIV k1 v" using pol cpus by (simp add: policy_inv_def same_cpus_def)
      then show thesis using False sl run(1) fr by (intro that [of k1]) (simp_all add: wait_with_deadline_def kernel_inv_def)
    next
      case True
      have rp: "ready_part (tasks k1) (wait_queues k1) (run_queue k1) (v_ready v) (v_wait v)" using sl(2) by (simp add: links_inv_def)
      show thesis
      proof (rule wait_push_part [OF rp r(3) r(5), of "debug_assertions cfg" i])
        fix l h assume p: "list_push (debug_assertions cfg) ready_element (waiting_tasks (wait_queues k1 i)) t (tasks k1) = Some (l, h)"
          "ready_part (h(t := (h t)\<lparr>current_wait_queue := Some i\<rparr>)) ((wait_queues k1)(i := \<lparr>waiting_tasks = l\<rparr>)) (run_queue k1)
             (v_ready v) ((v_wait v)(i := insert t (v_wait v i)))" "relinks ready_element {t} (tasks k1) h"
        let ?h = "h(t := (h t)\<lparr>current_wait_queue := Some i\<rparr>)"
        let ?k = "k1\<lparr>wait_queues := (wait_queues k1)(i := \<lparr>waiting_tasks = l\<rparr>), tasks := ?h\<rparr>"
        let ?v = "?v1\<lparr>v_wait := (v_wait v)(i := insert t (v_wait v i))\<rparr>"
        have same: "same_timer (tasks k1 y) (?h y)" "same_alloc (tasks k1 y) (?h y)" "same_delete (tasks k1 y) (?h y)" for y
          using relinks_same(1) [OF p(3), of y] by (auto simp: same_defs)
        have c: "core (?h y) = core (tasks k1 y)" for y using core_relinks [OF p(3), of y] by auto
        have parts: "timer_part ?h (time_driver k1) (v_timer ?v)" "alloc_part ?h (all_tasks k1) (v_all ?v)" "delete_part ?h (to_delete k1) (v_del ?v)"
          "priority (?h y) \<le> 31" for y
          using sl(2) same core_eqD(2) [OF c [of y]]
          by (auto simp: links_inv_def intro: timer_part_same alloc_part_same delete_part_same)
        then have "links_inv ?k ?v" using p(2) by (simp add: links_inv_def)
        moreover have "policy_inv UNIV (yield_task cpu ?k) ?v"
          by (rule policy_asleep [OF pol UNIV_I run, where h = ?h]) (use True st core_eqD(1) [OF c] cpus in \<open>auto simp: same_cpus_def\<close>)
        ultimately have "kernel_inv (yield_task cpu ?k) ?v" by (simp add: kernel_inv_def)
        moreover have "wait_with_deadline cfg cpu now i at k = Some (yield_task cpu ?k)"
          using True run(1) sl(1) p(1) by (simp add: wait_with_deadline_def)
        moreover have "task_state (tasks (yield_task cpu ?k) t) = Sleeping" using core_eqD(1) [OF c, of t] st [of t] True by simp
        moreover have "frame k (yield_task cpu ?k)"
          by (rule frame_yield) (use fr core_eqD(5) [OF c] in \<open>auto simp: frame_def\<close>)
        ultimately show thesis using True by (intro that [of "yield_task cpu ?k"]) simp_all
      qed
    qed
  qed
qed

section \<open>Registering a task\<close>

lemma register_task_inv:
  assumes inv: "kernel_inv k v" and t: "t \<notin> v_all v" "\<And>c. current_task k c \<noteq> Some t" "task_state (tasks k t) \<noteq> Deleted"
    and cpu: "\<And>c. pinned_to (tasks k t) = Some c \<Longrightarrow> contains (active_cores k) c"
  obtains k' where "register_task cfg t k = Some k'"
    "kernel_inv k' (woken (priority (tasks k t)) t (v\<lparr>v_all := insert t (v_all v)\<rparr>))"
    "\<And>y. core (tasks k' y) = (if y = t then (core (tasks k y))\<lparr>task_state := Ready\<rparr> else core (tasks k y))" "frame k k'"
proof -
  have links: "links_inv k v" and pol: "policy_inv UNIV k v" using inv by (simp_all add: kernel_inv_def)
  let ?v = "v\<lparr>v_all := insert t (v_all v)\<rparr>"
  have out: "t \<notin> ready_set (v_ready v)" "t \<notin> v_timer v" "t \<notin> v_wait v i" for i
    using policy_invD [OF pol] t(1) by blast+
  have "alloc_part (tasks k) (all_tasks k) (v_all v)" using links by (simp add: links_inv_def)
  then show thesis
  proof (rule alloc_push_part [OF _ t(1), of _ _ "debug_assertions cfg"])
    fix l h assume p: "list_push (debug_assertions cfg) alloc_element (all_tasks k) t (tasks k) = Some (l, h)"
      "alloc_part h l (insert t (v_all v))" "relinks alloc_element UNIV (tasks k) h"
    let ?k = "k\<lparr>all_tasks := l, tasks := h\<rparr>"
    have core: "core (h y) = core (tasks k y)" for y using core_relinks [OF p(3)] by simp
    have "ready_part h (wait_queues k) (run_queue k) (v_ready v) (v_wait v)" "timer_part h (time_driver k) (v_timer v)"
      "delete_part h (to_delete k) (v_del v)"
      using links relinks_same(3) [OF p(3)] by (auto simp: links_inv_def intro: ready_part_same timer_part_same delete_part_same)
    then have "links_inv ?k ?v" using links p(2) core_eqD(2) [OF core] by (simp add: links_inv_def)
    then show thesis
    proof (rule kernel_mark_ready_links [of _ _ cfg t])
      fix w k' assume m: "kernel_mark_ready cfg t ?k = Some (w, k')" "links_inv k' (resumed (priority (tasks ?k t)) t ?v)" "same_cpus ?k k'"
        "\<And>y. core (tasks k' y) = (if y = t then (core (tasks ?k y))\<lparr>task_state := Ready\<rparr> else core (tasks ?k y))" "same_blocks ?k k'"
        "time_driver k' = time_driver ?k"
      have c: "core (tasks k' y) = (if y = t then (core (tasks k y))\<lparr>task_state := Ready\<rparr> else core (tasks k y))" for y
        using m(4) [of y] core [of y] by (cases "y = t") simp_all
      note st = core_state(1) [OF c]
      have v: "resumed (priority (tasks ?k t)) t ?v = woken (priority (tasks k t)) t ?v"
        using out(2) core_eqD(2) [OF core, of t] by (simp add: woken_def)
      have cpus: "current_task k' = current_task k" "thread_pointer k' = thread_pointer k" "idle k' = idle k" "yielded k' = yielded k"
        using m(3) by (simp_all add: same_cpus_def)
      note pi = policy_invD [OF pol]
      have "policy_inv UNIV k' (woken (priority (tasks k t)) t ?v)"
        by (rule policy_invI) (use pi pi(10) [of ProCpu _ AppCpu] t in \<open>auto simp: st cpus split: if_splits\<close>)
      then have "kernel_inv (trigger_scheduler w k') (woken (priority (tasks k t)) t ?v)"
        using m(2) v by (simp add: kernel_inv_def)
      moreover have "register_task cfg t k = Some (trigger_scheduler w k')"
        using p(1) m(1) cpu core_eqD(3) [OF core, of t] by (auto simp: register_task_def split: option.split)
      moreover have "core (tasks (trigger_scheduler w k') y) = (if y = t then (core (tasks k y))\<lparr>task_state := Ready\<rparr> else core (tasks k y))" for y
        using c [of y] by (simp only: trigger_scheduler_simps)
      moreover have "thread (tasks k' y) = thread (tasks k y)" for y using arg_cong [OF c [of y], of thread] by (simp split: if_splits)
      then have "frame k k'" using m(3,5,6) by (simp add: frame_def same_cpus_def same_blocks_def)
      then have "frame k (trigger_scheduler w k')" by (cases w) (auto simp: frame_def trigger_scheduler_def request_context_switch_def)
      ultimately show thesis by (intro that)
    qed
  qed
qed

end
