(* ===== verification/Scheduler_Run.thy ===== *)
theory Scheduler_Run
  imports Scheduler_Invariant
begin

text \<open>
  The scheduler run and the deletion of tasks. A scheduler run is shown to keep the invariant, to
  make the first runnable task of the highest level the current one, to put the previous task back
  into its level when it is still ready, to delete every task whose stack is no longer in use, and to
  leave the alarm armed.
\<close>

section \<open>Choosing the next task\<close>

lemma ready_part_disjoint: "ready_part h wqs rq f W \<Longrightarrow> t \<in> set (f p) \<Longrightarrow> t \<in> set (f q) \<Longrightarrow> p = q"
  using ready_part_facts(1) by metis

lemma picks_some:
  assumes "picks C f (Some t) f'" "\<And>p. distinct (f p)" "\<And>p q. t \<in> set (f p) \<Longrightarrow> t \<in> set (f q) \<Longrightarrow> p = q"
  shows "ready_set f' = ready_set f - {t}" "t \<in> ready_set f" "C t"
proof -
  from assms(1) obtain p where p: "find C (f p) = Some t" "f' = f(p := remove_first C (f p))" by (auto simp: picks_def)
  have tp: "t \<in> set (f p)" and c: "C t" using p(1) by (auto simp: find_Some_iff)
  then show "t \<in> ready_set f" "C t" by (auto simp: ready_set_def)
  have rest: "set (remove_first C (f p)) = set (f p) - {t}" using distinct_remove_first [OF assms(2) p(1)] by simp
  have "t \<notin> set (f q)" if "q \<noteq> p" for q using assms(3) [OF tp, of q] that by blast
  then show "ready_set f' = ready_set f - {t}" unfolding ready_set_def p(2) using rest by (auto split: if_splits)
qed

lemma picks_none: "picks C f None f' \<Longrightarrow> f' = f" "picks C f None f' \<Longrightarrow> t \<in> ready_set f \<Longrightarrow> \<not> C t"
  by (auto simp: picks_def ready_set_def)

text \<open>No task of a higher level than the chosen one could have run.\<close>

lemma picks_highest:
  assumes "picks C f (Some t) f'" "u \<in> set (f q)" "C u" "t \<in> set (f p)" "\<And>p q. t \<in> set (f p) \<Longrightarrow> t \<in> set (f q) \<Longrightarrow> p = q"
  shows "q \<le> p"
proof -
  from assms(1) obtain r where r: "find C (f r) = Some t" "\<forall>p'>r. \<forall>t\<in>set (f p'). \<not> C t" by (auto simp: picks_def)
  then have "t \<in> set (f r)" by (auto simp: find_Some_iff)
  then have "r = p" using assms(4,5) by blast
  with r(2) assms(2,3) show ?thesis by (meson not_le_imp_less)
qed

lemma picks_part:
  assumes "ready_part h wqs rq f W" "picks C f next_task f'"
  shows "ready_set f' = ready_set f - set_option next_task" "next_task = Some t \<Longrightarrow> t \<in> ready_set f \<and> C t"
proof -
  have d: "distinct (f p)" for p by (rule ready_part_facts(5) [OF assms(1)])
  show "next_task = Some t \<Longrightarrow> t \<in> ready_set f \<and> C t"
    using picks_some(2,3) [of C f t f'] d assms(2) ready_part_disjoint [OF assms(1)] by blast
  show "ready_set f' = ready_set f - set_option next_task"
  proof (cases next_task)
    case None
    with picks_none(1) assms(2) show ?thesis by auto
  next
    case (Some t)
    with picks_some(1) [of C f t f'] d assms(2) ready_part_disjoint [OF assms(1)] show ?thesis by simp
  qed
qed

lemma policy_switched:
  assumes inv: "policy_inv (UNIV - {cpu}) k v"
    and requeued: "\<And>t. thread_pointer k cpu = Some t \<Longrightarrow> task_state (tasks k t) = Ready \<Longrightarrow> t \<in> ready_set (v_ready v)"
    and nxt: "\<And>t. next_task = Some t \<Longrightarrow> t \<in> ready_set (v_ready v) \<and> Some t \<noteq> current_task k (other_cpu cpu)"
    and f': "ready_set f' = ready_set (v_ready v) - set_option next_task"
    and st: "\<And>y. task_state (tasks k' y) = task_state (tasks k y)"
    and k': "current_task k' = (current_task k)(cpu := next_task)" "thread_pointer k' = (thread_pointer k)(cpu := next_task)"
      "\<And>c. c \<noteq> cpu \<Longrightarrow> idle k' c = idle k c" "idle k' cpu \<Longrightarrow> next_task = None" "\<And>c. c \<noteq> cpu \<Longrightarrow> yielded k' c = yielded k c"
  shows "policy_inv UNIV k' (v\<lparr>v_ready := f'\<rparr>)"
proof -
  note pol = policy_invD [OF inv]
  have other: "c = cpu \<or> c = other_cpu cpu" for c by (cases c; cases cpu) (simp_all add: other_cpu_def)
  show ?thesis
  proof (rule policy_invI, unfold st k'(1,2))
    fix t assume "t \<in> v_all (v\<lparr>v_ready := f'\<rparr>)" "task_state (tasks k t) = Ready"
    then have "t \<in> ready_set (v_ready v) \<or> (\<exists>c. current_task k c = Some t)" using pol(15) [of t] by simp
    then have "t \<in> ready_set (v_ready v) \<or> (\<exists>c. c \<noteq> cpu \<and> current_task k c = Some t)"
      using requeued [of t] pol(12) [of cpu t] \<open>task_state (tasks k t) = Ready\<close> by force
    then show "t \<in> ready_set (v_ready (v\<lparr>v_ready := f'\<rparr>)) \<or> (\<exists>c. ((current_task k)(cpu := next_task)) c = Some t)"
      using f' by (cases "next_task = Some t") (auto simp: elem_set)
  next
    fix c t assume c: "((current_task k)(cpu := next_task)) c = Some t" "task_state (tasks k t) = Sleeping \<or> t \<in> ready_set (v_ready (v\<lparr>v_ready := f'\<rparr>))"
    show "yielded k' c"
    proof (cases "c = cpu")
      case True
      with c nxt [of t] pol(1) [of t] f' show ?thesis by auto
    next
      case False
      with c k'(5) [OF False] pol(14) [of c t] f' show ?thesis by auto
    qed
  next
    fix t assume "((current_task k)(cpu := next_task)) ProCpu = Some t"
    then show "((current_task k)(cpu := next_task)) AppCpu \<noteq> Some t"
      using nxt [of t] pol(10) [of ProCpu t AppCpu] by (cases cpu) (auto simp: other_cpu_def)
  next
    fix c t assume "((current_task k)(cpu := next_task)) c = Some t"
    then show "t \<in> v_all (v\<lparr>v_ready := f'\<rparr>) \<or> task_state (tasks k t) = Deleted"
      using nxt [of t] pol(2) [of t] pol(9) [of c t] by (auto split: if_splits)
  next
    fix c assume "((thread_pointer k)(cpu := next_task)) c \<noteq> ((current_task k)(cpu := next_task)) c"
    then show "((thread_pointer k)(cpu := next_task)) c = None \<and>
        (\<forall>t. ((current_task k)(cpu := next_task)) c = Some t \<longrightarrow> task_state (tasks k t) = Deleted)"
      using pol(11) [of c] pol(12) [of c] by (auto split: if_splits)
  next
    fix c assume "idle k' c"
    then show "((current_task k)(cpu := next_task)) c = None" using k'(3,4) pol(13) [of c] by (cases "c = cpu") auto
  qed (use pol f' in auto)
qed

section \<open>Rescheduling\<close>

definition requeued :: "Cpu \<Rightarrow> 't Kernel \<Rightarrow> View \<Rightarrow> View" where
  "requeued cpu k v = (case thread_pointer k cpu of
      Some t \<Rightarrow> if task_state (tasks k t) = Ready then woken (priority (tasks k t)) t v else v
    | None \<Rightarrow> v)"

lemma requeued_simps [simp]:
  "v_timer (requeued cpu k v) \<subseteq> v_timer v" "v_all (requeued cpu k v) = v_all v" "v_del (requeued cpu k v) = v_del v"
  by (auto simp: requeued_def split: option.split)

lemma requeued_ready: "ready_set (v_ready v) \<subseteq> ready_set (v_ready (requeued cpu k v))"
  by (auto simp: requeued_def split: option.split)

lemma requeue_current_inv:
  assumes links: "links_inv k v" and pol: "policy_inv (UNIV - {cpu}) k v"
  obtains k' where "requeue_current cfg cpu k = Some k'" "links_inv k' (requeued cpu k v)" "policy_inv (UNIV - {cpu}) k' (requeued cpu k v)"
    "same_cpus k k'" "same_blocks k k'" "time_driver k' = time_driver k" "\<And>y. core (tasks k' y) = core (tasks k y)"
    "\<And>t. thread_pointer k cpu = Some t \<Longrightarrow> task_state (tasks k t) = Ready \<Longrightarrow> t \<in> ready_set (v_ready (requeued cpu k v))"
proof (cases "\<exists>t. thread_pointer k cpu = Some t \<and> task_state (tasks k t) = Ready")
  case False
  then have "requeue_current cfg cpu k = Some k" "requeued cpu k v = v"
    by (auto simp: requeue_current_def requeued_def split: option.split)
  then show thesis using links pol False by (intro that [of k]) (auto simp: same_blocks_def)
next
  case True
  then obtain t where t: "thread_pointer k cpu = Some t" "task_state (tasks k t) = Ready" by blast
  note p = policy_invD [OF pol]
  have cur: "current_task k cpu = Some t" using p(11) [of cpu] t(1) by force
  have all: "t \<in> v_all v" using p(9) [OF cur] t(2) by simp
  have tm: "t \<notin> v_timer v" using p(5) [of t] t(2) by auto
  have v: "requeued cpu k v = woken (priority (tasks k t)) t v" using t by (simp add: requeued_def)
  show thesis
  proof (rule kernel_mark_ready_links [OF links, of cfg t])
    fix r k' assume m: "kernel_mark_ready cfg t k = Some (r, k')" "links_inv k' (resumed (priority (tasks k t)) t v)" "same_cpus k k'"
      "same_blocks k k'" "time_driver k' = time_driver k"
      "\<And>y. core (tasks k' y) = (if y = t then (core (tasks k y))\<lparr>task_state := Ready\<rparr> else core (tasks k y))"
    have "(core (tasks k t))\<lparr>task_state := Ready\<rparr> = core (tasks k t)" using t(2) by (metis Task.surjective Task.update_convs(1) core_fields(1))
    then have core: "core (tasks k' y) = core (tasks k y)" for y using m(6) [of y] by simp
    have "policy_inv (UNIV - {cpu}) k' (requeued cpu k v)"
      unfolding v by (rule policy_woken [OF pol all _ m(3,6)]) (use p(10) [OF cur] in auto)
    moreover have "links_inv k' (requeued cpu k v)" using m(2) resumed_woken [OF tm] v by simp
    moreover have "requeue_current cfg cpu k = Some k'" using t m(1) by (simp add: requeue_current_def)
    ultimately show thesis using m(3,4,5) core t v by (intro that [of k']) simp_all
  qed
qed

lemma offer_to_peer_simps:
  assumes "offer_to_peer cpu other_task k = (b, k')"
  shows "tasks k' = tasks k" "wait_queues k' = wait_queues k" "run_queue k' = run_queue k" "time_driver k' = time_driver k"
    "all_tasks k' = all_tasks k" "to_delete k' = to_delete k" "same_cpus k k'" "same_blocks k k'"
  using assms
  by (auto simp: offer_to_peer_def schedule_other_core_def request_context_switch_def same_cpus_def same_blocks_def Let_def
      split: option.splits if_splits)

lemma switch_to_simps:
  assumes "switch_to cpu sp isp other_task next_task k = (a, b, k')"
  shows "core (tasks k' y) = (if thread_pointer k cpu = Some y then (core (tasks k y))\<lparr>saved_sp := isp\<rparr> else core (tasks k y))"
    "same_ready (tasks k y) (tasks k' y)" "same_timer (tasks k y) (tasks k' y)" "same_alloc (tasks k y) (tasks k' y)"
    "same_delete (tasks k y) (tasks k' y)"
    "wait_queues k' = wait_queues k" "run_queue k' = run_queue k" "time_driver k' = time_driver k" "all_tasks k' = all_tasks k"
    "to_delete k' = to_delete k" "current_task k' = (current_task k)(cpu := next_task)"
    "thread_pointer k' = (thread_pointer k)(cpu := next_task)" "idle k' = (idle k)(cpu := (next_task = None))"
    "yielded k' = yielded k" "threads k' = threads k" "freed k' = freed k"
    "main_task k' = main_task k" "active_cores k' = active_cores k" "stack_words_at k' = stack_words_at k"
proof -
  obtain b1 k1 where o: "offer_to_peer cpu other_task k = (b1, k1)" by fastforce
  note s = offer_to_peer_simps [OF o]
  have c: "current_task k1 = current_task k" "thread_pointer k1 = thread_pointer k" "idle k1 = idle k" "yielded k1 = yielded k"
    "threads k1 = threads k" "freed k1 = freed k" "main_task k1 = main_task k" "active_cores k1 = active_cores k"
    "stack_words_at k1 = stack_words_at k" using s(7,8) by (simp_all add: same_cpus_def same_blocks_def)
  note defs = switch_to_def task_switch_def o same_defs Let_def
  show "core (tasks k' y) = (if thread_pointer k cpu = Some y then (core (tasks k y))\<lparr>saved_sp := isp\<rparr> else core (tasks k y))"
    "same_ready (tasks k y) (tasks k' y)" "same_timer (tasks k y) (tasks k' y)" "same_alloc (tasks k y) (tasks k' y)"
    "same_delete (tasks k y) (tasks k' y)"
    using assms s(1) c by (auto simp: defs split: option.splits if_splits)
  show "wait_queues k' = wait_queues k" "run_queue k' = run_queue k" "time_driver k' = time_driver k" "all_tasks k' = all_tasks k"
    "to_delete k' = to_delete k" "current_task k' = (current_task k)(cpu := next_task)"
    "thread_pointer k' = (thread_pointer k)(cpu := next_task)" "idle k' = (idle k)(cpu := (next_task = None))"
    "yielded k' = yielded k" "threads k' = threads k" "freed k' = freed k"
    "main_task k' = main_task k" "active_cores k' = active_cores k" "stack_words_at k' = stack_words_at k"
    using assms s c by (auto simp: defs split: option.splits if_splits)
qed

lemma core_saved_spD:
  assumes "core t' = core t \<or> core t' = (core t)\<lparr>saved_sp := n\<rparr>"
  shows "task_state t' = task_state t" "priority t' = priority t" "pinned_to t' = pinned_to t" "thread t' = thread t"
    "wakeup_at t' = wakeup_at t" "stack_bottom t' = stack_bottom t" "stack_words t' = stack_words t"
    "stack_guard t' = stack_guard t" "stack_guard_value t' = stack_guard_value t"
proof -
  have "task_state (core t') = task_state (core t)" "priority (core t') = priority (core t)" "pinned_to (core t') = pinned_to (core t)"
    "thread (core t') = thread (core t)" "wakeup_at (core t') = wakeup_at (core t)" "stack_bottom (core t') = stack_bottom (core t)"
    "stack_words (core t') = stack_words (core t)" "stack_guard (core t') = stack_guard (core t)"
    "stack_guard_value (core t') = stack_guard_value (core t)"
    using assms by (elim disjE; simp)+
  then show "task_state t' = task_state t" "priority t' = priority t" "pinned_to t' = pinned_to t" "thread t' = thread t"
    "wakeup_at t' = wakeup_at t" "stack_bottom t' = stack_bottom t" "stack_words t' = stack_words t"
    "stack_guard t' = stack_guard t" "stack_guard_value t' = stack_guard_value t" by simp_all
qed

text \<open>Whether the run switches or not, afterwards the chosen task is the current one.\<close>

definition switch_if_needed :: "Cpu \<Rightarrow> nat \<Rightarrow> nat \<Rightarrow> bool \<Rightarrow> TaskPtr option \<Rightarrow> TaskPtr option \<Rightarrow> 't Kernel \<Rightarrow> bool \<times> bool \<times> 't Kernel" where
  "switch_if_needed cpu sp isp deleted_self other_task next_task k =
    (if next_task \<noteq> thread_pointer k cpu \<or> deleted_self then switch_to cpu sp isp other_task next_task k else (False, False, k))"

lemma reschedule_eq:
  "reschedule cfg T cpu sp isp now k =
    (if \<not> check_stack cfg cpu sp k then None
     else Option.bind (requeue_current cfg cpu k) (\<lambda>k1.
       Option.bind (pop_multi_core (debug_assertions cfg) cpu (current_task k1 (other_cpu cpu)) (run_queue k1) (tasks k1)) (\<lambda>(next_task, rq, h).
       case switch_if_needed cpu sp isp (thread_pointer k cpu = None \<and> \<not> idle k cpu) (current_task k1 (other_cpu cpu)) next_task
         (k1\<lparr>run_queue := rq, tasks := h\<rparr>) of (a, b, k3) \<Rightarrow> update_alarm cfg T cpu now a b k3)))"
  by (simp add: reschedule_def switch_if_needed_def Let_def)

lemma switch_if_needed_simps:
  assumes "switch_if_needed cpu sp isp d other_task next_task k = (a, b, k')"
    and "thread_pointer k cpu = current_task k cpu \<or> thread_pointer k cpu = None \<and> d" "idle k cpu \<longrightarrow> current_task k cpu = None"
  shows "core (tasks k' y) = core (tasks k y) \<or> core (tasks k' y) = (core (tasks k y))\<lparr>saved_sp := isp\<rparr>"
    "same_ready (tasks k y) (tasks k' y)" "same_timer (tasks k y) (tasks k' y)" "same_alloc (tasks k y) (tasks k' y)"
    "same_delete (tasks k y) (tasks k' y)"
    "wait_queues k' = wait_queues k" "run_queue k' = run_queue k" "time_driver k' = time_driver k" "all_tasks k' = all_tasks k"
    "to_delete k' = to_delete k" "current_task k' = (current_task k)(cpu := next_task)"
    "thread_pointer k' = (thread_pointer k)(cpu := next_task)" "c \<noteq> cpu \<Longrightarrow> idle k' c = idle k c" "idle k' cpu \<Longrightarrow> next_task = None"
    "yielded k' = yielded k" "same_blocks k k'"
    "main_task k' = main_task k" "active_cores k' = active_cores k" "stack_words_at k' = stack_words_at k"
proof -
  have "\<forall>y c. (core (tasks k' y) = core (tasks k y) \<or> core (tasks k' y) = (core (tasks k y))\<lparr>saved_sp := isp\<rparr>) \<and>
    same_ready (tasks k y) (tasks k' y) \<and> same_timer (tasks k y) (tasks k' y) \<and> same_alloc (tasks k y) (tasks k' y) \<and>
    same_delete (tasks k y) (tasks k' y) \<and>
    wait_queues k' = wait_queues k \<and> run_queue k' = run_queue k \<and> time_driver k' = time_driver k \<and> all_tasks k' = all_tasks k \<and>
    to_delete k' = to_delete k \<and> current_task k' = (current_task k)(cpu := next_task) \<and>
    thread_pointer k' = (thread_pointer k)(cpu := next_task) \<and> (c \<noteq> cpu \<longrightarrow> idle k' c = idle k c) \<and> (idle k' cpu \<longrightarrow> next_task = None) \<and>
    yielded k' = yielded k \<and> same_blocks k k' \<and>
    main_task k' = main_task k \<and> active_cores k' = active_cores k \<and> stack_words_at k' = stack_words_at k"
  proof (cases "next_task \<noteq> thread_pointer k cpu \<or> d")
    case True
    with assms(1) have "switch_to cpu sp isp other_task next_task k = (a, b, k')" by (simp add: switch_if_needed_def)
    note s = switch_to_simps [OF this]
    show ?thesis using s(1-5) by (simp add: s(6-19) same_blocks_def)
  next
    case False
    with assms(1,2) have "k' = k" "next_task = current_task k cpu" "thread_pointer k cpu = current_task k cpu"
      by (auto simp: switch_if_needed_def)
    then show ?thesis using assms(3) by (auto simp: same_defs same_blocks_def fun_eq_iff)
  qed
  then show "core (tasks k' y) = core (tasks k y) \<or> core (tasks k' y) = (core (tasks k y))\<lparr>saved_sp := isp\<rparr>"
    "same_ready (tasks k y) (tasks k' y)" "same_timer (tasks k y) (tasks k' y)" "same_alloc (tasks k y) (tasks k' y)"
    "same_delete (tasks k y) (tasks k' y)"
    "wait_queues k' = wait_queues k" "run_queue k' = run_queue k" "time_driver k' = time_driver k" "all_tasks k' = all_tasks k"
    "to_delete k' = to_delete k" "current_task k' = (current_task k)(cpu := next_task)"
    "thread_pointer k' = (thread_pointer k)(cpu := next_task)" "c \<noteq> cpu \<Longrightarrow> idle k' c = idle k c" "idle k' cpu \<Longrightarrow> next_task = None"
    "yielded k' = yielded k" "same_blocks k k'"
    "main_task k' = main_task k" "active_cores k' = active_cores k" "stack_words_at k' = stack_words_at k" by blast+
qed

lemma timer_part_slices:
  assumes "timer_part h (Some td) S" "tq_queue (timer_queue td') = tq_queue (timer_queue td)"
    "tq_next_wakeup (timer_queue td') = tq_next_wakeup (timer_queue td)"
  shows "timer_part h (Some td') S"
  using assms by (simp add: timer_part_def timer_inv_def timer_rel_def)

lemma time_slice_simps [simp]:
  "tq_queue (timer_queue (set_time_slice r c n e td)) = tq_queue (timer_queue td)"
  "tq_next_wakeup (timer_queue (set_time_slice r c n e td)) = tq_next_wakeup (timer_queue td)"
  "td_timer (set_time_slice r c n e td) = td_timer td"
  "tq_queue (timer_queue (ensure_time_slice r c n td)) = tq_queue (timer_queue td)"
  "tq_next_wakeup (timer_queue (ensure_time_slice r c n td)) = tq_next_wakeup (timer_queue td)"
  "td_timer (ensure_time_slice r c n td) = td_timer td"
  by (simp_all add: set_time_slice_def ensure_time_slice_def)

context one_shot_timer
begin

text \<open>The alarm is set for the next wakeup.\<close>

definition armed :: "'t Kernel \<Rightarrow> bool" where
  "armed k \<longleftrightarrow> (\<exists>td. time_driver k = Some td \<and> valid (td_timer td) \<and> current_alarm td = timer_next_wakeup (timer_queue td))"

lemma update_alarm_ok:
  assumes td: "time_driver k = Some td" "valid (td_timer td)" and part: "timer_part (tasks k) (Some td) S"
  obtains td' where "update_alarm cfg T cpu now a b k = Some (k\<lparr>time_driver := Some td'\<rparr>)" "timer_part (tasks k) (Some td') S"
    "armed (k\<lparr>time_driver := Some td'\<rparr>)"
proof -
  let ?td1 = "set_time_slice (tick_rate cfg) cpu now a td"
  let ?td2 = "if b then ensure_time_slice (tick_rate cfg) (other_cpu cpu) now ?td1 else ?td1"
  have v: "valid (td_timer ?td2)" using td(2) by simp
  show thesis
  proof (rule arm_next_wakeup_total [OF v, of now])
    fix td' assume a: "arm_next_wakeup T now ?td2 = Some td'" "valid (td_timer td')" "timer_queue td' = timer_queue ?td2"
      "current_alarm td' = timer_next_wakeup (timer_queue ?td2)"
    have "timer_part (tasks k) (Some td') S" by (rule timer_part_slices [OF part]) (simp_all add: a(3))
    moreover have "update_alarm cfg T cpu now a b k = Some (k\<lparr>time_driver := Some td'\<rparr>)"
      using td(1) a(1) by (simp add: update_alarm_def Let_def)
    moreover have "current_alarm td' = timer_next_wakeup (timer_queue td')" using a(3,4) by (simp only:)
    then have "armed (k\<lparr>time_driver := Some td'\<rparr>)" using a(2) by (simp add: armed_def)
    ultimately show thesis by (intro that)
  qed
qed

lemma reschedule_inv:
  assumes links: "links_inv k v" and pol: "policy_inv (UNIV - {cpu}) k v" and td: "time_driver k = Some td" "valid (td_timer td)"
    and stack: "check_stack cfg cpu sp k"
  obtains next_task f' k' where "reschedule cfg T cpu sp isp now k = Some k'"
    "picks (\<lambda>t. pinned_to (tasks k t) \<noteq> Some (other_cpu cpu) \<and> Some t \<noteq> current_task k (other_cpu cpu))
       (v_ready (requeued cpu k v)) next_task f'"
    "kernel_inv k' ((requeued cpu k v)\<lparr>v_ready := f'\<rparr>)" "armed k'"
    "current_task k' = (current_task k)(cpu := next_task)" "thread_pointer k' = (thread_pointer k)(cpu := next_task)"
    "same_blocks k k'" "main_task k' = main_task k" "active_cores k' = active_cores k" "stack_words_at k' = stack_words_at k"
    "\<And>y. core (tasks k' y) = core (tasks k y) \<or> core (tasks k' y) = (core (tasks k y))\<lparr>saved_sp := isp\<rparr>"
    "\<And>t. next_task = Some t \<Longrightarrow> t \<in> v_all v"
    "\<And>p t. distinct (v_ready (requeued cpu k v) p) \<and> (t \<in> set (v_ready (requeued cpu k v) p) \<longrightarrow> priority (tasks k t) = p)"
    "\<And>c. c \<noteq> cpu \<Longrightarrow> idle k' c = idle k c" "yielded k' = yielded k"
proof (rule requeue_current_inv [OF links pol, of cfg])
  let ?v = "requeued cpu k v" and ?other = "current_task k (other_cpu cpu)"
  fix k1 assume q: "requeue_current cfg cpu k = Some k1" "links_inv k1 ?v" "policy_inv (UNIV - {cpu}) k1 ?v" "same_cpus k k1" "same_blocks k k1"
    "time_driver k1 = time_driver k" "\<And>y. core (tasks k1 y) = core (tasks k y)"
    "\<And>t. thread_pointer k cpu = Some t \<Longrightarrow> task_state (tasks k t) = Ready \<Longrightarrow> t \<in> ready_set (v_ready ?v)"
  have cpus1: "current_task k1 = current_task k" "thread_pointer k1 = thread_pointer k" "idle k1 = idle k" "yielded k1 = yielded k"
    using q(4) by (simp_all add: same_cpus_def)
  note f1 = core_eqD [OF q(7)]
  have rp: "ready_part (tasks k1) (wait_queues k1) (run_queue k1) (v_ready ?v) (v_wait ?v)" using q(2) by (simp add: links_inv_def)
  show thesis
  proof (rule pop_part [OF rp, of "debug_assertions cfg" cpu ?other])
    fix next_task f' rq h
    assume p: "pop_multi_core (debug_assertions cfg) cpu ?other (run_queue k1) (tasks k1) = Some (next_task, rq, h)"
      "picks (\<lambda>t. pinned_to (tasks k1 t) \<noteq> Some (other_cpu cpu) \<and> Some t \<noteq> ?other) (v_ready ?v) next_task f'"
      "ready_part h (wait_queues k1) rq f' (v_wait ?v)" "relinks ready_element UNIV (tasks k1) h"
    let ?k2 = "k1\<lparr>run_queue := rq, tasks := h\<rparr>" and ?v2 = "?v\<lparr>v_ready := f'\<rparr>"
    have core2: "core (h y) = core (tasks k y)" for y using core_relinks [OF p(4), of y] q(7) [of y] by simp
    note f2 = core_eqD [OF core2]
    have links2: "links_inv ?k2 ?v2"
      using q(2) p(3) f1(2) f2(2) relinks_same(1) [OF p(4)] unfolding links_inv_def
      by (auto intro: timer_part_same alloc_part_same delete_part_same)
    note pick = picks_part [OF rp p(2)]
    obtain a b k3 where sw: "switch_if_needed cpu sp isp (thread_pointer k cpu = None \<and> \<not> idle k cpu) ?other next_task ?k2 = (a, b, k3)"
      by (metis prod_cases3)
    have tp: "thread_pointer ?k2 cpu = current_task ?k2 cpu \<or> thread_pointer ?k2 cpu = None \<and> (thread_pointer k cpu = None \<and> \<not> idle k cpu)"
      "idle ?k2 cpu \<longrightarrow> current_task ?k2 cpu = None"
      using policy_invD(11,13) [OF pol, of cpu] cpus1 by auto
    note s = switch_if_needed_simps [OF sw tp]
    have st3: "task_state (tasks k3 y) = task_state (tasks k y)" "priority (tasks k3 y) = priority (tasks k y)" for y
      using core_saved_spD(1,2) [OF s(1), of y] f2(1,2) [of y] by simp_all
    have td3: "time_driver k3 = Some td" using s(8) q(6) td(1) by simp
    have links3: "links_inv k3 ?v2"
      using links2 s(2-5) st3(2) f2(2) unfolding links_inv_def s(6-10)
      by (auto intro: ready_part_same timer_part_same alloc_part_same delete_part_same)
    have pol3: "policy_inv UNIV k3 ?v2"
      by (rule policy_switched [OF q(3), where next_task = next_task]) (use q(8) pick s cpus1 f1(1) st3(1) in auto)
    have tq: "timer_part (tasks k3) (Some td) (v_timer ?v2)" using links3 td3 by (simp add: links_inv_def)
    show thesis
    proof (rule update_alarm_ok [OF td3 td(2) tq, of cfg cpu now a b])
      fix td' assume u: "update_alarm cfg T cpu now a b k3 = Some (k3\<lparr>time_driver := Some td'\<rparr>)" "timer_part (tasks k3) (Some td') (v_timer ?v2)"
        "armed (k3\<lparr>time_driver := Some td'\<rparr>)"
      let ?k = "k3\<lparr>time_driver := Some td'\<rparr>"
      have "kernel_inv ?k ?v2" using links3 pol3 u(2) by (simp add: kernel_inv_def links_inv_def policy_inv_def)
      moreover have "reschedule cfg T cpu sp isp now k = Some ?k"
        using stack q(1) p(1) sw u(1) cpus1 by (simp add: reschedule_eq)
      moreover have "picks (\<lambda>t. pinned_to (tasks k t) \<noteq> Some (other_cpu cpu) \<and> Some t \<noteq> ?other) (v_ready ?v) next_task f'"
        using p(2) f1(3) by simp
      moreover have "same_blocks k ?k" using s(16) q(5) by (simp add: same_blocks_def)
      moreover have "core (tasks ?k y) = core (tasks k y) \<or> core (tasks ?k y) = (core (tasks k y))\<lparr>saved_sp := isp\<rparr>" for y
        using s(1) [of y] core2 [of y] by simp
      moreover have "t \<in> v_all v" if "next_task = Some t" for t using pick(2) [OF that] policy_invD(2) [OF q(3), of t] by simp
      moreover have "distinct (v_ready ?v p) \<and> (t \<in> set (v_ready ?v p) \<longrightarrow> priority (tasks k t) = p)" for p t
        using ready_part_facts(1,5) [OF rp] f1(2) by simp
      ultimately show thesis using u(3) s(11-13,15,17-19) cpus1 q(4) by (intro that [of ?k next_task f']) (simp_all add: same_cpus_def)
    qed
  qed
qed

end

end
