(* ===== verification/Threads.thy ===== *)
theory Threads
  imports Scheduler
begin

text \<open>
  \<open>esp-rtos/src/thread.rs\<close> and the allocator of \<open>lib.rs\<close> it takes its memory from. A thread lives in one
  memory block: the stack guard, the stack, the payload, which is the closure and later the return
  value, and the bookkeeping at the end, whose address is the address of the thread and of its task.
  The wait queue in the block is named by the same address. The allocator below \<open>InternalMemory\<close> is a
  parameter. Addresses have 32 bits; \<open>None\<close> is a panic.
\<close>

section \<open>\<open>InternalMemory\<close>\<close>

text \<open>
  The padding of an allocation is kept in the word before it. \<open>prefix\<close> is the memory that holds these
  words. \<open>malloc\<close> answers the address of a fresh block of the given size.
\<close>

definition align_offset :: "nat \<Rightarrow> nat \<Rightarrow> nat" where
  "align_offset ptr align = (align - ptr mod align) mod align"

definition internal_allocate :: "(nat \<Rightarrow> nat option) \<Rightarrow> nat \<Rightarrow> nat \<Rightarrow> (nat \<Rightarrow> nat) \<Rightarrow> (nat \<times> (nat \<Rightarrow> nat)) option" where
  "internal_allocate malloc bytes align prefix =
    (if align \<le> 4 then map_option (\<lambda>ptr. (ptr, prefix)) (malloc bytes)
     else
       let extra = max align 4 in
       Option.bind (malloc (bytes + extra)) (\<lambda>allocation.
       let ptr = allocation + 4;
           offset = align_offset ptr align;
           data_ptr = ptr + offset
       in Some (data_ptr, prefix(data_ptr - 4 := offset))))"

definition internal_deallocate :: "nat \<Rightarrow> nat \<Rightarrow> (nat \<Rightarrow> nat) \<Rightarrow> nat" where
  "internal_deallocate ptr align prefix =
    (if align \<le> 4 then ptr else let prefix_ptr = ptr - 4; prefix_bytes = prefix prefix_ptr in prefix_ptr - prefix_bytes)"

section \<open>Memory layout\<close>

definition STACK_ALIGN :: nat where "STACK_ALIGN = 16"

definition MIN_STACK :: nat where "MIN_STACK = 512"

definition next_multiple_of :: "nat \<Rightarrow> nat \<Rightarrow> nat" where
  "next_multiple_of n m = (if n mod m = 0 then n else n + (m - n mod m))"

definition GUARD_RESERVE :: "bool \<Rightarrow> nat \<Rightarrow> nat" where
  "GUARD_RESERVE overflow_detection guard_offset =
    (if overflow_detection then next_multiple_of (guard_offset + 4) STACK_ALIGN else 0)"

text \<open>The mask of \<open>align_down\<close> clears the bits below a power of two.\<close>

definition align_down :: "nat \<Rightarrow> nat \<Rightarrow> nat" where
  "align_down addr align = addr - addr mod align"

record ThreadConfig =
  overflow_detection :: bool
  guard_offset :: nat
  resources_size :: nat

definition guard_reserve :: "ThreadConfig \<Rightarrow> nat" where
  "guard_reserve tc = GUARD_RESERVE (overflow_detection tc) (guard_offset tc)"

record Layout =
  layout_size :: nat
  layout_align :: nat

text \<open>\<open>Layout::from_size_align\<close> refuses a size that, rounded up to the alignment, exceeds \<open>isize::MAX\<close>.\<close>

definition block_layout :: "ThreadConfig \<Rightarrow> nat \<Rightarrow> Layout option" where
  "block_layout tc bytes =
    (let total = guard_reserve tc + bytes + resources_size tc
     in if total \<le> 2 ^ 31 - STACK_ALIGN then Some \<lparr>layout_size = total, layout_align = STACK_ALIGN\<rparr> else None)"

text \<open>
  A subtraction that underflows panics with debug assertions and wraps without. The address of the
  payload is below the bookkeeping, and enough stack must remain below it.
\<close>

definition reserve_payload :: "ThreadConfig \<Rightarrow> bool \<Rightarrow> nat \<Rightarrow> nat \<Rightarrow> Layout \<Rightarrow> nat option" where
  "reserve_payload tc dbg base th layout =
    (if dbg \<and> th < layout_size layout then None
     else
       let payload_addr = align_down ((th + 2 ^ 32 - layout_size layout) mod 2 ^ 32) (max (layout_align layout) 4)
       in if align_down payload_addr STACK_ALIGN \<ge> base + guard_reserve tc + MIN_STACK then Some payload_addr else None)"

section \<open>Spawning\<close>

record ThreadOptions =
  opt_name :: "string option"
  opt_priority :: nat
  opt_pinned_to :: "Cpu option"

definition options_new :: ThreadOptions where
  "options_new = \<lparr>opt_name = None, opt_priority = 0, opt_pinned_to = None\<rparr>"

record ThreadSpawner =
  sp_base :: nat
  sp_thread :: nat
  sp_heap :: bool
  sp_options :: ThreadOptions

datatype OutOfMemory = OutOfMemory nat

text \<open>
  Rounding the size up can exceed the 32 bits of an address, which panics with debug assertions and
  wraps without. \<open>alloc\<close> is \<open>InternalMemory.allocate\<close>.
\<close>

definition try_new :: "ThreadConfig \<Rightarrow> bool \<Rightarrow> (Layout \<Rightarrow> nat option) \<Rightarrow> nat \<Rightarrow> (OutOfMemory + ThreadSpawner) option" where
  "try_new tc dbg alloc stack_size =
    (let rounded = next_multiple_of stack_size STACK_ALIGN in
     if dbg \<and> rounded \<ge> 2 ^ 32 then None
     else
       let bytes = rounded mod 2 ^ 32 in
       Option.bind (block_layout tc bytes) (\<lambda>layout.
       case alloc layout of
         None \<Rightarrow> Some (Inl (OutOfMemory stack_size))
       | Some base \<Rightarrow>
           Some (Inr \<lparr>sp_base = base, sp_thread = base + guard_reserve tc + bytes, sp_heap = True, sp_options = options_new\<rparr>)))"

definition spawner_new :: "ThreadConfig \<Rightarrow> bool \<Rightarrow> (Layout \<Rightarrow> nat option) \<Rightarrow> nat \<Rightarrow> ThreadSpawner option" where
  "spawner_new tc dbg alloc stack_size = (case try_new tc dbg alloc stack_size of Some (Inr s) \<Rightarrow> Some s | _ \<Rightarrow> None)"

text \<open>\<open>base\<close> is the address of a \<open>Stack<SIZE>\<close>, whose fields lie in the order of its declaration.\<close>

definition from_static :: "ThreadConfig \<Rightarrow> nat \<Rightarrow> nat \<Rightarrow> ThreadSpawner" where
  "from_static tc base bytes =
     \<lparr>sp_base = base, sp_thread = base + guard_reserve tc + bytes, sp_heap = False, sp_options = options_new\<rparr>"

definition with_name :: "string \<Rightarrow> ThreadSpawner \<Rightarrow> ThreadSpawner" where
  "with_name name s = s\<lparr>sp_options := (sp_options s)\<lparr>opt_name := Some name\<rparr>\<rparr>"

definition with_priority :: "nat \<Rightarrow> ThreadSpawner \<Rightarrow> ThreadSpawner option" where
  "with_priority p s = (if p \<le> MAX_PRIORITY then Some (s\<lparr>sp_options := (sp_options s)\<lparr>opt_priority := p\<rparr>\<rparr>) else None)"

definition with_pinned_to :: "Cpu \<Rightarrow> ThreadSpawner \<Rightarrow> ThreadSpawner" where
  "with_pinned_to cpu s = s\<lparr>sp_options := (sp_options s)\<lparr>opt_pinned_to := Some cpu\<rparr>\<rparr>"

text \<open>The stack pointer of a new context is the top of the stack, aligned.\<close>

definition Task_new :: "ThreadOptions \<Rightarrow> nat \<Rightarrow> nat \<Rightarrow> nat \<Rightarrow> Task" where
  "Task_new options bottom words th =
    (let stack_top = bottom + 4 * words in
     \<lparr>task_state = Ready, stack_bottom = bottom, stack_words = words, saved_sp = align_down stack_top STACK_ALIGN,
      stack_guard = bottom, stack_guard_value = 0, priority = priority_new (opt_priority options),
      pinned_to = opt_pinned_to options, wakeup_at = 0, in_run_or_wait_queue = False, timer_queued = False,
      current_wait_queue = None, alloc_list_item = None, ready_queue_item = None, timer_queue_item = None,
      delete_list_item = None, thread = Some th\<rparr>)"

definition prepare :: "ThreadConfig \<Rightarrow> Config \<Rightarrow> ThreadSpawner \<Rightarrow> Layout \<Rightarrow> 't Kernel \<Rightarrow> 't Kernel option" where
  "prepare tc cfg s payload_layout k =
    (if time_driver k = None then None
     else
       Option.bind (reserve_payload tc (debug_assertions cfg) (sp_base s) (sp_thread s) payload_layout) (\<lambda>addr.
       Some (k\<lparr>threads := (threads k)(sp_thread s \<mapsto>
          \<lparr>has_result = False, detached = False, released = False, on_heap = sp_heap s, join_queue = sp_thread s,
           payload = NoPayload, payload_addr = addr\<rparr>),
         wait_queues := (wait_queues k)(sp_thread s := wait_new)\<rparr>)))"

definition launch :: "ThreadConfig \<Rightarrow> Config \<Rightarrow> nat \<Rightarrow> ThreadOptions \<Rightarrow> nat \<Rightarrow> 't Kernel \<Rightarrow> 't Kernel option" where
  "launch tc cfg base options th k =
     Option.bind (threads k th) (\<lambda>inner.
     let stack_top = align_down (payload_addr inner) STACK_ALIGN;
         k1 = k\<lparr>tasks := (tasks k)(th := Task_new options base ((stack_top - base) div 4) th)\<rparr>
     in register_task cfg th (set_up_stack_guard cfg th (guard_offset tc) 0xDEEDBAAD k1))"

definition set_payload :: "nat \<Rightarrow> Payload \<Rightarrow> 't Kernel \<Rightarrow> 't Kernel option" where
  "set_payload th p k = Option.bind (threads k th) (\<lambda>inner. Some (k\<lparr>threads := (threads k)(th \<mapsto> inner\<lparr>payload := p\<rparr>)\<rparr>))"

record JoinHandle =
  jh_thread :: nat
  jh_options :: ThreadOptions

text \<open>\<open>layout\<close> is the layout of the larger of the closure and the return value.\<close>

definition spawn :: "ThreadConfig \<Rightarrow> Config \<Rightarrow> ThreadSpawner \<Rightarrow> Layout \<Rightarrow> 't Kernel \<Rightarrow> (JoinHandle \<times> 't Kernel) option" where
  "spawn tc cfg s layout k =
     Option.bind (prepare tc cfg s layout k) (\<lambda>k1.
     Option.bind (set_payload (sp_thread s) Closure k1) (\<lambda>k2.
     Option.bind (launch tc cfg (sp_base s) (sp_options s) (sp_thread s) k2) (\<lambda>k3.
     Some (\<lparr>jh_thread = sp_thread s, jh_options = sp_options s\<rparr>, k3))))"

definition spawn_extern :: "ThreadConfig \<Rightarrow> Config \<Rightarrow> ThreadSpawner \<Rightarrow> 't Kernel \<Rightarrow> (TaskPtr \<times> 't Kernel) option" where
  "spawn_extern tc cfg s k =
     Option.bind (prepare tc cfg s \<lparr>layout_size = 0, layout_align = 1\<rparr> k) (\<lambda>k1.
     Option.bind (threads k1 (sp_thread s)) (\<lambda>inner.
     Option.bind (launch tc cfg (sp_base s) (sp_options s) (sp_thread s)
         (k1\<lparr>threads := (threads k1)(sp_thread s \<mapsto> inner\<lparr>detached := True\<rparr>)\<rparr>)) (\<lambda>k2.
     Some (sp_thread s, k2))))"

definition spawner_drop :: "ThreadSpawner \<Rightarrow> 't Kernel \<Rightarrow> 't Kernel" where
  "spawner_drop s k = deallocate (sp_base s) (sp_heap s) k"

section \<open>Running and joining\<close>

text \<open>
  \<open>thread_entry\<close> moves the closure out of the block and runs it; \<open>publish\<close> stores its result. Nobody else
  touches the payload before \<open>has_result\<close> is set, so the two steps of \<open>publish\<close> are one here.
\<close>

definition take_closure :: "nat \<Rightarrow> 't Kernel \<Rightarrow> 't Kernel option" where
  "take_closure th k = set_payload th NoPayload k"

definition publish :: "nat \<Rightarrow> 't Kernel \<Rightarrow> 't Kernel option" where
  "publish th k =
     Option.bind (threads k th) (\<lambda>inner.
     Some (k\<lparr>threads := (threads k)(th \<mapsto> inner\<lparr>has_result := \<not> detached inner,
        payload := (if detached inner then NoPayload else ReturnValue)\<rparr>)\<rparr>))"

definition is_finished :: "nat \<Rightarrow> 't Kernel \<Rightarrow> bool option" where
  "is_finished th k = map_option has_result (threads k th)"

text \<open>
  One round of the loop of \<open>join\<close>, called by the current task of \<open>cpu\<close>: whether the thread is released.
  \<open>join_finish\<close> follows when it is. It moves the return value out of the block.
\<close>

definition join_poll :: "Config \<Rightarrow> Cpu \<Rightarrow> u64 \<Rightarrow> nat \<Rightarrow> 't Kernel \<Rightarrow> (bool \<times> 't Kernel) option" where
  "join_poll cfg cpu now th k =
     Option.bind (thread_pointer k cpu) (\<lambda>current.
     if current = th then None
     else
       Option.bind (threads k th) (\<lambda>inner.
       if released inner then Some (True, k)
       else map_option (Pair False) (wait_with_deadline cfg cpu now (join_queue inner) U64_MAX k)))"

definition join_finish :: "Config \<Rightarrow> JoinHandle \<Rightarrow> 't Kernel \<Rightarrow> (Payload \<times> ThreadSpawner \<times> 't Kernel) option" where
  "join_finish cfg handle k =
     Option.bind (threads k (jh_thread handle)) (\<lambda>inner.
     if debug_assertions cfg \<and> \<not> has_result inner then None
     else
       let base = stack_bottom (tasks k (jh_thread handle)) in
       Option.bind (destroy cfg (jh_thread handle) k) (\<lambda>k'.
       Some (payload inner,
         \<lparr>sp_base = base, sp_thread = jh_thread handle, sp_heap = on_heap inner, sp_options = jh_options handle\<rparr>, k')))"

definition drop_handle :: "Config \<Rightarrow> nat \<Rightarrow> 't Kernel \<Rightarrow> 't Kernel option" where
  "drop_handle cfg th k =
     Option.bind (threads k th) (\<lambda>inner.
     let k1 = k\<lparr>threads := (threads k)(th \<mapsto> inner\<lparr>detached := True, payload := (if has_result inner then NoPayload else payload inner)\<rparr>)\<rparr>
     in if released inner then free cfg th k1 else Some k1)"

section \<open>Properties of the memory layout\<close>

lemma align_offset_aligns: "align > 0 \<Longrightarrow> (ptr + align_offset ptr align) mod align = 0"
proof -
  assume a: "align > 0"
  show ?thesis
  proof (cases "ptr mod align = 0")
    case True
    with a show ?thesis by (simp add: align_offset_def)
  next
    case False
    then have "align_offset ptr align = align - ptr mod align" using a by (simp add: align_offset_def)
    moreover have "ptr mod align < align" using a by simp
    ultimately have "ptr + align_offset ptr align = ptr div align * align + align"
      using div_mult_mod_eq [of ptr align] by linarith
    then show ?thesis by simp
  qed
qed

lemma align_offset_less: "align > 0 \<Longrightarrow> align_offset ptr align < align"
  by (simp add: align_offset_def)

text \<open>The gap that makes a 4-aligned address a multiple of a power of two is a multiple of 4.\<close>

lemma align_offset_bound:
  assumes "4 dvd ptr" "4 dvd align" "align > 0"
  shows "align_offset ptr align + 4 \<le> align"
proof -
  have "4 dvd ptr mod align" using assms by (simp add: dvd_mod)
  moreover have "ptr mod align < align" using assms(3) by simp
  ultimately have "4 dvd align - ptr mod align" using assms(2) by (simp add: dvd_diff_nat)
  then have "4 dvd align_offset ptr align" unfolding align_offset_def using assms(2) by (simp add: dvd_mod)
  moreover have "align_offset ptr align < align" by (rule align_offset_less [OF assms(3)])
  ultimately show ?thesis using assms(2) by (auto elim!: dvdE)
qed

lemma align_down_facts:
  assumes "align > 0"
  shows "align_down addr align \<le> addr" "addr < align_down addr align + align" "align dvd align_down addr align"
proof -
  have "addr mod align < align" using assms by simp
  then show "align_down addr align \<le> addr" "addr < align_down addr align + align"
    using mod_less_eq_dividend [of addr align] by (simp_all add: align_down_def)
  show "align dvd align_down addr align" by (simp add: align_down_def dvd_minus_mod)
qed

lemma next_multiple_of_facts:
  assumes "m > 0"
  shows "m dvd next_multiple_of n m" "n \<le> next_multiple_of n m" "next_multiple_of n m < n + m"
proof -
  have *: "n mod m < m" "n = n div m * m + n mod m" using assms by simp_all
  have eq: "next_multiple_of n m = (if n mod m = 0 then n else n div m * m + m)"
    using * unfolding next_multiple_of_def by (metis add.assoc add_diff_inverse_nat less_imp_le not_less)
  then show "m dvd next_multiple_of n m" by (simp add: mod_eq_0_iff_dvd)
  have "n div m * m \<le> n" by simp
  with * assms show "n \<le> next_multiple_of n m" "next_multiple_of n m < n + m" unfolding eq by (cases "n mod m = 0"; simp; linarith)+
qed

lemma internal_allocate_ok:
  assumes "internal_allocate malloc n align prefix = Some (p, prefix')" "align = 2 ^ e"
    and "\<And>m a. malloc m = Some a \<Longrightarrow> 4 dvd a"
  obtains a where "malloc (if align \<le> 4 then n else n + align) = Some a" "align dvd p" "a \<le> p"
    "p + n \<le> a + (if align \<le> 4 then n else n + align)" "internal_deallocate p align prefix' = a"
proof (cases "align \<le> 4")
  case True
  then have "malloc n = Some p" using assms(1) by (auto simp: internal_allocate_def)
  moreover have "align dvd 4"
  proof -
    have "e \<le> 2" using True assms(2) power_le_imp_le_exp [of "2 :: nat" e 2] by simp
    then show ?thesis using assms(2) le_imp_power_dvd [of e 2 "2 :: nat"] by simp
  qed
  ultimately show thesis using True assms(3) [of n p] by (intro that [of p]) (auto simp: internal_deallocate_def intro: dvd_trans)
next
  case False
  then obtain a where a: "malloc (n + align) = Some a" "p = a + 4 + align_offset (a + 4) align" "prefix' = prefix(p - 4 := align_offset (a + 4) align)"
    using assms(1) by (auto simp: internal_allocate_def Let_def bind_eq_Some_conv max_def)
  have "2 \<le> e" using False assms(2) by (cases "e = 0"; cases "e = 1") auto
  then have al: "4 dvd align" "align > 0" using assms(2) le_imp_power_dvd [of 2 e "2 :: nat"] by simp_all
  have "4 dvd a + 4" using assms(3) [OF a(1)] by simp
  from align_offset_bound [OF this al] have bound: "align_offset (a + 4) align + 4 \<le> align" .
  have "align dvd p" using align_offset_aligns [OF al(2), of "a + 4"] a(2) by (simp add: mod_eq_0_iff_dvd)
  moreover have "internal_deallocate p align prefix' = a" using False a(2,3) by (simp add: internal_deallocate_def)
  ultimately show thesis using False a bound by (intro that [of a]) simp_all
qed

text \<open>The payload fits between the stack and the bookkeeping, and at least \<open>MIN_STACK\<close> bytes of stack remain.\<close>

lemma reserve_payload_ok:
  assumes "reserve_payload tc dbg base th l = Some p" "layout_size l \<le> th" "th < 2 ^ 32"
  shows "p + layout_size l \<le> th" "max (layout_align l) 4 dvd p" "align_down p STACK_ALIGN \<le> p"
    "base + guard_reserve tc + MIN_STACK \<le> align_down p STACK_ALIGN"
proof -
  have m: "(th + 2 ^ 32 - layout_size l) mod 2 ^ 32 = th - layout_size l"
  proof -
    have "th + 2 ^ 32 - layout_size l = (th - layout_size l) + 2 ^ 32" using assms(2) by simp
    moreover have "th - layout_size l < 2 ^ 32" using assms(3) by simp
    ultimately show ?thesis by (metis mod_add_self2 mod_less)
  qed
  have p: "p = align_down (th - layout_size l) (max (layout_align l) 4)"
    and fits: "base + guard_reserve tc + MIN_STACK \<le> align_down p STACK_ALIGN"
    using assms(1) unfolding reserve_payload_def Let_def m by (auto split: if_splits)
  have al: "max (layout_align l) 4 > 0" by simp
  show "p + layout_size l \<le> th" using align_down_facts(1) [OF al, of "th - layout_size l"] p assms(2) by linarith
  show "max (layout_align l) 4 dvd p" unfolding p by (rule align_down_facts(3) [OF al])
  show "align_down p STACK_ALIGN \<le> p" by (rule align_down_facts(1)) (simp add: STACK_ALIGN_def)
  show "base + guard_reserve tc + MIN_STACK \<le> align_down p STACK_ALIGN" by (rule fits)
qed

end
