(* ===== verification/System_Invariant.thy ===== *)
theory System_Invariant
  imports Scheduler_Run Threads
begin

text \<open>
  The invariant of the scheduler together with the memory blocks of the threads: every task but the
  main ones lives in a block that is not yet released, every block that is not released belongs to a
  task of the scheduler, and nobody waits in the queue of a block that is detached or released. With it
  the deletion of tasks, the scheduler run and the operations on threads are shown to succeed and to
  keep the invariant, so no block is used after it was freed or freed twice.
\<close>

section \<open>The invariant\<close>

definition listed :: "View \<Rightarrow> TaskPtr set" where
  "listed v = v_all v \<union> v_del v ProCpu \<union> v_del v AppCpu"

text \<open>\<open>X\<close> are the tasks a scheduler run has taken off the list of deleted tasks and not yet released.\<close>

definition blocks_inv :: "Cpu set \<Rightarrow> TaskPtr set \<Rightarrow> 't Kernel \<Rightarrow> View \<Rightarrow> bool" where
  "blocks_inv C X k v \<longleftrightarrow>
     (\<forall>t \<in> listed v \<union> X. is_main_task k t \<or> thread (tasks k t) = Some t \<and> (\<exists>inner. threads k t = Some inner \<and> \<not> released inner)) \<and>
     (\<forall>c. \<forall>t \<in> v_del v c \<union> X. \<not> is_main_task k t) \<and>
     (\<forall>t inner. threads k t = Some inner \<longrightarrow> join_queue inner = t \<and> \<not> is_main_task k t \<and>
        (detached inner \<or> released inner \<longrightarrow> v_wait v t = {}) \<and> (\<not> released inner \<longrightarrow> t \<in> listed v \<union> X)) \<and>
     (\<forall>c\<in>C. \<forall>t. current_task k c = Some t \<longrightarrow> t \<in> v_all v \<or> t \<in> v_del v c)"

definition sys_inv :: "Cpu set \<Rightarrow> TaskPtr set \<Rightarrow> 't Kernel \<Rightarrow> View \<Rightarrow> bool" where
  "sys_inv C X k v \<longleftrightarrow> links_inv k v \<and> policy_inv C k v \<and> blocks_inv C X k v \<and> time_driver k \<noteq> None"

lemma blocks_invD:
  assumes "blocks_inv C X k v"
  shows "t \<in> listed v \<union> X \<Longrightarrow> \<not> is_main_task k t \<Longrightarrow> thread (tasks k t) = Some t"
    "t \<in> listed v \<union> X \<Longrightarrow> \<not> is_main_task k t \<Longrightarrow> \<exists>inner. threads k t = Some inner \<and> \<not> released inner"
    "t \<in> v_del v c \<union> X \<Longrightarrow> \<not> is_main_task k t"
    "threads k t = Some inner \<Longrightarrow> join_queue inner = t" "threads k t = Some inner \<Longrightarrow> \<not> is_main_task k t"
    "threads k t = Some inner \<Longrightarrow> detached inner \<or> released inner \<Longrightarrow> v_wait v t = {}"
    "threads k t = Some inner \<Longrightarrow> \<not> released inner \<Longrightarrow> t \<in> listed v \<union> X"
    "c \<in> C \<Longrightarrow> current_task k c = Some t \<Longrightarrow> t \<in> v_all v \<or> t \<in> v_del v c"
  using assms unfolding blocks_inv_def by blast+

lemma blocks_invI:
  assumes "\<And>t. t \<in> listed v \<union> X \<Longrightarrow> \<not> is_main_task k t \<Longrightarrow> thread (tasks k t) = Some t \<and> (\<exists>inner. threads k t = Some inner \<and> \<not> released inner)"
    and "\<And>c t. t \<in> v_del v c \<union> X \<Longrightarrow> \<not> is_main_task k t"
    and "\<And>t inner. threads k t = Some inner \<Longrightarrow> join_queue inner = t \<and> \<not> is_main_task k t"
    and "\<And>t inner. threads k t = Some inner \<Longrightarrow> detached inner \<or> released inner \<Longrightarrow> v_wait v t = {}"
    and "\<And>t inner. threads k t = Some inner \<Longrightarrow> \<not> released inner \<Longrightarrow> t \<in> listed v \<union> X"
    and "\<And>c t. c \<in> C \<Longrightarrow> current_task k c = Some t \<Longrightarrow> t \<in> v_all v \<or> t \<in> v_del v c"
  shows "blocks_inv C X k v"
  unfolding blocks_inv_def using assms by blast

lemma is_main_task_cong: "main_task k' = main_task k \<Longrightarrow> is_main_task k' t = is_main_task k t"
  by (simp add: is_main_task_def)

text \<open>Operations that leave the blocks and the lists of tasks alone, and only take tasks out of wait queues.\<close>

lemma blocks_inv_mono:
  assumes "blocks_inv C X k v" "\<And>y. thread (tasks k' y) = thread (tasks k y)" "threads k' = threads k" "main_task k' = main_task k"
    "current_task k' = current_task k" "v_all v' = v_all v" "v_del v' = v_del v" "\<And>i. v_wait v' i \<subseteq> v_wait v i"
  shows "blocks_inv C X k' v'"
proof -
  note b = blocks_invD [OF assms(1)] and m = is_main_task_cong [OF assms(4)]
  have l: "listed v' = listed v" by (simp add: listed_def assms(6,7))
  show ?thesis
  proof (rule blocks_invI, unfold l m assms(2,3,5,6,7))
    fix t inner assume "threads k t = Some inner" "detached inner \<or> released inner"
    then have "v_wait v t = {}" by (rule b(6))
    with assms(8) [of t] show "v_wait v' t = {}" by simp
  qed (use b(1-5,7,8) in simp_all)
qed

lemma wakes_frame: "wakes S v v' \<Longrightarrow> v_all v' = v_all v \<and> v_del v' = v_del v \<and> (\<forall>i. v_wait v' i \<subseteq> v_wait v i)"
  by (auto simp: wakes_def)

lemma woken_tasksD:
  assumes "woken_tasks S h h'"
  shows "thread (h' y) = thread (h y)" "priority (h' y) = priority (h y)" "stack_bottom (h' y) = stack_bottom (h y)"
    "stack_words (h' y) = stack_words (h y)" "saved_sp (h' y) = saved_sp (h y)" "stack_guard (h' y) = stack_guard (h y)"
    "stack_guard_value (h' y) = stack_guard_value (h y)" "pinned_to (h' y) = pinned_to (h y)"
    "task_state (h' y) = (if y \<in> S then Ready else task_state (h y))"
proof -
  have *: "core (h' y) = (if y \<in> S then (core (h y))\<lparr>task_state := Ready\<rparr> else core (h y))" using assms by (simp add: woken_tasks_def)
  show "thread (h' y) = thread (h y)" "priority (h' y) = priority (h y)" "stack_bottom (h' y) = stack_bottom (h y)"
    "stack_words (h' y) = stack_words (h y)" "saved_sp (h' y) = saved_sp (h y)" "stack_guard (h' y) = stack_guard (h y)"
    "stack_guard_value (h' y) = stack_guard_value (h y)" "pinned_to (h' y) = pinned_to (h y)"
    "task_state (h' y) = (if y \<in> S then Ready else task_state (h y))"
    using arg_cong [OF *, of thread] arg_cong [OF *, of priority] arg_cong [OF *, of stack_bottom] arg_cong [OF *, of stack_words]
      arg_cong [OF *, of saved_sp] arg_cong [OF *, of stack_guard] arg_cong [OF *, of stack_guard_value] arg_cong [OF *, of pinned_to]
      arg_cong [OF *, of task_state] by (simp_all split: if_splits)
qed

section \<open>Releasing a thread\<close>

lemma wait_queue_empty: "ready_part h wqs rq f W \<Longrightarrow> W i = {} \<Longrightarrow> list_is_empty (waiting_tasks (wqs i))"
  unfolding ready_part_def ready_inv_def waits_rel_def by (metis ready_link.list_is_empty_iff set_empty)

lemma links_inv_threads [simp]: "links_inv (k\<lparr>threads := f\<rparr>) v = links_inv k v" "links_inv (k\<lparr>freed := g\<rparr>) v = links_inv k v"
  by (simp_all add: links_inv_def)

lemma policy_inv_threads [simp]: "policy_inv C (k\<lparr>threads := f\<rparr>) v = policy_inv C k v" "policy_inv C (k\<lparr>freed := g\<rparr>) v = policy_inv C k v"
  by (simp_all add: policy_inv_def)

lemma free_inv:
  assumes "links_inv k v" "threads k th = Some inner" "v_wait v (join_queue inner) = {}"
  shows "free cfg th k = Some (deallocate (stack_bottom (tasks k th)) (on_heap inner) (k\<lparr>threads := (threads k)(th := None)\<rparr>))"
proof -
  have "ready_part (tasks k) (wait_queues k) (run_queue k) (v_ready v) (v_wait v)" using assms(1) by (simp add: links_inv_def)
  from wait_queue_empty [OF this assms(3)] show ?thesis using assms(2) by (simp add: free_def destroy_def Let_def)
qed

lemma release_inv:
  assumes inv: "sys_inv C X k v" and th: "th \<in> X" "th \<notin> listed v"
  obtains inner k' v' where "threads k th = Some inner" "\<not> released inner" "release cfg th k = Some k'" "sys_inv C (X - {th}) k' v'"
    "wakes (if detached inner then {} else v_wait v th) v v'" "woken_tasks (if detached inner then {} else v_wait v th) (tasks k) (tasks k')"
    "same_cpus k k'" "threads k' = (threads k)(th := (if detached inner then None else Some (inner\<lparr>released := True\<rparr>)))"
    "freed k' = (if detached inner \<and> on_heap inner then [stack_bottom (tasks k th)] else []) @ freed k"
proof -
  have links: "links_inv k v" and pol: "policy_inv C k v" and blocks: "blocks_inv C X k v" and td: "time_driver k \<noteq> None"
    using inv by (simp_all add: sys_inv_def)
  note b = blocks_invD [OF blocks]
  have nm: "\<not> is_main_task k th" using th(1) b(3) by blast
  obtain inner where inner: "threads k th = Some inner" "\<not> released inner" using b(2) [of th] th(1) nm by blast
  have jq: "join_queue inner = th" by (rule b(4) [OF inner(1)])
  let ?x = "if detached inner then None else Some (inner\<lparr>released := True\<rparr>)"
  have keep: "blocks_inv C (X - {th}) k' v'"
    if "threads k' = (threads k)(th := ?x)" "\<And>y. thread (tasks k' y) = thread (tasks k y)" "same_cpus k k'"
      "v_all v' = v_all v" "v_del v' = v_del v" "\<And>i. v_wait v' i \<subseteq> v_wait v i" "\<not> detached inner \<Longrightarrow> v_wait v' th = {}" for k' v'
  proof -
    have l: "listed v' = listed v" using that by (simp add: listed_def)
    have c: "current_task k' = current_task k" "is_main_task k' t = is_main_task k t" for t
      using that(3) by (simp_all add: same_cpus_def is_main_task_def)
    have e: "v_wait v' t = {}" if "v_wait v t = {}" for t using \<open>\<And>i. v_wait v' i \<subseteq> v_wait v i\<close> [of t] that by simp
    show ?thesis
    proof (rule blocks_invI, unfold l c that(1,2,4,5))
      fix t assume t: "t \<in> listed v \<union> (X - {th})" "\<not> is_main_task k t"
      then have "t \<noteq> th" using th(2) by blast
      then show "thread (tasks k t) = Some t \<and> (\<exists>inner. ((threads k)(th := ?x)) t = Some inner \<and> \<not> released inner)"
        using b(1,2) [of t] t by auto
    next
      fix t i assume "((threads k)(th := ?x)) t = Some i" "detached i \<or> released i"
      then show "v_wait v' t = {}" using that(7) e b(6) [of t i] by (cases "t = th") (auto split: if_splits)
    next
      fix t i assume "((threads k)(th := ?x)) t = Some i" "\<not> released i"
      then show "t \<in> listed v \<union> (X - {th})" using b(7) [of t i] by (cases "t = th") (auto split: if_splits)
    next
      fix t i assume "((threads k)(th := ?x)) t = Some i"
      then show "join_queue i = t \<and> \<not> is_main_task k t" using b(4,5) [of t] jq nm by (cases "t = th") (auto split: if_splits)
    qed (use b(3,8) in auto)
  qed
  let ?k1 = "k\<lparr>threads := (threads k)(th \<mapsto> inner\<lparr>released := True\<rparr>)\<rparr>"
  have links1: "links_inv ?k1 v" and pol1: "policy_inv C ?k1 v" using links pol by simp_all
  have td1: "time_driver ?k1 \<noteq> None" using td by simp
  show thesis
  proof (cases "detached inner")
    case True
    let ?k' = "deallocate (stack_bottom (tasks k th)) (on_heap inner) (k\<lparr>threads := (threads k)(th := None)\<rparr>)"
    have "v_wait v (join_queue (inner\<lparr>released := True\<rparr>)) = {}" using b(6) [OF inner(1)] True jq by simp
    from free_inv [OF links1 _ this, of th cfg] have "free cfg th ?k1 = Some ?k'" by simp
    then have r: "release cfg th k = Some ?k'" using inner(1) True by (simp add: release_def Let_def)
    have cpus: "same_cpus k ?k'" and parts: "links_inv ?k' v" "policy_inv C ?k' v" "time_driver ?k' \<noteq> None" "tasks ?k' = tasks k"
      using links pol td by (simp_all add: deallocate_def same_cpus_def)
    have "threads ?k' = (threads k)(th := ?x)" using True by (simp add: deallocate_def)
    from keep [OF this _ cpus] have "blocks_inv C (X - {th}) ?k' v" using True parts(4) by simp
    then show thesis using True inner parts cpus r wakes_refl
      by (intro that [of inner ?k' v]) (simp_all add: sys_inv_def woken_tasks_def deallocate_def)
  next
    case False
    from notify_inv [OF links1 pol1 td1, of cfg th] obtain k' v' where
      n: "notify cfg th ?k1 = Some k'" "links_inv k' v'" "policy_inv C k' v'" "same_cpus ?k1 k'" "same_blocks ?k1 k'"
        "wakes (v_wait v th) v v'" "woken_tasks (v_wait v th) (tasks ?k1) (tasks k')" by blast
    have cpus: "same_cpus k k'" using n(4) by (simp add: same_cpus_def)
    have thr: "threads k' = (threads k)(th := ?x)" "freed k' = freed k" using n(5) False by (simp_all add: same_blocks_def)
    have "blocks_inv C (X - {th}) k' v'"
      by (rule keep [OF thr(1) _ cpus]) (use wakes_frame [OF n(6)] n(6) woken_tasksD(1) [OF n(7)] in \<open>simp_all add: wakes_def\<close>)
    moreover have "time_driver k' \<noteq> None" using cpus td by (auto simp: same_cpus_def)
    moreover have "release cfg th k = Some k'" using inner(1) False jq n(1) by (simp add: release_def Let_def)
    ultimately show thesis using False inner n cpus thr by (intro that [of inner k' v']) (simp_all add: sys_inv_def)
  qed
qed

section \<open>Deleting the marked tasks\<close>

definition stack_fine :: "Config \<Rightarrow> 't Kernel \<Rightarrow> TaskPtr \<Rightarrow> bool" where
  "stack_fine cfg k t \<longleftrightarrow> ensure_no_stack_overflow cfg k t (saved_sp (tasks k t))"

lemma stack_fine_core:
  "core (tasks k' t) = core (tasks k t) \<Longrightarrow> stack_words_at k' = stack_words_at k \<Longrightarrow> stack_fine cfg k' t = stack_fine cfg k t"
  using core_eqD [of "tasks k' t" "tasks k t"]
  by (simp add: stack_fine_def ensure_no_stack_overflow_def owns_stack_pointer_def stack_range_def)

lemma stack_fine_woken: "woken_tasks S (tasks k) (tasks k') \<Longrightarrow> stack_words_at k' = stack_words_at k \<Longrightarrow> stack_fine cfg k' t = stack_fine cfg k t"
  using woken_tasksD [of S "tasks k" "tasks k'" t]
  by (simp add: stack_fine_def ensure_no_stack_overflow_def owns_stack_pointer_def stack_range_def)

lemma owns_core: "core t' = core t \<Longrightarrow> owns_stack_pointer t' = owns_stack_pointer t"
  using core_eqD [of t' t] by (simp add: fun_eq_iff owns_stack_pointer_def stack_range_def)

lemma owns_woken: "woken_tasks S h h' \<Longrightarrow> owns_stack_pointer (h' t) = owns_stack_pointer (h t)"
  using woken_tasksD [of S h h' t] by (simp add: fun_eq_iff owns_stack_pointer_def stack_range_def)

definition released_block :: "ThreadInner \<Rightarrow> ThreadInner option" where
  "released_block inner = (if detached inner then None else Some (inner\<lparr>released := True\<rparr>))"

text \<open>Taking the first marked task off the list.\<close>

lemma pop_deleted_inv:
  assumes inv: "sys_inv C X k v" and cpu: "cpu \<notin> C"
    and pop: "list_pop delete_element (to_delete k cpu) (tasks k) = (Some t, l, h)" "t \<in> v_del v cpu"
      "delete_part h ((to_delete k)(cpu := l)) ((v_del v)(cpu := v_del v cpu - {t}))" "relinks delete_element UNIV (tasks k) h"
  shows "sys_inv C (insert t X) (k\<lparr>to_delete := (to_delete k)(cpu := l), tasks := h\<rparr>) (v\<lparr>v_del := (v_del v)(cpu := v_del v cpu - {t})\<rparr>)"
    "t \<notin> listed (v\<lparr>v_del := (v_del v)(cpu := v_del v cpu - {t})\<rparr>)" "task_state (tasks k t) = Deleted"
    "\<And>y. core (h y) = core (tasks k y)"
proof -
  have links: "links_inv k v" and pol: "policy_inv C k v" and blocks: "blocks_inv C X k v" and td: "time_driver k \<noteq> None"
    using inv by (simp_all add: sys_inv_def)
  note b = blocks_invD [OF blocks] and p = policy_invD [OF pol]
  show core: "\<And>y. core (h y) = core (tasks k y)" using core_relinks [OF pop(4)] by simp
  show st: "task_state (tasks k t) = Deleted" by (rule p(7) [OF pop(2)])
  let ?k = "k\<lparr>to_delete := (to_delete k)(cpu := l), tasks := h\<rparr>" and ?v = "v\<lparr>v_del := (v_del v)(cpu := v_del v cpu - {t})\<rparr>"
  have links1: "links_inv ?k ?v"
    using links pop(3) core_eqD(2) [OF core] relinks_same(4) [OF pop(4)] unfolding links_inv_def
    by (auto intro: ready_part_same timer_part_same alloc_part_same)
  have pol1: "policy_inv C ?k ?v"
    by (rule policy_invI) (use p(1-6,8,9,11-15) p(7) p(10) [of ProCpu _ AppCpu] core_eqD(1) [OF core] in \<open>auto split: if_splits\<close>)
  have disj: "v_del v ProCpu \<inter> v_del v AppCpu = {}" using links by (simp add: links_inv_def delete_part_def)
  show out: "t \<notin> listed ?v" using p(8) [of t] st disj pop(2) by (cases cpu) (auto simp: listed_def)
  have l: "listed ?v \<union> insert t X = listed v \<union> X" using pop(2) by (cases cpu) (auto simp: listed_def)
  have nm: "\<not> is_main_task k t" using b(3) [of t cpu] pop(2) by simp
  have "blocks_inv C (insert t X) ?k ?v"
  proof (rule blocks_invI, unfold l)
    fix c y assume "c \<in> C" "current_task ?k c = Some y"
    moreover have "c \<noteq> cpu" using \<open>c \<in> C\<close> cpu by blast
    ultimately show "y \<in> v_all ?v \<or> y \<in> v_del ?v c" using b(8) [of c y] by simp
  qed (use b core_eqD(5) [OF core] nm in \<open>auto simp: is_main_task_def split: if_splits\<close>)
  with links1 pol1 td show "sys_inv C (insert t X) ?k ?v" by (simp add: sys_inv_def)
qed

lemma delete_task_inv:
  assumes "sys_inv C (insert t X) k v" "t \<notin> listed v" "stack_fine cfg k t"
  obtains inner k' v' S where "threads k t = Some inner" "delete_task cfg t k = Some k'" "sys_inv C (X - {t}) k' v'" "wakes S v v'"
    "woken_tasks S (tasks k) (tasks k')" "S \<subseteq> v_wait v t" "same_cpus k k'" "threads k' = (threads k)(t := released_block inner)"
    "freed k' = (if detached inner \<and> on_heap inner then [stack_bottom (tasks k t)] else []) @ freed k"
proof (rule release_inv [OF assms(1) insertI1 assms(2), of cfg])
  fix inner k' v'
  assume r: "threads k t = Some inner" "release cfg t k = Some k'" "sys_inv C (insert t X - {t}) k' v'"
    "wakes (if detached inner then {} else v_wait v t) v v'" "woken_tasks (if detached inner then {} else v_wait v t) (tasks k) (tasks k')"
    "same_cpus k k'" "threads k' = (threads k)(t := (if detached inner then None else Some (inner\<lparr>released := True\<rparr>)))"
    "freed k' = (if detached inner \<and> on_heap inner then [stack_bottom (tasks k t)] else []) @ freed k"
  have blocks: "blocks_inv C (insert t X) k v" using assms(1) by (simp add: sys_inv_def)
  have "\<not> is_main_task k t" by (rule blocks_invD(3) [OF blocks]) simp
  then have "thread (tasks k t) = Some t" by (intro blocks_invD(1) [OF blocks]) simp_all
  then have d: "delete_task cfg t k = Some k'" using assms(3) r(2) by (simp add: delete_task_def stack_fine_def)
  have thr: "threads k' = (threads k)(t := released_block inner)" using r(7) by (simp add: released_block_def)
  have X: "sys_inv C (X - {t}) k' v'" using r(3) by simp
  have "(if detached inner then {} else v_wait v t) \<subseteq> v_wait v t" by simp
  from r(1) d X r(4,5) this r(6) thr r(8) show thesis by (rule that)
qed

text \<open>
  At most one marked task owns the stack the scheduler runs on. The loop releases the others and
  answers that one.
\<close>

definition deleted_by :: "Cpu \<Rightarrow> nat \<Rightarrow> 't Kernel \<Rightarrow> View \<Rightarrow> TaskPtr set" where
  "deleted_by cpu sp k v = {t \<in> v_del v cpu. \<not> owns_stack_pointer (tasks k t) sp}"

definition no_del :: "Cpu \<Rightarrow> View \<Rightarrow> View" where
  "no_del cpu v = v\<lparr>v_del := (v_del v)(cpu := {})\<rparr>"

lemma wakes_trans:
  assumes "wakes S v v1" "wakes S' v1 v2"
  shows "wakes (S \<union> S') v v2"
proof -
  have "\<exists>xs. v_ready v2 p = v_ready v p @ xs \<and> set xs \<subseteq> S \<union> S'" for p
  proof -
    from assms obtain xs ys where "v_ready v1 p = v_ready v p @ xs" "set xs \<subseteq> S" "v_ready v2 p = v_ready v1 p @ ys" "set ys \<subseteq> S'"
      unfolding wakes_def by metis
    then show ?thesis by (intro exI [of _ "xs @ ys"]) auto
  qed
  with assms show ?thesis by (auto simp: wakes_def)
qed

lemma wakes_no_del: "wakes S (v\<lparr>v_del := (v_del v)(cpu := D)\<rparr>) v' \<Longrightarrow> wakes S (no_del cpu v) (no_del cpu v')"
  by (auto simp: wakes_def no_del_def)

lemma woken_tasks_trans: "woken_tasks S h h1 \<Longrightarrow> woken_tasks S' h1 h2 \<Longrightarrow> woken_tasks (S \<union> S') h h2"
  unfolding woken_tasks_def by (auto split: if_splits)

text \<open>
  What the loop needs, with \<open>X\<close> the task it has found to be in use, and what it does.
\<close>

definition deletable :: "Config \<Rightarrow> Cpu set \<Rightarrow> Cpu \<Rightarrow> nat \<Rightarrow> TaskPtr set \<Rightarrow> 't Kernel \<Rightarrow> View \<Rightarrow> bool" where
  "deletable cfg C cpu sp X k v \<longleftrightarrow> sys_inv C X k v \<and> cpu \<notin> C \<and> X \<inter> listed v = {} \<and>
     (\<forall>t\<in>deleted_by cpu sp k v. stack_fine cfg k t) \<and>
     (\<forall>t\<in>v_del v cpu \<union> X. \<forall>u\<in>v_del v cpu \<union> X. owns_stack_pointer (tasks k t) sp \<and> owns_stack_pointer (tasks k u) sp \<longrightarrow> t = u) \<and>
     (\<forall>t\<in>X. owns_stack_pointer (tasks k t) sp \<and> task_state (tasks k t) = Deleted)"

definition deletes :: "Cpu set \<Rightarrow> Cpu \<Rightarrow> nat \<Rightarrow> TaskPtr set \<Rightarrow> 't Kernel \<Rightarrow> View \<Rightarrow> TaskPtr set \<Rightarrow> 't Kernel \<Rightarrow> View \<Rightarrow> bool" where
  "deletes C cpu sp X k v X' k' v' \<longleftrightarrow> sys_inv C X' k' v' \<and> v_del v' cpu = {} \<and> X' \<inter> listed v' = {} \<and>
     X' = {t \<in> v_del v cpu \<union> X. owns_stack_pointer (tasks k t) sp} \<and> same_cpus k k' \<and>
     (\<exists>S. wakes S (no_del cpu v) (no_del cpu v') \<and> woken_tasks S (tasks k) (tasks k') \<and> (\<forall>t\<in>S. task_state (tasks k t) = Sleeping)) \<and>
     (\<forall>t. threads k' t = (if t \<in> deleted_by cpu sp k v then Option.bind (threads k t) released_block else threads k t))"

lemma deletes_refl:
  assumes "deletable cfg C cpu sp X k v" "v_del v cpu = {}"
  shows "deletes C cpu sp X k v X k v"
proof -
  have "X = {t \<in> X. owns_stack_pointer (tasks k t) sp}" using assms(1) by (auto simp: deletable_def)
  then show ?thesis using assms wakes_refl by (auto simp: deletes_def deletable_def deleted_by_def woken_tasks_def intro!: exI [of _ "{}"])
qed

lemma deletable_in_use:
  fixes l :: TaskList
  assumes a: "deletable cfg C cpu sp X k v" and own: "owns_stack_pointer (h t) sp" and core: "\<And>y. core (h y) = core (tasks k y)"
    and t: "t \<in> v_del v cpu" "task_state (tasks k t) = Deleted"
  defines "k1 \<equiv> k\<lparr>to_delete := (to_delete k)(cpu := l), tasks := h\<rparr>" and "v1 \<equiv> v\<lparr>v_del := (v_del v)(cpu := v_del v cpu - {t})\<rparr>"
  assumes inv: "sys_inv C (insert t X) k1 v1" "t \<notin> listed v1"
  shows "X = {}" "deletable cfg C cpu sp {t} k1 v1" "deletes C cpu sp {t} k1 v1 X' k' v' \<Longrightarrow> deletes C cpu sp X k v X' k' v'"
proof -
  have o: "owns_stack_pointer (h y) = owns_stack_pointer (tasks k y)" for y by (rule owns_core [OF core])
  have tl: "t \<in> listed v" using t(1) by (cases cpu) (auto simp: listed_def)
  have "False" if "u \<in> X" for u
  proof -
    have "owns_stack_pointer (tasks k u) sp" "u \<notin> listed v" using a that by (auto simp: deletable_def)
    moreover have "owns_stack_pointer (tasks k t) sp" using own o by simp
    ultimately have "t = u" using a that t(1) by (simp add: deletable_def)
    with tl \<open>u \<notin> listed v\<close> show False by simp
  qed
  then show X: "X = {}" by auto
  have del: "deleted_by cpu sp k1 v1 = deleted_by cpu sp k v" using own o by (auto simp: deleted_by_def k1_def v1_def)
  have fine: "stack_fine cfg k1 y = stack_fine cfg k y" for y by (rule stack_fine_core) (simp_all add: k1_def core)
  have h: "tasks k1 = h" "threads k1 = threads k" "v_del v1 cpu = v_del v cpu - {t}" "no_del cpu v1 = no_del cpu v"
    by (simp_all add: k1_def v1_def no_del_def)
  show "deletable cfg C cpu sp {t} k1 v1"
    using a inv own t X core_eqD(1) [OF core, of t] unfolding deletable_def del fine h o by auto
  assume d: "deletes C cpu sp {t} k1 v1 X' k' v'"
  have w: "woken_tasks S h h' = woken_tasks S (tasks k) h'" for S h' by (simp add: woken_tasks_def core)
  have c: "same_cpus k1 k' = same_cpus k k'" by (simp add: same_cpus_def k1_def)
  have "X' = {y \<in> v_del v cpu \<union> X. owns_stack_pointer (tasks k y) sp}" using d own o t(1) X by (auto simp: deletes_def h)
  with d show "deletes C cpu sp X k v X' k' v'" unfolding deletes_def del h w c core_eqD(1) [OF core] by blast
qed

lemma deletable_release:
  fixes l :: TaskList
  assumes a: "deletable cfg C cpu sp X k v" and own: "\<not> owns_stack_pointer (h t) sp" and core: "\<And>y. core (h y) = core (tasks k y)"
    and t: "t \<in> v_del v cpu"
  defines "k1 \<equiv> k\<lparr>to_delete := (to_delete k)(cpu := l), tasks := h\<rparr>" and "v1 \<equiv> v\<lparr>v_del := (v_del v)(cpu := v_del v cpu - {t})\<rparr>"
  assumes inv: "sys_inv C (insert t X) k1 v1" "t \<notin> listed v1"
  obtains k2 v2 where "delete_task cfg t k1 = Some k2" "deletable cfg C cpu sp X k2 v2" "v_del v2 cpu = v_del v cpu - {t}"
    "\<And>X' k' v'. deletes C cpu sp X k2 v2 X' k' v' \<Longrightarrow> deletes C cpu sp X k v X' k' v'"
proof -
  have o: "owns_stack_pointer (h y) = owns_stack_pointer (tasks k y)" for y by (rule owns_core [OF core])
  have "t \<in> listed v" using t by (cases cpu) (auto simp: listed_def)
  with a have tX: "t \<notin> X" by (auto simp: deletable_def)
  have td: "t \<in> deleted_by cpu sp k v" using own o t by (simp add: deleted_by_def)
  have h: "tasks k1 = h" "threads k1 = threads k" "v_del v1 = (v_del v)(cpu := v_del v cpu - {t})" "v_all v1 = v_all v" "v_wait v1 = v_wait v"
    "stack_words_at k1 = stack_words_at k" by (simp_all add: k1_def v1_def)
  have fine: "stack_fine cfg k1 y = stack_fine cfg k y" for y by (rule stack_fine_core) (simp_all add: h core)
  have sys: "sys_inv C X k v" using a by (simp add: deletable_def)
  have waits: "task_state (tasks k y) = Sleeping" if "y \<in> v_wait v i" for y i
    using sys policy_invD(3) that by (auto simp: sys_inv_def)
  have "stack_fine cfg k1 t" using a td by (simp add: fine deletable_def)
  with inv show thesis
  proof (rule delete_task_inv)
    fix inner k2 v2 S1
    assume r: "threads k1 t = Some inner" "delete_task cfg t k1 = Some k2" "sys_inv C (X - {t}) k2 v2" "wakes S1 v1 v2"
      "woken_tasks S1 (tasks k1) (tasks k2)" "S1 \<subseteq> v_wait v1 t" "same_cpus k1 k2" "threads k2 = (threads k1)(t := released_block inner)"
    have f2: "v_del v2 = (v_del v)(cpu := v_del v cpu - {t})" "v_all v2 = v_all v" using wakes_frame [OF r(4)] h by simp_all
    have own2: "owns_stack_pointer (tasks k2 y) = owns_stack_pointer (tasks k y)" for y using owns_woken [OF r(5)] o h by simp
    have del: "deleted_by cpu sp k2 v2 = deleted_by cpu sp k v - {t}" unfolding deleted_by_def own2 f2 by auto
    have st1: "task_state (tasks k y) = Sleeping" if "y \<in> S1" for y using waits [of y t] that r(6) h by auto
    have st2: "task_state (tasks k2 y) = (if y \<in> S1 then Ready else task_state (tasks k y))" for y
      using woken_tasksD(9) [OF r(5), of y] core_eqD(1) [OF core, of y] h by simp
    have fine2: "stack_fine cfg k2 y = stack_fine cfg k y" for y
      using stack_fine_woken [OF r(5), of cfg y] fine [of y] r(7) by (simp add: same_cpus_def)
    have "task_state (tasks k2 y) = Deleted" if "y \<in> X" for y using a that st1 [of y] st2 [of y] by (auto simp: deletable_def)
    moreover have "X \<inter> listed v2 = {}" using a f2 by (cases cpu) (auto simp: deletable_def listed_def)
    ultimately have "deletable cfg C cpu sp X k2 v2"
      using a r(3) tX unfolding deletable_def del fine2 own2 by (auto simp: f2)
    moreover have "deletes C cpu sp X k v X' k' v'" if d: "deletes C cpu sp X k2 v2 X' k' v'" for X' k' v'
    proof -
      from d obtain S where S: "wakes S (no_del cpu v2) (no_del cpu v')" "woken_tasks S (tasks k2) (tasks k')" "\<forall>t\<in>S. task_state (tasks k2 t) = Sleeping"
        by (auto simp: deletes_def)
      have "wakes (S1 \<union> S) (no_del cpu v) (no_del cpu v')"
        by (rule wakes_trans [OF wakes_no_del S(1)]) (use r(4) in \<open>simp add: v1_def\<close>)
      moreover have "woken_tasks (S1 \<union> S) (tasks k) (tasks k')" using woken_tasks_trans [OF r(5) S(2)] by (simp add: woken_tasks_def h core)
      moreover have "\<forall>t\<in>S1 \<union> S. task_state (tasks k t) = Sleeping" using st1 S(3) st2 by (auto split: if_splits)
      moreover have "same_cpus k k'" using d r(7) by (auto simp: deletes_def same_cpus_def k1_def)
      moreover have "threads k' y = (if y \<in> deleted_by cpu sp k v then Option.bind (threads k y) released_block else threads k y)" for y
        using d r(1,8) td h(2) by (auto simp: deletes_def del)
      moreover have "{y \<in> v_del v2 cpu \<union> X. owns_stack_pointer (tasks k2 y) sp} = {y \<in> v_del v cpu \<union> X. owns_stack_pointer (tasks k y) sp}"
        unfolding own2 f2 using own o by auto
      ultimately show ?thesis using d unfolding deletes_def by blast
    qed
    ultimately show thesis using r(2) f2(1) by (intro that [of k2 v2]) simp_all
  qed
qed

lemma delete_marked_loop_inv:
  assumes "deletable cfg C cpu sp (set_option in_use) k v"
  shows "\<exists>in_use' k' v'. delete_marked_loop cfg cpu sp in_use k = Some (in_use', k') \<and>
    deletes C cpu sp (set_option in_use) k v (set_option in_use') k' v'"
  using assms
proof (induction "card (v_del v cpu)" arbitrary: in_use k v rule: less_induct)
  case less
  have inv: "sys_inv C (set_option in_use) k v" and cpu: "cpu \<notin> C" using less.prems by (simp_all add: deletable_def)
  have dp: "delete_part (tasks k) (to_delete k) (v_del v)" using inv by (simp add: sys_inv_def links_inv_def)
  then have fin: "finite (v_del v cpu)" unfolding delete_part_def by (metis List.finite_set)
  from dp show ?case
  proof (cases rule: delete_pop_part [of _ _ _ cpu])
    case (empty l)
    have "k\<lparr>to_delete := (to_delete k)(cpu := l), tasks := tasks k\<rparr> = k" unfolding empty(3) by simp
    then have "delete_marked_loop cfg cpu sp in_use k = Some (in_use, k)" using empty(1) by (subst delete_marked_loop.simps) simp
    with deletes_refl [OF less.prems empty(2)] show ?thesis by blast
  next
    case (task t l h)
    note d = pop_deleted_inv [OF inv cpu task(1,2,3,4)]
    let ?k = "k\<lparr>to_delete := (to_delete k)(cpu := l), tasks := h\<rparr>" and ?v = "v\<lparr>v_del := (v_del v)(cpu := v_del v cpu - {t})\<rparr>"
    have less1: "card (v_del v cpu - {t}) < card (v_del v cpu)" by (rule card_Diff1_less [OF fin task(2)])
    have unfold: "delete_marked_loop cfg cpu sp in_use k =
      (if owns_stack_pointer (h t) sp then delete_marked_loop cfg cpu sp (Some t) ?k
       else Option.bind (delete_task cfg t ?k) (\<lambda>k2. delete_marked_loop cfg cpu sp in_use k2))"
      using task(1) d(3) core_eqD(1) [OF d(4), of t] by (subst delete_marked_loop.simps) (simp add: Let_def)
    show ?thesis
    proof (cases "owns_stack_pointer (h t) sp")
      case True
      note u = deletable_in_use [OF less.prems True d(4) task(2) d(3,1,2)]
      have "card (v_del ?v cpu) < card (v_del v cpu)" using less1 by simp
      from less.hyps [OF this, of "Some t" ?k] u(2) obtain in_use' k' v' where
        "delete_marked_loop cfg cpu sp (Some t) ?k = Some (in_use', k')" "deletes C cpu sp {t} ?k ?v (set_option in_use') k' v'" by auto
      with unfold True u(3) show ?thesis by auto
    next
      case False
      show ?thesis
      proof (rule deletable_release [OF less.prems False d(4) task(2) d(1,2)])
        fix k2 v2 assume r: "delete_task cfg t ?k = Some k2" "deletable cfg C cpu sp (set_option in_use) k2 v2" "v_del v2 cpu = v_del v cpu - {t}"
          "\<And>X' k' v'. deletes C cpu sp (set_option in_use) k2 v2 X' k' v' \<Longrightarrow> deletes C cpu sp (set_option in_use) k v X' k' v'"
        have "card (v_del v2 cpu) < card (v_del v cpu)" using less1 r(3) by simp
        from less.hyps [OF this r(2)] obtain in_use' k' v' where
          "delete_marked_loop cfg cpu sp in_use k2 = Some (in_use', k')" "deletes C cpu sp (set_option in_use) k2 v2 (set_option in_use') k' v'" by auto
        with unfold False r(1,4) show ?thesis by auto
      qed
    qed
  qed
qed

text \<open>After the deletion only the task whose stack is in use is still on the list.\<close>

definition cleaned :: "Cpu set \<Rightarrow> Cpu \<Rightarrow> nat \<Rightarrow> 't Kernel \<Rightarrow> View \<Rightarrow> 't Kernel \<Rightarrow> View \<Rightarrow> bool" where
  "cleaned C cpu sp k v k' v' \<longleftrightarrow> sys_inv C {} k' v' \<and> same_cpus k k' \<and>
     v_del v' = (v_del v)(cpu := {t \<in> v_del v cpu. owns_stack_pointer (tasks k t) sp}) \<and>
     (\<exists>S. wakes S (no_del cpu v) (no_del cpu v') \<and> woken_tasks S (tasks k) (tasks k') \<and> (\<forall>t\<in>S. task_state (tasks k t) = Sleeping)) \<and>
     (\<forall>t. threads k' t = (if t \<in> deleted_by cpu sp k v then Option.bind (threads k t) released_block else threads k t))"

lemma no_del_other: "wakes S (no_del cpu v) (no_del cpu v') \<Longrightarrow> v_del v' = (v_del v)(cpu := v_del v' cpu)"
proof -
  assume "wakes S (no_del cpu v) (no_del cpu v')"
  then have *: "(v_del v')(cpu := {}) = (v_del v)(cpu := {})" by (simp add: wakes_def no_del_def)
  show ?thesis
  proof
    fix c show "v_del v' c = ((v_del v)(cpu := v_del v' cpu)) c" using fun_cong [OF *, of c] by (cases "c = cpu") simp_all
  qed
qed

lemma push_in_use_inv:
  assumes inv: "sys_inv C {t} k v" and t: "t \<notin> listed v" "task_state (tasks k t) = Deleted" and cpu: "v_del v cpu = {}"
  obtains l h where "list_push dbg delete_element (to_delete k cpu) t (tasks k) = Some (l, h)"
    "sys_inv C {} (k\<lparr>to_delete := (to_delete k)(cpu := l), tasks := h\<rparr>) (v\<lparr>v_del := (v_del v)(cpu := {t})\<rparr>)"
    "\<And>y. core (h y) = core (tasks k y)"
proof -
  have links: "links_inv k v" and pol: "policy_inv C k v" and blocks: "blocks_inv C {t} k v" and td: "time_driver k \<noteq> None"
    using inv by (simp_all add: sys_inv_def)
  note b = blocks_invD [OF blocks] and p = policy_invD [OF pol]
  have dp: "delete_part (tasks k) (to_delete k) (v_del v)" using links by (simp add: links_inv_def)
  have out: "t \<notin> v_del v c" for c using t(1) by (cases c) (auto simp: listed_def)
  show thesis
  proof (rule delete_push_part [OF dp out, of dbg cpu])
    fix l h assume d: "list_push dbg delete_element (to_delete k cpu) t (tasks k) = Some (l, h)"
      "delete_part h ((to_delete k)(cpu := l)) ((v_del v)(cpu := insert t (v_del v cpu)))" "relinks delete_element UNIV (tasks k) h"
    let ?k = "k\<lparr>to_delete := (to_delete k)(cpu := l), tasks := h\<rparr>" and ?v = "v\<lparr>v_del := (v_del v)(cpu := {t})\<rparr>"
    have core: "core (h y) = core (tasks k y)" for y using core_relinks [OF d(3)] by simp
    have "links_inv ?k ?v"
      using links d(2) cpu core_eqD(2) [OF core] relinks_same(4) [OF d(3)] unfolding links_inv_def
      by (auto intro: ready_part_same timer_part_same alloc_part_same)
    moreover have "policy_inv C ?k ?v"
      by (rule policy_invI) (use p(1-6,8,9,11-15) p(7) p(10) [of ProCpu _ AppCpu] t(2) core_eqD(1) [OF core] in \<open>auto split: if_splits\<close>)
    moreover have l: "listed ?v \<union> {} = listed v \<union> {t}" using cpu by (cases cpu) (auto simp: listed_def)
    have "blocks_inv C {} ?k ?v"
    proof (rule blocks_invI, unfold l)
      fix c y assume "c \<in> C" "current_task ?k c = Some y"
      then show "y \<in> v_all ?v \<or> y \<in> v_del ?v c" using b(8) [of c y] cpu by (cases "c = cpu") auto
    qed (use b core_eqD(5) [OF core] cpu in \<open>auto simp: is_main_task_def split: if_splits\<close>)
    ultimately have "sys_inv C {} ?k ?v" using td by (simp add: sys_inv_def)
    from d(1) this core show thesis by (rule that)
  qed
qed

lemma sys_inv_trigger [simp]: "sys_inv C X (trigger_scheduler r k) v = sys_inv C X k v"
  by (cases r) (simp_all add: sys_inv_def links_inv_def policy_inv_def blocks_inv_def is_main_task_def trigger_scheduler_def request_context_switch_def)

lemma delete_marked_tasks_inv:
  assumes a: "deletable cfg C cpu sp {} k v"
  obtains k' v' where "delete_marked_tasks cfg cpu sp k = Some k'" "cleaned C cpu sp k v k' v'"
proof -
  from delete_marked_loop_inv [of cfg C cpu sp None k v] a obtain in_use k1 v1 where
    loop: "delete_marked_loop cfg cpu sp None k = Some (in_use, k1)" and d: "deletes C cpu sp {} k v (set_option in_use) k1 v1" by auto
  from d obtain S where S: "wakes S (no_del cpu v) (no_del cpu v1)" "woken_tasks S (tasks k) (tasks k1)" "\<forall>t\<in>S. task_state (tasks k t) = Sleeping"
    by (auto simp: deletes_def)
  note other = no_del_other [OF S(1)]
  show thesis
  proof (cases in_use)
    case None
    then have e: "{t \<in> v_del v cpu. owns_stack_pointer (tasks k t) sp} = {}" "v_del v1 cpu = {}" using d by (simp_all add: deletes_def)
    have "cleaned C cpu sp k v k1 v1" unfolding cleaned_def e(1) using d None S other e(2) by (auto simp: deletes_def)
    moreover have "delete_marked_tasks cfg cpu sp k = Some k1" using loop None by (simp add: delete_marked_tasks_def)
    ultimately show thesis by (intro that)
  next
    case (Some t)
    then have e: "{t \<in> v_del v cpu. owns_stack_pointer (tasks k t) sp} = {t}" and inv1: "sys_inv C {t} k1 v1" "v_del v1 cpu = {}" "t \<notin> listed v1"
      using d by (auto simp: deletes_def)
    then have "t \<in> v_del v cpu" by auto
    then have st: "task_state (tasks k t) = Deleted" using a policy_invD(7) by (auto simp: deletable_def sys_inv_def)
    then have st1: "task_state (tasks k1 t) = Deleted" using woken_tasksD(9) [OF S(2), of t] S(3) by auto
    show thesis
    proof (rule push_in_use_inv [OF inv1(1,3) st1 inv1(2), of "debug_assertions cfg"])
      fix l h assume p: "list_push (debug_assertions cfg) delete_element (to_delete k1 cpu) t (tasks k1) = Some (l, h)"
        "sys_inv C {} (k1\<lparr>to_delete := (to_delete k1)(cpu := l), tasks := h\<rparr>) (v1\<lparr>v_del := (v_del v1)(cpu := {t})\<rparr>)"
        "\<And>y. core (h y) = core (tasks k1 y)"
      let ?k = "trigger_scheduler (RunOnCore cpu) (k1\<lparr>to_delete := (to_delete k1)(cpu := l), tasks := h\<rparr>)" and ?v = "v1\<lparr>v_del := (v_del v1)(cpu := {t})\<rparr>"
      have "woken_tasks S (tasks k) (tasks ?k)" using S(2) p(3) by (simp add: woken_tasks_def)
      moreover have "no_del cpu ?v = no_del cpu v1" by (simp add: no_del_def)
      moreover have "v_del ?v = (v_del v)(cpu := {t})" using other by (simp add: fun_eq_iff)
      moreover have "threads ?k = threads k1" by (simp add: trigger_scheduler_def request_context_switch_def)
      moreover have "same_cpus k ?k" using d by (auto simp: deletes_def trigger_scheduler_def request_context_switch_def same_cpus_def)
      ultimately have "cleaned C cpu sp k v ?k ?v" unfolding cleaned_def e using d S p(2) by (auto simp: deletes_def)
      moreover have "delete_marked_tasks cfg cpu sp k = Some ?k" using loop Some p(1) by (simp add: delete_marked_tasks_def)
      ultimately show thesis by (intro that)
    qed
  qed
qed

section \<open>The scheduler run\<close>

lemma sys_inv_switching: "sys_inv UNIV {} k v \<Longrightarrow> sys_inv (UNIV - {cpu}) {} (k\<lparr>pending := p, yielded := (yielded k)(cpu := b)\<rparr>) v"
  by (simp add: sys_inv_def links_inv_def blocks_inv_def is_main_task_def policy_inv_def)

lemma check_stack_woken:
  assumes "same_cpus k k'" "woken_tasks S (tasks k) (tasks k')"
  shows "check_stack cfg cpu sp k' = check_stack cfg cpu sp k"
proof -
  have "ensure_no_stack_overflow cfg k' t sp = ensure_no_stack_overflow cfg k t sp" for t
    using assms(1) woken_tasksD [OF assms(2), of t] owns_woken [OF assms(2), of t] by (simp add: ensure_no_stack_overflow_def same_cpus_def)
  moreover have "stack_owner cpu k' = stack_owner cpu k" using assms(1) by (simp add: stack_owner_def same_cpus_def split: option.split)
  ultimately show ?thesis by (simp add: check_stack_def split: option.split)
qed

text \<open>What a scheduler run relies on: no task has overflowed its stack, and stacks do not overlap.\<close>

definition stacks_ok :: "Config \<Rightarrow> Cpu \<Rightarrow> nat \<Rightarrow> 't Kernel \<Rightarrow> View \<Rightarrow> bool" where
  "stacks_ok cfg cpu sp k v \<longleftrightarrow> check_stack cfg cpu sp k \<and> (\<forall>t\<in>deleted_by cpu sp k v. stack_fine cfg k t) \<and>
     (\<forall>t\<in>v_del v cpu. \<forall>u\<in>v_del v cpu. owns_stack_pointer (tasks k t) sp \<and> owns_stack_pointer (tasks k u) sp \<longrightarrow> t = u)"

lemma run_deletion_inv:
  assumes inv: "sys_inv (UNIV - {cpu}) {} k v" and stacks: "stacks_ok cfg cpu sp k v"
  obtains k1 v1 where "(if list_is_empty (to_delete k cpu) then Some k else delete_marked_tasks cfg cpu sp k) = Some k1"
    "cleaned (UNIV - {cpu}) cpu sp k v k1 v1" "check_stack cfg cpu sp k1"
proof -
  have a: "deletable cfg (UNIV - {cpu}) cpu sp {} k v" using inv stacks by (simp add: deletable_def stacks_ok_def)
  have check: "check_stack cfg cpu sp k1" if "cleaned (UNIV - {cpu}) cpu sp k v k1 v1" for k1 v1
    using that stacks check_stack_woken [of k k1 _ cfg cpu sp] by (auto simp: cleaned_def stacks_ok_def)
  have "delete_part (tasks k) (to_delete k) (v_del v)" using inv by (simp add: sys_inv_def links_inv_def)
  then have e: "list_is_empty (to_delete k cpu) \<longleftrightarrow> v_del v cpu = {}"
    unfolding delete_part_def by (metis delete_link.list_is_empty_iff set_empty)
  show thesis
  proof (cases "v_del v cpu = {}")
    case True
    have "cleaned (UNIV - {cpu}) cpu sp k v k v"
      using inv True wakes_refl by (auto simp: cleaned_def deleted_by_def woken_tasks_def fun_eq_iff intro!: exI [of _ "{}"])
    with True e check show thesis by (intro that [of k v]) simp_all
  next
    case False
    from a show thesis
    proof (rule delete_marked_tasks_inv)
      fix k1 v1 assume "delete_marked_tasks cfg cpu sp k = Some k1" "cleaned (UNIV - {cpu}) cpu sp k v k1 v1"
      with False e check show thesis by (intro that [of k1 v1]) simp_all
    qed
  qed
qed

context one_shot_timer
begin

text \<open>The kernel has a timer that works.\<close>

definition timed :: "'t Kernel \<Rightarrow> bool" where
  "timed k \<longleftrightarrow> (\<exists>td. time_driver k = Some td \<and> valid (td_timer td))"

lemma timed_same: "same_cpus k k' \<Longrightarrow> timed k \<Longrightarrow> timed k'"
  by (auto simp: timed_def same_cpus_def)

lemma reschedule_sys:
  assumes inv: "sys_inv (UNIV - {cpu}) {} k v" "timed k" and stack: "check_stack cfg cpu sp k"
  obtains next_task f' k' where "reschedule cfg T cpu sp isp now k = Some k'"
    "picks (\<lambda>t. pinned_to (tasks k t) \<noteq> Some (other_cpu cpu) \<and> Some t \<noteq> current_task k (other_cpu cpu))
       (v_ready (requeued cpu k v)) next_task f'"
    "sys_inv UNIV {} k' ((requeued cpu k v)\<lparr>v_ready := f'\<rparr>)" "armed k'"
    "current_task k' = (current_task k)(cpu := next_task)" "thread_pointer k' = (thread_pointer k)(cpu := next_task)"
    "same_blocks k k'" "main_task k' = main_task k" "active_cores k' = active_cores k" "stack_words_at k' = stack_words_at k"
    "\<And>y. core (tasks k' y) = core (tasks k y) \<or> core (tasks k' y) = (core (tasks k y))\<lparr>saved_sp := isp\<rparr>"
    "\<And>t. next_task = Some t \<Longrightarrow> t \<in> v_all v"
    "\<And>p t. distinct (v_ready (requeued cpu k v) p) \<and> (t \<in> set (v_ready (requeued cpu k v) p) \<longrightarrow> priority (tasks k t) = p)"
    "\<And>c. c \<noteq> cpu \<Longrightarrow> idle k' c = idle k c" "yielded k' = yielded k"
proof -
  have links: "links_inv k v" and pol: "policy_inv (UNIV - {cpu}) k v" and blocks: "blocks_inv (UNIV - {cpu}) {} k v"
    using inv(1) by (simp_all add: sys_inv_def)
  from inv(2) obtain td where td: "time_driver k = Some td" "valid (td_timer td)" by (auto simp: timed_def)
  show thesis
  proof (rule reschedule_inv [OF links pol td stack, of isp now])
    fix next_task f' k'
    assume r: "reschedule cfg T cpu sp isp now k = Some k'"
      "picks (\<lambda>t. pinned_to (tasks k t) \<noteq> Some (other_cpu cpu) \<and> Some t \<noteq> current_task k (other_cpu cpu))
         (v_ready (requeued cpu k v)) next_task f'"
      "kernel_inv k' ((requeued cpu k v)\<lparr>v_ready := f'\<rparr>)" "armed k'"
      "current_task k' = (current_task k)(cpu := next_task)" "thread_pointer k' = (thread_pointer k)(cpu := next_task)"
      "same_blocks k k'" "main_task k' = main_task k" "active_cores k' = active_cores k" "stack_words_at k' = stack_words_at k"
    "\<And>y. core (tasks k' y) = core (tasks k y) \<or> core (tasks k' y) = (core (tasks k y))\<lparr>saved_sp := isp\<rparr>"
    "\<And>t. next_task = Some t \<Longrightarrow> t \<in> v_all v"
    "\<And>p t. distinct (v_ready (requeued cpu k v) p) \<and> (t \<in> set (v_ready (requeued cpu k v) p) \<longrightarrow> priority (tasks k t) = p)"
    "\<And>c. c \<noteq> cpu \<Longrightarrow> idle k' c = idle k c" "yielded k' = yielded k"
    let ?v = "(requeued cpu k v)\<lparr>v_ready := f'\<rparr>"
    note b = blocks_invD [OF blocks] and m = is_main_task_cong [OF r(8)] and th = core_saved_spD(4) [OF r(11)]
    have l: "listed ?v \<union> {} = listed v \<union> {}" "threads k' = threads k" using r(7) by (simp_all add: listed_def same_blocks_def)
    have w: "v_wait ?v i \<subseteq> v_wait v i" for i by (auto simp: requeued_def split: option.split)
    have "blocks_inv UNIV {} k' ?v"
    proof (rule blocks_invI, unfold l m th)
      fix c t assume "current_task k' c = Some t"
      then show "t \<in> v_all ?v \<or> t \<in> v_del ?v c" using r(5,12) b(8) [of c t] by (cases "c = cpu") simp_all
    next
      fix t inner assume "threads k t = Some inner" "detached inner \<or> released inner"
      then show "v_wait ?v t = {}" using b(6) w [of t] by blast
    qed (use b in auto)
    then have inv': "sys_inv UNIV {} k' ?v" using r(3,4) by (auto simp: sys_inv_def kernel_inv_def armed_def)
    from r(1,2) inv' r(4-15) show thesis by (rule that)
  qed
qed

text \<open>
  \<open>switched cpu sp k v k' v' next_task\<close>: the run on \<open>cpu\<close> from \<open>k\<close> released the marked tasks that are not in
  use, put the current task back if it was ready, and made \<open>next_task\<close> the current one.
\<close>

definition switched :: "Cpu \<Rightarrow> nat \<Rightarrow> 't Kernel \<Rightarrow> View \<Rightarrow> 't Kernel \<Rightarrow> View \<Rightarrow> TaskPtr option \<Rightarrow> bool" where
  "switched cpu sp k v k' v' next_task \<longleftrightarrow> sys_inv UNIV {} k' v' \<and> armed k' \<and>
     current_task k' = (current_task k)(cpu := next_task) \<and> thread_pointer k' = (thread_pointer k)(cpu := next_task) \<and>
     main_task k' = main_task k \<and> active_cores k' = active_cores k \<and> (\<forall>c. c \<noteq> cpu \<longrightarrow> idle k' c = idle k c) \<and>
     yielded k' = (yielded k)(cpu := False) \<and> (\<forall>t. next_task = Some t \<longrightarrow> t \<in> v_all v) \<and>
     v_all v' = v_all v \<and> v_del v' = (v_del v)(cpu := {t \<in> v_del v cpu. owns_stack_pointer (tasks k t) sp}) \<and>
     (\<exists>f. picks (\<lambda>t. pinned_to (tasks k t) \<noteq> Some (other_cpu cpu) \<and> Some t \<noteq> current_task k (other_cpu cpu)) f next_task (v_ready v') \<and>
        (\<forall>p. distinct (f p) \<and> (\<forall>t\<in>set (f p). priority (tasks k t) = p)) \<and>
        ready_set (v_ready v) \<subseteq> ready_set f \<and> (\<forall>t. thread_pointer k cpu = Some t \<and> task_state (tasks k t) = Ready \<longrightarrow> t \<in> ready_set f)) \<and>
     (\<forall>y. priority (tasks k' y) = priority (tasks k y) \<and> pinned_to (tasks k' y) = pinned_to (tasks k y)) \<and>
     (\<forall>i. v_wait v' i \<subseteq> v_wait v i) \<and>
     (\<forall>t. threads k' t = (if t \<in> deleted_by cpu sp k v then Option.bind (threads k t) released_block else threads k t))"

lemma switch_task_inv:
  assumes inv: "sys_inv UNIV {} k v" "timed k" and stacks: "stacks_ok cfg cpu sp k v"
  obtains next_task k' v' where "switch_task cfg T cpu sp isp now k = Some k'" "switched cpu sp k v k' v' next_task"
proof -
  let ?k = "k\<lparr>pending := (pending k)(cpu := False), yielded := (yielded k)(cpu := False)\<rparr>"
  have inv0: "sys_inv (UNIV - {cpu}) {} ?k v" by (rule sys_inv_switching [OF inv(1)])
  have same: "stack_owner cpu ?k = stack_owner cpu k" "ensure_no_stack_overflow cfg ?k = ensure_no_stack_overflow cfg k"
    and del: "deleted_by cpu sp ?k v = deleted_by cpu sp k v"
    by (simp_all add: stack_owner_def ensure_no_stack_overflow_def fun_eq_iff deleted_by_def split: option.split)
  have stacks0: "stacks_ok cfg cpu sp ?k v"
    using stacks unfolding stacks_ok_def check_stack_def stack_fine_def same del by simp
  show thesis
  proof (rule run_deletion_inv [OF inv0 stacks0])
    fix k1 v1 assume d: "(if list_is_empty (to_delete ?k cpu) then Some ?k else delete_marked_tasks cfg cpu sp ?k) = Some k1"
      "cleaned (UNIV - {cpu}) cpu sp ?k v k1 v1" "check_stack cfg cpu sp k1"
    from d(2) obtain S where S: "sys_inv (UNIV - {cpu}) {} k1 v1" "same_cpus ?k k1" "wakes S (no_del cpu v) (no_del cpu v1)"
      "woken_tasks S (tasks ?k) (tasks k1)" by (auto simp: cleaned_def)
    have "timed ?k" using inv(2) by (simp add: timed_def)
    then have timed1: "timed k1" by (rule timed_same [OF S(2)])
    note w = woken_tasksD [OF S(4)]
    have cpus: "current_task k1 = current_task k" "thread_pointer k1 = thread_pointer k" "main_task k1 = main_task k" "active_cores k1 = active_cores k"
      "idle k1 = idle k" "yielded k1 = (yielded k)(cpu := False)"
      using S(2) by (simp_all add: same_cpus_def)
    let ?v = "requeued cpu k1 v1"
    show thesis
    proof (rule reschedule_sys [OF S(1) timed1 d(3), of isp now])
      fix next_task f' k'
      assume r: "reschedule cfg T cpu sp isp now k1 = Some k'"
        "picks (\<lambda>t. pinned_to (tasks k1 t) \<noteq> Some (other_cpu cpu) \<and> Some t \<noteq> current_task k1 (other_cpu cpu)) (v_ready ?v) next_task f'"
        "sys_inv UNIV {} k' (?v\<lparr>v_ready := f'\<rparr>)" "armed k'" "current_task k' = (current_task k1)(cpu := next_task)"
        "thread_pointer k' = (thread_pointer k1)(cpu := next_task)" "same_blocks k1 k'" "main_task k' = main_task k1"
        "active_cores k' = active_cores k1"
        "\<And>y. core (tasks k' y) = core (tasks k1 y) \<or> core (tasks k' y) = (core (tasks k1 y))\<lparr>saved_sp := isp\<rparr>"
        "\<And>p t. distinct (v_ready ?v p) \<and> (t \<in> set (v_ready ?v p) \<longrightarrow> priority (tasks k1 t) = p)"
        "\<And>c. c \<noteq> cpu \<Longrightarrow> idle k' c = idle k1 c" "yielded k' = yielded k1" "\<And>t. next_task = Some t \<Longrightarrow> t \<in> v_all v1"
      have "picks (\<lambda>t. pinned_to (tasks k t) \<noteq> Some (other_cpu cpu) \<and> Some t \<noteq> current_task k (other_cpu cpu)) (v_ready ?v) next_task f'"
        using r(2) w(8) cpus(1) by simp
      moreover have "ready_set (v_ready v) \<subseteq> ready_set (v_ready ?v)"
        using S(3) requeued_ready [of v1 cpu k1] by (auto simp: wakes_def no_del_def)
      moreover have "\<forall>p. distinct (v_ready ?v p) \<and> (\<forall>t\<in>set (v_ready ?v p). priority (tasks k t) = p)" using r(11) w(2) by simp
      moreover have "\<forall>t. thread_pointer k cpu = Some t \<and> task_state (tasks k t) = Ready \<longrightarrow> t \<in> ready_set (v_ready ?v)"
        using cpus(2) w(9) by (simp add: requeued_def)
      ultimately have f: "\<exists>f. picks (\<lambda>t. pinned_to (tasks k t) \<noteq> Some (other_cpu cpu) \<and> Some t \<noteq> current_task k (other_cpu cpu)) f next_task f' \<and>
        (\<forall>p. distinct (f p) \<and> (\<forall>t\<in>set (f p). priority (tasks k t) = p)) \<and> ready_set (v_ready v) \<subseteq> ready_set f \<and>
        (\<forall>t. thread_pointer k cpu = Some t \<and> task_state (tasks k t) = Ready \<longrightarrow> t \<in> ready_set f)" by blast
      have wait: "v_wait (?v\<lparr>v_ready := f'\<rparr>) i \<subseteq> v_wait v i" for i
        using S(3) by (auto simp: wakes_def no_del_def requeued_def split: option.splits)
      have all: "v_all v1 = v_all v" using S(3) by (simp add: wakes_def no_del_def)
      have core: "priority (tasks k' y) = priority (tasks k y)" "pinned_to (tasks k' y) = pinned_to (tasks k y)" for y
        using core_saved_spD(2,3) [OF r(10)] w(2,8) by simp_all
      have thr: "threads k' t = (if t \<in> deleted_by cpu sp k v then Option.bind (threads k t) released_block else threads k t)" for t
        using d(2) r(7) by (simp add: cleaned_def same_blocks_def del)
      have "v_del v1 = (v_del v)(cpu := {t \<in> v_del v cpu. owns_stack_pointer (tasks k t) sp})" using d(2) by (simp add: cleaned_def)
      then have "switched cpu sp k v k' (?v\<lparr>v_ready := f'\<rparr>) next_task"
        using r(3-6,8,9,12-14) cpus f core thr all wait by (simp add: switched_def)
      moreover have "switch_task cfg T cpu sp isp now k = Some k'" using d(1) r(1) by (simp add: switch_task_def run_scheduler_def)
      ultimately show thesis by (intro that)
    qed
  qed
qed

end

end
