(* ===== verification/System_Tick.thy ===== *)
theory System_Tick
  imports System_Invariant
begin

text \<open>
  The timer interrupt. Its closure satisfies the contract that the timer queue asks of it, so the
  tasks whose time has come, and no others, become ready, and the alarm is armed again.
\<close>

section \<open>Waking a set of tasks\<close>

lemma policy_wakes:
  assumes inv: "policy_inv C k v" and w: "wakes S v v'" "woken_tasks S (tasks k) (tasks k')" and S: "\<And>t. t \<in> S \<Longrightarrow> t \<in> v_all v \<and> task_state (tasks k t) = Sleeping"
    and k': "current_task k' = current_task k" "thread_pointer k' = thread_pointer k" "idle k' = idle k" "yielded k' = yielded k"
  shows "policy_inv C k' v'"
proof -
  note p = policy_invD [OF inv] and st = woken_tasksD(9) [OF w(2)]
  have v: "ready_set (v_ready v') = ready_set (v_ready v) \<union> S" "\<And>i. v_wait v' i = v_wait v i - S" "v_timer v' = v_timer v - S"
    "v_all v' = v_all v" "v_del v' = v_del v" using w(1) by (simp_all add: wakes_def)
  show ?thesis
  proof (rule policy_invI, unfold k' v st)
    fix c t assume "c \<in> C" "current_task k c = Some t" "(if t \<in> S then Ready else task_state (tasks k t)) = Sleeping \<or> t \<in> ready_set (v_ready v) \<union> S"
    then show "yielded k c" using p(14) [of c t] S [of t] by (auto split: if_splits)
  next
    fix c t assume "current_task k c = Some t"
    then show "t \<in> v_all v \<or> (if t \<in> S then Ready else task_state (tasks k t)) = Deleted" using p(9) [of c t] S [of t] by auto
  next
    fix c assume "thread_pointer k c \<noteq> current_task k c"
    then show "thread_pointer k c = None \<and> (\<forall>t. current_task k c = Some t \<longrightarrow> (if t \<in> S then Ready else task_state (tasks k t)) = Deleted)"
      using p(11,12) [of c] S by force
  next
    fix c t assume "t \<in> v_del v c"
    then show "(if t \<in> S then Ready else task_state (tasks k t)) = Deleted" using p(7) [of t c] S [of t] by auto
  qed (use p(1-6,8,13,15) p(10) [of ProCpu _ AppCpu] S in \<open>auto split: if_splits\<close>)
qed

section \<open>The closure of the timer interrupt\<close>

definition tick_inv :: "View \<Rightarrow> heap \<Rightarrow> (Cpu \<Rightarrow> bool) \<Rightarrow> (nat \<Rightarrow> WaitQueue) \<times> RunQueue \<times> (Cpu \<Rightarrow> bool) \<Rightarrow> heap \<Rightarrow> bool" where
  "tick_inv v h0 pend0 s h = (case s of (wqs, rq, pend) \<Rightarrow>
     (\<forall>t. priority (h0 t) \<le> 31) \<and> (\<forall>c. pend0 c \<longrightarrow> pend c) \<and> (\<forall>y. same_alloc (h0 y) (h y) \<and> same_delete (h0 y) (h y)) \<and>
     (\<exists>S v'. ready_part h wqs rq (v_ready v') (v_wait v') \<and> wakes S v v' \<and> woken_tasks S h0 h \<and> (\<forall>t\<in>S. task_state (h0 t) = Sleeping)))"

lemma wakes_insert: "wakes S v v' \<Longrightarrow> wakes (insert t S) v (woken p t v')"
  using wakes_trans [OF _ wakes_woken [OF wakes_refl]] by fastforce

interpretation tick: wakeup_handler "tick_ready cfg current active" "tick_inv v h0 pend0" for cfg current active v h0 pend0
proof
  fix s h t
  assume inv: "tick_inv v h0 pend0 s h" and st: "task_state (h t) = Sleeping"
  obtain wqs rq pend where s: "s = (wqs, rq, pend)" by (cases s)
  from inv obtain S v' where a: "\<forall>t. priority (h0 t) \<le> 31" "\<forall>c. pend0 c \<longrightarrow> pend c" "\<forall>y. same_alloc (h0 y) (h y) \<and> same_delete (h0 y) (h y)"
    "ready_part h wqs rq (v_ready v') (v_wait v')" "wakes S v v'" "woken_tasks S h0 h" "\<forall>t\<in>S. task_state (h0 t) = Sleeping"
    unfolding tick_inv_def s by auto
  have pr: "priority (h t) \<le> 31" using a(1) woken_tasksD(2) [OF a(6)] by simp
  show "\<exists>s' h'. tick_ready cfg current active t s h = Some (s', h') \<and> tick_inv v h0 pend0 s' h' \<and> (\<forall>y. same_timer (h y) (h' y)) \<and>
      (\<forall>y. task_state (h' y) = (if y = t then Ready else task_state (h y)))"
  proof (rule mark_ready_part [OF a(4) pr, of "debug_assertions cfg" current active])
    fix r wqs' rq' h'
    assume m: "mark_task_ready (debug_assertions cfg) current active t wqs rq h = Some (r, wqs', rq', h')"
      "ready_part h' wqs' rq' (enqueue (priority (h t)) t (v_ready v')) (\<lambda>i. v_wait v' i - {t})"
      "relinks ready_element UNIV (h(t := (h t)\<lparr>task_state := Ready, current_wait_queue := None\<rparr>)) h'"
    let ?pend = "case r of DontRun \<Rightarrow> pend | RunOnCore c \<Rightarrow> pend(c := True)"
    have core: "core (h' y) = (if y = t then (core (h y))\<lparr>task_state := Ready\<rparr> else core (h y))" for y
      using core_relinks [OF m(3), of y] by simp
    have same: "same_timer (h y) (h' y) \<and> same_alloc (h y) (h' y) \<and> same_delete (h y) (h' y)" for y
      using relinks_same(1) [OF m(3), of y] by (simp add: same_defs split: if_splits)
    have "woken_tasks {t} h h'" using core by (simp add: woken_tasks_def)
    from woken_tasks_trans [OF a(6) this] have w: "woken_tasks (insert t S) h0 h'" by simp
    have "t \<notin> S" using st woken_tasksD(9) [OF a(6), of t] by auto
    then have st0: "task_state (h0 t) = Sleeping" using st woken_tasksD(9) [OF a(6), of t] by simp
    let ?v = "woken (priority (h t)) t v'"
    have "ready_part h' wqs' rq' (v_ready ?v) (v_wait ?v)" using m(2) by (simp add: woken_def)
    with w wakes_insert [OF a(5)] st0 a(7) have "\<exists>S v'. ready_part h' wqs' rq' (v_ready v') (v_wait v') \<and> wakes S v v' \<and> woken_tasks S h0 h' \<and>
      (\<forall>t\<in>S. task_state (h0 t) = Sleeping)" by (intro exI [of _ "insert t S"] exI [of _ ?v]) simp
    moreover have "\<forall>y. same_alloc (h0 y) (h' y) \<and> same_delete (h0 y) (h' y)" using a(3) same by (simp add: same_defs)
    moreover have "\<forall>c. pend0 c \<longrightarrow> ?pend c" using a(2) by (cases r) simp_all
    ultimately have "tick_inv v h0 pend0 (wqs', rq', ?pend) h'" unfolding tick_inv_def using a(1) by simp
    moreover have "tick_ready cfg current active t s h = Some ((wqs', rq', ?pend), h')" using st m(1) by (simp add: tick_ready_def s)
    ultimately show ?thesis using same core_state(1) [OF core] by blast
  qed
next
  fix s h X h'
  assume inv: "tick_inv v h0 pend0 s h" and r: "relinks timer_element X h h'"
  have core: "core (h' y) = core (h y)" for y by (rule core_relinks [OF r]) simp
  have w: "woken_tasks S h0 h' = woken_tasks S h0 h" for S by (simp add: woken_tasks_def core)
  have rp: "ready_part h wqs rq f W \<Longrightarrow> ready_part h' wqs rq f W" for wqs rq f W
    using relinks_same(2) [OF r] by (auto intro: ready_part_same)
  show "tick_inv v h0 pend0 s h'"
    using inv relinks_same(2) [OF r] unfolding tick_inv_def w by (auto simp: same_defs split: prod.splits intro: rp)
qed

section \<open>The timer interrupt\<close>

definition expired :: "u64 \<Rightarrow> 't Kernel \<Rightarrow> View \<Rightarrow> TaskPtr set" where
  "expired now k v = {t \<in> v_timer v. wakeup_at (tasks k t) \<le> now}"

lemma timer_part_sleeping: "timer_part h (Some td) S \<Longrightarrow> \<exists>ts. timer_inv h (timer_queue td) ts \<and> set ts = S"
  by (simp add: timer_part_def)

lemma handle_alarm_tick:
  assumes inv: "sys_inv UNIV {} k v" and td: "time_driver k = Some td" "td_timer td0 = t" "timer_queue td0 = timer_queue td" "current_alarm td0 = current_alarm td"
    and alarm: "current_alarm td \<le> now"
  obtains td1 wqs rq pend h S v' where
    "handle_alarm (debug_assertions cfg) now (tick_ready cfg (current_task k) (active_cores k)) td0 (wait_queues k, run_queue k, pending k) (tasks k) =
      Some (td1, (wqs, rq, pend), h)" "td_timer td1 = t"
    "S = expired now k v" "wakes S v v'" "woken_tasks S (tasks k) h" "ready_part h wqs rq (v_ready v') (v_wait v')"
    "timer_part h (Some td1) (v_timer v')" "\<And>c. pending k c \<Longrightarrow> pend c" "\<And>y. same_alloc (tasks k y) (h y) \<and> same_delete (tasks k y) (h y)"
    "time_slice_target (timer_queue td1) = time_slice_target (timer_queue td)" "\<And>y. wakeup_at (h y) = wakeup_at (tasks k y)"
proof -
  have links: "links_inv k v" and pol: "policy_inv UNIV k v" using inv by (simp_all add: sys_inv_def)
  from links td have "timer_part (tasks k) (Some td) (v_timer v)" by (simp add: links_inv_def)
  then obtain ts where ts: "timer_inv (tasks k) (timer_queue td) ts" "set ts = v_timer v" by (auto simp: timer_part_def)
  have sl: "\<forall>t\<in>set ts. task_state (tasks k t) = Sleeping" using policy_invD(5) [OF pol] ts(2) by simp
  have ti: "tick_inv v (tasks k) (pending k) (wait_queues k, run_queue k, pending k) (tasks k)"
    using links wakes_refl by (auto simp: tick_inv_def links_inv_def woken_tasks_def same_defs intro!: exI [of _ "{}"] exI [of _ v])
  have ts0: "timer_inv (tasks k) (timer_queue td0) ts" "current_alarm td0 \<le> now" using ts td alarm by simp_all
  from tick.handle_alarm_ok [OF ts0(1) sl ti ts0(2), of "debug_assertions cfg" cfg "current_task k" "active_cores k"]
  obtain td1 s h where a:
    "handle_alarm (debug_assertions cfg) now (tick_ready cfg (current_task k) (active_cores k)) td0 (wait_queues k, run_queue k, pending k) (tasks k) =
      Some (td1, s, h)" "tick_inv v (tasks k) (pending k) s h" "timer_inv h (timer_queue td1) (filter (\<lambda>t. now < wakeup_at (tasks k t)) ts)"
      "td_timer td1 = td_timer td0" "time_slice_target (timer_queue td1) = time_slice_target (timer_queue td0)"
      "\<forall>y. task_state (h y) = (if y \<in> set ts \<and> wakeup_at (tasks k y) \<le> now then Ready else task_state (tasks k y))"
      "\<forall>y. wakeup_at (h y) = wakeup_at (tasks k y)" by blast
  obtain wqs rq pend where s: "s = (wqs, rq, pend)" by (cases s)
  from a(2) obtain S v' where w: "\<forall>c. pending k c \<longrightarrow> pend c" "\<forall>y. same_alloc (tasks k y) (h y) \<and> same_delete (tasks k y) (h y)"
    "ready_part h wqs rq (v_ready v') (v_wait v')" "wakes S v v'" "woken_tasks S (tasks k) h" "\<forall>t\<in>S. task_state (tasks k t) = Sleeping"
    unfolding tick_inv_def s by auto
  have "y \<in> S \<longleftrightarrow> y \<in> expired now k v" for y
    using woken_tasksD(9) [OF w(5), of y] a(6) [rule_format, of y] w(6) sl ts(2) by (auto simp: expired_def split: if_splits)
  then have S: "S = expired now k v" by blast
  have "v_timer v' = v_timer v - S" using w(4) by (simp add: wakes_def)
  then have "set (filter (\<lambda>t. now < wakeup_at (tasks k t)) ts) = v_timer v'" using ts(2) S by (auto simp: expired_def)
  then have "timer_part h (Some td1) (v_timer v')" using a(3) by (auto simp: timer_part_def)
  from a(1) [unfolded s] _ S w(4,5,3) this show thesis
    by (rule that) (use a(4,5,7) w(1,2) td in simp_all)
qed

lemma timer_part_signal: "timer_part h (Some td) S \<Longrightarrow> timer_part h (Some (td\<lparr>timer_queue := signal_next_embassy_wakeup w (timer_queue td)\<rparr>)) S"
  by (auto simp: timer_part_def timer_inv_def timer_rel_def signal_next_embassy_wakeup_def min_le_iff_disj)

lemma expire_time_slices_simps:
  assumes "expire_time_slices cfg now (td, k) = (td', k')"
  shows "tq_queue (timer_queue td') = tq_queue (timer_queue td)" "tq_next_wakeup (timer_queue td') = tq_next_wakeup (timer_queue td)"
    "td_timer td' = td_timer td" "tasks k' = tasks k" "wait_queues k' = wait_queues k" "run_queue k' = run_queue k" "all_tasks k' = all_tasks k"
    "to_delete k' = to_delete k" "current_task k' = current_task k" "thread_pointer k' = thread_pointer k" "idle k' = idle k" "yielded k' = yielded k"
    "main_task k' = main_task k" "threads k' = threads k" "freed k' = freed k" "active_cores k' = active_cores k"
    "pending k c \<Longrightarrow> pending k' c" "contains (active_cores k) c \<Longrightarrow> time_slice_target (timer_queue td) c \<le> now \<Longrightarrow> pending k' c"
  using assms
  by (auto simp: expire_time_slices_def all_cpus_def trigger_scheduler_def request_context_switch_def set_time_slice_def contains_def
      split: if_splits ActiveCores.splits; cases c; simp)+

lemma tick_start:
  fixes now :: u64
  assumes inv: "sys_inv UNIV {} k v" and td: "time_driver k = Some td" "timer_queue td0 = timer_queue td" "current_alarm td0 = current_alarm td"
  defines "S \<equiv> (if current_alarm td \<le> now then expired now k v else {})"
  obtains td1 wqs rq pend h v' where
    "handle_alarm (debug_assertions cfg) now (tick_ready cfg (current_task k) (active_cores k)) td0 (wait_queues k, run_queue k, pending k) (tasks k) =
      Some (td1, (wqs, rq, pend), h)" "td_timer td1 = td_timer td0"
    "wakes S v v'" "woken_tasks S (tasks k) h" "ready_part h wqs rq (v_ready v') (v_wait v')"
    "timer_part h (Some td1) (v_timer v')" "\<And>c. pending k c \<Longrightarrow> pend c" "\<And>y. same_alloc (tasks k y) (h y) \<and> same_delete (tasks k y) (h y)"
    "time_slice_target (timer_queue td1) = time_slice_target (timer_queue td)"
proof (cases "current_alarm td \<le> now")
  case True
  show thesis
  proof (rule handle_alarm_tick [OF inv td(1) refl td(2,3) True, of cfg])
    fix td1 wqs rq pend h S' v'
    assume a: "handle_alarm (debug_assertions cfg) now (tick_ready cfg (current_task k) (active_cores k)) td0 (wait_queues k, run_queue k, pending k) (tasks k) =
        Some (td1, (wqs, rq, pend), h)" "td_timer td1 = td_timer td0"
      "S' = expired now k v" "wakes S' v v'" "woken_tasks S' (tasks k) h" "ready_part h wqs rq (v_ready v') (v_wait v')"
      "timer_part h (Some td1) (v_timer v')" "\<And>c. pending k c \<Longrightarrow> pend c" "\<And>y. same_alloc (tasks k y) (h y) \<and> same_delete (tasks k y) (h y)"
      "time_slice_target (timer_queue td1) = time_slice_target (timer_queue td)"
    have "S' = S" using True a(3) by (simp add: S_def)
    with a show thesis by (intro that [of td1 wqs rq pend h v']) simp_all
  qed
next
  case False
  have "ready_part (tasks k) (wait_queues k) (run_queue k) (v_ready v) (v_wait v)" "timer_part (tasks k) (Some td) (v_timer v)"
    using inv td(1) by (simp_all add: sys_inv_def links_inv_def)
  moreover from this(2) have "timer_part (tasks k) (Some td0) (v_timer v)" by (rule timer_part_slices) (simp_all add: td)
  moreover have "handle_alarm (debug_assertions cfg) now (tick_ready cfg (current_task k) (active_cores k)) td0
      (wait_queues k, run_queue k, pending k) (tasks k) = Some (td0, (wait_queues k, run_queue k, pending k), tasks k)"
    using False td(3) by (simp add: handle_alarm_def not_le)
  ultimately show thesis using False wakes_refl td(2)
    by (intro that [of td0 "wait_queues k" "run_queue k" "pending k" "tasks k" v]) (simp_all add: S_def woken_tasks_def same_defs)
qed

context one_shot_timer
begin

lemma timer_tick_inv:
  fixes now :: u64
  assumes inv: "sys_inv UNIV {} k v" and td: "time_driver k = Some td" "valid (td_timer td)"
  defines "S \<equiv> (if current_alarm td \<le> now then expired now k v else {})"
  obtains k' v' where "timer_tick_handler cfg T now embassy k = Some k'" "sys_inv UNIV {} k' v'" "armed k'"
    "wakes S v v'" "woken_tasks S (tasks k) (tasks k')" "current_task k' = current_task k" "thread_pointer k' = thread_pointer k"
    "yielded k' = yielded k" "same_blocks k k'" "main_task k' = main_task k" "idle k' = idle k" "active_cores k' = active_cores k" "\<And>c. pending k c \<Longrightarrow> pending k' c"
    "\<And>c. contains (active_cores k) c \<Longrightarrow> time_slice_target (timer_queue td) c \<le> now \<Longrightarrow> pending k' c"
proof -
  let ?td0 = "td\<lparr>td_timer := tm_clear_interrupt T (td_timer td)\<rparr>"
  have links: "links_inv k v" and pol: "policy_inv UNIV k v" and blocks: "blocks_inv UNIV {} k v" using inv by (simp_all add: sys_inv_def)
  have q0: "timer_queue ?td0 = timer_queue td" "current_alarm ?td0 = current_alarm td" by simp_all
  show thesis
  proof (rule tick_start [OF inv td(1) q0, of cfg now])
    fix td1 wqs rq pend h v'
    assume "handle_alarm (debug_assertions cfg) now (tick_ready cfg (current_task k) (active_cores k)) ?td0 (wait_queues k, run_queue k, pending k) (tasks k) =
        Some (td1, (wqs, rq, pend), h)" "td_timer td1 = td_timer ?td0"
      "wakes (if current_alarm td \<le> now then expired now k v else {}) v v'"
      "woken_tasks (if current_alarm td \<le> now then expired now k v else {}) (tasks k) h"
      "ready_part h wqs rq (v_ready v') (v_wait v')" "timer_part h (Some td1) (v_timer v')" "\<And>c. pending k c \<Longrightarrow> pend c"
      "\<And>y. same_alloc (tasks k y) (h y) \<and> same_delete (tasks k y) (h y)"
      "time_slice_target (timer_queue td1) = time_slice_target (timer_queue td)"
    note a = this [folded S_def]
    let ?k1 = "k\<lparr>wait_queues := wqs, run_queue := rq, pending := pend, tasks := h\<rparr>"
    define td2 where "td2 = (case embassy of None \<Rightarrow> td1 | Some w \<Rightarrow> td1\<lparr>timer_queue := signal_next_embassy_wakeup w (timer_queue td1)\<rparr>)"
    have td2: "td_timer td2 = td_timer td1" "time_slice_target (timer_queue td2) = time_slice_target (timer_queue td)"
      "timer_part h (Some td2) (v_timer v')"
      using a(6,9) timer_part_signal [of h td1] by (auto simp: td2_def signal_next_embassy_wakeup_def split: option.split)
    obtain td3 k2 where e: "expire_time_slices cfg now (td2, ?k1) = (td3, k2)" by fastforce
    note s = expire_time_slices_simps [OF e]
    have "valid (td_timer td3)" using s(3) td2(1) a(2) td(2) valid_ops(6) by simp
    then show thesis
    proof (rule rearm_total [of _ now])
      fix td4 assume r: "rearm T now td3 = Some td4" "valid (td_timer td4)" "timer_queue td4 = timer_queue td3" "current_alarm td4 = timer_next_wakeup (timer_queue td3)"
      let ?k = "k2\<lparr>time_driver := Some td4\<rparr>"
      have run: "timer_tick_handler cfg T now embassy k = Some ?k"
        using td(1) a(1) e r(1) by (simp add: timer_tick_handler_def Let_def td2_def)
      have "timer_part h (Some td4) (v_timer v')" by (rule timer_part_slices [OF td2(3)]) (simp_all add: r(3) s(1,2))
      moreover have "alloc_part h (all_tasks k) (v_all v')" "delete_part h (to_delete k) (v_del v')"
        using links a(8) wakes_frame [OF a(3)] by (auto simp: links_inv_def intro: alloc_part_same delete_part_same)
      ultimately have "links_inv ?k v'" using links a(5) woken_tasksD(2) [OF a(4)] s(4-8) by (simp add: links_inv_def)
      moreover have "policy_inv UNIV ?k v'"
        by (rule policy_wakes [OF pol a(3)]) (use a(4) s policy_invD(5,6) [OF pol] in \<open>auto simp: S_def expired_def split: if_splits\<close>)
      moreover have "blocks_inv UNIV {} ?k v'"
        by (rule blocks_inv_mono [OF blocks]) (use s wakes_frame [OF a(3)] woken_tasksD(1) [OF a(4)] in simp_all)
      ultimately have "sys_inv UNIV {} ?k v'" by (simp add: sys_inv_def)
      moreover have "armed ?k" using r(2) r(4) [folded r(3)] by (simp add: armed_def)
      ultimately show thesis
        using run a(3,4,7) s td2(2) by (intro that [of ?k v']) (simp_all add: same_blocks_def)
    qed
  qed
qed

lemma rearm_alarm_inv:
  assumes inv: "sys_inv UNIV {} k v" "timed k"
  obtains k' where "rearm_alarm T now k = Some k'" "sys_inv UNIV {} k' v" "armed k'" "k'\<lparr>time_driver := None\<rparr> = k\<lparr>time_driver := None\<rparr>"
proof -
  from inv(2) obtain td where td: "time_driver k = Some td" "valid (td_timer td)" by (auto simp: timed_def)
  from td(2) show thesis
  proof (rule rearm_total [of _ now])
    fix td' assume r: "rearm T now td = Some td'" "valid (td_timer td')" "timer_queue td' = timer_queue td"
      "current_alarm td' = timer_next_wakeup (timer_queue td)"
    let ?k = "k\<lparr>time_driver := Some td'\<rparr>"
    have "timer_part (tasks k) (Some td) (v_timer v)" using inv(1) td(1) by (simp add: sys_inv_def links_inv_def)
    then have "timer_part (tasks k) (Some td') (v_timer v)" by (rule timer_part_slices) (simp_all add: r(3))
    then have "sys_inv UNIV {} ?k v"
      using inv(1) by (simp add: sys_inv_def links_inv_def policy_inv_def blocks_inv_def is_main_task_def)
    moreover have "armed ?k" using r(2) r(4) [folded r(3)] by (simp add: armed_def)
    ultimately show thesis using td(1) r(1) by (intro that [of ?k]) (simp_all add: rearm_alarm_def)
  qed
qed

end

end
