(* ===== verification/System_Operations.thy ===== *)
theory System_Operations
  imports System_Tick
begin

text \<open>
  The operations that threads call keep the invariant of the system: sleeping, waiting, waking,
  spawning and joining threads, deleting tasks, changing priorities, and starting the scheduler.
\<close>

section \<open>Sleeping, waiting and waking\<close>

text \<open>The task that runs on a CPU and may call the scheduler.\<close>

definition running :: "'t Kernel \<Rightarrow> Cpu \<Rightarrow> TaskPtr \<Rightarrow> bool" where
  "running k cpu t \<longleftrightarrow> thread_pointer k cpu = Some t \<and> \<not> yielded k cpu \<and> task_state (tasks k t) = Ready"

lemma sys_kernel: "sys_inv UNIV {} k v \<Longrightarrow> kernel_inv k v \<and> time_driver k \<noteq> None"
  by (simp add: sys_inv_def kernel_inv_def)

lemma sys_inv_frame:
  assumes "sys_inv UNIV {} k v" "kernel_inv k' v'" "frame k k'" "v_all v' = v_all v" "v_del v' = v_del v" "\<And>i. v_wait v' i \<subseteq> v_wait v i"
  shows "sys_inv UNIV {} k' v'"
proof -
  have "blocks_inv UNIV {} k' v'"
    by (rule blocks_inv_mono [of _ _ k v]) (use assms in \<open>auto simp: frame_def sys_inv_def\<close>)
  moreover have "time_driver k' \<noteq> None" using assms(1,3) by (auto simp: sys_inv_def frame_def)
  ultimately show ?thesis using assms(2) by (simp add: sys_inv_def kernel_inv_def)
qed

lemma sleep_until_sys:
  assumes inv: "sys_inv UNIV {} k v" and run: "running k cpu t"
  obtains slept k' v' where "sleep_until cfg cpu now at k = Some (slept, k')" "slept \<longleftrightarrow> now < at \<or> at = U64_MAX"
    "sys_inv UNIV {} k' v'" "v_all v' = v_all v" "v_timer v' = (if slept \<and> at \<noteq> U64_MAX then insert t (v_timer v) else v_timer v)"
    "slept \<Longrightarrow> task_state (tasks k' t) = Sleeping \<and> pending k' cpu" "slept \<Longrightarrow> at \<noteq> U64_MAX \<Longrightarrow> wakeup_at (tasks k' t) = at" "frame k k'"
    "\<And>y. pinned_to (tasks k' y) = pinned_to (tasks k y)"
    "v' = v\<lparr>v_timer := (if (now < at \<or> at = U64_MAX) \<and> at \<noteq> U64_MAX then insert t (v_timer v) else v_timer v)\<rparr>"
proof -
  have kinv: "kernel_inv k v" and td: "time_driver k \<noteq> None" using sys_kernel [OF inv] by simp_all
  have r: "thread_pointer k cpu = Some t" "\<not> yielded k cpu" "task_state (tasks k t) = Ready" using run by (simp_all add: running_def)
  show thesis
  proof (rule sleep_until_inv [OF kinv td r, of cfg now at])
    fix slept k'
    let ?v = "v\<lparr>v_timer := (if slept \<and> at \<noteq> U64_MAX then insert t (v_timer v) else v_timer v)\<rparr>"
    assume s: "sleep_until cfg cpu now at k = Some (slept, k')" "slept \<longleftrightarrow> now < at \<or> at = U64_MAX" "kernel_inv k' ?v"
      "slept \<Longrightarrow> task_state (tasks k' t) = Sleeping \<and> pending k' cpu" "slept \<Longrightarrow> at \<noteq> U64_MAX \<Longrightarrow> wakeup_at (tasks k' t) = at" "frame k k'"
      "\<And>y. pinned_to (tasks k' y) = pinned_to (tasks k y)"
    have "sys_inv UNIV {} k' ?v" by (rule sys_inv_frame [OF inv s(3,6)]) simp_all
    with s show thesis by (intro that [of slept k' ?v]) simp_all
  qed
qed

lemma wait_with_deadline_sys:
  assumes inv: "sys_inv UNIV {} k v" and run: "running k cpu t"
    and queue: "\<And>inner. threads k i = Some inner \<Longrightarrow> \<not> detached inner \<and> \<not> released inner"
  obtains k' v' where "wait_with_deadline cfg cpu now i at k = Some k'" "sys_inv UNIV {} k' v'" "v_all v' = v_all v"
    "now < at \<or> at = U64_MAX \<Longrightarrow> t \<in> v_wait v' i \<and> task_state (tasks k' t) = Sleeping \<and> pending k' cpu" "frame k k'"
    "v' = v\<lparr>v_timer := (if (now < at \<or> at = U64_MAX) \<and> at \<noteq> U64_MAX then insert t (v_timer v) else v_timer v),
      v_wait := (if now < at \<or> at = U64_MAX then (v_wait v)(i := insert t (v_wait v i)) else v_wait v)\<rparr>"
proof -
  have kinv: "kernel_inv k v" and td: "time_driver k \<noteq> None" using sys_kernel [OF inv] by simp_all
  have blocks: "blocks_inv UNIV {} k v" using inv by (simp add: sys_inv_def)
  have r: "thread_pointer k cpu = Some t" "\<not> yielded k cpu" "task_state (tasks k t) = Ready" using run by (simp_all add: running_def)
  show thesis
  proof (rule wait_with_deadline_inv [OF kinv td r, of cfg now i at])
    fix k'
    let ?v = "v\<lparr>v_timer := (if (now < at \<or> at = U64_MAX) \<and> at \<noteq> U64_MAX then insert t (v_timer v) else v_timer v),
      v_wait := (if now < at \<or> at = U64_MAX then (v_wait v)(i := insert t (v_wait v i)) else v_wait v)\<rparr>"
    assume w: "wait_with_deadline cfg cpu now i at k = Some k'" "kernel_inv k' ?v"
      "now < at \<or> at = U64_MAX \<Longrightarrow> task_state (tasks k' t) = Sleeping \<and> pending k' cpu" "frame k k'"
    have fr: "current_task k' = current_task k" "threads k' = threads k" "thread (tasks k' y) = thread (tasks k y)"
      "is_main_task k' y = is_main_task k y" for y using w(4) by (simp_all add: frame_def is_main_task_def)
    have l: "listed ?v = listed v" by (simp add: listed_def)
    have "blocks_inv UNIV {} k' ?v"
    proof (rule blocks_invI, unfold fr l)
      fix y inner assume y: "threads k y = Some inner" "detached inner \<or> released inner"
      then have "y \<noteq> i" using queue by blast
      then show "v_wait ?v y = {}" using blocks_invD(6) [OF blocks y] by simp
    qed (use blocks_invD [OF blocks] in auto)
    moreover have "time_driver k' \<noteq> None" using td w(4) by (auto simp: frame_def)
    ultimately have "sys_inv UNIV {} k' ?v" using w(2) by (simp add: sys_inv_def kernel_inv_def)
    with w show thesis by (intro that [of k' ?v]) auto
  qed
qed

lemma notify_sys:
  assumes inv: "sys_inv UNIV {} k v"
  obtains k' v' where "notify cfg i k = Some k'" "sys_inv UNIV {} k' v'" "wakes (v_wait v i) v v'" "woken_tasks (v_wait v i) (tasks k) (tasks k')" "frame k k'"
proof -
  have links: "links_inv k v" and pol: "policy_inv UNIV k v" and td: "time_driver k \<noteq> None" using inv by (simp_all add: sys_inv_def)
  from notify_inv [OF links pol td, of cfg i] obtain k' v' where n: "notify cfg i k = Some k'" "links_inv k' v'" "policy_inv UNIV k' v'"
    "same_cpus k k'" "same_blocks k k'" "wakes (v_wait v i) v v'" "woken_tasks (v_wait v i) (tasks k) (tasks k')" by blast
  have fr: "frame k k'" by (rule frameI [OF n(4,5) woken_tasksD(1) [OF n(7)]])
  have "sys_inv UNIV {} k' v'"
    by (rule sys_inv_frame [OF inv _ fr]) (use n(2,3) wakes_frame [OF n(6)] in \<open>simp_all add: kernel_inv_def\<close>)
  from n(1) this n(6,7) fr show thesis by (rule that)
qed

lemma resume_task_sys:
  assumes inv: "sys_inv UNIV {} k v" and t: "t \<in> v_all v" "task_state (tasks k t) = Sleeping"
  obtains k' where "resume_task cfg t k = Some k'" "sys_inv UNIV {} k' (woken (priority (tasks k t)) t v)" "task_state (tasks k' t) = Ready" "frame k k'"
proof -
  have links: "links_inv k v" and pol: "policy_inv UNIV k v" and td: "time_driver k \<noteq> None" using inv by (simp_all add: sys_inv_def)
  have y: "yielded k c" if "current_task k c = Some t" for c using policy_invD(14) [OF pol UNIV_I that] t(2) by simp
  show thesis
  proof (rule resume_task_inv [OF links pol td t(1) y, of cfg])
    fix k' assume r: "resume_task cfg t k = Some k'" "links_inv k' (woken (priority (tasks k t)) t v)"
      "policy_inv UNIV k' (woken (priority (tasks k t)) t v)" "same_cpus k k'" "same_blocks k k'"
      "\<And>y. core (tasks k' y) = (if y = t then (core (tasks k y))\<lparr>task_state := Ready\<rparr> else core (tasks k y))"
    have thr: "thread (tasks k' y) = thread (tasks k y)" for y using arg_cong [OF r(6) [of y], of thread] by (simp split: if_splits)
    have fr: "frame k k'" by (rule frameI [OF r(4,5) thr])
    have "sys_inv UNIV {} k' (woken (priority (tasks k t)) t v)"
      by (rule sys_inv_frame [OF inv _ fr]) (use r(2,3) in \<open>auto simp: kernel_inv_def\<close>)
    with r(1) core_state(1) [OF r(6), of t] fr show thesis by (intro that) simp_all
  qed simp
qed

section \<open>Spawning a thread\<close>

text \<open>Writing a fresh task at an address that is in no list.\<close>

definition fresh_links :: "Task \<Rightarrow> bool" where
  "fresh_links x \<longleftrightarrow> unlinked ready_element x \<and> unlinked timer_element x \<and> unlinked alloc_element x \<and> unlinked delete_element x \<and> priority x \<le> 31"

lemma rel_outside:
  "x \<notin> set xs \<Longrightarrow> list_rel E (h(x := y)) l xs = list_rel E h l xs" "x \<notin> set xs \<Longrightarrow> queue_rel E (h(x := y)) q xs = queue_rel E h q xs"
  by (rule list_rel_cong queue_rel_cong; auto)+

lemma ready_part_outside:
  assumes "ready_part h wqs rq f W" "t \<notin> ready_set f" "\<And>i. t \<notin> W i" "unlinked ready_element x"
  shows "ready_part (h(t := x)) wqs rq f W"
proof -
  from assms(1) obtain w where inv: "ready_inv h wqs rq f w" and W: "\<And>i. set (w i) = W i" by (auto simp: ready_part_def)
  have t: "t \<notin> set (f p)" "t \<notin> set (w i)" for p i using assms(2,3) W by (auto simp: ready_set_def)
  have "ready_inv (h(t := x)) wqs rq f w"
    using inv assms(4) t rel_outside [of t] unfolding ready_inv_def rq_rel_def waits_rel_def by auto
  with W show ?thesis by (auto simp: ready_part_def)
qed

lemma links_outside:
  assumes inv: "links_inv k v" and t: "t \<notin> ready_set (v_ready v)" "\<And>i. t \<notin> v_wait v i" "t \<notin> v_timer v" "t \<notin> listed v" and x: "fresh_links x"
  shows "links_inv (k\<lparr>tasks := (tasks k)(t := x)\<rparr>) v"
proof -
  have parts: "ready_part (tasks k) (wait_queues k) (run_queue k) (v_ready v) (v_wait v)" "timer_part (tasks k) (time_driver k) (v_timer v)"
    "alloc_part (tasks k) (all_tasks k) (v_all v)" "delete_part (tasks k) (to_delete k) (v_del v)" "\<And>y. priority (tasks k y) \<le> 31"
    using inv by (simp_all add: links_inv_def)
  have td: "t \<notin> v_all v" "t \<notin> v_del v c" for c using t(4) by (cases c; simp add: listed_def)+
  have "timer_part ((tasks k)(t := x)) (time_driver k) (v_timer v)"
  proof (cases "time_driver k")
    case (Some td)
    with parts(2) obtain ts where ts: "timer_inv (tasks k) (timer_queue td) ts" "set ts = v_timer v" by (auto simp: timer_part_def)
    then have "timer_inv ((tasks k)(t := x)) (timer_queue td) ts"
      using t(3) x rel_outside(2) [of t ts] by (auto simp: timer_inv_def timer_rel_def fresh_links_def)
    with Some ts(2) show ?thesis by (auto simp: timer_part_def)
  qed (use parts(2) x in \<open>auto simp: timer_part_def fresh_links_def\<close>)
  moreover have "alloc_part ((tasks k)(t := x)) (all_tasks k) (v_all v)"
  proof -
    from parts(3) obtain xs where xs: "list_rel alloc_element (tasks k) (all_tasks k) xs" "set xs = v_all v" by (auto simp: alloc_part_def)
    then have "list_rel alloc_element ((tasks k)(t := x)) (all_tasks k) xs" using td(1) rel_outside(1) [of t xs] by simp
    with parts(3) xs(2) x show ?thesis by (auto simp: alloc_part_def fresh_links_def)
  qed
  moreover have "delete_part ((tasks k)(t := x)) (to_delete k) (v_del v)"
    unfolding delete_part_def
  proof (intro conjI allI impI)
    fix c
    from parts(4) obtain xs where xs: "list_rel delete_element (tasks k) (to_delete k c) xs" "set xs = v_del v c" unfolding delete_part_def by blast
    then have "list_rel delete_element ((tasks k)(t := x)) (to_delete k c) xs" using td(2) [of c] rel_outside(1) [of t xs] by simp
    with xs(2) show "\<exists>xs. list_rel delete_element ((tasks k)(t := x)) (to_delete k c) xs \<and> set xs = v_del v c" by blast
  qed (use parts(4) x in \<open>auto simp: delete_part_def fresh_links_def\<close>)
  ultimately show ?thesis
    using ready_part_outside [OF parts(1) t(1,2)] x parts(5) by (simp add: links_inv_def fresh_links_def)
qed

lemma policy_outside:
  assumes "policy_inv C k v" "t \<notin> v_all v" "\<And>c. t \<notin> v_del v c" "\<And>c. current_task k c \<noteq> Some t"
  shows "policy_inv C (k\<lparr>tasks := (tasks k)(t := x)\<rparr>) v"
proof -
  note p = policy_invD [OF assms(1)]
  have "((tasks k)(t := x)) y = tasks k y" if "y \<in> v_all v \<or> y \<in> v_del v c \<or> current_task k c = Some y" for y c
    using assms(2) assms(3) [of c] assms(4) [of c] that by auto
  then show ?thesis
    by (intro policy_invI) (use p(1-9,11-15) p(10) [of ProCpu _ AppCpu] assms(2-4) in \<open>auto split: if_splits\<close>)
qed

lemma fresh_links_Task_new [simp]: "fresh_links (Task_new opts bottom words th)"
  by (simp add: fresh_links_def Task_new_def Let_def element_defs unlinked_def priority_new_def)

lemma set_up_stack_guard_eq:
  obtains x f where "set_up_stack_guard cfg t off val k = k\<lparr>stack_words_at := f, tasks := (tasks k)(t := x)\<rparr>" "x\<lparr>stack_guard := 0, stack_guard_value := 0\<rparr> = (tasks k t)\<lparr>stack_guard := 0, stack_guard_value := 0\<rparr>"
proof -
  let ?b = "stack_bottom (tasks k t) + off"
  show thesis
  proof (cases "sw_task_overflow_detection cfg")
    case True
    then show thesis
      by (intro that [of "(tasks k t)\<lparr>stack_guard_value := val, stack_guard := ?b\<rparr>" "(stack_words_at k)(?b := val)"])
        (simp_all add: set_up_stack_guard_def Let_def)
  next
    case False
    have "k\<lparr>stack_words_at := stack_words_at k\<rparr> = k" by simp
    with False show thesis
      by (intro that [of "(tasks k t)\<lparr>stack_guard := ?b\<rparr>" "stack_words_at k"]) (simp_all add: set_up_stack_guard_def Let_def)
  qed
qed

text \<open>An address at which a thread can be placed: it holds no thread, no main task and no waiting tasks.\<close>

definition unused :: "'t Kernel \<Rightarrow> nat \<Rightarrow> bool" where
  "unused k th \<longleftrightarrow> threads k th = None \<and> \<not> is_main_task k th \<and> list_is_empty (waiting_tasks (wait_queues k th))"

lemma unused_outside:
  assumes inv: "sys_inv UNIV {} k v" and u: "unused k th"
  shows "th \<notin> listed v" "th \<notin> ready_set (v_ready v)" "th \<notin> v_wait v i" "th \<notin> v_timer v" "current_task k c \<noteq> Some th" "v_wait v th = {}"
    "(wait_queues k)(th := wait_new) = wait_queues k"
proof -
  have links: "links_inv k v" and pol: "policy_inv UNIV k v" and blocks: "blocks_inv UNIV {} k v" using inv by (simp_all add: sys_inv_def)
  show l: "th \<notin> listed v" using blocks_invD(2) [OF blocks, of th] u by (auto simp: unused_def)
  then have all: "th \<notin> v_all v" "th \<notin> v_del v c" for c by (cases c; simp add: listed_def)+
  then show "th \<notin> ready_set (v_ready v)" "th \<notin> v_wait v i" "th \<notin> v_timer v" using policy_invD(2,4,6) [OF pol] by blast+
  show "current_task k c \<noteq> Some th" using blocks_invD(8) [OF blocks UNIV_I, of c th] all by blast
  have e: "list_is_empty (waiting_tasks (wait_queues k th))" using u by (simp add: unused_def)
  then have "waiting_tasks (wait_queues k th) = list_new" by (simp add: list_is_empty_def list_new_def)
  then show "(wait_queues k)(th := wait_new) = wait_queues k" by (auto simp: fun_eq_iff wait_new_def)
  have "ready_part (tasks k) (wait_queues k) (run_queue k) (v_ready v) (v_wait v)" using links by (simp add: links_inv_def)
  with e show "v_wait v th = {}" unfolding ready_part_def ready_inv_def waits_rel_def by (metis ready_link.list_is_empty_iff set_empty)
qed

lemma launch_sys:
  assumes inv: "sys_inv UNIV {} k v" and u: "unused k th" and inner: "join_queue inner = th" "\<not> released inner"
    and cpu: "\<And>c. opt_pinned_to opts = Some c \<Longrightarrow> contains (active_cores k) c"
  obtains k' v' where "launch tc cfg base opts th (k\<lparr>threads := (threads k)(th \<mapsto> inner)\<rparr>) = Some k'" "sys_inv UNIV {} k' v'"
    "v_all v' = insert th (v_all v)" "th \<in> ready_set (v_ready v')" "task_state (tasks k' th) = Ready" "threads k' = (threads k)(th \<mapsto> inner)"
    "priority (tasks k' th) = priority_new (opt_priority opts)" "current_task k' = current_task k" "thread_pointer k' = thread_pointer k"
    "map_option td_timer (time_driver k') = map_option td_timer (time_driver k)" "main_task k' = main_task k" "idle k' = idle k" "active_cores k' = active_cores k"
    "\<And>i. v_wait v' i \<subseteq> v_wait v i"
proof -
  have links: "links_inv k v" and pol: "policy_inv UNIV k v" and blocks: "blocks_inv UNIV {} k v" and td: "time_driver k \<noteq> None"
    using inv by (simp_all add: sys_inv_def)
  note o = unused_outside [OF inv u]
  have all: "th \<notin> v_all v" "th \<notin> v_del v c" for c using o(1) by (cases c; simp add: listed_def)+
  let ?task = "Task_new opts base ((align_down (payload_addr inner) STACK_ALIGN - base) div 4) th"
  let ?k1 = "k\<lparr>threads := (threads k)(th \<mapsto> inner), tasks := (tasks k)(th := ?task)\<rparr>"
  obtain x f where g: "set_up_stack_guard cfg th (guard_offset tc) 0xDEEDBAAD ?k1 = ?k1\<lparr>stack_words_at := f, tasks := (tasks ?k1)(th := x)\<rparr>"
    "x\<lparr>stack_guard := 0, stack_guard_value := 0\<rparr> = (tasks ?k1 th)\<lparr>stack_guard := 0, stack_guard_value := 0\<rparr>"
    by (rule set_up_stack_guard_eq)
  have x: "fresh_links x" "task_state x = Ready" "pinned_to x = opt_pinned_to opts" "priority x = priority_new (opt_priority opts)" "thread x = Some th"
    using arg_cong [OF g(2), of fresh_links] arg_cong [OF g(2), of task_state] arg_cong [OF g(2), of pinned_to]
      arg_cong [OF g(2), of priority] arg_cong [OF g(2), of thread]
    by (simp_all add: Task_new_def Let_def fresh_links_def element_defs unlinked_def priority_new_def)
  let ?k2 = "k\<lparr>threads := (threads k)(th \<mapsto> inner), stack_words_at := f, tasks := (tasks k)(th := x)\<rparr>"
  have "links_inv (k\<lparr>tasks := (tasks k)(th := x)\<rparr>) v" by (rule links_outside [OF links o(2,3,4,1) x(1)])
  moreover have "policy_inv UNIV (k\<lparr>tasks := (tasks k)(th := x)\<rparr>) v" by (rule policy_outside [OF pol all o(5)])
  ultimately have kinv: "kernel_inv ?k2 v" by (simp add: kernel_inv_def links_inv_def policy_inv_def)
  have reg: "launch tc cfg base opts th (k\<lparr>threads := (threads k)(th \<mapsto> inner)\<rparr>) = register_task cfg th ?k2"
    using g(1) by (simp add: launch_def Let_def)
  have t2: "th \<notin> v_all v" "\<And>c. current_task ?k2 c \<noteq> Some th" "task_state (tasks ?k2 th) \<noteq> Deleted"
    "\<And>c. pinned_to (tasks ?k2 th) = Some c \<Longrightarrow> contains (active_cores ?k2) c" using all o(5) x cpu by simp_all
  show thesis
  proof (rule register_task_inv [OF kinv t2, of cfg])
    fix k' let ?v = "woken (priority (tasks ?k2 th)) th (v\<lparr>v_all := insert th (v_all v)\<rparr>)"
    assume r: "register_task cfg th ?k2 = Some k'" "kernel_inv k' ?v"
      "\<And>y. core (tasks k' y) = (if y = th then (core (tasks ?k2 y))\<lparr>task_state := Ready\<rparr> else core (tasks ?k2 y))" "frame ?k2 k'"
    note b = blocks_invD [OF blocks]
    have fr: "threads k' = (threads k)(th \<mapsto> inner)" "thread (tasks k' y) = (if y = th then Some th else thread (tasks k y))"
      "current_task k' = current_task k" "is_main_task k' y = is_main_task k y" for y
      using r(4) x(5) by (simp_all add: frame_def is_main_task_def)
    have l: "listed ?v = insert th (listed v)" by (auto simp: listed_def)
    have "blocks_inv UNIV {} k' ?v"
    proof (rule blocks_invI, unfold fr l)
      fix t i assume "((threads k)(th \<mapsto> inner)) t = Some i" "detached i \<or> released i"
      then show "v_wait ?v t = {}" using b(6) [of t i] o(6) by (cases "t = th") auto
    next
      fix t i assume "((threads k)(th \<mapsto> inner)) t = Some i" "\<not> released i"
      then show "t \<in> insert th (listed v) \<union> {}" using b(7) [of t i] by (cases "t = th") auto
    next
      fix t i assume "((threads k)(th \<mapsto> inner)) t = Some i"
      then show "join_queue i = t \<and> \<not> is_main_task k t" using b(4,5) [of t i] inner(1) u by (cases "t = th") (auto simp: unused_def)
    next
      fix t assume "t \<in> insert th (listed v) \<union> {}" "\<not> is_main_task k t"
      then show "(if t = th then Some th else thread (tasks k t)) = Some t \<and> (\<exists>i. ((threads k)(th \<mapsto> inner)) t = Some i \<and> \<not> released i)"
        using b(1,2) [of t] inner(2) by (cases "t = th") auto
    qed (use b(3) [where c = ProCpu] b(3) b(8) in auto)
    moreover have "time_driver k' \<noteq> None" using td r(4) by (auto simp: frame_def)
    ultimately have "sys_inv UNIV {} k' ?v" using r(2) by (simp add: sys_inv_def kernel_inv_def)
    then show thesis
      using r(1) reg core_state(1,2) [OF r(3), of th] x fr(1) r(4) by (intro that [of k' ?v]) (auto simp: frame_def)
  qed
qed

end
