(* ===== verification/System_Threads.thy ===== *)
theory System_Threads
  imports System_Operations
begin

text \<open>
  The operations on threads keep the invariant of the system: spawning, publishing a result, joining,
  detaching, changing priorities and deleting tasks. With them the memory block of a thread is released
  and freed exactly once, and a thread that joins is woken by the release.
\<close>

text \<open>What no operation on threads changes.\<close>

definition keeps :: "'t Kernel \<Rightarrow> 't Kernel \<Rightarrow> bool" where
  "keeps k k' \<longleftrightarrow> current_task k' = current_task k \<and> idle k' = idle k \<and> main_task k' = main_task k \<and> active_cores k' = active_cores k \<and>
     map_option td_timer (time_driver k') = map_option td_timer (time_driver k)"

lemma keepsI: "frame k k' \<Longrightarrow> keeps k k'" "same_cpus k k' \<Longrightarrow> keeps k k'"
  by (simp_all add: keeps_def frame_def same_cpus_def)

section \<open>Spawning\<close>

definition new_block :: "ThreadSpawner \<Rightarrow> bool \<Rightarrow> Payload \<Rightarrow> nat \<Rightarrow> ThreadInner" where
  "new_block s det p addr = \<lparr>has_result = False, detached = det, released = False, on_heap = sp_heap s, join_queue = sp_thread s,
     payload = p, payload_addr = addr\<rparr>"

lemma prepare_eq:
  assumes inv: "sys_inv UNIV {} k v" and u: "unused k (sp_thread s)"
    and r: "reserve_payload tc (debug_assertions cfg) (sp_base s) (sp_thread s) layout = Some addr"
  shows "prepare tc cfg s layout k = Some (k\<lparr>threads := (threads k)(sp_thread s \<mapsto> new_block s False NoPayload addr)\<rparr>)"
proof -
  have "time_driver k \<noteq> None" using inv by (simp add: sys_inv_def)
  moreover have "k\<lparr>threads := f, wait_queues := wait_queues k\<rparr> = k\<lparr>threads := f\<rparr>" for f by simp
  ultimately show ?thesis using r unused_outside(7) [OF inv u] by (simp add: prepare_def new_block_def)
qed

lemma spawn_sys:
  assumes inv: "sys_inv UNIV {} k v" and u: "unused k (sp_thread s)"
    and r: "reserve_payload tc (debug_assertions cfg) (sp_base s) (sp_thread s) layout = Some addr"
    and cpu: "\<And>c. opt_pinned_to (sp_options s) = Some c \<Longrightarrow> contains (active_cores k) c"
  obtains k' v' where "spawn tc cfg s layout k = Some (\<lparr>jh_thread = sp_thread s, jh_options = sp_options s\<rparr>, k')" "sys_inv UNIV {} k' v'"
    "sp_thread s \<in> ready_set (v_ready v')" "threads k' = (threads k)(sp_thread s \<mapsto> new_block s False Closure addr)"
    "priority (tasks k' (sp_thread s)) = priority_new (opt_priority (sp_options s))"
    "v_all v' = insert (sp_thread s) (v_all v)" "keeps k k'" "\<And>i. v_wait v' i \<subseteq> v_wait v i"
proof (rule launch_sys [OF inv u, of "new_block s False Closure addr" "sp_options s" tc cfg "sp_base s"])
  fix k' v'
  assume l: "launch tc cfg (sp_base s) (sp_options s) (sp_thread s) (k\<lparr>threads := (threads k)(sp_thread s \<mapsto> new_block s False Closure addr)\<rparr>) = Some k'"
    "sys_inv UNIV {} k' v'" "sp_thread s \<in> ready_set (v_ready v')" "threads k' = (threads k)(sp_thread s \<mapsto> new_block s False Closure addr)"
    "priority (tasks k' (sp_thread s)) = priority_new (opt_priority (sp_options s))"
    "map_option td_timer (time_driver k') = map_option td_timer (time_driver k)"
    "v_all v' = insert (sp_thread s) (v_all v)" "current_task k' = current_task k" "main_task k' = main_task k" "idle k' = idle k"
    "active_cores k' = active_cores k" "\<And>i. v_wait v' i \<subseteq> v_wait v i"
  have "spawn tc cfg s layout k = Some (\<lparr>jh_thread = sp_thread s, jh_options = sp_options s\<rparr>, k')"
    using prepare_eq [OF inv u r] l(1) by (simp add: spawn_def set_payload_def new_block_def)
  from this l(2-5,7) show thesis by (rule that) (use l in \<open>simp_all add: keeps_def\<close>)
qed (use cpu in \<open>simp_all add: new_block_def\<close>)

lemma spawn_extern_sys:
  assumes inv: "sys_inv UNIV {} k v" and u: "unused k (sp_thread s)"
    and r: "reserve_payload tc (debug_assertions cfg) (sp_base s) (sp_thread s) \<lparr>layout_size = 0, layout_align = 1\<rparr> = Some addr"
    and cpu: "\<And>c. opt_pinned_to (sp_options s) = Some c \<Longrightarrow> contains (active_cores k) c"
  obtains k' v' where "spawn_extern tc cfg s k = Some (sp_thread s, k')" "sys_inv UNIV {} k' v'"
    "sp_thread s \<in> ready_set (v_ready v')" "threads k' = (threads k)(sp_thread s \<mapsto> new_block s True NoPayload addr)"
    "priority (tasks k' (sp_thread s)) = priority_new (opt_priority (sp_options s))"
    "v_all v' = insert (sp_thread s) (v_all v)" "keeps k k'" "\<And>i. v_wait v' i \<subseteq> v_wait v i"
proof (rule launch_sys [OF inv u, of "new_block s True NoPayload addr" "sp_options s" tc cfg "sp_base s"])
  fix k' v'
  assume l: "launch tc cfg (sp_base s) (sp_options s) (sp_thread s) (k\<lparr>threads := (threads k)(sp_thread s \<mapsto> new_block s True NoPayload addr)\<rparr>) = Some k'"
    "sys_inv UNIV {} k' v'" "sp_thread s \<in> ready_set (v_ready v')" "threads k' = (threads k)(sp_thread s \<mapsto> new_block s True NoPayload addr)"
    "priority (tasks k' (sp_thread s)) = priority_new (opt_priority (sp_options s))"
    "map_option td_timer (time_driver k') = map_option td_timer (time_driver k)"
    "v_all v' = insert (sp_thread s) (v_all v)" "current_task k' = current_task k" "main_task k' = main_task k" "idle k' = idle k"
    "active_cores k' = active_cores k" "\<And>i. v_wait v' i \<subseteq> v_wait v i"
  have "spawn_extern tc cfg s k = Some (sp_thread s, k')"
    using prepare_eq [OF inv u r] l(1) by (simp add: spawn_extern_def new_block_def)
  from this l(2-5,7) show thesis by (rule that) (use l in \<open>simp_all add: keeps_def\<close>)
qed (use cpu in \<open>simp_all add: new_block_def\<close>)

section \<open>Priorities\<close>

lemma ready_part_priority:
  assumes "ready_part h wqs rq f W" "t \<notin> ready_set f"
  shows "ready_part (h(t := (h t)\<lparr>priority := p\<rparr>)) wqs rq f W"
proof -
  let ?h = "h(t := (h t)\<lparr>priority := p\<rparr>)"
  from assms(1) obtain w where inv: "ready_inv h wqs rq f w" and W: "\<And>i. set (w i) = W i" by (auto simp: ready_part_def)
  have e: "el_next ready_element (?h y) = el_next ready_element (h y)" "el_is_in_queue ready_element (?h y) = el_is_in_queue ready_element (h y)"
    "unlinked ready_element (?h y) = unlinked ready_element (h y)" "current_wait_queue (?h y) = current_wait_queue (h y)" for y
    by (simp_all add: element_defs unlinked_def)
  have rel: "queue_rel ready_element ?h q xs = queue_rel ready_element h q xs" "list_rel ready_element ?h l xs = list_rel ready_element h l xs"
    for q l xs by (intro queue_rel_cong list_rel_cong; simp add: e)+
  have "ready_inv ?h wqs rq f w"
    using inv assms(2) unfolding ready_inv_def rq_rel_def waits_rel_def rel e by (auto simp: ready_set_def)
  with W show ?thesis by (auto simp: ready_part_def)
qed

text \<open>The policy depends on the states of the tasks, the CPUs and the sets of the view only.\<close>

lemma policy_inv_view:
  assumes "policy_inv C k v" "\<And>y. task_state (tasks k' y) = task_state (tasks k y)" "current_task k' = current_task k"
    "thread_pointer k' = thread_pointer k" "idle k' = idle k" "\<And>c. yielded k c \<Longrightarrow> yielded k' c"
    "ready_set (v_ready v') = ready_set (v_ready v)" "v_wait v' = v_wait v" "v_timer v' = v_timer v" "v_all v' = v_all v" "v_del v' = v_del v"
  shows "policy_inv C k' v'"
proof -
  have "policy_inv {} k' v' = policy_inv {} k v" unfolding policy_inv_def assms(2-5,7-) by simp
  moreover have "policy_inv {} k v" using assms(1) by (simp add: policy_inv_def)
  moreover have "yielded k' c" if "c \<in> C" "current_task k c = Some t" "task_state (tasks k t) = Sleeping \<or> t \<in> ready_set (v_ready v)" for c t
    by (rule assms(6) [OF policy_invD(14) [OF assms(1) that]])
  ultimately show ?thesis unfolding policy_inv_def assms(2-5,7-) by simp
qed

lemma links_priority:
  assumes inv: "links_inv k v" and "t \<notin> ready_set (v_ready v)" "p \<le> 31"
  shows "links_inv (k\<lparr>tasks := (tasks k)(t := (tasks k t)\<lparr>priority := p\<rparr>)\<rparr>) v"
  using assms ready_part_priority unfolding links_inv_def
  by (auto simp: same_defs intro: timer_part_same alloc_part_same delete_part_same)

lemma set_priority_sys:
  assumes inv: "sys_inv UNIV {} k v" and p: "p \<le> 31"
  obtains k' v' where "set_priority cfg t p k = Some k'" "sys_inv UNIV {} k' v'" "priority (tasks k' t) = p" "v_all v' = v_all v"
    "ready_set (v_ready v') = ready_set (v_ready v)" "frame k k'" "yielded k' = yielded k" "\<And>y. task_state (tasks k' y) = task_state (tasks k y)" "v_wait v' = v_wait v"
proof -
  have links: "links_inv k v" and pol: "policy_inv UNIV k v" and td: "time_driver k \<noteq> None" using inv by (simp_all add: sys_inv_def)
  have part: "ready_part (tasks k) (wait_queues k) (run_queue k) (v_ready v) (v_wait v)" and pr: "priority (tasks k t) \<le> 31"
    using links by (simp_all add: links_inv_def)
  note f = ready_part_facts [OF part] and pi = policy_invD [OF pol]
  show thesis
  proof (cases "in_run_or_wait_queue (tasks k t) \<and> current_wait_queue (tasks k t) = None")
    case False
    let ?k = "k\<lparr>tasks := (tasks k)(t := (tasks k t)\<lparr>priority := p\<rparr>)\<rparr>"
    have "t \<notin> ready_set (v_ready v)" using False f by (auto simp: ready_set_def)
    from links_priority [OF links this p] have "links_inv ?k v" .
    moreover have "policy_inv UNIV ?k v" by (rule policy_inv_view [OF pol]) simp_all
    ultimately have ki: "kernel_inv ?k v" by (simp add: kernel_inv_def)
    have fr: "frame k ?k" by (simp add: frame_def)
    have "sys_inv UNIV {} ?k v" by (rule sys_inv_frame [OF inv ki fr]) simp_all
    moreover have "set_priority cfg t p k = Some ?k" using False by (auto simp: set_priority_def Let_def)
    ultimately show thesis using fr by (intro that [of ?k v]) simp_all
  next
    case True
    let ?q = "priority (tasks k t)"
    let ?f = "(v_ready v)(?q := remove1 t (v_ready v ?q))"
    have t: "t \<in> ready_set (v_ready v)" using True f(3,6) by (metis option.distinct(1))
    then have q: "t \<in> set (v_ready v r) \<longleftrightarrow> r = ?q" for r using f(1) by (auto simp: ready_set_def)
    have out: "t \<notin> ready_set ?f" "insert t (ready_set ?f) = ready_set (v_ready v)"
      using q f(5) by (auto simp: ready_set_def split: if_splits)
    from True show thesis
    proof (elim conjE, goal_cases)
      case 1
      show thesis
      proof (rule rq_remove_part [OF part 1(2) pr, of "debug_assertions cfg"])
        fix rq h assume r: "rq_remove (debug_assertions cfg) (run_queue k) t (tasks k) = Some (rq, h)"
          "ready_part h (wait_queues k) rq ?f (v_wait v)" "relinks ready_element UNIV (tasks k) h"
        let ?k1 = "k\<lparr>run_queue := rq, tasks := h\<rparr>" and ?v1 = "v\<lparr>v_ready := ?f\<rparr>"
        let ?k2 = "?k1\<lparr>tasks := (tasks ?k1)(t := (tasks ?k1 t)\<lparr>priority := p\<rparr>)\<rparr>"
        have core: "core (h y) = core (tasks k y)" for y using core_relinks [OF r(3)] by simp
        have "links_inv ?k1 ?v1"
          using links r(2) relinks_same(1) [OF r(3)] core_eqD(2) [OF core] unfolding links_inv_def
          by (auto intro: timer_part_same alloc_part_same delete_part_same)
        then have l2: "links_inv ?k2 ?v1" by (rule links_priority) (use out(1) p in simp_all)
        have td2: "time_driver ?k2 \<noteq> None" using td by simp
        show thesis
        proof (rule resume_task_links [OF l2 td2, of cfg t])
          let ?v = "woken (priority (tasks ?k2 t)) t ?v1"
          fix k' assume m: "resume_task cfg t ?k2 = Some k'" "links_inv k' ?v" "same_cpus ?k2 k'" "same_blocks ?k2 k'"
            "\<And>y. core (tasks k' y) = (if y = t then (core (tasks ?k2 y))\<lparr>task_state := Ready\<rparr> else core (tasks ?k2 y))"
          have st: "task_state (tasks k' y) = task_state (tasks k y)" for y
            using core_state(1) [OF m(5), of y] core_eqD(1) [OF core, of y] pi(1) [OF t] by (auto split: if_splits)
          have pt: "priority (tasks k' t) = p" using core_state(2) [OF m(5), of t] by simp
          have th: "thread (tasks k' y) = thread (tasks k y)" for y
            using arg_cong [OF m(5) [of y], of thread] core_eqD(5) [OF core, of y] by (simp split: if_splits)
          have no: "t \<notin> v_wait v i" "t \<notin> v_timer v" for i using pi(1,3,5) t by fastforce+
          have vw: "v_wait ?v = v_wait v" "v_timer ?v = v_timer v" "ready_set (v_ready ?v) = ready_set (v_ready v)"
            using no out(2) by (auto simp: fun_eq_iff)
          have cp: "current_task k' = current_task k" "thread_pointer k' = thread_pointer k" "idle k' = idle k" "yielded k' = yielded k"
            using m(3) by (simp_all add: same_cpus_def)
          have "policy_inv UNIV k' ?v" by (rule policy_inv_view [OF pol st cp(1-3) _ vw(3,1,2)]) (simp_all add: cp(4))
          then have ki: "kernel_inv k' ?v" using m(2) by (simp add: kernel_inv_def)
          have fr: "frame k k'" using m(3,4) th by (simp add: frame_def same_cpus_def same_blocks_def)
          have "sys_inv UNIV {} k' ?v" by (rule sys_inv_frame [OF inv ki fr]) simp_all
          moreover have "set_priority cfg t p k = Some k'" using 1 r(1) m(1) by (simp add: set_priority_def Let_def)
          ultimately show thesis using pt fr st cp(4) vw(1,3) by (intro that [of k' ?v]) simp_all
        qed
      qed
    qed
  qed
qed

lemma set_current_priority_sys:
  assumes inv: "sys_inv UNIV {} k v" and t: "thread_pointer k cpu = Some t"
  obtains k' v' where "set_current_priority cfg cpu p k = Some k'" "sys_inv UNIV {} k' v'" "priority (tasks k' t) = priority_new p"
    "frame k k'" "priority (tasks k' t) < priority (tasks k t) \<Longrightarrow> pending k' cpu" "v_all v' = v_all v" "v_wait v' = v_wait v"
proof -
  have "priority_new p \<le> 31" by (simp add: priority_new_def)
  then show thesis
  proof (rule set_priority_sys [OF inv, of _ cfg t])
    fix k1 v1 assume s: "set_priority cfg t (priority_new p) k = Some k1" "sys_inv UNIV {} k1 v1" "priority (tasks k1 t) = priority_new p" "frame k k1" "v_all v1 = v_all v" "v_wait v1 = v_wait v"
    let ?k = "if priority (tasks k t) > priority_new p then yield_task cpu k1 else k1"
    have "kernel_inv ?k v1"
      using s(2) policy_inv_view [of UNIV k1 v1 "yield_task cpu k1" v1] by (auto simp: sys_inv_def kernel_inv_def)
    moreover have fr1: "frame k1 k1" by (simp add: frame_def)
    then have "frame k1 ?k" using frame_yield [OF fr1] by simp
    ultimately have "sys_inv UNIV {} ?k v1" by (rule sys_inv_frame [OF s(2)]) simp_all
    moreover have "set_current_priority cfg cpu p k = Some ?k" using t s(1) by (simp add: set_current_priority_def Let_def)
    moreover have "frame k ?k" using s(4) frame_yield [OF s(4)] by simp
    moreover have "priority (tasks ?k t) = priority_new p" using s(3) by simp
    ultimately show thesis using s(5,6) by (intro that [of ?k v1]) (simp_all split: if_splits)
  qed
qed

section \<open>Taking a task out of every queue\<close>

definition dropped :: "TaskPtr \<Rightarrow> View \<Rightarrow> View" where
  "dropped t v = v\<lparr>v_ready := (\<lambda>p. remove1 t (v_ready v p)), v_wait := (\<lambda>i. v_wait v i - {t}), v_timer := v_timer v - {t},
     v_all := v_all v - {t}\<rparr>"

lemma dropped_simps [simp]:
  "v_ready (dropped t v) p = remove1 t (v_ready v p)" "v_wait (dropped t v) i = v_wait v i - {t}" "v_timer (dropped t v) = v_timer v - {t}"
  "v_all (dropped t v) = v_all v - {t}" "v_del (dropped t v) = v_del v"
  by (simp_all add: dropped_def)

lemma ready_set_dropped:
  assumes "links_inv k v"
  shows "ready_set (v_ready (dropped t v)) = ready_set (v_ready v) - {t}"
proof -
  have "ready_part (tasks k) (wait_queues k) (run_queue k) (v_ready v) (v_wait v)" using assms by (simp add: links_inv_def)
  from ready_part_facts(5) [OF this] show ?thesis by (auto simp: ready_set_def)
qed

text \<open>The last of the four lists: the ready queue of its level or the wait queue it is in.\<close>

lemma leave_queue_part:
  assumes "ready_part (tasks k) (wait_queues k) (run_queue k) f W" "\<And>y. priority (tasks k y) \<le> 31"
  obtains wqs rq h where "leave_ready_or_wait_queue cfg t k = Some (k\<lparr>wait_queues := wqs, run_queue := rq, tasks := h\<rparr>)"
    "ready_part h wqs rq (\<lambda>p. remove1 t (f p)) (\<lambda>i. W i - {t})"
    "relinks ready_element UNIV ((tasks k)(t := (tasks k t)\<lparr>current_wait_queue := None\<rparr>)) h"
proof -
  note facts = ready_part_facts [OF assms(1)]
  show thesis
  proof (cases "current_wait_queue (tasks k t)")
    case None
    let ?q = "priority (tasks k t)"
    have f: "f(?q := remove1 t (f ?q)) = (\<lambda>p. remove1 t (f p))"
      by (rule ext) (metis facts(1) fun_upd_apply remove1_idem)
    have W: "W = (\<lambda>i. W i - {t})" using None facts(3) by (auto simp: fun_eq_iff)
    have h: "(tasks k)(t := (tasks k t)\<lparr>current_wait_queue := None\<rparr>) = tasks k" using None by auto
    show thesis
    proof (rule rq_remove_part [OF assms(1) None assms(2), of "debug_assertions cfg"])
      fix rq h assume r: "rq_remove (debug_assertions cfg) (run_queue k) t (tasks k) = Some (rq, h)"
        "ready_part h (wait_queues k) rq (f(?q := remove1 t (f ?q))) W" "relinks ready_element UNIV (tasks k) h"
      have "leave_ready_or_wait_queue cfg t k = Some (k\<lparr>wait_queues := wait_queues k, run_queue := rq, tasks := h\<rparr>)"
        using None r(1) by (simp add: leave_ready_or_wait_queue_def)
      from this r(2) [unfolded f, folded W] r(3) show thesis
        using W by (intro that [of h rq "wait_queues k"]) (simp_all only: h)
    qed
  next
    case (Some i)
    have f: "f = (\<lambda>p. remove1 t (f p))" by (rule ext) (metis Some facts(2) option.distinct(1) remove1_idem)
    show thesis
    proof (rule take_wait_part [OF assms(1), of "debug_assertions cfg" t])
      fix wqs h assume r: "take_from_wait_queue (debug_assertions cfg) t (wait_queues k) (tasks k) = Some (wqs, h)"
        "ready_part h wqs (run_queue k) f (\<lambda>i. W i - {t})" "relinks ready_element UNIV ((tasks k)(t := (tasks k t)\<lparr>current_wait_queue := None\<rparr>)) h"
      have "leave_ready_or_wait_queue cfg t k = Some (k\<lparr>wait_queues := wqs, run_queue := run_queue k, tasks := h\<rparr>)"
        using r(1) Some by (auto simp: leave_ready_or_wait_queue_def take_from_wait_queue_def bind_eq_Some_conv)
      from this _ r(3) show thesis by (rule that) (use r(2) f in metis)
    qed
  qed
qed

lemma remove_from_all_queues_links:
  assumes links: "links_inv k v" and td: "time_driver k \<noteq> None"
  obtains k' where "remove_from_all_queues cfg t k = Some k'" "links_inv k' (dropped t v)" "same_cpus k k'" "same_blocks k k'"
    "\<And>y. core (tasks k' y) = core (tasks k y)"
proof -
  obtain d where d: "time_driver k = Some d" using td by blast
  have parts: "ready_part (tasks k) (wait_queues k) (run_queue k) (v_ready v) (v_wait v)" "timer_part (tasks k) (Some d) (v_timer v)"
    "alloc_part (tasks k) (all_tasks k) (v_all v)" "delete_part (tasks k) (to_delete k) (v_del v)" "\<And>y. priority (tasks k y) \<le> 31"
    using links d by (simp_all add: links_inv_def)
  show thesis
  proof (rule alloc_remove_part [OF parts(3), of "debug_assertions cfg" t])
    fix l h1 assume a: "list_remove (debug_assertions cfg) alloc_element (all_tasks k) t (tasks k) = Some (l, h1)"
      "alloc_part h1 l (v_all v - {t})" "relinks alloc_element UNIV (tasks k) h1"
    have s1: "same_ready (tasks k y) (h1 y)" "same_timer (tasks k y) (h1 y)" "same_delete (tasks k y) (h1 y)" for y
      using relinks_same(3) [OF a(3)] by simp_all
    have "timer_part h1 (Some d) (v_timer v)" using parts(2) s1(2) by (rule timer_part_same)
    then show thesis
    proof (rule timer_remove_part [of _ _ _ "debug_assertions cfg" t])
      fix tq h2 assume r: "timer_remove (debug_assertions cfg) (timer_queue d) t h1 = Some (tq, h2)"
        "timer_part h2 (Some (d\<lparr>timer_queue := tq\<rparr>)) (v_timer v - {t})" "relinks timer_element UNIV h1 h2"
      have s2: "same_ready (h1 y) (h2 y)" "same_alloc (h1 y) (h2 y)" "same_delete (h1 y) (h2 y)" for y
        using relinks_same(2) [OF r(3)] by simp_all
      have core2: "core (h2 y) = core (tasks k y)" for y using core_relinks [OF a(3)] core_relinks [OF r(3)] by simp
      let ?k2 = "k\<lparr>all_tasks := l, time_driver := Some (d\<lparr>timer_queue := tq\<rparr>), tasks := h2\<rparr>"
      have "ready_part h1 (wait_queues k) (run_queue k) (v_ready v) (v_wait v)" using parts(1) s1(1) by (rule ready_part_same)
      then have "ready_part h2 (wait_queues k) (run_queue k) (v_ready v) (v_wait v)" using s2(1) by (rule ready_part_same)
      then have rp: "ready_part (tasks ?k2) (wait_queues ?k2) (run_queue ?k2) (v_ready v) (v_wait v)" by simp
      have pr: "priority (tasks ?k2 y) \<le> 31" for y using core_eqD(2) [OF core2, of y] parts(5) by simp
      show thesis
      proof (rule leave_queue_part [OF rp pr, of cfg t])
        fix wqs rq h assume q: "leave_ready_or_wait_queue cfg t ?k2 = Some (?k2\<lparr>wait_queues := wqs, run_queue := rq, tasks := h\<rparr>)"
          "ready_part h wqs rq (\<lambda>p. remove1 t (v_ready v p)) (\<lambda>i. v_wait v i - {t})"
          "relinks ready_element UNIV ((tasks ?k2)(t := (tasks ?k2 t)\<lparr>current_wait_queue := None\<rparr>)) h"
        let ?h = "(tasks ?k2)(t := (tasks ?k2 t)\<lparr>current_wait_queue := None\<rparr>)"
        let ?k = "?k2\<lparr>wait_queues := wqs, run_queue := rq, tasks := h\<rparr>"
        have core: "core (h y) = core (tasks k y)" for y using core_relinks [OF q(3), of y] core2 [of y] by (cases "y = t") simp_all
        have s3: "same_timer (h2 y) (h y)" "same_alloc (h2 y) (h y)" "same_delete (h2 y) (h y)" for y
          using relinks_same(1) [OF q(3), of y] by (cases "y = t"; simp add: same_defs)+
        have "timer_part h (Some (d\<lparr>timer_queue := tq\<rparr>)) (v_timer v - {t})" using r(2) s3(1) by (rule timer_part_same)
        moreover have "alloc_part h l (v_all v - {t})"
          by (rule alloc_part_same [OF alloc_part_same [OF a(2) s2(2)] s3(2)])
        moreover have "delete_part h (to_delete k) (v_del v)"
          by (rule delete_part_same [OF delete_part_same [OF delete_part_same [OF parts(4) s1(3)] s2(3)] s3(3)])
        ultimately have "links_inv ?k (dropped t v)"
          using q(2) parts(5) core_eqD(2) [OF core] by (simp add: links_inv_def dropped_def)
        moreover have "remove_from_all_queues cfg t k = Some ?k" using a(1) d r(1) q(1) by (simp add: remove_from_all_queues_def)
        ultimately show thesis using core d by (intro that [of ?k]) (simp_all add: same_cpus_def same_blocks_def)
      qed
    qed
  qed
qed

section \<open>Deleting a task\<close>

lemma mark_for_deletion_links:
  assumes "links_inv k v" "task_state (tasks k t) \<noteq> Deleted" "\<And>c. t \<notin> v_del v c"
  obtains k' where "mark_for_deletion cfg c t k = Some k'" "links_inv k' (v\<lparr>v_del := (v_del v)(c := insert t (v_del v c))\<rparr>)"
    "same_cpus k k'" "same_blocks k k'" "\<And>y. core (tasks k' y) = (if y = t then (core (tasks k y))\<lparr>task_state := Deleted\<rparr> else core (tasks k y))"
proof -
  have "delete_part (tasks k) (to_delete k) (v_del v)" using assms(1) by (simp add: links_inv_def)
  from this assms(3) show thesis
  proof (rule delete_push_part [where dbg = "debug_assertions cfg" and c = c])
    fix l h assume p: "list_push (debug_assertions cfg) delete_element (to_delete k c) t (tasks k) = Some (l, h)"
      "delete_part h ((to_delete k)(c := l)) ((v_del v)(c := insert t (v_del v c)))" "relinks delete_element UNIV (tasks k) h"
    let ?h = "set_state t Deleted h"
    let ?k = "k\<lparr>to_delete := (to_delete k)(c := l), tasks := ?h\<rparr>"
    have core: "core (h y) = core (tasks k y)" for y using core_relinks [OF p(3)] by simp
    have same: "same_ready (tasks k y) (?h y)" "same_timer (tasks k y) (?h y)" "same_alloc (tasks k y) (?h y)" "same_delete (h y) (?h y)" for y
      using relinks_same(4) [OF p(3), of y] by (auto simp: same_defs set_state_def)
    have pr: "priority (?h y) = priority (tasks k y)" for y using core_eqD(2) [OF core, of y] by (cases "y = t") (simp_all add: set_state_def)
    have "delete_part ?h ((to_delete k)(c := l)) ((v_del v)(c := insert t (v_del v c)))" by (rule delete_part_same [OF p(2) same(4)])
    moreover have "ready_part ?h (wait_queues k) (run_queue k) (v_ready v) (v_wait v)" "timer_part ?h (time_driver k) (v_timer v)"
      "alloc_part ?h (all_tasks k) (v_all v)"
      using assms(1) same(1-3) unfolding links_inv_def by (blast intro: ready_part_same timer_part_same alloc_part_same)+
    ultimately have "links_inv ?k (v\<lparr>v_del := (v_del v)(c := insert t (v_del v c))\<rparr>)"
      using assms(1) by (simp add: links_inv_def pr)
    then show thesis using assms(2) p(1) core
      by (intro that [of ?k]) (simp_all add: mark_for_deletion_def same_cpus_def same_blocks_def set_state_def)
  qed
qed

text \<open>A task that is current on CPU \<open>c\<close> is taken out of the queues and marked.\<close>

definition marked :: "Cpu \<Rightarrow> TaskPtr \<Rightarrow> View \<Rightarrow> View" where
  "marked c t v = (dropped t v)\<lparr>v_del := (v_del v)(c := insert t (v_del v c))\<rparr>"

lemma marked_sys:
  assumes inv: "sys_inv UNIV {} k v" and t: "t \<in> v_all v" "\<not> is_main_task k t" "current_task k c = Some t"
  obtains k1 k2 where "remove_from_all_queues cfg t k = Some k1" "same_cpus k k1" "mark_for_deletion cfg c t k1 = Some k2"
    "sys_inv UNIV {} k2 (marked c t v)" "same_cpus k k2" "same_blocks k k2"
    "\<And>y. core (tasks k2 y) = (if y = t then (core (tasks k y))\<lparr>task_state := Deleted\<rparr> else core (tasks k y))"
proof -
  have links: "links_inv k v" and pol: "policy_inv UNIV k v" and blocks: "blocks_inv UNIV {} k v" and td: "time_driver k \<noteq> None"
    using inv by (simp_all add: sys_inv_def)
  note pi = policy_invD [OF pol] and b = blocks_invD [OF blocks]
  have nd: "task_state (tasks k t) \<noteq> Deleted" by (rule pi(8) [OF t(1)])
  then have del: "t \<notin> v_del v d" for d using pi(7) by blast
  show thesis
  proof (rule remove_from_all_queues_links [OF links td, of cfg t])
    fix k1 assume r: "remove_from_all_queues cfg t k = Some k1" "links_inv k1 (dropped t v)" "same_cpus k k1" "same_blocks k k1"
      "\<And>y. core (tasks k1 y) = core (tasks k y)"
    have "task_state (tasks k1 t) \<noteq> Deleted" "\<And>d. t \<notin> v_del (dropped t v) d" using nd del core_eqD(1) [OF r(5)] by simp_all
    with r(2) show thesis
    proof (rule mark_for_deletion_links [of _ _ _ cfg c])
      fix k2 assume m: "mark_for_deletion cfg c t k1 = Some k2" "links_inv k2 ((dropped t v)\<lparr>v_del := (v_del (dropped t v))(c := insert t (v_del (dropped t v) c))\<rparr>)"
        "same_cpus k1 k2" "same_blocks k1 k2" "\<And>y. core (tasks k2 y) = (if y = t then (core (tasks k1 y))\<lparr>task_state := Deleted\<rparr> else core (tasks k1 y))"
      have cpus: "same_cpus k k2" "same_blocks k k2" using same_cpus_trans [OF r(3) m(3)] same_blocks_trans [OF r(4) m(4)] by simp_all
      have core: "core (tasks k2 y) = (if y = t then (core (tasks k y))\<lparr>task_state := Deleted\<rparr> else core (tasks k y))" for y
        using m(5) [of y] r(5) [of y] by (cases "y = t") simp_all
      note st = core_state(1) [OF core]
      have th: "thread (tasks k2 y) = thread (tasks k y)" for y using arg_cong [OF core [of y], of thread] by (simp split: if_splits)
      have cp: "current_task k2 = current_task k" "thread_pointer k2 = thread_pointer k" "idle k2 = idle k" "yielded k2 = yielded k"
        "threads k2 = threads k" "is_main_task k2 y = is_main_task k y" for y
        using cpus by (simp_all add: same_cpus_def same_blocks_def is_main_task_def)
      let ?v = "marked c t v"
      have rs: "ready_set (v_ready ?v) = ready_set (v_ready v) - {t}" using ready_set_dropped [OF links, of t] by (simp add: marked_def)
      have vs: "v_wait ?v i = v_wait v i - {t}" "v_timer ?v = v_timer v - {t}" "v_all ?v = v_all v - {t}"
        "v_del ?v = (v_del v)(c := insert t (v_del v c))" for i by (simp_all add: marked_def)
      have l: "listed ?v = listed v" using t(1) by (cases c) (auto simp: listed_def marked_def)
      have only: "d = c" if "current_task k d = Some t" for d using pi(10) [OF that t(3)] .
      have "policy_inv UNIV k2 ?v"
        by (rule policy_invI; unfold cp(1-4) rs vs st) (use pi(1-9,11-15) pi(10) [of ProCpu _ AppCpu] in \<open>auto split: if_splits\<close>)
      moreover have "blocks_inv UNIV {} k2 ?v"
      proof (rule blocks_invI, unfold cp(5,6) l th cp(1) vs)
        fix d y assume "d \<in> (UNIV :: Cpu set)" "current_task k d = Some y"
        then show "y \<in> v_all v - {t} \<or> y \<in> ((v_del v)(c := insert t (v_del v c))) d"
          using b(8) [of d y] only [of d] by (cases "y = t") auto
      qed (use b(1-7) t(2) in \<open>auto split: if_splits\<close>)
      moreover have "links_inv k2 ?v" using m(2) by (simp add: marked_def)
      moreover have "time_driver k2 \<noteq> None" using td cpus(1) by (auto simp: same_cpus_def)
      ultimately have "sys_inv UNIV {} k2 ?v" by (simp add: sys_inv_def)
      from r(1,3) m(1) this cpus core show thesis by (rule that)
    qed
  qed
qed

text \<open>A task that runs nowhere is taken out of the queues and its block is released at once.\<close>

lemma released_sys:
  assumes inv: "sys_inv UNIV {} k v" and t: "t \<in> v_all v" "\<not> is_main_task k t" "\<And>c. current_task k c \<noteq> Some t" "stack_fine cfg k t"
  obtains k1 inner k2 v2 where "remove_from_all_queues cfg t k = Some k1" "same_cpus k k1" "threads k t = Some inner" "delete_task cfg t k1 = Some k2"
    "sys_inv UNIV {} k2 v2" "t \<notin> listed v2" "same_cpus k k2" "threads k2 = (threads k)(t := released_block inner)" "wakes (if detached inner then {} else v_wait v t - {t}) (dropped t v) v2"
    "freed k2 = (if detached inner \<and> on_heap inner then [stack_bottom (tasks k t)] else []) @ freed k"
    "\<And>y. task_state (tasks k y) = Ready \<Longrightarrow> task_state (tasks k2 y) = Ready" "v_all v2 = v_all v - {t}"
proof -
  have links: "links_inv k v" and pol: "policy_inv UNIV k v" and blocks: "blocks_inv UNIV {} k v" and td: "time_driver k \<noteq> None"
    using inv by (simp_all add: sys_inv_def)
  note pi = policy_invD [OF pol] and b = blocks_invD [OF blocks]
  have "task_state (tasks k t) \<noteq> Deleted" by (rule pi(8) [OF t(1)])
  then have del: "t \<notin> v_del v d" for d using pi(7) by blast
  show thesis
  proof (rule remove_from_all_queues_links [OF links td, of cfg t])
    fix k1 assume r: "remove_from_all_queues cfg t k = Some k1" "links_inv k1 (dropped t v)" "same_cpus k k1" "same_blocks k k1"
      "\<And>y. core (tasks k1 y) = core (tasks k y)"
    note st = core_eqD(1) [OF r(5)] and th = core_eqD(5) [OF r(5)]
    have cp: "current_task k1 = current_task k" "thread_pointer k1 = thread_pointer k" "idle k1 = idle k" "yielded k1 = yielded k"
      "threads k1 = threads k" "is_main_task k1 y = is_main_task k y" "freed k1 = freed k" for y
      using r(3,4) by (simp_all add: same_cpus_def same_blocks_def is_main_task_def)
    have l: "listed (dropped t v) \<union> {t} = listed v" using t(1) by (auto simp: listed_def)
    have out: "t \<notin> listed (dropped t v)" using del by (simp add: listed_def)
    have "policy_inv UNIV k1 (dropped t v)"
    proof (rule policy_invI, unfold cp(1-4) ready_set_dropped [OF links] dropped_simps st)
      fix c y assume "current_task k c = Some y"
      then show "y \<in> v_all v - {t} \<or> task_state (tasks k y) = Deleted" using pi(9) [of c y] t(3) [of c] by (cases "y = t") auto
    qed (use pi(1-8,11-15) pi(10) [of ProCpu _ AppCpu] in auto)
    moreover have "blocks_inv UNIV {t} k1 (dropped t v)"
    proof (rule blocks_invI, unfold cp(1,5,6) l th)
      fix c y assume "c \<in> (UNIV :: Cpu set)" "current_task k c = Some y"
      then show "y \<in> v_all (dropped t v) \<or> y \<in> v_del (dropped t v) c" using b(8) [of c y] t(3) [of c] by (cases "y = t") auto
    qed (use b(1-7) t(2) in auto)
    moreover have "time_driver k1 \<noteq> None" using td r(3) by (auto simp: same_cpus_def)
    ultimately have s: "sys_inv UNIV (insert t {}) k1 (dropped t v)" using r(2) by (simp add: sys_inv_def)
    have f: "stack_fine cfg k1 t" using t(4) stack_fine_core [OF r(5)] r(3) by (simp add: same_cpus_def)
    show thesis
    proof (rule release_inv [OF s insertI1 out, of cfg])
      fix inner k2 v2
      assume d: "threads k1 t = Some inner" "release cfg t k1 = Some k2" "sys_inv UNIV ({t} - {t}) k2 v2"
        "wakes (if detached inner then {} else v_wait (dropped t v) t) (dropped t v) v2" "same_cpus k1 k2"
        "threads k2 = (threads k1)(t := (if detached inner then None else Some (inner\<lparr>released := True\<rparr>)))"
        "freed k2 = (if detached inner \<and> on_heap inner then [stack_bottom (tasks k1 t)] else []) @ freed k1"
        "woken_tasks (if detached inner then {} else v_wait (dropped t v) t) (tasks k1) (tasks k2)"
      have "thread (tasks k1 t) = Some t" using b(1) [of t] t(1,2) th by (simp add: listed_def)
      then have "delete_task cfg t k1 = Some k2" using f d(2) by (simp add: delete_task_def stack_fine_def)
      moreover have "t \<notin> listed v2" using out wakes_frame [OF d(4)] by (simp add: listed_def)
      moreover have "threads k t = Some inner" "threads k2 = (threads k)(t := released_block inner)"
        "freed k2 = (if detached inner \<and> on_heap inner then [stack_bottom (tasks k t)] else []) @ freed k"
        using d(1,6,7) cp(5,7) core_eqD(6) [OF r(5)] by (simp_all add: released_block_def)
      moreover have "task_state (tasks k2 y) = Ready" if "task_state (tasks k y) = Ready" for y
        using woken_tasksD(9) [OF d(8), of y] st that by simp
      ultimately show thesis
        using r(1,3) d(3) d(4) [unfolded dropped_simps] wakes_frame [OF d(4)] same_cpus_trans [OF r(3) d(5)] by (intro that [of k1 inner k2 v2]) simp_all
    qed
  qed
qed

lemma other_cpu_running_eq:
  "other_cpu_running cpu k t = (if current_task k (other_cpu cpu) = Some t then Some (other_cpu cpu) else None)"
  by (cases cpu) (simp_all add: other_cpu_running_def all_cpus_def other_cpu_def)

lemma schedule_task_deletion_sys:
  assumes inv: "sys_inv UNIV {} k v" and run: "running k cpu me" and target: "t = (case target of None \<Rightarrow> me | Some x \<Rightarrow> x)"
    and t: "threads k t = Some inner" "\<not> released inner" "task_state (tasks k t) \<noteq> Deleted"
    and fine: "(\<forall>c. current_task k c \<noteq> Some t) \<longrightarrow> stack_fine cfg k t"
  obtains k' v' where "schedule_task_deletion cfg cpu target k = Some (t = me, k')" "sys_inv UNIV {} k' v'" "t \<notin> v_all v'"
    "\<And>c. current_task k c = Some t \<Longrightarrow> t \<in> v_del v' c \<and> threads k' = threads k \<and> freed k' = freed k"
    "(\<And>c. current_task k c \<noteq> Some t) \<Longrightarrow> threads k' = (threads k)(t := released_block inner) \<and>
       freed k' = (if detached inner \<and> on_heap inner then [stack_bottom (tasks k t)] else []) @ freed k"
    "keeps k k'" "v_all v' = v_all v - {t}" "t = me \<Longrightarrow> thread_pointer k' cpu = None"
    "t \<noteq> me \<Longrightarrow> running k' cpu me" "\<And>i. v_wait v' i \<subseteq> v_wait v i"
proof -
  have pol: "policy_inv UNIV k v" and blocks: "blocks_inv UNIV {} k v" using inv by (simp_all add: sys_inv_def)
  note pi = policy_invD [OF pol] and b = blocks_invD [OF blocks]
  have main: "\<not> is_main_task k t" by (rule b(5) [OF t(1)])
  have "t \<in> listed v" using b(7) [OF t(1,2)] by simp
  then have all: "t \<in> v_all v" using pi(7) t(3) by (auto simp: listed_def)
  have me: "thread_pointer k cpu = Some me" "task_state (tasks k me) = Ready" "\<not> yielded k cpu" using run by (simp_all add: running_def)
  have cur: "current_task k cpu = Some me" using running_task(1) [OF pol UNIV_I me(1,3,2)] .
  show thesis
  proof (cases "\<exists>c. current_task k c = Some t")
    case True
    then obtain c where c: "current_task k c = Some t" by blast
    then have c_me: "t = me \<longleftrightarrow> c = cpu" using cur pi(10) [of c t cpu] by auto
    show thesis
    proof (rule marked_sys [OF inv all main c, of cfg])
      fix k1 k2 assume m: "remove_from_all_queues cfg t k = Some k1" "same_cpus k k1" "mark_for_deletion cfg c t k1 = Some k2"
        "sys_inv UNIV {} k2 (marked c t v)" "same_cpus k k2" "same_blocks k k2"
        "\<And>y. core (tasks k2 y) = (if y = t then (core (tasks k y))\<lparr>task_state := Deleted\<rparr> else core (tasks k y))"
      have cp: "current_task k1 = current_task k" "thread_pointer k2 = thread_pointer k" "yielded k2 = yielded k" "threads k2 = threads k" "freed k2 = freed k"
        "current_task k2 = current_task k" using m(2,5,6) by (simp_all add: same_cpus_def same_blocks_def)
      have only: "d = c" if "current_task k d = Some t" for d using pi(10) [OF that c] .
      have vs: "t \<notin> v_all (marked c t v)" "t \<in> v_del (marked c t v) c" by (simp_all add: marked_def)
      have mk: "t \<in> v_del (marked c t v) d \<and> threads k2 = threads k \<and> freed k2 = freed k" if "current_task k d = Some t" for d
        using only [OF that] vs(2) cp by simp
      note st = core_state(1) [OF m(7)] and tm = keepsI(2) [OF m(5)]
      show thesis
      proof (cases "t = me")
        case True
        let ?k = "k2\<lparr>thread_pointer := (thread_pointer k2)(cpu := None)\<rparr>"
        have p2: "policy_inv UNIV k2 (marked c t v)" using m(4) by (simp add: sys_inv_def)
        have "policy_inv UNIV ?k (marked c t v)"
          using p2 st True c_me c cp(6) unfolding policy_inv_def by auto
        then have "sys_inv UNIV {} ?k (marked c t v)"
          using m(4) by (simp add: sys_inv_def links_inv_def blocks_inv_def is_main_task_def)
        moreover have "schedule_task_deletion cfg cpu target k = Some (t = me, ?k)"
          using me(1) target True main m(1,3) c_me by (simp add: schedule_task_deletion_def Let_def)
        ultimately show thesis
          using vs(1) mk True tm c by (intro that [of ?k "marked c t v"]) (auto simp: keeps_def marked_def)
      next
        case False
        then have oc: "c = other_cpu cpu" using c_me by (cases c; cases cpu) (simp_all add: other_cpu_def)
        let ?k = "schedule_other_core cpu k2"
        have "sys_inv UNIV {} ?k (marked c t v)"
          using m(4) by (simp add: schedule_other_core_def request_context_switch_def sys_inv_def links_inv_def policy_inv_def blocks_inv_def is_main_task_def)
        moreover have "schedule_task_deletion cfg cpu target k = Some (t = me, ?k)"
          using me(1) target False main m(1,3) c oc cp(1)
          by (auto simp: schedule_task_deletion_def Let_def other_cpu_running_eq split: option.splits)
        moreover have "running ?k cpu me"
          using me False st [of me] cp by (simp add: running_def schedule_other_core_def request_context_switch_def)
        ultimately show thesis
          using vs(1) mk False tm c
          by (intro that [of ?k "marked c t v"]) (auto simp: keeps_def marked_def schedule_other_core_def request_context_switch_def)
      qed
    qed
  next
    case False
    then have nc: "\<And>c. current_task k c \<noteq> Some t" by blast
    with fine have "stack_fine cfg k t" by blast
    with inv all main nc show thesis
    proof (rule released_sys)
      fix k1 i k2 v2 assume r: "remove_from_all_queues cfg t k = Some k1" "same_cpus k k1" "threads k t = Some i" "delete_task cfg t k1 = Some k2"
        "sys_inv UNIV {} k2 v2" "t \<notin> listed v2" "same_cpus k k2" "threads k2 = (threads k)(t := released_block i)"
        "freed k2 = (if detached i \<and> on_heap i then [stack_bottom (tasks k t)] else []) @ freed k"
        "\<And>y. task_state (tasks k y) = Ready \<Longrightarrow> task_state (tasks k2 y) = Ready" "v_all v2 = v_all v - {t}"
        "wakes (if detached i then {} else v_wait v t - {t}) (dropped t v) v2"
      have wait: "v_wait v2 j \<subseteq> v_wait v j" for j using r(12) by (auto simp: wakes_def)
      have "t \<noteq> me" using nc cur by blast
      moreover have "other_cpu_running cpu k1 t = None" using r(2) nc by (simp add: other_cpu_running_eq same_cpus_def)
      ultimately have "schedule_task_deletion cfg cpu target k = Some (t = me, k2)"
        using me(1) target main r(1,4) by (auto simp: schedule_task_deletion_def Let_def split: option.splits)
      moreover have "running k2 cpu me" using me r(7,10) by (simp add: running_def same_cpus_def)
      ultimately show thesis
        using r(1-11) t(1) nc \<open>t \<noteq> me\<close> keepsI(2) [OF r(7)] wait by (intro that [of k2 v2]) (auto simp: listed_def)
    qed
  qed
qed

section \<open>The block of a thread\<close>

text \<open>What the thread and its handle write to the block does not touch the lists.\<close>

lemma block_update_sys:
  assumes inv: "sys_inv UNIV {} k v" and th: "threads k th = Some inner"
    and new: "join_queue inner' = join_queue inner" "released inner' = released inner" "detached inner' \<and> \<not> detached inner \<longrightarrow> v_wait v th = {}"
  shows "sys_inv UNIV {} (k\<lparr>threads := (threads k)(th \<mapsto> inner')\<rparr>) v"
proof -
  have blocks: "blocks_inv UNIV {} k v" using inv by (simp add: sys_inv_def)
  note b = blocks_invD [OF blocks]
  let ?k = "k\<lparr>threads := (threads k)(th \<mapsto> inner')\<rparr>"
  have m: "is_main_task ?k t = is_main_task k t" for t by (simp add: is_main_task_def)
  have "blocks_inv UNIV {} ?k v"
  proof (rule blocks_invI, unfold m)
    fix t assume "t \<in> listed v \<union> {}" "\<not> is_main_task k t"
    then show "thread (tasks ?k t) = Some t \<and> (\<exists>i. threads ?k t = Some i \<and> \<not> released i)"
      using b(1,2) [of t] th new(2) by (cases "t = th") auto
  next
    fix t i assume t: "threads ?k t = Some i"
    then show "join_queue i = t \<and> \<not> is_main_task k t" using b(4,5) [of t] th new(1) by (cases "t = th") auto
    show "v_wait v t = {}" if "detached i \<or> released i" using b(6) [of t] t th new(2,3) that by (cases "t = th") auto
    show "t \<in> listed v \<union> {}" if "\<not> released i" using b(7) [of t] t th new(2) that by (cases "t = th") auto
  qed (use b(3) [where c = ProCpu] b(3) b(8) in auto)
  then show ?thesis using inv by (simp add: sys_inv_def)
qed

lemma take_closure_sys:
  assumes "sys_inv UNIV {} k v" "threads k th = Some inner"
  obtains k' where "take_closure th k = Some k'" "sys_inv UNIV {} k' v" "threads k' th = Some (inner\<lparr>payload := NoPayload\<rparr>)"
    "keeps k k'"
  using assms block_update_sys [OF assms, of "inner\<lparr>payload := NoPayload\<rparr>"]
  by (intro that [of "k\<lparr>threads := (threads k)(th \<mapsto> inner\<lparr>payload := NoPayload\<rparr>)\<rparr>"]) (simp_all add: take_closure_def set_payload_def keeps_def)

lemma publish_sys:
  assumes inv: "sys_inv UNIV {} k v" and th: "threads k th = Some inner"
  obtains k' inner' where "publish th k = Some k'" "sys_inv UNIV {} k' v" "threads k' th = Some inner'" "keeps k k'"
    "has_result inner' \<longleftrightarrow> \<not> detached inner" "payload inner' = (if detached inner then NoPayload else ReturnValue)" "detached inner' = detached inner"
proof -
  let ?i = "inner\<lparr>has_result := \<not> detached inner, payload := (if detached inner then NoPayload else ReturnValue)\<rparr>"
  let ?k = "k\<lparr>threads := (threads k)(th \<mapsto> ?i)\<rparr>"
  have "sys_inv UNIV {} ?k v" by (rule block_update_sys [OF inv th]) simp_all
  then show thesis using th by (intro that [of ?k ?i]) (simp_all add: publish_def keeps_def)
qed

text \<open>Nobody waits in the queue of a block whose thread is released, so it can be destroyed.\<close>

lemma destroy_sys:
  assumes inv: "sys_inv UNIV {} k v" and th: "threads k th = Some inner" "released inner"
  shows "destroy cfg th k = Some (k\<lparr>threads := (threads k)(th := None)\<rparr>)" "sys_inv UNIV {} (k\<lparr>threads := (threads k)(th := None)\<rparr>) v"
    "unused (k\<lparr>threads := (threads k)(th := None)\<rparr>) th"
proof -
  have links: "links_inv k v" and blocks: "blocks_inv UNIV {} k v" using inv by (simp_all add: sys_inv_def)
  note b = blocks_invD [OF blocks]
  let ?k = "k\<lparr>threads := (threads k)(th := None)\<rparr>"
  have main: "\<not> is_main_task k th" "is_main_task ?k t = is_main_task k t" for t using b(5) [OF th(1)] by (simp_all add: is_main_task_def)
  have jq: "join_queue inner = th" by (rule b(4) [OF th(1)])
  have "v_wait v th = {}" using b(6) [OF th(1)] th(2) by blast
  moreover have "ready_part (tasks k) (wait_queues k) (run_queue k) (v_ready v) (v_wait v)" using links by (simp add: links_inv_def)
  ultimately have e: "list_is_empty (waiting_tasks (wait_queues k th))" by (intro wait_queue_empty)
  with th(1) jq show "destroy cfg th k = Some ?k" by (simp add: destroy_def)
  show "unused ?k th" using e main by (simp add: unused_def)
  have out: "th \<notin> listed v" using b(2) [of th] th main(1) by auto
  have "blocks_inv UNIV {} ?k v"
  proof (rule blocks_invI, unfold main(2))
    fix t assume "t \<in> listed v \<union> {}" "\<not> is_main_task k t"
    then show "thread (tasks ?k t) = Some t \<and> (\<exists>i. threads ?k t = Some i \<and> \<not> released i)"
      using b(1,2) [of t] out by (cases "t = th") auto
  qed (use b(3) [where c = ProCpu] b(3-8) in \<open>auto split: if_splits\<close>)
  then show "sys_inv UNIV {} ?k v" using inv by (simp add: sys_inv_def)
qed

lemma sys_inv_deallocate [simp]: "sys_inv C X (deallocate a b k) v = sys_inv C X k v"
  by (simp add: deallocate_def sys_inv_def links_inv_def policy_inv_def blocks_inv_def is_main_task_def)

lemma join_poll_sys:
  assumes inv: "sys_inv UNIV {} k v" and run: "running k cpu me" and th: "threads k th = Some inner" "\<not> detached inner" "me \<noteq> th"
  obtains k' v' where "join_poll cfg cpu now th k = Some (released inner, k')" "sys_inv UNIV {} k' v'" "frame k k'"
    "\<not> released inner \<Longrightarrow> me \<in> v_wait v' th \<and> task_state (tasks k' me) = Sleeping" "v_all v' = v_all v" "\<And>i. i \<noteq> th \<Longrightarrow> v_wait v' i \<subseteq> v_wait v i"
proof (cases "released inner")
  case True
  with assms show thesis by (intro that [of k v]) (simp_all add: join_poll_def running_def frame_def)
next
  case False
  have q: "\<And>i. threads k th = Some i \<Longrightarrow> \<not> detached i \<and> \<not> released i" using th False by simp
  have jq: "join_queue inner = th" using inv th(1) by (simp add: sys_inv_def blocks_inv_def)
  from inv run q show thesis
  proof (rule wait_with_deadline_sys [where i = th and cfg = cfg and now = now and at = U64_MAX])
    fix k' v' assume w: "wait_with_deadline cfg cpu now th U64_MAX k = Some k'" "sys_inv UNIV {} k' v'" "frame k k'" "v_all v' = v_all v"
      "now < U64_MAX \<or> U64_MAX = U64_MAX \<Longrightarrow> me \<in> v_wait v' th \<and> task_state (tasks k' me) = Sleeping \<and> pending k' cpu"
      "v' = v\<lparr>v_timer := (if (now < U64_MAX \<or> U64_MAX = U64_MAX) \<and> U64_MAX \<noteq> U64_MAX then insert me (v_timer v) else v_timer v),
        v_wait := (if now < U64_MAX \<or> U64_MAX = U64_MAX then (v_wait v)(th := insert me (v_wait v th)) else v_wait v)\<rparr>"
    have wait: "v_wait v' i \<subseteq> v_wait v i" if "i \<noteq> th" for i using w(6) that by simp
    from w(1-5) wait show thesis using False run th jq by (intro that [of k' v']) (simp_all add: join_poll_def running_def)
  qed
qed

lemma join_finish_sys:
  assumes inv: "sys_inv UNIV {} k v" and th: "threads k (jh_thread handle) = Some inner" "released inner" "has_result inner"
  obtains k' s where "join_finish cfg handle k = Some (payload inner, s, k')" "sys_inv UNIV {} k' v" "unused k' (jh_thread handle)"
    "s = \<lparr>sp_base = stack_bottom (tasks k (jh_thread handle)), sp_thread = jh_thread handle, sp_heap = on_heap inner, sp_options = jh_options handle\<rparr>"
    "threads k' = (threads k)(jh_thread handle := None)" "freed k' = freed k" "keeps k k'"
  using destroy_sys [OF inv th(1,2)] th
  by (intro that [of _ "k\<lparr>threads := (threads k)(jh_thread handle := None)\<rparr>"]) (simp_all add: join_finish_def Let_def keeps_def)

lemma drop_handle_sys:
  assumes inv: "sys_inv UNIV {} k v" and th: "threads k th = Some inner" "list_is_empty (waiting_tasks (wait_queues k th))"
  obtains k' where "drop_handle cfg th k = Some k'" "sys_inv UNIV {} k' v" "keeps k k'"
    "freed k' = (if released inner \<and> on_heap inner then [stack_bottom (tasks k th)] else []) @ freed k"
    "released inner \<Longrightarrow> unused k' th" "\<not> released inner \<Longrightarrow> \<exists>i. threads k' th = Some i \<and> detached i"
proof -
  let ?i = "inner\<lparr>detached := True, payload := (if has_result inner then NoPayload else payload inner)\<rparr>"
  let ?k1 = "k\<lparr>threads := (threads k)(th \<mapsto> ?i)\<rparr>"
  have links: "links_inv k v" using inv by (simp add: sys_inv_def)
  then have "ready_part (tasks k) (wait_queues k) (run_queue k) (v_ready v) (v_wait v)" by (simp add: links_inv_def)
  then have "v_wait v th = {}" using th(2) unfolding ready_part_def ready_inv_def waits_rel_def by (metis ready_link.list_is_empty_iff set_empty)
  then have inv1: "sys_inv UNIV {} ?k1 v" by (intro block_update_sys [OF inv th(1)]) simp_all
  have u: "unused (deallocate a b k) th = unused k th" for a b and k :: "'a Kernel" by (simp add: deallocate_def unused_def is_main_task_def)
  show thesis
  proof (cases "released inner")
    case False
    then show thesis using th inv1 by (intro that [of ?k1]) (simp_all add: drop_handle_def Let_def keeps_def)
  next
    case True
    let ?k2 = "deallocate (stack_bottom (tasks k th)) (on_heap inner) (?k1\<lparr>threads := (threads ?k1)(th := None)\<rparr>)"
    have t1: "threads ?k1 th = Some ?i" "released ?i" using True by simp_all
    note d = destroy_sys [OF inv1 t1]
    have "free cfg th ?k1 = Some ?k2" using d(1) by (simp add: free_def Let_def)
    then have "drop_handle cfg th k = Some ?k2" using th True by (simp add: drop_handle_def Let_def)
    then show thesis using d True by (intro that [of ?k2]) (simp_all add: u, simp_all add: deallocate_def keeps_def)
  qed
qed

end
