(* ===== verification/System_Start.thy ===== *)
theory System_Start
  imports System_Threads
begin

text \<open>Starting the scheduler on the first CPU, on the second one or on both establishes the invariant of the system.\<close>

section \<open>The initial state\<close>

definition view_new :: View where
  "view_new = \<lparr>v_ready = (\<lambda>_. []), v_wait = (\<lambda>_. {}), v_timer = {}, v_all = {}, v_del = (\<lambda>_. {})\<rparr>"

lemma view_new_simps [simp]:
  "v_ready view_new p = []" "v_wait view_new i = {}" "v_timer view_new = {}" "v_all view_new = {}" "v_del view_new c = {}"
  "ready_set (v_ready view_new) = {}" "listed view_new = {}"
  by (simp_all add: view_new_def ready_set_def listed_def)

lemma fresh_links_new [simp]: "fresh_links main_task_new"
  by (simp add: fresh_links_def main_task_new_def element_defs unlinked_def)

lemma links_new: "links_inv (scheduler_new mains words) view_new"
proof -
  let ?h = "\<lambda>_ :: TaskPtr. main_task_new"
  have f: "unlinked ready_element main_task_new" "unlinked timer_element main_task_new" "unlinked alloc_element main_task_new"
    "unlinked delete_element main_task_new" "priority main_task_new \<le> 31" using fresh_links_new by (simp_all add: fresh_links_def)
  have "rq_rel ?h rq_new (\<lambda>_. [])" using mp_rel_new by (simp add: rq_rel_def rq_new_def MAX_PRIORITY_def)
  moreover have "waits_rel ?h (\<lambda>_. wait_new) (\<lambda>_. [])" by (simp add: waits_rel_def wait_new_def)
  ultimately have "ready_inv ?h (\<lambda>_. wait_new) rq_new (\<lambda>_. []) (\<lambda>_. [])" using f by (simp add: ready_inv_def)
  then have "ready_part ?h (\<lambda>_. wait_new) rq_new (\<lambda>_. []) (\<lambda>_. {})" by (auto simp: ready_part_def)
  moreover have "timer_part ?h None {}" using f by (simp add: timer_part_def)
  moreover have "alloc_part ?h list_new {}" using f by (auto simp: alloc_part_def)
  moreover have "delete_part ?h (\<lambda>_. list_new) (\<lambda>_. {})" using f by (auto simp: delete_part_def)
  ultimately show ?thesis using f(5) by (simp add: links_inv_def scheduler_new_def view_new_def)
qed

lemma scheduler_setup_links:
  assumes links: "links_inv k v" and td: "time_driver k = None"
  shows "scheduler_setup T cpu timer k = Some (k\<lparr>time_driver := Some (td_new T timer), active_cores := SingleCore cpu\<rparr>)"
    "links_inv (k\<lparr>time_driver := Some (td_new T timer), active_cores := SingleCore cpu\<rparr>) v"
proof -
  show "scheduler_setup T cpu timer k = Some (k\<lparr>time_driver := Some (td_new T timer), active_cores := SingleCore cpu\<rparr>)"
    using td by (simp add: scheduler_setup_def)
  have "timer_part (tasks k) (time_driver k) (v_timer v)" using links by (simp add: links_inv_def)
  then have "timer_part (tasks k) (Some (td_new T timer)) (v_timer v)"
    using td timer_rel_new [of "tasks k" "time_slice_target timer_new"] by (auto simp: timer_part_def timer_inv_def td_new_def)
  then show "links_inv (k\<lparr>time_driver := Some (td_new T timer), active_cores := SingleCore cpu\<rparr>) v"
    using links by (simp add: links_inv_def)
qed

section \<open>The main task\<close>

lemma links_unlinked:
  assumes inv: "links_inv k v" and t: "t \<notin> ready_set (v_ready v)" "\<And>i. t \<notin> v_wait v i" "t \<notin> v_timer v" "t \<notin> listed v"
  shows "fresh_links (tasks k t)"
proof -
  from inv obtain w where w: "ready_inv (tasks k) (wait_queues k) (run_queue k) (v_ready v) w" "\<And>i. set (w i) = v_wait v i"
    by (auto simp: links_inv_def ready_part_def)
  have "unlinked ready_element (tasks k t)" by (rule ready_inv_unlinked [OF w(1)]) (use t(1,2) w(2) in \<open>auto simp: ready_set_def\<close>)
  moreover have "unlinked timer_element (tasks k t)"
    using inv t(3) by (cases "time_driver k") (auto simp: links_inv_def timer_part_def timer_inv_def)
  moreover have "t \<notin> v_all v" "\<And>c. t \<notin> v_del v c" using t(4) by (simp add: listed_def, case_tac c) (simp_all add: listed_def)
  then have "unlinked alloc_element (tasks k t)" "unlinked delete_element (tasks k t)"
    using inv by (simp_all add: links_inv_def alloc_part_def delete_part_def)
  moreover have "priority (tasks k t) \<le> 31" using inv by (simp add: links_inv_def)
  ultimately show ?thesis by (simp add: fresh_links_def)
qed

text \<open>A state in which the main task of a CPU can be added: this CPU does not run the scheduler yet.\<close>

definition startable :: "Cpu \<Rightarrow> 't Kernel \<Rightarrow> View \<Rightarrow> bool" where
  "startable cpu k v \<longleftrightarrow> sys_inv UNIV {} k v \<and> main_task k cpu \<notin> v_all v \<and> current_task k cpu = None \<and> \<not> idle k cpu"

lemma policy_started:
  assumes pol: "policy_inv UNIV k v" and m: "m \<notin> v_all v" "\<And>c. m \<notin> v_del v c" "\<And>c. current_task k c \<noteq> Some m" "\<not> idle k cpu" "current_task k cpu = None"
    and core: "\<And>y. y \<noteq> m \<Longrightarrow> core (tasks k' y) = core (tasks k y)" "task_state (tasks k' m) = Ready"
    and cp: "current_task k' = (current_task k)(cpu \<mapsto> m)" "thread_pointer k' = (thread_pointer k)(cpu \<mapsto> m)" "idle k' = idle k"
      "yielded k' = (yielded k)(cpu := True)"
  shows "policy_inv UNIV k' (woken 0 m (v\<lparr>v_all := insert m (v_all v)\<rparr>))"
proof -
  note p = policy_invD [OF pol]
  have st: "task_state (tasks k' y) = (if y = m then Ready else task_state (tasks k y))" for y
    using core core_eqD(1) [of "tasks k' y" "tasks k y"] by auto
  have out: "m \<notin> ready_set (v_ready v)" "m \<notin> v_timer v" "m \<notin> v_wait v i" for i using p(2,4,6) m(1) by blast+
  let ?v = "woken 0 m (v\<lparr>v_all := insert m (v_all v)\<rparr>)"
  have vs: "ready_set (v_ready ?v) = insert m (ready_set (v_ready v))" "v_wait ?v i = v_wait v i" "v_timer ?v = v_timer v"
    "v_all ?v = insert m (v_all v)" "v_del ?v = v_del v" for i using out by simp_all
  show ?thesis
  proof (rule policy_invI, unfold vs st cp)
    fix c y assume c: "((current_task k)(cpu \<mapsto> m)) c = Some y"
    show "y \<in> insert m (v_all v) \<or> (if y = m then Ready else task_state (tasks k y)) = Deleted"
      using c p(9) [of c y] by (cases "c = cpu") auto
    assume "(if y = m then Ready else task_state (tasks k y)) = Sleeping \<or> y \<in> insert m (ready_set (v_ready v))"
    then show "((yielded k)(cpu := True)) c" using c p(14) [of c y] m(3) [of c] by (cases "c = cpu"; cases "y = m") auto
  next
    fix c assume "((thread_pointer k)(cpu \<mapsto> m)) c \<noteq> ((current_task k)(cpu \<mapsto> m)) c"
    then show "((thread_pointer k)(cpu \<mapsto> m)) c = None \<and> (\<forall>t. ((current_task k)(cpu \<mapsto> m)) c = Some t \<longrightarrow> (if t = m then Ready else task_state (tasks k t)) = Deleted)"
      using p(11,12) [of c] m(3) [of c] by (cases "c = cpu") auto
  next
    fix y assume "((current_task k)(cpu \<mapsto> m)) ProCpu = Some y"
    then show "((current_task k)(cpu \<mapsto> m)) AppCpu \<noteq> Some y" using p(10) [of ProCpu y AppCpu] m(3,5) by (cases cpu) auto
  next
    fix y assume "y \<in> insert m (v_all v)" "(if y = m then Ready else task_state (tasks k y)) = Ready"
    then show "y \<in> insert m (ready_set (v_ready v)) \<or> (\<exists>c. ((current_task k)(cpu \<mapsto> m)) c = Some y)"
      using p(15) [of y] m(5) by (cases "y = m") (auto, metis fun_upd_other option.distinct(1))
  next
    fix c assume "idle k c"
    then show "((current_task k)(cpu \<mapsto> m)) c = None" using p(13) m(4) by (cases "c = cpu") auto
  qed (use p(1-8) m out in \<open>auto split: if_splits\<close>)
qed

lemma allocate_main_task_sys:
  assumes start: "startable cpu k v"
  obtains k' where "allocate_main_task cfg cpu bottom words off val k = Some k'"
    "sys_inv UNIV {} (yield_task cpu k') (woken 0 (main_task k cpu) (v\<lparr>v_all := insert (main_task k cpu) (v_all v)\<rparr>))"
    "current_task k' = (current_task k)(cpu \<mapsto> main_task k cpu)" "main_task k' = main_task k" "active_cores k' = active_cores k"
    "idle k' = idle k" "map_option td_timer (time_driver k') = map_option td_timer (time_driver k)" "threads k' = threads k"
    "\<And>y. y \<noteq> main_task k cpu \<Longrightarrow> core (tasks k' y) = core (tasks k y)"
proof -
  define m where "m = main_task k cpu"
  have links: "links_inv k v" and pol: "policy_inv UNIV k v" and blocks: "blocks_inv UNIV {} k v" and td: "time_driver k \<noteq> None"
    and mv: "m \<notin> v_all v" and cur: "current_task k cpu = None" "\<not> idle k cpu" using start by (simp_all add: startable_def sys_inv_def m_def)
  note p = policy_invD [OF pol] and b = blocks_invD [OF blocks]
  have main: "is_main_task k m" by (cases cpu) (simp_all add: is_main_task_def all_cpus_def m_def)
  have md: "m \<notin> v_del v c" for c using b(3) [of m c] main by blast
  have out: "m \<notin> ready_set (v_ready v)" "\<And>i. m \<notin> v_wait v i" "m \<notin> v_timer v" "m \<notin> listed v" using p(2,4,6) mv md by (auto simp: listed_def)
  have mc: "current_task k c \<noteq> Some m" for c using b(8) [of c m] mv md by blast
  note fresh = links_unlinked [OF links out]
  let ?t1 = "(tasks k m)\<lparr>priority := 0, task_state := Ready, stack_bottom := bottom, stack_words := words,
    in_run_or_wait_queue := False, timer_queued := False, pinned_to := Some cpu\<rparr>"
  let ?k1 = "k\<lparr>tasks := (tasks k)(m := ?t1)\<rparr>"
  obtain x f where g: "set_up_stack_guard cfg m off val ?k1 = ?k1\<lparr>stack_words_at := f, tasks := (tasks ?k1)(m := x)\<rparr>"
    "x\<lparr>stack_guard := 0, stack_guard_value := 0\<rparr> = (tasks ?k1 m)\<lparr>stack_guard := 0, stack_guard_value := 0\<rparr>" by (rule set_up_stack_guard_eq)
  have x: "fresh_links x" "task_state x = Ready" "priority x = 0" "thread x = thread (tasks k m)"
    using arg_cong [OF g(2), of fresh_links] arg_cong [OF g(2), of task_state] arg_cong [OF g(2), of priority] arg_cong [OF g(2), of thread] fresh
    by (simp_all add: fresh_links_def element_defs unlinked_def)
  let ?k3 = "k\<lparr>stack_words_at := f, tasks := (tasks k)(m := x), thread_pointer := (thread_pointer k)(cpu \<mapsto> m)\<rparr>"
  have l3: "links_inv ?k3 v" using links_outside [OF links out x(1)] by (simp add: links_inv_def)
  then have "alloc_part (tasks ?k3) (all_tasks ?k3) (v_all v)" unfolding links_inv_def by blast
  then show thesis
  proof (rule alloc_push_part [OF _ mv, of _ _ "debug_assertions cfg"])
    fix l h assume a: "list_push (debug_assertions cfg) alloc_element (all_tasks ?k3) m (tasks ?k3) = Some (l, h)"
      "alloc_part h l (insert m (v_all v))" "relinks alloc_element UNIV (tasks ?k3) h"
    let ?k4 = "?k3\<lparr>all_tasks := l, tasks := h, current_task := (current_task k)(cpu \<mapsto> m)\<rparr>" and ?v4 = "v\<lparr>v_all := insert m (v_all v)\<rparr>"
    have core4: "core (h y) = core (tasks ?k3 y)" for y using core_relinks [OF a(3)] by simp
    have "ready_part h (wait_queues k) (run_queue k) (v_ready v) (v_wait v)" "timer_part h (time_driver k) (v_timer v)" "delete_part h (to_delete k) (v_del v)"
      using l3 relinks_same(3) [OF a(3)] by (auto simp: links_inv_def intro: ready_part_same timer_part_same delete_part_same)
    then have "links_inv ?k4 ?v4" using l3 a(2) core_eqD(2) [OF core4] by (simp add: links_inv_def)
    then show thesis
    proof (rule kernel_mark_ready_links [of _ _ cfg m])
      fix r k' assume mk: "kernel_mark_ready cfg m ?k4 = Some (r, k')" "links_inv k' (resumed (priority (tasks ?k4 m)) m ?v4)" "same_cpus ?k4 k'"
        "same_blocks ?k4 k'" "time_driver k' = time_driver ?k4"
        "\<And>y. core (tasks k' y) = (if y = m then (core (tasks ?k4 y))\<lparr>task_state := Ready\<rparr> else core (tasks ?k4 y))"
      let ?v = "woken 0 m ?v4"
      have pr: "priority (tasks ?k4 m) = 0" using core_eqD(2) [OF core4, of m] x(3) by simp
      have links': "links_inv k' ?v" using mk(2) out(3) unfolding pr by (simp add: woken_def)
      have cp: "current_task k' = (current_task k)(cpu \<mapsto> m)" "thread_pointer k' = (thread_pointer k)(cpu \<mapsto> m)" "idle k' = idle k" "yielded k' = yielded k"
        "main_task k' = main_task k" "active_cores k' = active_cores k" "threads k' = threads k"
        using mk(3,4) by (simp_all add: same_cpus_def same_blocks_def)
      have ct: "core (tasks k' y) = core (tasks k y)" if "y \<noteq> m" for y using mk(6) [of y] core4 [of y] that by simp
      have st: "task_state (tasks k' m) = Ready" using core_state(1) [OF mk(6), of m] by simp
      have "policy_inv UNIV (yield_task cpu k') ?v"
        by (rule policy_started [OF pol mv md mc cur(2,1)]) (use ct st cp in simp_all)
      moreover have "blocks_inv UNIV {} (yield_task cpu k') ?v"
      proof -
        have mt: "is_main_task (yield_task cpu k') y = is_main_task k y" for y using cp(5) by (simp add: is_main_task_def yield_task_def request_context_switch_def)
        have l: "listed ?v = insert m (listed v)" by (auto simp: listed_def)
        show ?thesis
        proof (rule blocks_invI, unfold mt l)
          fix y assume "y \<in> insert m (listed v) \<union> {}" "\<not> is_main_task k y"
          then have y: "y \<in> listed v" "y \<noteq> m" "\<not> is_main_task k y" using main by auto
          then show "thread (tasks (yield_task cpu k') y) = Some y \<and> (\<exists>i. threads (yield_task cpu k') y = Some i \<and> \<not> released i)"
            using b(1,2) [of y] core_eqD(5) [OF ct [OF y(2)]] cp(7) by simp
        next
          fix c y assume "c \<in> (UNIV :: Cpu set)" "current_task (yield_task cpu k') c = Some y"
          then show "y \<in> v_all ?v \<or> y \<in> v_del ?v c" using b(8) [of c y] cp(1) by (cases "c = cpu") auto
        next
          fix y i assume "threads (yield_task cpu k') y = Some i" "detached i \<or> released i"
          then show "v_wait ?v y = {}" using b(6) [of y i] cp(7) by simp
        qed (use b(3) [where c = ProCpu] b(3-5,7) cp(7) in auto)
      qed
      ultimately have "sys_inv UNIV {} (yield_task cpu k') ?v" using links' td mk(5) by (simp add: sys_inv_def)
      moreover have "allocate_main_task cfg cpu bottom words off val k = Some k'"
        using g(1) a(1) mk(1) by (simp add: allocate_main_task_def Let_def m_def)
      ultimately show thesis using cp mk(5) ct by (intro that [of k', folded m_def]) simp_all
    qed
  qed
qed

section \<open>Starting\<close>

text \<open>
  A CPU on which the scheduler does not run has no task. The main task of a CPU is known to the scheduler
  exactly when it runs on that CPU.
\<close>

definition inactive_ok :: "'t Kernel \<Rightarrow> View \<Rightarrow> bool" where
  "inactive_ok k v \<longleftrightarrow> main_task k ProCpu \<noteq> main_task k AppCpu \<and>
     (\<forall>c. \<not> contains (active_cores k) c \<longrightarrow> current_task k c = None \<and> \<not> idle k c) \<and>
     (\<forall>c. main_task k c \<in> v_all v \<longleftrightarrow> contains (active_cores k) c)"

definition sys_ok :: "'t Kernel \<Rightarrow> View \<Rightarrow> bool" where
  "sys_ok k v \<longleftrightarrow> sys_inv UNIV {} k v \<and> inactive_ok k v"

lemma stack_words_new [simp]: "stack_words_at (scheduler_new mains mem) = mem"
  by (simp add: scheduler_new_def)

lemma startable_new:
  assumes "links_inv (scheduler_new mains words :: 't Kernel) view_new"
  shows "startable cpu ((scheduler_new mains words :: 't Kernel)\<lparr>time_driver := Some (td_new T timer), active_cores := a\<rparr>) view_new"
proof -
  let ?k = "(scheduler_new mains words :: 't Kernel)\<lparr>time_driver := Some (td_new T timer), active_cores := a\<rparr>"
  have "time_driver (scheduler_new mains words :: 't Kernel) = None" by (simp add: scheduler_new_def)
  from scheduler_setup_links(2) [OF assms this, where T = T and timer = timer and cpu = cpu] have "links_inv ?k view_new" by (simp add: links_inv_def)
  moreover have "policy_inv UNIV ?k view_new" by (simp add: policy_inv_def scheduler_new_def)
  moreover have "blocks_inv UNIV {} ?k view_new" by (simp add: blocks_inv_def scheduler_new_def)
  ultimately show ?thesis by (simp add: startable_def sys_inv_def) (simp add: scheduler_new_def)
qed

lemma start_first_core_sys:
  assumes mains: "mains ProCpu \<noteq> mains AppCpu"
  obtains k v where "start_first_core cfg T ProCpu timer bottom words off val (scheduler_new mains mem) = Some k" "sys_ok k v"
    "map_option td_timer (time_driver k) = Some (tm_enable_interrupt T True timer)" "active_cores k = SingleCore ProCpu"
    "threads k = (\<lambda>_. None)" "v_all v = {mains ProCpu}"
proof -
  let ?k0 = "scheduler_new mains mem" and ?a = "SingleCore ProCpu"
  let ?k1 = "?k0\<lparr>time_driver := Some (td_new T timer), active_cores := ?a\<rparr>"
  have su: "scheduler_setup T ProCpu timer ?k0 = Some ?k1" by (simp add: scheduler_setup_def scheduler_new_def)
  have "startable ProCpu ?k1 view_new" by (rule startable_new [OF links_new])
  then show thesis
  proof (rule allocate_main_task_sys [of _ _ _ cfg bottom words off val])
    let ?m = "main_task ?k1 ProCpu"
    fix k assume k: "allocate_main_task cfg ProCpu bottom words off val ?k1 = Some k"
      "sys_inv UNIV {} (yield_task ProCpu k) (woken 0 ?m (view_new\<lparr>v_all := insert ?m (v_all view_new)\<rparr>))"
      "current_task k = (current_task ?k1)(ProCpu \<mapsto> ?m)" "main_task k = main_task ?k1" "active_cores k = active_cores ?k1" "idle k = idle ?k1"
      "map_option td_timer (time_driver k) = map_option td_timer (time_driver ?k1)" "threads k = threads ?k1"
    let ?k = "yield_task ProCpu k"
    have y: "main_task ?k = mains" "active_cores ?k = ?a" "idle ?k = (\<lambda>_. False)"
      "current_task ?k = [ProCpu \<mapsto> mains ProCpu]"
      using k(3-6) by (simp_all add: yield_task_def request_context_switch_def scheduler_new_def)
    then have "inactive_ok ?k (woken 0 ?m (view_new\<lparr>v_all := insert ?m (v_all view_new)\<rparr>))"
      using mains by (simp add: inactive_ok_def contains_def) (simp add: scheduler_new_def, metis Cpu.exhaust)
    with k(2) show thesis using k(1,7,8) su y(2)
      by (intro that [of ?k "woken 0 ?m (view_new\<lparr>v_all := insert ?m (v_all view_new)\<rparr>)"]) (simp_all add: sys_ok_def start_first_core_def td_new_def, simp_all add: scheduler_new_def)
  qed
qed

lemma start_on_second_core_only_sys:
  assumes mains: "mains ProCpu \<noteq> mains AppCpu"
  obtains k v where "start_on_second_core_only cfg T timer bottom words off (scheduler_new mains mem) = Some k" "sys_ok k v"
    "map_option td_timer (time_driver k) = Some (tm_enable_interrupt T True timer)" "active_cores k = SingleCore AppCpu"
    "threads k = (\<lambda>_. None)" "v_all v = {mains AppCpu}"
proof -
  let ?k0 = "scheduler_new mains mem" and ?a = "SingleCore AppCpu"
  let ?k1 = "?k0\<lparr>time_driver := Some (td_new T timer), active_cores := ?a\<rparr>"
  have su: "scheduler_setup T AppCpu timer ?k0 = Some ?k1" by (simp add: scheduler_setup_def scheduler_new_def)
  have "startable AppCpu ?k1 view_new" by (rule startable_new [OF links_new])
  then show thesis
  proof (rule allocate_main_task_sys [of _ _ _ cfg bottom words off "mem (bottom + off)"])
    let ?m = "main_task ?k1 AppCpu"
    fix k assume k: "allocate_main_task cfg AppCpu bottom words off (mem (bottom + off)) ?k1 = Some k"
      "sys_inv UNIV {} (yield_task AppCpu k) (woken 0 ?m (view_new\<lparr>v_all := insert ?m (v_all view_new)\<rparr>))"
      "current_task k = (current_task ?k1)(AppCpu \<mapsto> ?m)" "main_task k = main_task ?k1" "active_cores k = active_cores ?k1" "idle k = idle ?k1"
      "map_option td_timer (time_driver k) = map_option td_timer (time_driver ?k1)" "threads k = threads ?k1"
    let ?k = "yield_task AppCpu k"
    have y: "main_task ?k = mains" "active_cores ?k = ?a" "idle ?k = (\<lambda>_. False)" "current_task ?k = [AppCpu \<mapsto> mains AppCpu]"
      using k(3-6) by (simp_all add: yield_task_def request_context_switch_def scheduler_new_def)
    then have "inactive_ok ?k (woken 0 ?m (view_new\<lparr>v_all := insert ?m (v_all view_new)\<rparr>))"
      using mains by (simp add: inactive_ok_def contains_def) (simp add: scheduler_new_def, metis Cpu.exhaust)
    with k(2) show thesis using k(1,7,8) su y(2)
      by (intro that [of ?k "woken 0 ?m (view_new\<lparr>v_all := insert ?m (v_all view_new)\<rparr>)"]) (simp_all add: sys_ok_def start_on_second_core_only_def td_new_def, simp_all add: scheduler_new_def)
  qed
qed

lemma start_second_core_sys:
  assumes inv: "sys_ok k v" and a: "active_cores k = SingleCore ProCpu"
  obtains k' v' where "start_second_core cfg bottom words off k = Some k'" "sys_ok k' v'"
    "map_option td_timer (time_driver k') = map_option td_timer (time_driver k)" "active_cores k' = AllCores"
    "threads k' = threads k" "v_all v' = insert (main_task k AppCpu) (v_all v)" "main_task k' = main_task k"
    "\<And>y. y \<noteq> main_task k AppCpu \<Longrightarrow> core (tasks k' y) = core (tasks k y)" "current_task k' = (current_task k)(AppCpu \<mapsto> main_task k AppCpu)"
    "\<And>i. v_wait v' i \<subseteq> v_wait v i"
proof -
  let ?k1 = "k\<lparr>active_cores := AllCores\<rparr>"
  have sys: "sys_inv UNIV {} k v" and ina: "inactive_ok k v" using inv by (simp_all add: sys_ok_def)
  then have td: "time_driver k \<noteq> None" by (simp add: sys_inv_def)
  have "sys_inv UNIV {} ?k1 v" using sys by (simp add: sys_inv_def links_inv_def policy_inv_def blocks_inv_def is_main_task_def)
  then have "startable AppCpu ?k1 v" using ina a by (simp add: startable_def inactive_ok_def contains_def)
  then show thesis
  proof (rule allocate_main_task_sys [of _ _ _ cfg bottom words off "stack_words_at k (bottom + off)"])
    let ?m = "main_task ?k1 AppCpu"
    fix k' assume k': "allocate_main_task cfg AppCpu bottom words off (stack_words_at k (bottom + off)) ?k1 = Some k'"
      "sys_inv UNIV {} (yield_task AppCpu k') (woken 0 ?m (v\<lparr>v_all := insert ?m (v_all v)\<rparr>))"
      "main_task k' = main_task ?k1" "active_cores k' = active_cores ?k1" "map_option td_timer (time_driver k') = map_option td_timer (time_driver ?k1)"
      "threads k' = threads ?k1" "\<And>y. y \<noteq> ?m \<Longrightarrow> core (tasks k' y) = core (tasks ?k1 y)"
      "current_task k' = (current_task ?k1)(AppCpu \<mapsto> ?m)"
    let ?k = "yield_task AppCpu k'"
    have y: "main_task ?k = main_task k" "active_cores ?k = AllCores" using k'(3,4) by (simp_all add: yield_task_def request_context_switch_def)
    then have "inactive_ok ?k (woken 0 ?m (v\<lparr>v_all := insert ?m (v_all v)\<rparr>))" using ina a by (auto simp: inactive_ok_def contains_def) (metis Cpu.exhaust)
    with k'(2) show thesis using k'(1,5-8) y a td 
      by (intro that [of ?k "woken 0 ?m (v\<lparr>v_all := insert ?m (v_all v)\<rparr>)"]) (auto simp: sys_ok_def start_second_core_def)
  qed
qed

end
