(* ===== verification/System_Run.thy ===== *)
theory System_Run
  imports System_Start
begin

text \<open>
  The scheduler as a state machine. \<open>Op\<close> lists the entry points of the scheduler: the two interrupts and
  the calls that threads make. \<open>exec_op\<close> executes one on the kernel, \<open>allowed\<close> says when the code may be
  called, and \<open>reachable\<close> collects the states of all runs. Every allowed operation succeeds in every
  reachable state, and the invariant of the system holds there.
\<close>

section \<open>Operations\<close>

datatype Op =
    SwitchTask Cpu nat nat u64
  | TimerTick u64 "u64 option"
  | SleepUntil Cpu u64 u64
  | WaitWithDeadline Cpu u64 nat u64
  | Notify nat
  | ResumeTask TaskPtr
  | Spawn ThreadSpawner Layout
  | SpawnExtern ThreadSpawner
  | TakeClosure nat
  | Publish nat
  | JoinPoll Cpu u64 nat
  | JoinFinish JoinHandle
  | DropHandle nat
  | DeleteTask Cpu "TaskPtr option"
  | SetPriority Cpu nat
  | SetTaskPriority TaskPtr u32
  | StartSecondCore nat nat nat
  | RearmAlarm u64
  | YieldTask Cpu

fun exec_op :: "ThreadConfig \<Rightarrow> Config \<Rightarrow> 't Timer \<Rightarrow> Op \<Rightarrow> 't Kernel \<Rightarrow> 't Kernel option" where
  "exec_op tc cfg T (SwitchTask cpu sp isp now) k = switch_task cfg T cpu sp isp now k"
| "exec_op tc cfg T (TimerTick now embassy) k = timer_tick_handler cfg T now embassy k"
| "exec_op tc cfg T (SleepUntil cpu now at) k = map_option snd (sleep_until cfg cpu now at k)"
| "exec_op tc cfg T (WaitWithDeadline cpu now i at) k = wait_with_deadline cfg cpu now i at k"
| "exec_op tc cfg T (Notify i) k = notify cfg i k"
| "exec_op tc cfg T (ResumeTask t) k = resume_task cfg t k"
| "exec_op tc cfg T (Spawn s layout) k = map_option snd (spawn tc cfg s layout k)"
| "exec_op tc cfg T (SpawnExtern s) k = map_option snd (spawn_extern tc cfg s k)"
| "exec_op tc cfg T (TakeClosure th) k = take_closure th k"
| "exec_op tc cfg T (Publish th) k = publish th k"
| "exec_op tc cfg T (JoinPoll cpu now th) k = map_option snd (join_poll cfg cpu now th k)"
| "exec_op tc cfg T (JoinFinish handle) k = map_option (snd \<circ> snd) (join_finish cfg handle k)"
| "exec_op tc cfg T (DropHandle th) k = drop_handle cfg th k"
| "exec_op tc cfg T (DeleteTask cpu target) k = map_option snd (schedule_task_deletion cfg cpu target k)"
| "exec_op tc cfg T (SetPriority cpu p) k = set_current_priority cfg cpu p k"
| "exec_op tc cfg T (SetTaskPriority t p) k = set_task_priority cfg t p k"
| "exec_op tc cfg T (StartSecondCore bottom words off) k = start_second_core cfg bottom words off k"
| "exec_op tc cfg T (RearmAlarm now) k = rearm_alarm T now k"
| "exec_op tc cfg T (YieldTask cpu) k = Some (yield_task cpu k)"

text \<open>
  When an operation may be called. Thread code runs on a CPU whose task is ready and has not just
  yielded. The conditions on threads are what the ownership of spawners and handles gives: a spawner
  owns memory without a thread, a handle is dropped by nobody who waits with it and joins a thread only
  once. The stack checks must not fail: a stack overflow is detected by a panic on purpose.
\<close>

definition is_running :: "'t Kernel \<Rightarrow> Cpu \<Rightarrow> bool" where
  "is_running k cpu = (case thread_pointer k cpu of None \<Rightarrow> False | Some t \<Rightarrow> \<not> yielded k cpu \<and> task_state (tasks k t) = Ready)"

definition block_is :: "(ThreadInner \<Rightarrow> bool) \<Rightarrow> 't Kernel \<Rightarrow> nat \<Rightarrow> bool" where
  "block_is P k th = (case threads k th of None \<Rightarrow> False | Some inner \<Rightarrow> P inner)"

definition pin_ok :: "'t Kernel \<Rightarrow> ThreadSpawner \<Rightarrow> bool" where
  "pin_ok k s = (case opt_pinned_to (sp_options s) of None \<Rightarrow> True | Some c \<Rightarrow> contains (active_cores k) c)"

definition stacks_sound :: "Config \<Rightarrow> Cpu \<Rightarrow> nat \<Rightarrow> 't Kernel \<Rightarrow> bool" where
  "stacks_sound cfg cpu sp k \<longleftrightarrow> check_stack cfg cpu sp k \<and>
     (\<forall>t. threads k t \<noteq> None \<and> task_state (tasks k t) = Deleted \<and> \<not> owns_stack_pointer (tasks k t) sp \<longrightarrow> stack_fine cfg k t) \<and>
     (\<forall>t u. threads k t \<noteq> None \<and> threads k u \<noteq> None \<and> task_state (tasks k t) = Deleted \<and> task_state (tasks k u) = Deleted \<and>
        owns_stack_pointer (tasks k t) sp \<and> owns_stack_pointer (tasks k u) sp \<longrightarrow> t = u)"

fun allowed :: "ThreadConfig \<Rightarrow> Config \<Rightarrow> Op \<Rightarrow> 't Kernel \<Rightarrow> bool" where
  "allowed tc cfg (SwitchTask cpu sp isp now) k = (contains (active_cores k) cpu \<and> stacks_sound cfg cpu sp k)"
| "allowed tc cfg (TimerTick now embassy) k = True"
| "allowed tc cfg (SleepUntil cpu now at) k = is_running k cpu"
| "allowed tc cfg (WaitWithDeadline cpu now i at) k =
     (is_running k cpu \<and> (threads k i = None \<or> block_is (\<lambda>b. \<not> detached b \<and> \<not> released b) k i))"
| "allowed tc cfg (Notify i) k = True"
| "allowed tc cfg (ResumeTask t) k =
     (task_state (tasks k t) = Sleeping \<and> ((\<exists>c. contains (active_cores k) c \<and> t = main_task k c) \<or> block_is (\<lambda>b. \<not> released b) k t))"
| "allowed tc cfg (Spawn s layout) k =
     (unused k (sp_thread s) \<and> pin_ok k s \<and> reserve_payload tc (debug_assertions cfg) (sp_base s) (sp_thread s) layout \<noteq> None)"
| "allowed tc cfg (SpawnExtern s) k =
     (unused k (sp_thread s) \<and> pin_ok k s \<and>
      reserve_payload tc (debug_assertions cfg) (sp_base s) (sp_thread s) \<lparr>layout_size = 0, layout_align = 1\<rparr> \<noteq> None)"
| "allowed tc cfg (TakeClosure th) k = (threads k th \<noteq> None)"
| "allowed tc cfg (Publish th) k = (threads k th \<noteq> None)"
| "allowed tc cfg (JoinPoll cpu now th) k = (is_running k cpu \<and> thread_pointer k cpu \<noteq> Some th \<and> block_is (\<lambda>b. \<not> detached b) k th)"
| "allowed tc cfg (JoinFinish handle) k = block_is (\<lambda>b. released b \<and> has_result b) k (jh_thread handle)"
| "allowed tc cfg (DropHandle th) k = (threads k th \<noteq> None \<and> list_is_empty (waiting_tasks (wait_queues k th)))"
| "allowed tc cfg (DeleteTask cpu target) k =
     (is_running k cpu \<and>
      (let t = (case target of None \<Rightarrow> the (thread_pointer k cpu) | Some x \<Rightarrow> x) in
       block_is (\<lambda>b. \<not> released b) k t \<and> task_state (tasks k t) \<noteq> Deleted \<and>
       (list_ex (\<lambda>c. current_task k c = Some t) all_cpus \<or> stack_fine cfg k t)))"
| "allowed tc cfg (SetPriority cpu p) k = (thread_pointer k cpu \<noteq> None)"
| "allowed tc cfg (SetTaskPriority t p) k = True"
| "allowed tc cfg (StartSecondCore bottom words off) k = (active_cores k = SingleCore ProCpu)"
| "allowed tc cfg (RearmAlarm now) k = True"
| "allowed tc cfg (YieldTask cpu) k = True"

section \<open>Every operation succeeds and keeps the invariant\<close>

lemma is_runningD: "is_running k cpu \<Longrightarrow> \<exists>t. running k cpu t \<and> thread_pointer k cpu = Some t"
  by (auto simp: is_running_def running_def split: option.splits)

lemma block_isD: "block_is P k th \<Longrightarrow> \<exists>inner. threads k th = Some inner \<and> P inner"
  by (auto simp: block_is_def split: option.splits)

lemma stacks_sound_ok:
  assumes "sys_inv UNIV {} k v" "stacks_sound cfg cpu sp k"
  shows "stacks_ok cfg cpu sp k v"
proof -
  have "threads k t \<noteq> None \<and> task_state (tasks k t) = Deleted" if "t \<in> v_del v cpu" for t
  proof -
    have blocks: "blocks_inv UNIV {} k v" and pol: "policy_inv UNIV k v" using assms(1) by (simp_all add: sys_inv_def)
    have "t \<in> listed v" using that by (cases cpu) (auto simp: listed_def)
    then show ?thesis using blocks_invD(2,3) [OF blocks, of t] that policy_invD(7) [OF pol that] by fastforce
  qed
  then show ?thesis using assms(2) by (simp add: stacks_sound_def stacks_ok_def deleted_by_def)
qed

lemma inactive_keeps:
  assumes "inactive_ok k v" "keeps k k'" "\<And>c. main_task k c \<in> v_all v' \<longleftrightarrow> main_task k c \<in> v_all v"
  shows "inactive_ok k' v'"
  using assms by (simp add: inactive_ok_def keeps_def)

lemma main_is_main: "is_main_task k (main_task k c)"
  by (cases c) (simp_all add: is_main_task_def all_cpus_def)

context one_shot_timer
begin

text \<open>The invariant of the running system.\<close>

definition good :: "'t Kernel \<Rightarrow> View \<Rightarrow> bool" where
  "good k v \<longleftrightarrow> sys_ok k v \<and> timed k"

lemma goodI:
  assumes "good k v" "sys_inv UNIV {} k' v'" "keeps k k'" "\<And>c. main_task k c \<in> v_all v' \<longleftrightarrow> main_task k c \<in> v_all v"
  shows "good k' v'"
  using assms inactive_keeps [of k v k' v'] by (auto simp: good_def sys_ok_def timed_def keeps_def)

lemma good_sys: "good k v \<Longrightarrow> sys_inv UNIV {} k v"
  by (simp add: good_def sys_ok_def)

lemma op_switch:
  assumes g: "good k v" and a: "contains (active_cores k) cpu" "stacks_sound cfg cpu sp k"
  shows "\<exists>k' v'. switch_task cfg T cpu sp isp now k = Some k' \<and> good k' v'"
proof -
  have "timed k" using g by (simp add: good_def)
  with good_sys [OF g] show ?thesis
  proof (rule switch_task_inv [OF _ _ stacks_sound_ok [OF good_sys [OF g] a(2)], of isp now])
    fix next_task k' v' assume s: "switch_task cfg T cpu sp isp now k = Some k'" "switched cpu sp k v k' v' next_task"
    have "inactive_ok k' v'" using g s(2) a(1) by (auto simp: good_def sys_ok_def inactive_ok_def switched_def)
    moreover have "timed k'" using s(2) by (auto simp: switched_def armed_def timed_def)
    ultimately show ?thesis using s by (auto simp: good_def sys_ok_def switched_def)
  qed
qed

lemma op_tick:
  assumes g: "good k v"
  shows "\<exists>k' v'. timer_tick_handler cfg T now embassy k = Some k' \<and> good k' v'"
proof -
  from g obtain td where td: "time_driver k = Some td" "valid (td_timer td)" by (auto simp: good_def timed_def)
  show ?thesis
  proof (rule timer_tick_inv [OF good_sys [OF g] td, of cfg now embassy])
    fix k' v' assume t: "timer_tick_handler cfg T now embassy k = Some k'" "sys_inv UNIV {} k' v'" "armed k'"
      "wakes (if current_alarm td \<le> now then expired now k v else {}) v v'" "current_task k' = current_task k" "main_task k' = main_task k"
      "idle k' = idle k" "active_cores k' = active_cores k"
    have "inactive_ok k' v'" using g t(5-8) wakes_frame [OF t(4)] by (simp add: good_def sys_ok_def inactive_ok_def)
    moreover have "timed k'" using t(3) by (auto simp: armed_def timed_def)
    ultimately show ?thesis using t(1,2) by (auto simp: good_def sys_ok_def)
  qed
qed

lemma op_sleep:
  assumes g: "good k v" and a: "is_running k cpu"
  shows "\<exists>k' v'. map_option snd (sleep_until cfg cpu now at k) = Some k' \<and> good k' v'"
proof -
  from is_runningD [OF a] obtain t where r: "running k cpu t" by blast
  show ?thesis
  proof (rule sleep_until_sys [OF good_sys [OF g] r, of cfg now at])
    fix slept k' v' assume s: "sleep_until cfg cpu now at k = Some (slept, k')" "sys_inv UNIV {} k' v'" "v_all v' = v_all v" "frame k k'"
    then show ?thesis using goodI [OF g s(2) keepsI(1) [OF s(4)]] by auto
  qed
qed

lemma op_wait:
  assumes g: "good k v" and a: "is_running k cpu" "threads k i = None \<or> block_is (\<lambda>b. \<not> detached b \<and> \<not> released b) k i"
  shows "\<exists>k' v'. wait_with_deadline cfg cpu now i at k = Some k' \<and> good k' v'"
proof -
  from is_runningD [OF a(1)] obtain t where r: "running k cpu t" by blast
  have q: "\<not> detached inner \<and> \<not> released inner" if "threads k i = Some inner" for inner using a(2) that by (auto simp: block_is_def)
  from good_sys [OF g] r q show ?thesis
  proof (rule wait_with_deadline_sys [where cfg = cfg and now = now and at = at])
    fix k' v' assume s: "wait_with_deadline cfg cpu now i at k = Some k'" "sys_inv UNIV {} k' v'" "v_all v' = v_all v" "frame k k'"
    then show ?thesis using goodI [OF g s(2) keepsI(1) [OF s(4)]] by auto
  qed
qed

lemma op_notify:
  assumes g: "good k v"
  shows "\<exists>k' v'. notify cfg i k = Some k' \<and> good k' v'"
proof (rule notify_sys [OF good_sys [OF g], of cfg i])
  fix k' v' assume s: "notify cfg i k = Some k'" "sys_inv UNIV {} k' v'" "wakes (v_wait v i) v v'" "frame k k'"
  then show ?thesis using goodI [OF g s(2) keepsI(1) [OF s(4)]] wakes_frame [OF s(3)] by auto
qed

text \<open>A live task that is not deleted is on the list of all tasks.\<close>

lemma live_task:
  assumes g: "good k v" and "threads k t = Some inner" "\<not> released inner" "task_state (tasks k t) \<noteq> Deleted"
  shows "t \<in> v_all v"
proof -
  have "blocks_inv UNIV {} k v" "policy_inv UNIV k v" using good_sys [OF g] by (simp_all add: sys_inv_def)
  with assms show ?thesis using blocks_invD(7) [of UNIV "{}" k v t inner] policy_invD(7) [of UNIV k v t] by (auto simp: listed_def)
qed

lemma op_resume:
  assumes g: "good k v" and a: "task_state (tasks k t) = Sleeping" "(\<exists>c. contains (active_cores k) c \<and> t = main_task k c) \<or> block_is (\<lambda>b. \<not> released b) k t"
  shows "\<exists>k' v'. resume_task cfg t k = Some k' \<and> good k' v'"
proof -
  have "t \<in> v_all v"
    using a(2) block_isD [of "\<lambda>b. \<not> released b" k t] live_task [OF g, of t] a(1) g by (auto simp: good_def sys_ok_def inactive_ok_def)
  then show ?thesis
  proof (rule resume_task_sys [OF good_sys [OF g] _ a(1), of cfg])
    fix k' assume s: "resume_task cfg t k = Some k'" "sys_inv UNIV {} k' (woken (priority (tasks k t)) t v)" "frame k k'"
    then show ?thesis using goodI [OF g s(2) keepsI(1) [OF s(3)]] by auto
  qed
qed

lemma op_spawn:
  assumes g: "good k v" and a: "unused k (sp_thread s)" "pin_ok k s" "reserve_payload tc (debug_assertions cfg) (sp_base s) (sp_thread s) layout \<noteq> None"
  shows "\<exists>k' v'. map_option snd (spawn tc cfg s layout k) = Some k' \<and> good k' v'"
proof -
  from a(3) obtain addr where r: "reserve_payload tc (debug_assertions cfg) (sp_base s) (sp_thread s) layout = Some addr" by blast
  have p: "contains (active_cores k) c" if "opt_pinned_to (sp_options s) = Some c" for c using a(2) that by (simp add: pin_ok_def)
  from good_sys [OF g] a(1) r p show ?thesis
  proof (rule spawn_sys)
    fix k' v' assume w: "spawn tc cfg s layout k = Some (\<lparr>jh_thread = sp_thread s, jh_options = sp_options s\<rparr>, k')" "sys_inv UNIV {} k' v'"
      "v_all v' = insert (sp_thread s) (v_all v)" "keeps k k'"
    have "main_task k c \<noteq> sp_thread s" for c using a(1) main_is_main [of k c] by (auto simp: unused_def)
    then show ?thesis using goodI [OF g w(2,4)] w(1,3) by auto
  qed
qed

lemma op_spawn_extern:
  assumes g: "good k v" and a: "unused k (sp_thread s)" "pin_ok k s"
    "reserve_payload tc (debug_assertions cfg) (sp_base s) (sp_thread s) \<lparr>layout_size = 0, layout_align = 1\<rparr> \<noteq> None"
  shows "\<exists>k' v'. map_option snd (spawn_extern tc cfg s k) = Some k' \<and> good k' v'"
proof -
  from a(3) obtain addr where r: "reserve_payload tc (debug_assertions cfg) (sp_base s) (sp_thread s) \<lparr>layout_size = 0, layout_align = 1\<rparr> = Some addr" by blast
  have p: "contains (active_cores k) c" if "opt_pinned_to (sp_options s) = Some c" for c using a(2) that by (simp add: pin_ok_def)
  from good_sys [OF g] a(1) r p show ?thesis
  proof (rule spawn_extern_sys)
    fix k' v' assume w: "spawn_extern tc cfg s k = Some (sp_thread s, k')" "sys_inv UNIV {} k' v'" "v_all v' = insert (sp_thread s) (v_all v)" "keeps k k'"
    have "main_task k c \<noteq> sp_thread s" for c using a(1) main_is_main [of k c] by (auto simp: unused_def)
    then show ?thesis using goodI [OF g w(2,4)] w(1,3) by auto
  qed
qed

lemma op_block:
  assumes g: "good k v" and a: "threads k th = Some inner"
  shows "\<exists>k' v'. take_closure th k = Some k' \<and> good k' v'" "\<exists>k' v'. publish th k = Some k' \<and> good k' v'"
    "list_is_empty (waiting_tasks (wait_queues k th)) \<Longrightarrow> \<exists>k' v'. drop_handle cfg th k = Some k' \<and> good k' v'"
proof -
  note inv = good_sys [OF g]
  show "\<exists>k' v'. take_closure th k = Some k' \<and> good k' v'" by (rule take_closure_sys [OF inv a]) (use goodI [OF g] in blast)
  show "\<exists>k' v'. publish th k = Some k' \<and> good k' v'" by (rule publish_sys [OF inv a]) (use goodI [OF g] in blast)
  show "\<exists>k' v'. drop_handle cfg th k = Some k' \<and> good k' v'" if "list_is_empty (waiting_tasks (wait_queues k th))"
    by (rule drop_handle_sys [OF inv a that, of cfg]) (use goodI [OF g] in blast)
qed

lemma op_join_poll:
  assumes g: "good k v" and a: "is_running k cpu" "thread_pointer k cpu \<noteq> Some th" "block_is (\<lambda>b. \<not> detached b) k th"
  shows "\<exists>k' v'. map_option snd (join_poll cfg cpu now th k) = Some k' \<and> good k' v'"
proof -
  from is_runningD [OF a(1)] obtain me where r: "running k cpu me" and "thread_pointer k cpu = Some me" by blast
  then have ne: "me \<noteq> th" using a(2) by auto
  from block_isD [OF a(3)] obtain inner where b: "threads k th = Some inner" "\<not> detached inner" by blast
  show ?thesis
  proof (rule join_poll_sys [OF good_sys [OF g] r b ne, of cfg now])
    fix k' v' assume s: "join_poll cfg cpu now th k = Some (released inner, k')" "sys_inv UNIV {} k' v'" "frame k k'" "v_all v' = v_all v"
    then show ?thesis using goodI [OF g s(2) keepsI(1) [OF s(3)]] by auto
  qed
qed

lemma op_join_finish:
  assumes g: "good k v" and a: "block_is (\<lambda>b. released b \<and> has_result b) k (jh_thread handle)"
  shows "\<exists>k' v'. map_option (snd \<circ> snd) (join_finish cfg handle k) = Some k' \<and> good k' v'"
proof -
  from block_isD [OF a] obtain inner where b: "threads k (jh_thread handle) = Some inner" "released inner" "has_result inner" by blast
  show ?thesis by (rule join_finish_sys [OF good_sys [OF g] b, of cfg]) (use goodI [OF g] in auto)
qed

lemma op_delete:
  assumes g: "good k v" and run: "is_running k cpu" and t: "t = (case target of None \<Rightarrow> the (thread_pointer k cpu) | Some x \<Rightarrow> x)"
    and a: "block_is (\<lambda>b. \<not> released b) k t" "task_state (tasks k t) \<noteq> Deleted"
      "list_ex (\<lambda>c. current_task k c = Some t) all_cpus \<or> stack_fine cfg k t"
  shows "\<exists>k' v'. map_option snd (schedule_task_deletion cfg cpu target k) = Some k' \<and> good k' v'"
proof -
  from is_runningD [OF run] obtain me where r: "running k cpu me" "thread_pointer k cpu = Some me" by blast
  from block_isD [OF a(1)] obtain inner where b: "threads k t = Some inner" "\<not> released inner" by blast
  have tt: "t = (case target of None \<Rightarrow> me | Some x \<Rightarrow> x)" using t r(2) by (cases target) simp_all
  have f: "(\<forall>c. current_task k c \<noteq> Some t) \<longrightarrow> stack_fine cfg k t" using a(3) by (auto simp: list_ex_iff)
  have main: "main_task k c \<noteq> t" for c using good_sys [OF g] b(1) main_is_main [of k c] blocks_invD(5) [of UNIV "{}" k v t inner] by (auto simp: sys_inv_def)
  show ?thesis
  proof (rule schedule_task_deletion_sys [OF good_sys [OF g] r(1) tt b a(2) f])
    fix k' v' assume s: "schedule_task_deletion cfg cpu target k = Some (t = me, k')" "sys_inv UNIV {} k' v'" "keeps k k'" "v_all v' = v_all v - {t}"
    then show ?thesis using goodI [OF g s(2,3)] main by auto
  qed
qed

lemma op_priority:
  assumes g: "good k v" and a: "thread_pointer k cpu \<noteq> None"
  shows "\<exists>k' v'. set_current_priority cfg cpu p k = Some k' \<and> good k' v'"
proof -
  from a obtain t where t: "thread_pointer k cpu = Some t" by blast
  show ?thesis
  proof (rule set_current_priority_sys [OF good_sys [OF g] t, of cfg p])
    fix k' v' assume s: "set_current_priority cfg cpu p k = Some k'" "sys_inv UNIV {} k' v'" "frame k k'" "v_all v' = v_all v"
    then show ?thesis using goodI [OF g s(2) keepsI(1) [OF s(3)]] by auto
  qed
qed

lemma op_start_second:
  assumes g: "good k v" and a: "active_cores k = SingleCore ProCpu"
  shows "\<exists>k' v'. start_second_core cfg bottom words off k = Some k' \<and> good k' v'"
proof -
  have ok: "sys_ok k v" using g by (simp add: good_def)
  show ?thesis by (rule start_second_core_sys [OF ok a, of cfg bottom words off]) (use g in \<open>auto simp: good_def timed_def\<close>)
qed

lemma op_rearm:
  assumes g: "good k v"
  shows "\<exists>k' v'. rearm_alarm T now k = Some k' \<and> good k' v'"
proof -
  have "timed k" using g by (simp add: good_def)
  then show ?thesis
  proof (rule rearm_alarm_inv [OF good_sys [OF g], of now])
    fix k' assume r: "rearm_alarm T now k = Some k'" "sys_inv UNIV {} k' v" "armed k'" "k'\<lparr>time_driver := None\<rparr> = k\<lparr>time_driver := None\<rparr>"
    have "current_task k' = current_task k" "idle k' = idle k" "main_task k' = main_task k" "active_cores k' = active_cores k"
      using arg_cong [OF r(4), of current_task] arg_cong [OF r(4), of idle] arg_cong [OF r(4), of main_task] arg_cong [OF r(4), of active_cores] by simp_all
    then have "inactive_ok k' v" using g by (simp add: good_def sys_ok_def inactive_ok_def)
    moreover have "timed k'" using r(3) by (auto simp: armed_def timed_def)
    ultimately show ?thesis using r(1,2) by (auto simp: good_def sys_ok_def)
  qed
qed

lemma op_yield:
  assumes g: "good k v"
  shows "good (yield_task cpu k) v"
proof -
  have "policy_inv UNIV (yield_task cpu k) v"
    by (rule policy_inv_view) (use good_sys [OF g] in \<open>auto simp: sys_inv_def\<close>)
  then have ki: "kernel_inv (yield_task cpu k) v" using good_sys [OF g] by (simp add: kernel_inv_def sys_inv_def)
  have "frame k k" by (simp add: frame_def)
  then have fr: "frame k (yield_task cpu k)" by (rule frame_yield)
  have "sys_inv UNIV {} (yield_task cpu k) v" by (rule sys_inv_frame [OF good_sys [OF g] ki fr]) simp_all
  then show ?thesis by (rule goodI [OF g _ keepsI(1) [OF fr]]) simp
qed

lemma op_task_priority:
  assumes g: "good k v"
  shows "\<exists>k' v'. set_task_priority cfg t p k = Some k' \<and> good k' v' \<and> priority (tasks k' t) = priority_new (unat p) \<and> v_all v' = v_all v \<and>
    v_wait v' = v_wait v \<and> thread_pointer k' = thread_pointer k \<and> threads k' = threads k \<and> (\<forall>c. is_running k c \<longrightarrow> is_running k' c)"
proof -
  have "priority_new (unat p) \<le> 31" by (simp add: priority_new_def)
  then show ?thesis
  proof (rule set_priority_sys [OF good_sys [OF g], of _ cfg t])
    fix k' v' assume s: "set_priority cfg t (priority_new (unat p)) k = Some k'" "sys_inv UNIV {} k' v'" "priority (tasks k' t) = priority_new (unat p)"
      "v_all v' = v_all v" "frame k k'" "v_wait v' = v_wait v"
      "yielded k' = yielded k" "\<And>y. task_state (tasks k' y) = task_state (tasks k y)"
    have "good k' v'" by (rule goodI [OF g s(2) keepsI(1) [OF s(5)]]) (simp add: s(4))
    moreover have tp: "thread_pointer k' = thread_pointer k" "threads k' = threads k" using s(5) by (simp_all add: frame_def)
    then have "\<forall>c. is_running k c \<longrightarrow> is_running k' c" using s(7,8) by (simp add: is_running_def split: option.split)
    ultimately show ?thesis using s tp by (intro exI [of _ k'] exI [of _ v']) (simp add: set_task_priority_def)
  qed
qed

text \<open>An operation that is called when it may be called does not panic and keeps the invariant.\<close>

lemma exec_op_good:
  assumes g: "good k v" and a: "allowed tc cfg op k"
  shows "\<exists>k' v'. exec_op tc cfg T op k = Some k' \<and> good k' v'"
proof (cases op)
  case (DeleteTask cpu target)
  then show ?thesis using a op_delete [OF g _ refl, of cpu target cfg] by (simp add: Let_def)
next
  case (YieldTask cpu)
  then show ?thesis using op_yield [OF g, of cpu] by auto
next
  case (TakeClosure th)
  then show ?thesis using a op_block(1) [OF g, of th] by auto
next
  case (Publish th)
  then show ?thesis using a op_block(2) [OF g, of th] by auto
next
  case (DropHandle th)
  then show ?thesis using a op_block(3) [OF g, of th] by auto
next
  case (Spawn s layout)
  then show ?thesis using a op_spawn [OF g, of s tc cfg layout] by simp
next
  case (SpawnExtern s)
  then show ?thesis using a op_spawn_extern [OF g, of s tc cfg] by simp
next
  case (JoinPoll cpu now th)
  then show ?thesis using a op_join_poll [OF g, of cpu th cfg now] by simp
next
  case (SetTaskPriority t p)
  then show ?thesis using op_task_priority [OF g, of cfg t p] by auto
next
  case (SetPriority cpu p)
  then show ?thesis using a op_priority [OF g, of cpu cfg p] by simp
qed (use a in \<open>simp_all only: exec_op.simps allowed.simps op_switch [OF g] op_tick [OF g] op_sleep [OF g] op_wait [OF g] op_notify [OF g] op_resume [OF g]
  op_join_finish [OF g] op_start_second [OF g] op_rearm [OF g]\<close>)

end

section \<open>Reachable states\<close>

text \<open>
  The states after the scheduler was started on one CPU and any sequence of allowed operations ran.
  \<open>rate\<close> is the tick rate of the timer.
\<close>

inductive reachable :: "bool \<Rightarrow> nat \<Rightarrow> ThreadConfig \<Rightarrow> Config \<Rightarrow> AnyTimer Kernel \<Rightarrow> bool" for h2 rate tc cfg where
  first: "mains ProCpu \<noteq> mains AppCpu \<Longrightarrow> any_valid h2 rate timer \<Longrightarrow>
    start_first_core cfg (any_timer h2) ProCpu timer bottom words off val (scheduler_new mains mem) = Some k \<Longrightarrow> reachable h2 rate tc cfg k"
| second: "mains ProCpu \<noteq> mains AppCpu \<Longrightarrow> any_valid h2 rate timer \<Longrightarrow>
    start_on_second_core_only cfg (any_timer h2) timer bottom words off (scheduler_new mains mem) = Some k \<Longrightarrow> reachable h2 rate tc cfg k"
| step: "reachable h2 rate tc cfg k \<Longrightarrow> allowed tc cfg op k \<Longrightarrow> exec_op tc cfg (any_timer h2) op k = Some k' \<Longrightarrow> reachable h2 rate tc cfg k'"

lemma reachable_good: "reachable h2 rate tc cfg k \<Longrightarrow> \<exists>v. any.good h2 rate k v"
proof (induction rule: reachable.induct)
  case (first mains timer bottom words off val mem k)
  show ?case
  proof (rule start_first_core_sys [OF first(1), where cfg = cfg and T = "any_timer h2" and timer = timer and bottom = bottom and words = words and off = off and val = val and mem = mem])
    fix k' v assume s: "start_first_core cfg (any_timer h2) ProCpu timer bottom words off val (scheduler_new mains mem) = Some k'" "sys_ok k' v"
      "map_option td_timer (time_driver k') = Some (tm_enable_interrupt (any_timer h2) True timer)"
    then show ?case using first(2,3) any.valid_ops by (auto simp: any.good_def any.timed_def)
  qed
next
  case (second mains timer bottom words off mem k)
  show ?case
  proof (rule start_on_second_core_only_sys [OF second(1), where cfg = cfg and T = "any_timer h2" and timer = timer and bottom = bottom and words = words and off = off and mem = mem])
    fix k' v assume s: "start_on_second_core_only cfg (any_timer h2) timer bottom words off (scheduler_new mains mem) = Some k'" "sys_ok k' v"
      "map_option td_timer (time_driver k') = Some (tm_enable_interrupt (any_timer h2) True timer)"
    then show ?case using second(2,3) any.valid_ops by (auto simp: any.good_def any.timed_def)
  qed
next
  case (step k op k')
  then obtain v where "any.good h2 rate k v" by blast
  from any.exec_op_good [OF this step(2)] step(3) show ?case by auto
qed

end
