(* ===== verification/System_Guarantees.thy ===== *)
theory System_Guarantees
  imports System_Run
begin

text \<open>What the scheduler guarantees in every reachable state, for every sequence of operations on both CPUs.\<close>

section \<open>Facts about reachable states\<close>

lemma reachable_inv:
  assumes "reachable h2 rate tc cfg k"
  obtains v where "any.good h2 rate k v" "links_inv k v" "policy_inv UNIV k v" "blocks_inv UNIV {} k v" "any.timed h2 rate k"
  using reachable_good [OF assms] any.good_sys by (auto simp: sys_inv_def any.good_def)

lemma reachable_exec:
  assumes "reachable h2 rate tc cfg k" "allowed tc cfg op k"
  obtains k' where "exec_op tc cfg (any_timer h2) op k = Some k'" "reachable h2 rate tc cfg k'"
proof (rule reachable_inv [OF assms(1)])
  fix v assume "any.good h2 rate k v"
  from any.exec_op_good [OF this assms(2)] obtain k' where "exec_op tc cfg (any_timer h2) op k = Some k'" by blast
  with reachable.step [OF assms] show thesis by (intro that)
qed

text \<open>A task of the scheduler: the main task of a CPU on which it runs, or the task of a thread that has not exited.\<close>

definition live :: "'t Kernel \<Rightarrow> TaskPtr \<Rightarrow> bool" where
  "live k t \<longleftrightarrow> (\<exists>c. contains (active_cores k) c \<and> t = main_task k c) \<or> block_is (\<lambda>b. \<not> released b) k t"

lemma live_listed:
  assumes "any.good h2 rate k v" "live k t" "task_state (tasks k t) \<noteq> Deleted"
  shows "t \<in> v_all v"
  using assms any.live_task [of h2 rate k v t] block_isD [of "\<lambda>b. \<not> released b" k t]
  by (auto simp: live_def any.good_def sys_ok_def inactive_ok_def)

lemma switch_reachable:
  assumes "any.good h2 rate k v" "allowed tc cfg (SwitchTask cpu sp isp now) k" "switch_task cfg (any_timer h2) cpu sp isp now k = Some k'"
  obtains next_task v' where "any.switched h2 rate cpu sp k v k' v' next_task"
proof -
  have inv: "sys_inv UNIV {} k v" "any.timed h2 rate k" using assms(1) by (simp_all add: any.good_def sys_ok_def)
  have st: "stacks_ok cfg cpu sp k v" using stacks_sound_ok [OF inv(1)] assms(2) by simp
  show thesis using any.switch_task_inv [OF inv st, of isp now] assms(3) that by auto
qed

section \<open>A sample system\<close>

definition sample_config :: Config where
  "sample_config = \<lparr>debug_assertions = True, sw_task_overflow_detection = False, stack_pointer_range_check = False, tick_rate = 100\<rparr>"

definition sample_threads :: ThreadConfig where
  "sample_threads = \<lparr>overflow_detection = True, guard_offset = 60, resources_size = 256\<rparr>"

definition sample_timer :: AnyTimer where
  "sample_timer = AnyTimgTimer \<lparr>timg_en = False, timg_increase = True, timg_autoreload = False, timg_alarm_en = False,
     timg_divider_bits = 80, timg_alarm_lo = 0, timg_alarm_hi = 0, timg_counter = 0, timg_int_ena = False, timg_int_raw = False,
     timg_clock = 80000000\<rparr>"

definition sample_mains :: "Cpu \<Rightarrow> TaskPtr" where
  "sample_mains c = (case c of ProCpu \<Rightarrow> 100 | AppCpu \<Rightarrow> 200)"

definition sample_start :: "AnyTimer Kernel" where
  "sample_start = the (start_first_core sample_config (any_timer False) ProCpu sample_timer 4096 1024 60 0xDEEDBAAD (scheduler_new sample_mains (\<lambda>_. 0)))"

abbreviation sample_reachable :: "AnyTimer Kernel \<Rightarrow> bool" where
  "sample_reachable \<equiv> reachable False 1000000 sample_threads sample_config"

lemma sample_valid: "any_valid False 1000000 sample_timer"
  by (simp add: any_valid_def sample_timer_def timg_valid_def timg_divider_def)

lemma sample_start_facts: "sample_reachable sample_start" "threads sample_start = (\<lambda>_. None)" "active_cores sample_start = SingleCore ProCpu"
proof -
  have m: "sample_mains ProCpu \<noteq> sample_mains AppCpu" by (simp add: sample_mains_def)
  obtain k v where k: "start_first_core sample_config (any_timer False) ProCpu sample_timer 4096 1024 60 0xDEEDBAAD (scheduler_new sample_mains (\<lambda>_. 0)) = Some k"
    "threads k = (\<lambda>_. None)" "active_cores k = SingleCore ProCpu"
    by (rule start_first_core_sys [OF m, where cfg = sample_config and T = "any_timer False" and timer = sample_timer and bottom = 4096 and words = 1024 and
      off = 60 and val = "0xDEEDBAAD" and mem = "\<lambda>_. 0"]) blast
  then have "sample_start = k" by (simp add: sample_start_def)
  with k reachable.first [OF m sample_valid k(1)] show "sample_reachable sample_start" "threads sample_start = (\<lambda>_. None)"
    "active_cores sample_start = SingleCore ProCpu" by simp_all
qed

lemma sample_check: "check_stack sample_config cpu sp k"
  by (auto simp: check_stack_def ensure_no_stack_overflow_def sample_config_def split: option.split)

lemma sample_allowed: "allowed sample_threads sample_config (SwitchTask ProCpu 5000 5000 0) sample_start"
  using sample_check by (simp add: stacks_sound_def sample_start_facts contains_def)

section \<open>Safety\<close>

text \<open>C3. No operation of the scheduler panics: in every reachable state every operation that may be called returns and leads to a reachable
state. The operations are the context switch, the timer interrupt, sleeping, waiting, waking, spawning, joining, detaching and deleting threads,
changing a priority, yielding and starting the second CPU, on both CPUs and in any order.\<close>

theorem scheduler_never_panics:
  assumes "reachable h2 rate tc cfg k" "allowed tc cfg op k"
  shows "\<exists>k'. exec_op tc cfg (any_timer h2) op k = Some k' \<and> reachable h2 rate tc cfg k'"
  by (rule reachable_exec [OF assms]) blast

theorem scheduler_never_panics_witness:
  "\<exists>k'. exec_op sample_threads sample_config (any_timer False) (SwitchTask ProCpu 5000 5000 0) sample_start = Some k' \<and> sample_reachable k'"
  using scheduler_never_panics [OF sample_start_facts(1) sample_allowed] .

text \<open>C10. No task runs on two CPUs at once. The thread pointer of a CPU names its current task, or is empty while the CPU idles or its task has
deleted itself; a CPU whose current task sleeps has a context switch on the way.\<close>

theorem one_cpu_per_task:
  assumes "reachable h2 rate tc cfg k"
  shows "(\<forall>t. current_task k ProCpu = Some t \<longrightarrow> current_task k AppCpu \<noteq> Some t) \<and>
    (\<forall>c t. thread_pointer k c = Some t \<longrightarrow> current_task k c = Some t) \<and> (\<forall>c. idle k c \<longrightarrow> thread_pointer k c = None) \<and>
    (\<forall>c t. current_task k c = Some t \<and> task_state (tasks k t) = Sleeping \<longrightarrow> yielded k c)"
proof (rule reachable_inv [OF assms])
  fix v assume "policy_inv UNIV k v"
  note p = policy_invD [OF this]
  have "thread_pointer k c = Some t \<Longrightarrow> current_task k c = Some t" for c t using p(11) [of c] by force
  then show ?thesis using p(10) [of ProCpu _ AppCpu] p(13,14) p(11) by fastforce
qed

text \<open>C11. No ready task is lost: a task of the scheduler that is ready is the current task of a CPU or stands in the run queue, in the level of
its priority, whose bit is set in the mask of non-empty levels.\<close>

theorem no_ready_task_lost:
  assumes "reachable h2 rate tc cfg k" "live k t" "task_state (tasks k t) = Ready"
  shows "(\<exists>c. current_task k c = Some t) \<or>
    (\<exists>f. rq_rel (tasks k) (run_queue k) f \<and> t \<in> set (f (priority (tasks k t))) \<and> bit (mp_mask (ready_priority (run_queue k))) (priority (tasks k t)))"
proof (rule reachable_inv [OF assms(1)])
  fix v assume v: "any.good h2 rate k v" "links_inv k v" "policy_inv UNIV k v"
  have all: "t \<in> v_all v" by (rule live_listed [OF v(1) assms(2)]) (use assms(3) in simp)
  from v(2) obtain w where rp: "ready_part (tasks k) (wait_queues k) (run_queue k) (v_ready v) (v_wait v)"
    and rq: "rq_rel (tasks k) (run_queue k) (v_ready v)" by (auto simp: links_inv_def ready_part_def ready_inv_def)
  have "bit (mp_mask (ready_priority (run_queue k))) p" if "t \<in> set (v_ready v p)" for p
    using rq that unfolding rq_rel_def mp_rel_def by (metis (mono_tags, lifting) empty_iff empty_set mem_Collect_eq)
  moreover have "t \<in> set (v_ready v (priority (tasks k t)))" if "t \<in> ready_set (v_ready v)"
    using that ready_part_facts(1) [OF rp] by (auto simp: ready_set_def)
  ultimately show ?thesis using policy_invD(15) [OF v(3) all assms(3)] rq by blast
qed

lemma sample_main: "task_state (tasks sample_start 100) = Ready" "main_task sample_start ProCpu = 100" "pinned_to (tasks sample_start 100) = Some ProCpu"
  "current_task sample_start AppCpu = None" "priority (tasks sample_start 100) = 0"
  by code_simp+

lemma sample_live: "live sample_start 100"
  using sample_main(2) sample_start_facts(3) by (auto simp: live_def contains_def intro!: exI [of _ ProCpu])

definition sample_run :: "AnyTimer Kernel" where
  "sample_run = the (switch_task sample_config (any_timer False) ProCpu 5000 5000 0 sample_start)"

lemma sample_run_facts: "switch_task sample_config (any_timer False) ProCpu 5000 5000 0 sample_start = Some sample_run" "sample_reachable sample_run"
  by (rule reachable_exec [OF sample_start_facts(1) sample_allowed]; simp add: sample_run_def)+

theorem no_ready_task_lost_witness:
  "(\<exists>c. current_task sample_start c = Some 100) \<or> (\<exists>f. rq_rel (tasks sample_start) (run_queue sample_start) f \<and>
     100 \<in> set (f (priority (tasks sample_start 100))) \<and> bit (mp_mask (ready_priority (run_queue sample_start))) (priority (tasks sample_start 100)))"
  using no_ready_task_lost [OF sample_start_facts(1) sample_live sample_main(1)] .

lemma switch_effect:
  assumes "reachable h2 rate tc cfg k" "allowed tc cfg (SwitchTask cpu sp isp now) k" "switch_task cfg (any_timer h2) cpu sp isp now k = Some k'"
    and "live k u" "task_state (tasks k u) = Ready" "pinned_to (tasks k u) \<noteq> Some (other_cpu cpu)" "current_task k (other_cpu cpu) \<noteq> Some u"
  shows "\<exists>n. current_task k' cpu = Some n \<and> is_running k' cpu \<and> priority (tasks k u) \<le> priority (tasks k' n) \<and>
    pinned_to (tasks k' n) \<noteq> Some (other_cpu cpu) \<and> current_task k' (other_cpu cpu) \<noteq> Some n"
proof (rule reachable_inv [OF assms(1)])
  fix v assume v: "any.good h2 rate k v" "links_inv k v" "policy_inv UNIV k v"
  have all: "u \<in> v_all v" by (rule live_listed [OF v(1) assms(4)]) (use assms(5) in simp)
  show ?thesis
  proof (rule switch_reachable [OF v(1) assms(2,3)])
    fix next_task v' assume s: "any.switched h2 rate cpu sp k v k' v' next_task"
    let ?C = "\<lambda>t. pinned_to (tasks k t) \<noteq> Some (other_cpu cpu) \<and> Some t \<noteq> current_task k (other_cpu cpu)"
    from s obtain f where f: "picks ?C f next_task (v_ready v')" "\<forall>p. distinct (f p) \<and> (\<forall>t\<in>set (f p). priority (tasks k t) = p)"
      "ready_set (v_ready v) \<subseteq> ready_set f" "\<forall>t. thread_pointer k cpu = Some t \<and> task_state (tasks k t) = Ready \<longrightarrow> t \<in> ready_set f"
      and cp: "current_task k' = (current_task k)(cpu := next_task)" "thread_pointer k' = (thread_pointer k)(cpu := next_task)" "yielded k' = (yielded k)(cpu := False)"
      and pr: "\<forall>y. priority (tasks k' y) = priority (tasks k y) \<and> pinned_to (tasks k' y) = pinned_to (tasks k y)"
      and inv': "sys_inv UNIV {} k' v'" by (auto simp: any.switched_def)
    have oc: "other_cpu cpu \<noteq> cpu" by (cases cpu) (simp_all add: other_cpu_def)
    have "u \<in> ready_set f"
    proof (cases "u \<in> ready_set (v_ready v)")
      case False
      then obtain c where c: "current_task k c = Some u" using policy_invD(15) [OF v(3) all assms(5)] by blast
      then have "c = cpu" using assms(7) by (cases c; cases cpu) (auto simp: other_cpu_def)
      then have "thread_pointer k cpu = Some u" using c policy_invD(12) [OF v(3), of cpu u] assms(5) by auto
      then show ?thesis using f(4) assms(5) by blast
    qed (use f(3) in blast)
    then obtain q where q: "u \<in> set (f q)" by (auto simp: ready_set_def)
    have Cu: "?C u" using assms(6,7) by auto
    obtain n where n: "next_task = Some n" using picks_none(2) [of ?C f _ u] f(1) \<open>u \<in> ready_set f\<close> Cu by (cases next_task) auto
    have uniq: "p = r" if "n \<in> set (f p)" "n \<in> set (f r)" for p r using f(2) that by metis
    have pick: "picks ?C f (Some n) (v_ready v')" using f(1) n by simp
    note some = picks_some [OF pick _ uniq]
    have nf: "n \<in> ready_set f" "?C n" using some(2,3) f(2) by auto
    then obtain p where p: "n \<in> set (f p)" by (auto simp: ready_set_def)
    have "q \<le> p" by (rule picks_highest [OF pick q Cu p uniq])
    then have le: "priority (tasks k u) \<le> priority (tasks k n)" using f(2) p q by metis
    have pol': "policy_inv UNIV k' v'" and bl: "blocks_inv UNIV {} k' v'" using inv' by (simp_all add: sys_inv_def)
    have cn: "current_task k' cpu = Some n" "thread_pointer k' cpu = Some n" using cp n by simp_all
    have "task_state (tasks k' n) \<noteq> Sleeping" using policy_invD(14) [OF pol' UNIV_I cn(1)] cp(3) by auto
    moreover have "task_state (tasks k' n) \<noteq> Deleted"
    proof -
      have "n \<in> v_all v'" using s n by (simp add: any.switched_def)
      then show ?thesis using policy_invD(8) [OF pol'] by blast
    qed
    ultimately have "task_state (tasks k' n) = Ready" by (cases "task_state (tasks k' n)") auto
    then have "is_running k' cpu" using cn cp(3) by (simp add: is_running_def)
    then show ?thesis using cn le pr nf(2) cp(1) oc by auto
  qed
qed

text \<open>C5. A context switch on a CPU makes a task current that no task in the system beats: every task that is ready, may run on this CPU and is
not running on the other one has at most the priority of the chosen task, which itself may run here. The CPU idles only when there is no such
task. The thread code of the chosen task continues at once.\<close>

theorem switch_runs_highest_priority:
  assumes "reachable h2 rate tc cfg k" "allowed tc cfg (SwitchTask cpu sp isp now) k" "switch_task cfg (any_timer h2) cpu sp isp now k = Some k'"
    and "live k u" "task_state (tasks k u) = Ready" "pinned_to (tasks k u) \<noteq> Some (other_cpu cpu)" "current_task k (other_cpu cpu) \<noteq> Some u"
  shows "\<exists>n. current_task k' cpu = Some n \<and> is_running k' cpu \<and> priority (tasks k u) \<le> priority (tasks k' n) \<and>
    pinned_to (tasks k' n) \<noteq> Some (other_cpu cpu) \<and> current_task k' (other_cpu cpu) \<noteq> Some n"
  by (rule switch_effect [OF assms])

theorem switch_runs_highest_priority_witness:
  "\<exists>n. current_task sample_run ProCpu = Some n \<and> is_running sample_run ProCpu \<and> priority (tasks sample_start 100) \<le> priority (tasks sample_run n) \<and>
    pinned_to (tasks sample_run n) \<noteq> Some (other_cpu ProCpu) \<and> current_task sample_run (other_cpu ProCpu) \<noteq> Some n"
  by (rule switch_runs_highest_priority [OF sample_start_facts(1) sample_allowed sample_run_facts(1) sample_live sample_main(1)])
    (simp_all add: sample_main other_cpu_def)

section \<open>Time\<close>

lemma timer_queued_listed:
  assumes "links_inv k v" "time_driver k \<noteq> None"
  shows "t \<in> v_timer v \<longleftrightarrow> timer_queued (tasks k t)"
  using assms timer_queued_iff by (fastforce simp: links_inv_def timer_part_def)

lemma le_U64_MAX: "w \<le> U64_MAX"
  using unat_u64_bound [of w] by (simp add: U64_MAX_def word_le_nat_alt)

lemma tick_effect:
  assumes "reachable h2 rate tc cfg k" "time_driver k = Some td" "current_alarm td \<le> now"
  shows "\<exists>k'. timer_tick_handler cfg (any_timer h2) now embassy k = Some k' \<and>
    (\<forall>t. task_state (tasks k' t) = (if timer_queued (tasks k t) \<and> wakeup_at (tasks k t) \<le> now then Ready else task_state (tasks k t))) \<and>
    (\<forall>t. timer_queued (tasks k' t) \<longleftrightarrow> timer_queued (tasks k t) \<and> now < wakeup_at (tasks k t))"
proof (rule reachable_inv [OF assms(1)])
  fix v assume v: "any.good h2 rate k v" "links_inv k v" "any.timed h2 rate k"
  have val: "any_valid h2 rate (td_timer td)" using v(3) assms(2) by (auto simp: any.timed_def)
  show ?thesis
  proof (rule any.timer_tick_inv [OF any.good_sys [OF v(1)] assms(2) val, of cfg now embassy])
    fix k' v' assume "timer_tick_handler cfg (any_timer h2) now embassy k = Some k'" "sys_inv UNIV {} k' v'"
      "wakes (if current_alarm td \<le> now then expired now k v else {}) v v'"
      "woken_tasks (if current_alarm td \<le> now then expired now k v else {}) (tasks k) (tasks k')"
    then have t: "timer_tick_handler cfg (any_timer h2) now embassy k = Some k'" "sys_inv UNIV {} k' v'" "wakes (expired now k v) v v'"
      "woken_tasks (expired now k v) (tasks k) (tasks k')" using assms(3) by simp_all
    have q: "y \<in> v_timer v \<longleftrightarrow> timer_queued (tasks k y)" for y by (rule timer_queued_listed [OF v(2)]) (use assms(2) in simp)
    have q': "y \<in> v_timer v' \<longleftrightarrow> timer_queued (tasks k' y)" for y using timer_queued_listed [of k' v' y] t(2) by (simp add: sys_inv_def)
    have e: "y \<in> expired now k v \<longleftrightarrow> timer_queued (tasks k y) \<and> wakeup_at (tasks k y) \<le> now" for y using q by (simp add: expired_def)
    have "timer_queued (tasks k' y) \<longleftrightarrow> timer_queued (tasks k y) \<and> now < wakeup_at (tasks k y)" for y
      using t(3) q [of y] q' [of y] e [of y] by (auto simp: wakes_def)
    then show ?thesis using t(1) woken_tasksD(9) [OF t(4)] e by auto
  qed
qed

text \<open>C7. The timer interrupt wakes exactly the tasks whose deadline has passed: when the alarm is due, a task becomes ready if it stands in the
timer queue with a deadline that is not after the current time, the others keep their states, and the timer queue keeps exactly the tasks with
later deadlines.\<close>

theorem tick_wakes_expired:
  assumes "reachable h2 rate tc cfg k" "time_driver k = Some td" "current_alarm td \<le> now"
  shows "\<exists>k'. timer_tick_handler cfg (any_timer h2) now embassy k = Some k' \<and>
    (\<forall>t. task_state (tasks k' t) = (if timer_queued (tasks k t) \<and> wakeup_at (tasks k t) \<le> now then Ready else task_state (tasks k t))) \<and>
    (\<forall>t. timer_queued (tasks k' t) \<longleftrightarrow> timer_queued (tasks k t) \<and> now < wakeup_at (tasks k t))"
  by (rule tick_effect [OF assms])

theorem tick_wakes_expired_witness:
  "\<exists>k'. timer_tick_handler sample_config (any_timer False) U64_MAX None sample_run = Some k' \<and>
    (\<forall>t. task_state (tasks k' t) = (if timer_queued (tasks sample_run t) \<and> wakeup_at (tasks sample_run t) \<le> U64_MAX then Ready else task_state (tasks sample_run t))) \<and>
    (\<forall>t. timer_queued (tasks k' t) \<longleftrightarrow> timer_queued (tasks sample_run t) \<and> U64_MAX < wakeup_at (tasks sample_run t))"
proof -
  from reachable_inv [OF sample_run_facts(2)] obtain td where "time_driver sample_run = Some td" by (auto simp: any.timed_def)
  then show ?thesis by (rule tick_wakes_expired [OF sample_run_facts(2)]) (simp add: le_U64_MAX)
qed

text \<open>After these operations the alarm is set for the next wakeup.\<close>

lemma armed_after:
  assumes "reachable h2 rate tc cfg k" "allowed tc cfg op k" "exec_op tc cfg (any_timer h2) op k = Some k'"
    and "(\<exists>cpu sp isp n. op = SwitchTask cpu sp isp n) \<or> (\<exists>n e. op = TimerTick n e) \<or> (\<exists>n. op = RearmAlarm n)"
  shows "any.armed h2 rate k'"
proof (rule reachable_inv [OF assms(1)])
  fix v assume v: "any.good h2 rate k v" "any.timed h2 rate k"
  note inv = any.good_sys [OF v(1)]
  from v(2) obtain td where td: "time_driver k = Some td" "any_valid h2 rate (td_timer td)" by (auto simp: any.timed_def)
  from assms(4) show ?thesis
  proof (elim disjE exE)
    fix cpu sp isp n assume op: "op = SwitchTask cpu sp isp n"
    show ?thesis by (rule switch_reachable [OF v(1), of tc cfg cpu sp isp n k']) (use assms(2,3) op in \<open>auto simp: any.switched_def\<close>)
  next
    fix n e assume "op = TimerTick n e"
    then show ?thesis using any.timer_tick_inv [OF inv td, of cfg n e] assms(3) by auto
  next
    fix n assume "op = RearmAlarm n"
    then show ?thesis using any.rearm_alarm_inv [OF inv v(2), of n] assms(3) by auto
  qed
qed


lemma sample_running: "is_running sample_run ProCpu"
  using switch_effect [OF sample_start_facts(1) sample_allowed sample_run_facts(1) sample_live sample_main(1)] sample_main by (auto simp: other_cpu_def)

definition sample_task :: TaskPtr where
  "sample_task = the (thread_pointer sample_run ProCpu)"

theorem one_cpu_per_task_witness:
  "current_task sample_run ProCpu = Some sample_task \<and> current_task sample_run AppCpu \<noteq> Some sample_task \<and> \<not> idle sample_run ProCpu"
proof -
  from is_runningD [OF sample_running] have "thread_pointer sample_run ProCpu = Some sample_task" by (auto simp: sample_task_def)
  then show ?thesis using one_cpu_per_task [OF sample_run_facts(2)] by auto
qed

definition sample_asleep :: "AnyTimer Kernel" where
  "sample_asleep = snd (the (sleep_until sample_config ProCpu 0 1000 sample_run))"

lemma sample_asleep_facts:
  "sample_reachable sample_asleep" "timer_queued (tasks sample_asleep sample_task)" "wakeup_at (tasks sample_asleep sample_task) = 1000"
proof -
  from is_runningD [OF sample_running] have run: "running sample_run ProCpu sample_task" by (auto simp: sample_task_def)
  have a: "allowed sample_threads sample_config (SleepUntil ProCpu 0 1000) sample_run" using sample_running by simp
  show "sample_reachable sample_asleep"
    by (rule reachable_exec [OF sample_run_facts(2) a]) (auto simp: sample_asleep_def)
  have "timer_queued (tasks sample_asleep sample_task) \<and> wakeup_at (tasks sample_asleep sample_task) = 1000"
  proof (rule reachable_inv [OF sample_run_facts(2)])
    fix v assume "any.good False 1000000 sample_run v"
    from any.good_sys [OF this] run show ?thesis
    proof (rule sleep_until_sys [where cfg = sample_config and now = 0 and at = 1000])
      fix slept k' v' assume s: "sleep_until sample_config ProCpu 0 1000 sample_run = Some (slept, k')" "slept \<longleftrightarrow> 0 < (1000 :: u64) \<or> 1000 = U64_MAX"
        "sys_inv UNIV {} k' v'" "v_timer v' = (if slept \<and> 1000 \<noteq> U64_MAX then insert sample_task (v_timer v) else v_timer v)"
        "slept \<Longrightarrow> 1000 \<noteq> U64_MAX \<Longrightarrow> wakeup_at (tasks k' sample_task) = 1000"
      have sl: slept "1000 \<noteq> U64_MAX" using s(2) by (simp_all add: U64_MAX_def)
      then have "sample_task \<in> v_timer v'" using s(4) by simp
      then have "timer_queued (tasks k' sample_task)" using timer_queued_listed [of k' v' sample_task] s(3) by (simp add: sys_inv_def)
      then show ?thesis using s(1,5) sl by (simp add: sample_asleep_def)
    qed
  qed
  then show "timer_queued (tasks sample_asleep sample_task)" "wakeup_at (tasks sample_asleep sample_task) = 1000" by simp_all
qed


section \<open>Structure, termination and preemption\<close>

text \<open>C23. The memory of the scheduler is well-formed in every reachable state: the run queue, the wait queues, the timer queue, the list of all
tasks and the lists of deleted tasks are acyclic lists through the tasks that share no task where they share a link, every priority is below 32,
the mask of the run queue marks exactly the levels that hold a task, and the time driver has a working timer.\<close>

theorem scheduler_well_formed:
  assumes "reachable h2 rate tc cfg k"
  shows "(\<exists>f w. ready_inv (tasks k) (wait_queues k) (run_queue k) f w) \<and>
    (\<exists>td ts. time_driver k = Some td \<and> timer_inv (tasks k) (timer_queue td) ts \<and> any_valid h2 rate (td_timer td)) \<and>
    (\<exists>xs. list_rel alloc_element (tasks k) (all_tasks k) xs) \<and> (\<forall>c. \<exists>xs. list_rel delete_element (tasks k) (to_delete k c) xs) \<and>
    (\<forall>t. priority (tasks k t) < 32)"
proof (rule reachable_inv [OF assms])
  fix v assume v: "links_inv k v" "any.timed h2 rate k"
  have "\<exists>f w. ready_inv (tasks k) (wait_queues k) (run_queue k) f w" using v(1) by (auto simp: links_inv_def ready_part_def)
  moreover have "\<exists>td ts. time_driver k = Some td \<and> timer_inv (tasks k) (timer_queue td) ts \<and> any_valid h2 rate (td_timer td)"
    using v by (auto simp: links_inv_def timer_part_def any.timed_def)
  moreover have "\<exists>xs. list_rel alloc_element (tasks k) (all_tasks k) xs" using v(1) unfolding links_inv_def alloc_part_def by blast
  moreover have "\<forall>c. \<exists>xs. list_rel delete_element (tasks k) (to_delete k c) xs" using v(1) unfolding links_inv_def delete_part_def by blast
  moreover have "\<forall>t. priority (tasks k t) < 32" using v(1) by (auto simp: links_inv_def intro: le_less_trans [of _ 31])
  ultimately show ?thesis by blast
qed

theorem scheduler_well_formed_witness:
  "(\<exists>f w. ready_inv (tasks sample_run) (wait_queues sample_run) (run_queue sample_run) f w) \<and>
    (\<exists>td ts. time_driver sample_run = Some td \<and> timer_inv (tasks sample_run) (timer_queue td) ts \<and> any_valid False 1000000 (td_timer td)) \<and>
    (\<exists>xs. list_rel alloc_element (tasks sample_run) (all_tasks sample_run) xs) \<and>
    (\<forall>c. \<exists>xs. list_rel delete_element (tasks sample_run) (to_delete sample_run c) xs) \<and> (\<forall>t. priority (tasks sample_run t) < 32)"
  using scheduler_well_formed [OF sample_run_facts(2)] .

text \<open>The loop of \<open>WaitQueue::notify\<close> ends, whatever the queue holds: afterwards the queue is empty, every task that waited in it is ready
and in no timer queue, and no other task changed its state.\<close>

theorem notify_terminates:
  assumes "reachable h2 rate tc cfg k"
  shows "\<exists>k'. notify cfg i k = Some k' \<and> list_is_empty (waiting_tasks (wait_queues k' i)) \<and>
    (\<forall>t. if in_run_or_wait_queue (tasks k t) \<and> current_wait_queue (tasks k t) = Some i
      then task_state (tasks k' t) = Ready \<and> \<not> timer_queued (tasks k' t) else task_state (tasks k' t) = task_state (tasks k t))"
proof (rule reachable_inv [OF assms])
  fix v assume v: "any.good h2 rate k v" "links_inv k v" "policy_inv UNIV k v"
  have rp: "ready_part (tasks k) (wait_queues k) (run_queue k) (v_ready v) (v_wait v)" using v(2) by (simp add: links_inv_def)
  have w: "t \<in> v_wait v i \<longleftrightarrow> in_run_or_wait_queue (tasks k t) \<and> current_wait_queue (tasks k t) = Some i" for t
    using ready_part_facts(2,3,6) [OF rp] by (force simp: ready_set_def)
  show ?thesis
  proof (rule notify_sys [OF any.good_sys [OF v(1)], of cfg i])
    fix k' v' assume n: "notify cfg i k = Some k'" "sys_inv UNIV {} k' v'" "wakes (v_wait v i) v v'" "woken_tasks (v_wait v i) (tasks k) (tasks k')"
    have "v_wait v' i = {}" using n(3) by (simp add: wakes_def)
    moreover have "ready_part (tasks k') (wait_queues k') (run_queue k') (v_ready v') (v_wait v')" using n(2) by (simp add: sys_inv_def links_inv_def)
    ultimately have e: "list_is_empty (waiting_tasks (wait_queues k' i))" by (intro wait_queue_empty)
    have "\<not> timer_queued (tasks k' t)" if "t \<in> v_wait v i" for t
      using n(2,3) that timer_queued_listed [of k' v' t] by (auto simp: sys_inv_def wakes_def)
    then show ?thesis using n(1) e woken_tasksD(9) [OF n(4)] w by auto
  qed
qed

theorem notify_terminates_witness:
  "\<exists>k'. notify sample_config 300 sample_run = Some k' \<and> list_is_empty (waiting_tasks (wait_queues k' 300)) \<and>
    (\<forall>t. if in_run_or_wait_queue (tasks sample_run t) \<and> current_wait_queue (tasks sample_run t) = Some 300
      then task_state (tasks k' t) = Ready \<and> \<not> timer_queued (tasks k' t) else task_state (tasks k' t) = task_state (tasks sample_run t))"
  using notify_terminates [OF sample_run_facts(2)] .

end
