(* ===== verification/Thread_Guarantees.thy ===== *)
theory Thread_Guarantees
  imports System_Guarantees
begin

text \<open>
  A further guarantee of the scheduler: waking a task requests a context switch on the CPU whose current task
  has the lowest priority, unless that is higher than its own.
\<close>

section \<open>Samples\<close>

lemma sample_run_kept:
  "threads sample_run = (\<lambda>_. None)" "active_cores sample_run = SingleCore ProCpu" "main_task sample_run = main_task sample_start"
  "pinned_to (tasks sample_run t) = pinned_to (tasks sample_start t)"
proof -
  obtain v where "any.good False 1000000 sample_start v" by (rule reachable_inv [OF sample_start_facts(1)])
  then obtain n v' where s: "any.switched False 1000000 ProCpu 5000 sample_start v sample_run v' n"
    by (rule switch_reachable [OF _ sample_allowed sample_run_facts(1)])
  then show "threads sample_run = (\<lambda>_. None)" "active_cores sample_run = SingleCore ProCpu" "main_task sample_run = main_task sample_start"
    "pinned_to (tasks sample_run t) = pinned_to (tasks sample_start t)"
    by (simp_all add: any.switched_def fun_eq_iff sample_start_facts)
qed

lemma sample_asleep_kept:
  "threads sample_asleep = (\<lambda>_. None)" "active_cores sample_asleep = SingleCore ProCpu" "main_task sample_asleep ProCpu = 100"
  "pinned_to (tasks sample_asleep 100) = Some ProCpu" "current_task sample_asleep ProCpu = Some sample_task"
proof -
  obtain v where v: "any.good False 1000000 sample_run v" "policy_inv UNIV sample_run v" by (rule reachable_inv [OF sample_run_facts(2)])
  from is_runningD [OF sample_running] have r: "running sample_run ProCpu sample_task" by (auto simp: sample_task_def)
  then have c: "current_task sample_run ProCpu = Some sample_task" using running_task(1) [OF v(2)] by (simp add: running_def)
  obtain slept k' where k': "sleep_until sample_config ProCpu 0 1000 sample_run = Some (slept, k')" "frame sample_run k'"
    "\<And>y. pinned_to (tasks k' y) = pinned_to (tasks sample_run y)"
    by (rule sleep_until_sys [OF any.good_sys [OF v(1)] r, of sample_config 0 1000]) blast
  then have "sample_asleep = k'" by (simp add: sample_asleep_def)
  with k'(2,3) c show "threads sample_asleep = (\<lambda>_. None)" "active_cores sample_asleep = SingleCore ProCpu" "main_task sample_asleep ProCpu = 100"
    "pinned_to (tasks sample_asleep 100) = Some ProCpu" "current_task sample_asleep ProCpu = Some sample_task"
    by (simp_all add: frame_def sample_run_kept sample_main)
qed

definition sample_dual :: "AnyTimer Kernel" where
  "sample_dual = the (start_second_core sample_config 8192 1024 60 sample_asleep)"

lemma sample_dual_facts:
  "sample_reachable sample_dual" "active_cores sample_dual = AllCores" "task_state (tasks sample_dual sample_task) = Sleeping"
  "allowed sample_threads sample_config (ResumeTask sample_task) sample_dual" "sample_task = 100" "pinned_to (tasks sample_dual 100) = Some ProCpu"
  "current_task sample_dual ProCpu = Some sample_task"
proof -
  have a: "allowed sample_threads sample_config (StartSecondCore 8192 1024 60) sample_asleep" by (simp add: sample_asleep_kept(2))
  show r: "sample_reachable sample_dual" by (rule reachable_exec [OF sample_asleep_facts(1) a]) (simp add: sample_dual_def)
  have "active_cores sample_dual = AllCores \<and> task_state (tasks sample_dual sample_task) = Sleeping \<and> sample_task = main_task sample_dual ProCpu \<and> sample_task = 100 \<and>
    pinned_to (tasks sample_dual 100) = Some ProCpu \<and> current_task sample_dual ProCpu = Some sample_task"
  proof (rule reachable_inv [OF sample_asleep_facts(1)])
    fix v assume v: "any.good False 1000000 sample_asleep v" "links_inv sample_asleep v" "policy_inv UNIV sample_asleep v" "blocks_inv UNIV {} sample_asleep v"
    have ok: "sys_ok sample_asleep v" using v(1) by (simp add: any.good_def)
    have td: "time_driver sample_asleep \<noteq> None" using ok by (simp add: sys_ok_def sys_inv_def)
    have tq: "sample_task \<in> v_timer v" using timer_queued_listed [OF v(2) td] sample_asleep_facts(2) by simp
    have st: "task_state (tasks sample_asleep sample_task) = Sleeping" "sample_task \<in> v_all v" using policy_invD(5,6) [OF v(3) tq] .
    have "is_main_task sample_asleep sample_task" using blocks_invD(2) [OF v(4), of sample_task] st(2) sample_asleep_kept(1) by (auto simp: listed_def)
    moreover have "main_task sample_asleep AppCpu \<noteq> sample_task" using ok st(2) sample_asleep_kept(2) by (auto simp: sys_ok_def inactive_ok_def contains_def)
    ultimately have m: "sample_task = main_task sample_asleep ProCpu" "sample_task \<noteq> main_task sample_asleep AppCpu" by (auto simp: is_main_task_def all_cpus_def)
    show ?thesis
    proof (rule start_second_core_sys [OF ok sample_asleep_kept(2), of sample_config 8192 1024 60])
      fix k' v' assume k': "start_second_core sample_config 8192 1024 60 sample_asleep = Some k'" "active_cores k' = AllCores" "main_task k' = main_task sample_asleep"
        "\<And>y. y \<noteq> main_task sample_asleep AppCpu \<Longrightarrow> core (tasks k' y) = core (tasks sample_asleep y)"
        "current_task k' = (current_task sample_asleep)(AppCpu \<mapsto> main_task sample_asleep AppCpu)"
      then show ?thesis using m st(1) sample_asleep_kept(3,4,5) core_eqD(1,3) [OF k'(4) [OF m(2)]] by (simp add: sample_dual_def)
    qed
  qed
  then show "active_cores sample_dual = AllCores" "task_state (tasks sample_dual sample_task) = Sleeping"
    "allowed sample_threads sample_config (ResumeTask sample_task) sample_dual"
    "sample_task = 100" "pinned_to (tasks sample_dual 100) = Some ProCpu"
    "current_task sample_dual ProCpu = Some sample_task" by (auto simp: contains_def)
qed

section \<open>Preemption\<close>

lemma mark_task_ready_trigger:
  assumes "mark_task_ready dbg current AllCores t wqs rq h = Some (r, wqs', rq', h')"
  shows "r = select_scheduler_trigger_multi_core h' current t"
  using assms by (auto simp: mark_task_ready_def Let_def bind_eq_Some_conv)

lemma select_trigger:
  assumes "pinned_to (h t) = None \<or> pinned_to (h t) = Some c" "priority_of_core h current c \<le> priority (h t)"
  shows "\<exists>d. select_scheduler_trigger_multi_core h current t = RunOnCore d \<and> (pinned_to (h t) = None \<or> pinned_to (h t) = Some d) \<and>
    priority_of_core h current d \<le> priority_of_core h current c"
  using assms by (cases c) (auto simp: select_scheduler_trigger_multi_core_def Let_def)



end
