(* ===== verification/Scheduler_Refinement.thy ===== *)
theory Scheduler_Refinement
  imports Thread_Guarantees
begin

text \<open>
  The abstract scheduler. Its state is a view: the ready tasks of every level in order, and the sets of
  waiting, sleeping, known and deleted tasks. Every operation on the linked lists and records of the
  kernel implements a step of the abstract scheduler.
\<close>

section \<open>The abstract steps\<close>

definition represents :: "bool \<Rightarrow> nat \<Rightarrow> AnyTimer Kernel \<Rightarrow> View \<Rightarrow> bool" where
  "represents h2 rate k v \<longleftrightarrow> any.good h2 rate k v"

text \<open>The deadline of a task is kept in the task; \<open>sleeps\<close> says whether it is in the future.\<close>

definition sleeps :: "u64 \<Rightarrow> u64 \<Rightarrow> bool" where
  "sleeps now at \<longleftrightarrow> now < at \<or> at = U64_MAX"

definition to_sleep :: "u64 \<Rightarrow> u64 \<Rightarrow> TaskPtr \<Rightarrow> View \<Rightarrow> View" where
  "to_sleep now at t v = v\<lparr>v_timer := (if sleeps now at \<and> at \<noteq> U64_MAX then insert t (v_timer v) else v_timer v)\<rparr>"

definition to_wait :: "u64 \<Rightarrow> nat \<Rightarrow> u64 \<Rightarrow> TaskPtr \<Rightarrow> View \<Rightarrow> View" where
  "to_wait now i at t v = (to_sleep now at t v)\<lparr>v_wait := (if sleeps now at then (v_wait v)(i := insert t (v_wait v i)) else v_wait v)\<rparr>"

definition no_new_waits :: "View \<Rightarrow> View \<Rightarrow> bool" where
  "no_new_waits v v' \<longleftrightarrow> (\<forall>i. v_wait v' i \<subseteq> v_wait v i)"

definition runs_next :: "Cpu \<Rightarrow> 't Kernel \<Rightarrow> View \<Rightarrow> 't Kernel \<Rightarrow> View \<Rightarrow> bool" where
  "runs_next cpu k v k' v' \<longleftrightarrow> v_all v' = v_all v \<and> no_new_waits v v' \<and>
     (\<exists>f. ready_set (v_ready v) \<subseteq> ready_set f \<and>
        picks (\<lambda>t. pinned_to (tasks k t) \<noteq> Some (other_cpu cpu) \<and> Some t \<noteq> current_task k (other_cpu cpu)) f (current_task k' cpu) (v_ready v'))"

text \<open>\<open>k\<close> supplies what a view leaves out: priorities, deadlines, the current tasks and the alarm.\<close>

fun view_step :: "Op \<Rightarrow> 't Kernel \<Rightarrow> View \<Rightarrow> 't Kernel \<Rightarrow> View \<Rightarrow> bool" where
  "view_step (SwitchTask cpu sp isp now) k v k' v' = runs_next cpu k v k' v'"
| "view_step (TimerTick now embassy) k v k' v' =
     (\<exists>td. time_driver k = Some td \<and> wakes (if current_alarm td \<le> now then expired now k v else {}) v v')"
| "view_step (SleepUntil cpu now at) k v k' v' = (v' = to_sleep now at (the (thread_pointer k cpu)) v)"
| "view_step (WaitWithDeadline cpu now i at) k v k' v' = (v' = to_wait now i at (the (thread_pointer k cpu)) v)"
| "view_step (Notify i) k v k' v' = wakes (v_wait v i) v v'"
| "view_step (ResumeTask t) k v k' v' = (v' = woken (priority (tasks k t)) t v)"
| "view_step (Spawn s layout) k v k' v' = (v_all v' = insert (sp_thread s) (v_all v) \<and> sp_thread s \<in> ready_set (v_ready v') \<and> no_new_waits v v')"
| "view_step (SpawnExtern s) k v k' v' = (v_all v' = insert (sp_thread s) (v_all v) \<and> sp_thread s \<in> ready_set (v_ready v') \<and> no_new_waits v v')"
| "view_step (JoinPoll cpu now th) k v k' v' = (v_all v' = v_all v \<and> (\<forall>i. i \<noteq> th \<longrightarrow> v_wait v' i \<subseteq> v_wait v i))"
| "view_step (DeleteTask cpu target) k v k' v' =
     (v_all v' = v_all v - {case target of None \<Rightarrow> the (thread_pointer k cpu) | Some x \<Rightarrow> x} \<and> no_new_waits v v')"
| "view_step (SetPriority cpu p) k v k' v' = (v_all v' = v_all v \<and> v_wait v' = v_wait v)"
| "view_step (SetTaskPriority t p) k v k' v' = (v_all v' = v_all v \<and> v_wait v' = v_wait v)"
| "view_step (StartSecondCore bottom words off) k v k' v' = (v_all v' = insert (main_task k AppCpu) (v_all v) \<and> no_new_waits v v')"
| "view_step _ k v k' v' = (v' = v)"

section \<open>The refinement\<close>

lemma refine_switch:
  assumes g: "any.good h2 rate k v" and a: "allowed tc cfg (SwitchTask cpu sp isp now) k"
  shows "\<exists>k' v'. switch_task cfg (any_timer h2) cpu sp isp now k = Some k' \<and> any.good h2 rate k' v' \<and> runs_next cpu k v k' v'"
proof -
  have inv: "sys_inv UNIV {} k v" "any.timed h2 rate k" using g by (simp_all add: any.good_def sys_ok_def)
  have st: "stacks_ok cfg cpu sp k v" using stacks_sound_ok [OF inv(1)] a by simp
  show ?thesis
  proof (rule any.switch_task_inv [OF inv st, of isp now])
    fix n k' v' assume s: "switch_task cfg (any_timer h2) cpu sp isp now k = Some k'" "any.switched h2 rate cpu sp k v k' v' n"
    have "inactive_ok k' v'" using g s(2) a by (auto simp: any.good_def sys_ok_def inactive_ok_def any.switched_def)
    moreover have "any.timed h2 rate k'" using s(2) by (auto simp: any.switched_def any.armed_def any.timed_def)
    ultimately have "any.good h2 rate k' v'" using s(2) by (auto simp: any.good_def sys_ok_def any.switched_def)
    moreover have "runs_next cpu k v k' v'" using s(2) by (auto simp: any.switched_def runs_next_def no_new_waits_def)
    ultimately show ?thesis using s(1) by blast
  qed
qed

lemma refine_tick:
  assumes g: "any.good h2 rate k v"
  shows "\<exists>k' v' td. timer_tick_handler cfg (any_timer h2) now embassy k = Some k' \<and> any.good h2 rate k' v' \<and> time_driver k = Some td \<and>
    wakes (if current_alarm td \<le> now then expired now k v else {}) v v'"
proof -
  from g obtain td where td: "time_driver k = Some td" "any_valid h2 rate (td_timer td)" by (auto simp: any.good_def any.timed_def)
  show ?thesis
  proof (rule any.timer_tick_inv [OF any.good_sys [OF g] td, of cfg now embassy])
    fix k' v' assume t: "timer_tick_handler cfg (any_timer h2) now embassy k = Some k'" "sys_inv UNIV {} k' v'" "any.armed h2 rate k'"
      "wakes (if current_alarm td \<le> now then expired now k v else {}) v v'" "current_task k' = current_task k" "main_task k' = main_task k"
      "idle k' = idle k" "active_cores k' = active_cores k"
    have "inactive_ok k' v'" using g t(5-8) wakes_frame [OF t(4)] by (simp add: any.good_def sys_ok_def inactive_ok_def)
    moreover have "any.timed h2 rate k'" using t(3) by (auto simp: any.armed_def any.timed_def)
    ultimately show ?thesis using t(1,2,4) td(1) by (auto simp: any.good_def sys_ok_def)
  qed
qed

lemma refine_sleep:
  assumes g: "any.good h2 rate k v" and a: "is_running k cpu"
  shows "\<exists>k' v'. map_option snd (sleep_until cfg cpu now at k) = Some k' \<and> any.good h2 rate k' v' \<and> v' = to_sleep now at (the (thread_pointer k cpu)) v"
proof -
  from is_runningD [OF a] obtain t where r: "running k cpu t" "thread_pointer k cpu = Some t" by blast
  show ?thesis
  proof (rule sleep_until_sys [OF any.good_sys [OF g] r(1), of cfg now at])
    fix slept k' v' assume s: "sleep_until cfg cpu now at k = Some (slept, k')" "sys_inv UNIV {} k' v'" "frame k k'"
      "v' = v\<lparr>v_timer := (if (now < at \<or> at = U64_MAX) \<and> at \<noteq> U64_MAX then insert t (v_timer v) else v_timer v)\<rparr>"
    have "any.good h2 rate k' v'" by (rule any.goodI [OF g s(2) keepsI(1) [OF s(3)]]) (simp add: s(4))
    moreover have "v' = to_sleep now at (the (thread_pointer k cpu)) v" using s(4) r(2) by (simp only: to_sleep_def sleeps_def option.sel)
    ultimately show ?thesis using s(1) by (intro exI [of _ k'] exI [of _ v'] conjI) simp_all
  qed
qed

lemma refine_wait:
  assumes g: "any.good h2 rate k v" and a: "is_running k cpu" "threads k i = None \<or> block_is (\<lambda>b. \<not> detached b \<and> \<not> released b) k i"
  shows "\<exists>k' v'. wait_with_deadline cfg cpu now i at k = Some k' \<and> any.good h2 rate k' v' \<and> v' = to_wait now i at (the (thread_pointer k cpu)) v"
proof -
  from is_runningD [OF a(1)] obtain t where r: "running k cpu t" "thread_pointer k cpu = Some t" by blast
  have q: "\<not> detached inner \<and> \<not> released inner" if "threads k i = Some inner" for inner using a(2) that by (auto simp: block_is_def)
  from any.good_sys [OF g] r(1) q show ?thesis
  proof (rule wait_with_deadline_sys [where cfg = cfg and now = now and at = at])
    fix k' v' assume s: "wait_with_deadline cfg cpu now i at k = Some k'" "sys_inv UNIV {} k' v'" "frame k k'"
      "v' = v\<lparr>v_timer := (if (now < at \<or> at = U64_MAX) \<and> at \<noteq> U64_MAX then insert t (v_timer v) else v_timer v),
        v_wait := (if now < at \<or> at = U64_MAX then (v_wait v)(i := insert t (v_wait v i)) else v_wait v)\<rparr>"
    have "any.good h2 rate k' v'" by (rule any.goodI [OF g s(2) keepsI(1) [OF s(3)]]) (simp add: s(4))
    moreover have "v' = to_wait now i at (the (thread_pointer k cpu)) v" using s(4) r(2) by (simp only: to_wait_def to_sleep_def sleeps_def option.sel)
    ultimately show ?thesis using s(1) by (intro exI [of _ k'] exI [of _ v'] conjI) simp_all
  qed
qed

lemma refine_notify:
  assumes g: "any.good h2 rate k v"
  shows "\<exists>k' v'. notify cfg i k = Some k' \<and> any.good h2 rate k' v' \<and> wakes (v_wait v i) v v'"
proof (rule notify_sys [OF any.good_sys [OF g], of cfg i])
  fix k' v' assume s: "notify cfg i k = Some k'" "sys_inv UNIV {} k' v'" "wakes (v_wait v i) v v'" "frame k k'"
  then show ?thesis using any.goodI [OF g s(2) keepsI(1) [OF s(4)]] wakes_frame [OF s(3)] by auto
qed

lemma refine_resume:
  assumes g: "any.good h2 rate k v" and a: "allowed tc cfg (ResumeTask t) k"
  shows "\<exists>k' v'. resume_task cfg t k = Some k' \<and> any.good h2 rate k' v' \<and> v' = woken (priority (tasks k t)) t v"
proof -
  have st: "task_state (tasks k t) = Sleeping" and "live k t" using a by (simp_all add: live_def)
  then have "t \<in> v_all v" using live_listed [OF g, of t] by simp
  then show ?thesis
  proof (rule resume_task_sys [OF any.good_sys [OF g] _ st, of cfg])
    fix k' assume s: "resume_task cfg t k = Some k'" "sys_inv UNIV {} k' (woken (priority (tasks k t)) t v)" "frame k k'"
    then show ?thesis using any.goodI [OF g s(2) keepsI(1) [OF s(3)]] by auto
  qed
qed

lemma refine_spawn:
  assumes g: "any.good h2 rate k v" and u: "unused k (sp_thread s)" "sys_inv UNIV {} k' v'" "v_all v' = insert (sp_thread s) (v_all v)" "keeps k k'"
    and w: "\<And>i. v_wait v' i \<subseteq> v_wait v i"
  shows "any.good h2 rate k' v'" "no_new_waits v v'"
proof -
  have "main_task k c \<noteq> sp_thread s" for c using u(1) main_is_main [of k c] by (auto simp: unused_def)
  then show "any.good h2 rate k' v'" using any.goodI [OF g u(2,4)] u(3) by auto
  show "no_new_waits v v'" using w by (simp add: no_new_waits_def)
qed

lemma refine_delete:
  assumes g: "any.good h2 rate k v" and run: "is_running k cpu"
    and a: "allowed tc cfg (DeleteTask cpu target) k"
  shows "\<exists>k' v'. map_option snd (schedule_task_deletion cfg cpu target k) = Some k' \<and> any.good h2 rate k' v' \<and>
    v_all v' = v_all v - {case target of None \<Rightarrow> the (thread_pointer k cpu) | Some x \<Rightarrow> x} \<and> no_new_waits v v'"
proof -
  define t where "t = (case target of None \<Rightarrow> the (thread_pointer k cpu) | Some x \<Rightarrow> x)"
  from is_runningD [OF run] obtain me where r: "running k cpu me" "thread_pointer k cpu = Some me" by blast
  from a have al: "block_is (\<lambda>b. \<not> released b) k t" "task_state (tasks k t) \<noteq> Deleted" "list_ex (\<lambda>c. current_task k c = Some t) all_cpus \<or> stack_fine cfg k t"
    by (simp_all add: Let_def t_def)
  from block_isD [OF al(1)] obtain inner where b: "threads k t = Some inner" "\<not> released inner" by blast
  have tt: "t = (case target of None \<Rightarrow> me | Some x \<Rightarrow> x)" using r(2) by (cases target) (simp_all add: t_def)
  have f: "(\<forall>c. current_task k c \<noteq> Some t) \<longrightarrow> stack_fine cfg k t" using al(3) by (auto simp: list_ex_iff)
  have main: "main_task k c \<noteq> t" for c
    using any.good_sys [OF g] b(1) main_is_main [of k c] blocks_invD(5) [of UNIV "{}" k v t inner] by (auto simp: sys_inv_def)
  show ?thesis unfolding t_def [symmetric]
  proof (rule schedule_task_deletion_sys [OF any.good_sys [OF g] r(1) tt b al(2) f])
    fix k' v' assume s: "schedule_task_deletion cfg cpu target k = Some (t = me, k')" "sys_inv UNIV {} k' v'" "keeps k k'" "v_all v' = v_all v - {t}"
      "\<And>i. v_wait v' i \<subseteq> v_wait v i"
    have "any.good h2 rate k' v'" by (rule any.goodI [OF g s(2,3)]) (use s(4) main in auto)
    then show "\<exists>k' v'. map_option snd (schedule_task_deletion cfg cpu target k) = Some k' \<and> any.good h2 rate k' v' \<and> v_all v' = v_all v - {t} \<and> no_new_waits v v'"
      using s(1,4,5) by (intro exI [of _ k'] exI [of _ v']) (simp add: no_new_waits_def)
  qed
qed

lemma refine_rest:
  assumes g: "any.good h2 rate k v" and a: "allowed tc cfg op k"
    and op: "case op of TakeClosure _ \<Rightarrow> True | Publish _ \<Rightarrow> True | JoinPoll _ _ _ \<Rightarrow> True | JoinFinish _ \<Rightarrow> True | DropHandle _ \<Rightarrow> True |
      SetPriority _ _ \<Rightarrow> True | SetTaskPriority _ _ \<Rightarrow> True | RearmAlarm _ \<Rightarrow> True | YieldTask _ \<Rightarrow> True | StartSecondCore _ _ _ \<Rightarrow> True | _ \<Rightarrow> False"
  shows "\<exists>k' v'. exec_op tc cfg (any_timer h2) op k = Some k' \<and> any.good h2 rate k' v' \<and> view_step op k v k' v'"
proof (cases op)
  note inv = any.good_sys [OF g]
  case (TakeClosure th)
  with a obtain inner where "threads k th = Some inner" by auto
  then show ?thesis unfolding TakeClosure by (rule take_closure_sys [OF inv]) (use any.goodI [OF g] in auto)
next
  note inv = any.good_sys [OF g]
  case (Publish th)
  with a obtain inner where "threads k th = Some inner" by auto
  then show ?thesis unfolding Publish by (rule publish_sys [OF inv]) (use any.goodI [OF g] in auto)
next
  note inv = any.good_sys [OF g]
  case (JoinFinish handle)
  with a obtain inner where b: "threads k (jh_thread handle) = Some inner" "released inner" "has_result inner" by (auto dest!: block_isD)
  show ?thesis unfolding JoinFinish by (rule join_finish_sys [OF inv b, of cfg]) (use any.goodI [OF g] in auto)
next
  note inv = any.good_sys [OF g]
  case (DropHandle th)
  with a obtain inner where b: "threads k th = Some inner" "list_is_empty (waiting_tasks (wait_queues k th))" by auto
  show ?thesis unfolding DropHandle by (rule drop_handle_sys [OF inv b, of cfg]) (use any.goodI [OF g] in auto)
next
  case (JoinPoll cpu now th)
  with a have a': "is_running k cpu" "thread_pointer k cpu \<noteq> Some th" "block_is (\<lambda>b. \<not> detached b) k th" by simp_all
  from is_runningD [OF a'(1)] obtain me where r: "running k cpu me" and "thread_pointer k cpu = Some me" by blast
  then have ne: "me \<noteq> th" using a'(2) by auto
  from block_isD [OF a'(3)] obtain inner where b: "threads k th = Some inner" "\<not> detached inner" by blast
  show ?thesis unfolding JoinPoll
  proof (rule join_poll_sys [OF any.good_sys [OF g] r b ne, of cfg now])
    fix k' v' assume s: "join_poll cfg cpu now th k = Some (released inner, k')" "sys_inv UNIV {} k' v'" "frame k k'" "v_all v' = v_all v"
      "\<And>i. i \<noteq> th \<Longrightarrow> v_wait v' i \<subseteq> v_wait v i"
    have "any.good h2 rate k' v'" by (rule any.goodI [OF g s(2) keepsI(1) [OF s(3)]]) (simp add: s(4))
    then show "\<exists>k' v'. exec_op tc cfg (any_timer h2) (JoinPoll cpu now th) k = Some k' \<and> any.good h2 rate k' v' \<and> view_step (JoinPoll cpu now th) k v k' v'"
      using s(1,4,5) by (intro exI [of _ k'] exI [of _ v'] conjI) simp_all
  qed
next
  case (SetTaskPriority t p)
  then show ?thesis using any.op_task_priority [OF g, of cfg t p] by auto
next
  case (SetPriority cpu p)
  with a obtain t where t: "thread_pointer k cpu = Some t" by auto
  show ?thesis unfolding SetPriority
  proof (rule set_current_priority_sys [OF any.good_sys [OF g] t, of cfg p])
    fix k' v' assume s: "set_current_priority cfg cpu p k = Some k'" "sys_inv UNIV {} k' v'" "frame k k'" "v_all v' = v_all v"
      "v_wait v' = v_wait v"
    have "any.good h2 rate k' v'" by (rule any.goodI [OF g s(2) keepsI(1) [OF s(3)]]) (simp add: s(4))
    then show "\<exists>k' v'. exec_op tc cfg (any_timer h2) (SetPriority cpu p) k = Some k' \<and> any.good h2 rate k' v' \<and> view_step (SetPriority cpu p) k v k' v'"
      using s(1,4,5) by auto
  qed
next
  case (RearmAlarm now)
  have "any.timed h2 rate k" using g by (simp add: any.good_def)
  then show ?thesis
  proof (rule any.rearm_alarm_inv [OF any.good_sys [OF g], where now = now])
    fix k' assume r: "rearm_alarm (any_timer h2) now k = Some k'" "sys_inv UNIV {} k' v" "any.armed h2 rate k'" "k'\<lparr>time_driver := None\<rparr> = k\<lparr>time_driver := None\<rparr>"
    have "current_task k' = current_task k" "idle k' = idle k" "main_task k' = main_task k" "active_cores k' = active_cores k"
      using arg_cong [OF r(4), of current_task] arg_cong [OF r(4), of idle] arg_cong [OF r(4), of main_task] arg_cong [OF r(4), of active_cores] by simp_all
    then have "inactive_ok k' v" using g by (simp add: any.good_def sys_ok_def inactive_ok_def)
    moreover have "any.timed h2 rate k'" using r(3) by (auto simp: any.armed_def any.timed_def)
    ultimately show ?thesis using r(1,2) RearmAlarm by (auto simp: any.good_def sys_ok_def)
  qed
next
  case (StartSecondCore bottom words off)
  with a have ac: "active_cores k = SingleCore ProCpu" by simp
  have ok: "sys_ok k v" using g by (simp add: any.good_def)
  show ?thesis unfolding StartSecondCore
  proof (rule start_second_core_sys [OF ok ac, of cfg bottom words off])
    fix k' v' assume s: "start_second_core cfg bottom words off k = Some k'" "sys_ok k' v'" "v_all v' = insert (main_task k AppCpu) (v_all v)"
      "map_option td_timer (time_driver k') = map_option td_timer (time_driver k)"
      "\<And>i. v_wait v' i \<subseteq> v_wait v i"
    have "any.good h2 rate k' v'" using g s(2,4) by (auto simp: any.good_def any.timed_def)
    then show "\<exists>k' v'. exec_op tc cfg (any_timer h2) (StartSecondCore bottom words off) k = Some k' \<and> any.good h2 rate k' v' \<and>
        view_step (StartSecondCore bottom words off) k v k' v'"
      using s(1,3,5) by (intro exI [of _ k'] exI [of _ v'] conjI) (simp_all add: no_new_waits_def)
  qed
next
  case (YieldTask cpu)
  then show ?thesis using any.op_yield [OF g, of cpu] by auto
qed (use op in simp_all)

lemma refine_step:
  assumes g: "any.good h2 rate k v" and a: "allowed tc cfg op k"
  shows "\<exists>k' v'. exec_op tc cfg (any_timer h2) op k = Some k' \<and> any.good h2 rate k' v' \<and> view_step op k v k' v'"
proof (cases op)
  case (SwitchTask cpu sp isp now)
  then show ?thesis using refine_switch [OF g, of tc cfg cpu sp isp now] a by simp
next
  case (TimerTick now embassy)
  then show ?thesis using refine_tick [OF g, of cfg now embassy] by auto
next
  case (SleepUntil cpu now at)
  then show ?thesis using refine_sleep [OF g, of cpu cfg now at] a by auto
next
  case (WaitWithDeadline cpu now i at)
  then show ?thesis using refine_wait [OF g, of cpu i cfg now at] a by auto
next
  case (Notify i)
  then show ?thesis using refine_notify [OF g, of cfg i] by simp
next
  case (ResumeTask t)
  then show ?thesis using refine_resume [OF g, of tc cfg t] a by simp
next
  case (Spawn s layout)
  then obtain addr where u: "unused k (sp_thread s)" "reserve_payload tc (debug_assertions cfg) (sp_base s) (sp_thread s) layout = Some addr"
    using a by auto
  have p: "contains (active_cores k) c" if "opt_pinned_to (sp_options s) = Some c" for c using a that Spawn by (simp add: pin_ok_def)
  from any.good_sys [OF g] u p show ?thesis unfolding Spawn
  proof (rule spawn_sys)
    fix k' v' assume s: "spawn tc cfg s layout k = Some (\<lparr>jh_thread = sp_thread s, jh_options = sp_options s\<rparr>, k')" "sys_inv UNIV {} k' v'"
      "sp_thread s \<in> ready_set (v_ready v')" "v_all v' = insert (sp_thread s) (v_all v)" "keeps k k'" "\<And>i. v_wait v' i \<subseteq> v_wait v i"
    show "\<exists>k' v'. exec_op tc cfg (any_timer h2) (Spawn s layout) k = Some k' \<and> any.good h2 rate k' v' \<and> view_step (Spawn s layout) k v k' v'"
      using refine_spawn [OF g u(1) s(2,4-6)] s(1,3,4) by (intro exI [of _ k'] exI [of _ v'] conjI) simp_all
  qed
next
  case (SpawnExtern s)
  then obtain addr where u: "unused k (sp_thread s)"
    "reserve_payload tc (debug_assertions cfg) (sp_base s) (sp_thread s) \<lparr>layout_size = 0, layout_align = 1\<rparr> = Some addr"
    using a by auto
  have p: "contains (active_cores k) c" if "opt_pinned_to (sp_options s) = Some c" for c using a that SpawnExtern by (simp add: pin_ok_def)
  from any.good_sys [OF g] u p show ?thesis unfolding SpawnExtern
  proof (rule spawn_extern_sys)
    fix k' v' assume s: "spawn_extern tc cfg s k = Some (sp_thread s, k')" "sys_inv UNIV {} k' v'"
      "sp_thread s \<in> ready_set (v_ready v')" "v_all v' = insert (sp_thread s) (v_all v)" "keeps k k'" "\<And>i. v_wait v' i \<subseteq> v_wait v i"
    show "\<exists>k' v'. exec_op tc cfg (any_timer h2) (SpawnExtern s) k = Some k' \<and> any.good h2 rate k' v' \<and> view_step (SpawnExtern s) k v k' v'"
      using refine_spawn [OF g u(1) s(2,4-6)] s(1,3,4) by (intro exI [of _ k'] exI [of _ v'] conjI) simp_all
  qed
next
  case (DeleteTask cpu target)
  then show ?thesis using refine_delete [OF g, of cpu tc cfg target] a by simp
qed (use refine_rest [OF g a] in auto)



section \<open>Who waits\<close>

text \<open>The wait queue that an operation may put its caller into.\<close>

fun waits_in :: "Op \<Rightarrow> nat option" where
  "waits_in (WaitWithDeadline cpu now i at) = Some i"
| "waits_in (JoinPoll cpu now th) = Some th"
| "waits_in _ = None"

lemma view_step_waits:
  assumes "view_step op k v k' v'" "waits_in op \<noteq> Some i"
  shows "v_wait v' i \<subseteq> v_wait v i"
  using assms by (cases op) (auto simp: no_new_waits_def runs_next_def to_sleep_def to_wait_def wakes_def)

end
