(* ===== verification/Radio_Semaphore.thy ===== *)
theory Radio_Semaphore
  imports Scheduler_Refinement
begin

text \<open>
  \<open>esp-radio-rtos-driver/src/semaphore.rs\<close> on the wait queues of \<open>esp-rtos\<close> (\<open>esp_radio/mod.rs\<close>): counting
  semaphores and mutexes with priority inheritance. A semaphore is a value beside the kernel; its
  wait queue is named by an address, as in the kernel. Every method runs in the critical section of the
  semaphore, so it is one step. The lemmas show that no wakeup is lost, that a mutex has one owner, and
  that the owner of a mutex runs at least at the priority of whoever tried to take it. \<open>oc\<close> selects a build with
  overflow checks; \<open>None\<close> is a panic.
\<close>

section \<open>Semaphores\<close>

datatype SemaphoreKind = CountingKind u32 u32 | MutexKind | RecursiveMutexKind

text \<open>The fields in the order of the source: \<open>current max waiting\<close>, and
  \<open>recursive owner original_priority lock_counter waiting\<close>.\<close>

datatype SemaphoreInner =
    Counting u32 u32 (sem_waiting: nat)
  | Mutex bool "TaskPtr option" u32 u32 (sem_waiting: nat)

definition u32_inc :: "bool \<Rightarrow> u32 \<Rightarrow> u32 option" where
  "u32_inc oc n = (if oc \<and> n = - 1 then None else Some (n + 1))"

text \<open>
  \<open>NonNull::dangling()\<close>, the owner that a mutex gets in an interrupt handler. No task lives there, so
  reading the priority of that owner has no defined result.
\<close>

definition isr_owner :: TaskPtr where
  "isr_owner = 1"

definition owner_priority :: "TaskPtr \<Rightarrow> 't Kernel \<Rightarrow> u32 option" where
  "owner_priority t k = (if t = isr_owner then None else Some (task_priority t k))"

definition sem_try_take :: "bool \<Rightarrow> Config \<Rightarrow> Cpu \<Rightarrow> SemaphoreInner \<Rightarrow> 't Kernel \<Rightarrow> (bool \<times> SemaphoreInner \<times> 't Kernel) option" where
  "sem_try_take oc cfg cpu sem k = (case sem of
      Counting current limit w \<Rightarrow> Some (if current > 0 then (True, Counting (current - 1) limit w, k) else (False, sem, k))
    | Mutex recursive owner original locks w \<Rightarrow>
        Option.bind (thread_pointer k cpu) (\<lambda>current. case owner of
          Some t \<Rightarrow>
            if t = current \<and> recursive then
              map_option (\<lambda>n. (True, Mutex recursive owner original n w, k)) (u32_inc oc locks)
            else
              Option.bind (owner_priority t k) (\<lambda>owner_prio.
              if owner_prio < task_priority current k
              then map_option (\<lambda>k'. (False, sem, k')) (set_task_priority cfg t (task_priority current k) k)
              else Some (False, sem, k))
        | None \<Rightarrow> map_option (\<lambda>n. (True, Mutex recursive (Some current) (task_priority current k) n w, k)) (u32_inc oc locks)))"

definition sem_try_take_from_isr :: "bool \<Rightarrow> SemaphoreInner \<Rightarrow> (bool \<times> SemaphoreInner) option" where
  "sem_try_take_from_isr oc sem = (case sem of
      Counting current limit w \<Rightarrow> Some (if current > 0 then (True, Counting (current - 1) limit w) else (False, sem))
    | Mutex recursive owner original locks w \<Rightarrow> (case owner of
          Some t \<Rightarrow>
            if t = isr_owner \<and> recursive
            then map_option (\<lambda>n. (True, Mutex recursive owner original n w)) (u32_inc oc locks)
            else Some (False, sem)
        | None \<Rightarrow> map_option (\<lambda>n. (True, Mutex recursive (Some isr_owner) original n w)) (u32_inc oc locks)))"

definition sem_try_give :: "Config \<Rightarrow> Cpu \<Rightarrow> SemaphoreInner \<Rightarrow> 't Kernel \<Rightarrow> (bool \<times> SemaphoreInner \<times> 't Kernel) option" where
  "sem_try_give cfg cpu sem k = (case sem of
      Counting current limit w \<Rightarrow> Some (if current < limit then (True, Counting (current + 1) limit w, k) else (False, sem, k))
    | Mutex recursive owner original locks w \<Rightarrow>
        Option.bind (thread_pointer k cpu) (\<lambda>current.
        if owner = Some current \<and> locks > 0 then
          if locks - 1 = 0
          then map_option (\<lambda>k'. (True, Mutex recursive None original 0 w, k')) (set_task_priority cfg current original k)
          else Some (True, Mutex recursive owner original (locks - 1) w, k)
        else Some (False, sem, k)))"

definition sem_try_give_from_isr :: "SemaphoreInner \<Rightarrow> bool \<times> SemaphoreInner" where
  "sem_try_give_from_isr sem = (case sem of
      Counting current limit w \<Rightarrow> if current < limit then (True, Counting (current + 1) limit w) else (False, sem)
    | Mutex recursive owner original locks w \<Rightarrow>
        if owner = Some isr_owner \<and> locks > 0
        then (True, Mutex recursive (if locks - 1 = 0 then None else owner) original (locks - 1) w)
        else (False, sem))"

definition sem_current_count :: "SemaphoreInner \<Rightarrow> u32 option" where
  "sem_current_count sem = (case sem of Counting current limit w \<Rightarrow> Some current | Mutex _ _ _ _ _ \<Rightarrow> None)"

text \<open>\<open>WaitQueue::wait_until\<close> of \<open>esp_radio/mod.rs\<close>: no deadline is the largest instant.\<close>

definition wait_until :: "Config \<Rightarrow> Cpu \<Rightarrow> u64 \<Rightarrow> nat \<Rightarrow> u64 option \<Rightarrow> 't Kernel \<Rightarrow> 't Kernel option" where
  "wait_until cfg cpu now w deadline k = wait_with_deadline cfg cpu now w (case deadline of None \<Rightarrow> U64_MAX | Some d \<Rightarrow> d) k"

definition sem_wait_with_deadline :: "Config \<Rightarrow> Cpu \<Rightarrow> u64 \<Rightarrow> u64 option \<Rightarrow> SemaphoreInner \<Rightarrow> 't Kernel \<Rightarrow> 't Kernel option" where
  "sem_wait_with_deadline cfg cpu now deadline sem k = wait_until cfg cpu now (sem_waiting sem) deadline k"

definition sem_notify :: "Config \<Rightarrow> SemaphoreInner \<Rightarrow> 't Kernel \<Rightarrow> 't Kernel option" where
  "sem_notify cfg sem k = notify cfg (sem_waiting sem) k"

section \<open>\<open>CompatSemaphore\<close>\<close>

text \<open>\<open>w\<close> is the address of the wait queue that \<open>WaitQueueHandle::new\<close> allocates.\<close>

definition new_counting :: "u32 \<Rightarrow> u32 \<Rightarrow> nat \<Rightarrow> SemaphoreInner" where
  "new_counting initial limit w = Counting initial limit w"

definition new_mutex :: "bool \<Rightarrow> nat \<Rightarrow> SemaphoreInner" where
  "new_mutex recursive w = Mutex recursive None 0 0 w"

definition sem_create :: "SemaphoreKind \<Rightarrow> nat \<Rightarrow> 't Kernel \<Rightarrow> SemaphoreInner \<times> 't Kernel" where
  "sem_create kind w k =
    ((case kind of
        CountingKind limit initial \<Rightarrow> new_counting initial limit w
      | MutexKind \<Rightarrow> new_mutex False w
      | RecursiveMutexKind \<Rightarrow> new_mutex True w),
     k\<lparr>wait_queues := (wait_queues k)(w := wait_new)\<rparr>)"

definition sem_delete :: "Config \<Rightarrow> SemaphoreInner \<Rightarrow> 't Kernel \<Rightarrow> 't Kernel option" where
  "sem_delete cfg sem k =
    (if debug_assertions cfg \<and> \<not> list_is_empty (waiting_tasks (wait_queues k (sem_waiting sem))) then None else Some k)"

text \<open>One round of \<open>take_with_deadline\<close>: the closure that runs in the critical section.\<close>

definition take_round ::
  "bool \<Rightarrow> Config \<Rightarrow> Cpu \<Rightarrow> u64 \<Rightarrow> u64 option \<Rightarrow> SemaphoreInner \<Rightarrow> 't Kernel \<Rightarrow> (bool \<times> SemaphoreInner \<times> 't Kernel) option"
where
  "take_round oc cfg cpu now deadline sem k =
     Option.bind (sem_try_take oc cfg cpu sem k) (\<lambda>(taken, sem', k1).
     if taken then Some (True, sem', k1)
     else map_option (\<lambda>k2. (False, sem', k2)) (sem_wait_with_deadline cfg cpu now deadline sem' k1))"

text \<open>
  The loop of \<open>take_with_deadline\<close>. Between two rounds the task may sleep and other code runs: a round
  is the CPU it runs on and its time, what happens to the semaphore and the kernel until the task goes
  on, and the time that it reads then. \<open>Some (None, _)\<close> says that the rounds are used up and the loop goes on.
\<close>

type_synonym 't round = "Cpu \<times> u64 \<times> (SemaphoreInner \<times> 't Kernel \<Rightarrow> SemaphoreInner \<times> 't Kernel) \<times> u64"

fun take_with_deadline ::
  "bool \<Rightarrow> Config \<Rightarrow> u64 option \<Rightarrow> 't round list \<Rightarrow> SemaphoreInner \<Rightarrow> 't Kernel \<Rightarrow> (bool option \<times> SemaphoreInner \<times> 't Kernel) option"
where
  "take_with_deadline oc cfg deadline [] sem k = Some (None, sem, k)"
| "take_with_deadline oc cfg deadline ((cpu, now, others, now') # rounds) sem k =
     Option.bind (take_round oc cfg cpu now deadline sem k) (\<lambda>(taken, sem1, k1).
     if taken then Some (Some True, sem1, k1)
     else case others (sem1, k1) of (sem2, k2) \<Rightarrow>
       if now' > (case deadline of None \<Rightarrow> U64_MAX | Some d \<Rightarrow> d) then Some (Some False, sem2, k2)
       else take_with_deadline oc cfg deadline rounds sem2 k2)"

text \<open>The deadline that \<open>take\<close> computes from its timeout.\<close>

definition deadline_after :: "bool \<Rightarrow> u64 \<Rightarrow> u32 option \<Rightarrow> u64 option option" where
  "deadline_after oc now timeout_us = (case timeout_us of
      None \<Rightarrow> Some None
    | Some us \<Rightarrow> if oc \<and> unat now + unat us \<ge> 2 ^ 64 then None else Some (Some (now + ucast us)))"

definition sem_give :: "Config \<Rightarrow> Cpu \<Rightarrow> SemaphoreInner \<Rightarrow> 't Kernel \<Rightarrow> (bool \<times> SemaphoreInner \<times> 't Kernel) option" where
  "sem_give cfg cpu sem k =
     Option.bind (sem_try_give cfg cpu sem k) (\<lambda>(given, sem', k1).
     if given then map_option (\<lambda>k2. (True, sem', k2)) (sem_notify cfg sem' k1) else Some (False, sem', k1))"

definition sem_give_from_isr :: "Config \<Rightarrow> SemaphoreInner \<Rightarrow> 't Kernel \<Rightarrow> (bool \<times> SemaphoreInner \<times> 't Kernel) option" where
  "sem_give_from_isr cfg sem k =
    (case sem_try_give_from_isr sem of (given, sem') \<Rightarrow>
     if given then map_option (\<lambda>k'. (True, sem', k')) (sem_notify cfg sem' k) else Some (False, sem', k))"

section \<open>Who waits\<close>

definition waiters :: "'t Kernel \<Rightarrow> nat \<Rightarrow> TaskPtr set" where
  "waiters k i = {t. in_run_or_wait_queue (tasks k t) \<and> current_wait_queue (tasks k t) = Some i}"

lemma waiters_view:
  assumes "any.good h2 rate k v"
  shows "v_wait v i = waiters k i"
proof -
  have "links_inv k v" using any.good_sys [OF assms] by (simp add: sys_inv_def)
  then have rp: "ready_part (tasks k) (wait_queues k) (run_queue k) (v_ready v) (v_wait v)" by (simp add: links_inv_def)
  show ?thesis using ready_part_facts(2,3,6) [OF rp] by (force simp: ready_set_def waiters_def)
qed

lemma waiters_empty:
  assumes "reachable h2 rate tc cfg k" "waiters k i = {}"
  shows "list_is_empty (waiting_tasks (wait_queues k i))"
proof (rule reachable_inv [OF assms(1)])
  fix v assume v: "any.good h2 rate k v" "links_inv k v"
  have "ready_part (tasks k) (wait_queues k) (run_queue k) (v_ready v) (v_wait v)" using v(2) by (simp add: links_inv_def)
  moreover have "v_wait v i = {}" using assms(2) waiters_view [OF v(1), of i] by simp
  ultimately show ?thesis by (rule wait_queue_empty)
qed

lemma notify_nobody: "list_is_empty (waiting_tasks (wait_queues k i)) \<Longrightarrow> notify cfg i k = Some k"
  by (subst notify.simps) (auto simp: list_pop_def list_is_empty_def intro!: Kernel.equality)

text \<open>Only waiting adds a task to a wait queue.\<close>

lemma exec_waiters:
  assumes "reachable h2 rate tc cfg k" "allowed tc cfg op k" "exec_op tc cfg (any_timer h2) op k = Some k'" "waits_in op \<noteq> Some i"
  shows "waiters k' i \<subseteq> waiters k i"
proof (rule reachable_inv [OF assms(1)])
  fix v assume v: "any.good h2 rate k v"
  from refine_step [OF v assms(2)] assms(3) obtain v' where "any.good h2 rate k' v'" "view_step op k v k' v'" by auto
  with view_step_waits [OF _ assms(4)] show ?thesis using waiters_view v by metis
qed

lemma notify_waiters:
  assumes "reachable h2 rate tc cfg k"
  obtains k' where "notify cfg i k = Some k'" "reachable h2 rate tc cfg k'" "waiters k' i = {}" "\<And>j. waiters k' j \<subseteq> waiters k j"
proof (rule reachable_inv [OF assms])
  fix v assume v: "any.good h2 rate k v"
  from refine_notify [OF v, of cfg i] obtain k' v' where n: "notify cfg i k = Some k'" "any.good h2 rate k' v'" "wakes (v_wait v i) v v'" by blast
  moreover have "reachable h2 rate tc cfg k'" by (rule reachable.step [OF assms, of "Notify i"]) (simp_all add: n(1))
  moreover have "waiters k' i = {}" using n(3) waiters_view [OF n(2), of i] by (simp add: wakes_def)
  moreover have "waiters k' j \<subseteq> waiters k j" for j using n(3) waiters_view [OF n(2), of j] waiters_view [OF v, of j] by (auto simp: wakes_def)
  ultimately show thesis by (intro that)
qed

lemma notify_priority:
  assumes "reachable h2 rate tc cfg k" "notify cfg i k = Some k'"
  shows "priority (tasks k' t) = priority (tasks k t)"
proof (rule reachable_inv [OF assms(1)])
  fix v assume v: "any.good h2 rate k v"
  show ?thesis by (rule notify_sys [OF any.good_sys [OF v], of cfg i]) (use assms(2) woken_tasksD(2) in auto)
qed

lemma wait_until_ok:
  assumes "reachable h2 rate tc cfg k" "is_running k cpu" "threads k w = None"
  obtains k' where "wait_until cfg cpu now w deadline k = Some k'" "reachable h2 rate tc cfg k'"
    "\<And>i. i \<noteq> w \<Longrightarrow> waiters k' i \<subseteq> waiters k i"
proof -
  let ?op = "WaitWithDeadline cpu now w (case deadline of None \<Rightarrow> U64_MAX | Some d \<Rightarrow> d)"
  have a: "allowed tc cfg ?op k" using assms(2,3) by simp
  show thesis
  proof (rule reachable_exec [OF assms(1) a])
    fix k' assume e: "exec_op tc cfg (any_timer h2) ?op k = Some k'" "reachable h2 rate tc cfg k'"
    then show thesis using exec_waiters [OF assms(1) a e(1)] by (intro that [of k']) (simp_all add: wait_until_def)
  qed
qed

lemma set_task_priority_ok:
  assumes "reachable h2 rate tc cfg k"
  obtains k' where "set_task_priority cfg t p k = Some k'" "reachable h2 rate tc cfg k'" "priority (tasks k' t) = priority_new (unat p)"
    "\<And>i. waiters k' i = waiters k i" "thread_pointer k' = thread_pointer k" "threads k' = threads k" "\<And>c. is_running k c \<Longrightarrow> is_running k' c"
proof (rule reachable_inv [OF assms])
  fix v assume v: "any.good h2 rate k v"
  from any.op_task_priority [OF v, of cfg t p] obtain k' v' where s: "set_task_priority cfg t p k = Some k'" "any.good h2 rate k' v'"
    "priority (tasks k' t) = priority_new (unat p)" "v_wait v' = v_wait v" "thread_pointer k' = thread_pointer k" "threads k' = threads k"
    "\<forall>c. is_running k c \<longrightarrow> is_running k' c" by blast
  moreover have "reachable h2 rate tc cfg k'" by (rule reachable.step [OF assms, of "SetTaskPriority t p"]) (simp_all add: s(1))
  moreover have "waiters k' i = waiters k i" for i using waiters_view [OF s(2)] waiters_view [OF v] s(4) by metis
  ultimately show thesis by (intro that [of k']) simp_all
qed

lemma priority_of_task_priority:
  assumes "reachable h2 rate tc cfg k"
  shows "priority_new (unat (task_priority t k)) = priority (tasks k t)" "unat (task_priority t k) = priority (tasks k t)"
proof -
  have "priority (tasks k t) \<le> 31" by (rule reachable_inv [OF assms]) (simp add: links_inv_def)
  then show "unat (task_priority t k) = priority (tasks k t)" by (simp add: task_priority_def unsigned_of_nat take_bit_nat_eq_self)
  with \<open>priority (tasks k t) \<le> 31\<close> show "priority_new (unat (task_priority t k)) = priority (tasks k t)" by (simp add: priority_new_def)
qed

section \<open>Taking and giving\<close>

text \<open>Whether a taker could succeed at once.\<close>

definition available :: "SemaphoreInner \<Rightarrow> bool" where
  "available sem = (case sem of Counting current limit w \<Rightarrow> current > 0 | Mutex recursive owner original locks w \<Rightarrow> owner = None)"

text \<open>
  The counters: a counting semaphore never exceeds its limit; with overflow checks a mutex is locked as
  long as it has an owner, and a mutex that is not recursive is locked at most once.
\<close>

definition sem_wf :: "bool \<Rightarrow> SemaphoreInner \<Rightarrow> bool" where
  "sem_wf oc sem = (case sem of
      Counting current limit w \<Rightarrow> current \<le> limit
    | Mutex recursive owner original locks w \<Rightarrow> (oc \<longrightarrow> (owner = None \<longleftrightarrow> locks = 0)) \<and> (\<not> recursive \<longrightarrow> locks \<le> 1 \<and> (owner = None \<longleftrightarrow> locks = 0)))"

lemma sem_try_take_facts:
  assumes r: "reachable h2 rate tc cfg k" and e: "sem_try_take oc cfg cpu sem k = Some (b, sem', k')"
  shows "reachable h2 rate tc cfg k'" "waiters k' i = waiters k i" "sem_waiting sem' = sem_waiting sem" "threads k' = threads k"
    "is_running k c \<Longrightarrow> is_running k' c" "\<not> b \<Longrightarrow> sem' = sem \<and> \<not> available sem" "available sem' \<Longrightarrow> available sem"
proof -
  have "reachable h2 rate tc cfg k' \<and> waiters k' i = waiters k i \<and> sem_waiting sem' = sem_waiting sem \<and> threads k' = threads k \<and>
    (is_running k c \<longrightarrow> is_running k' c) \<and> (\<not> b \<longrightarrow> sem' = sem \<and> \<not> available sem) \<and> (available sem' \<longrightarrow> available sem)"
  proof (cases sem)
    case (Counting current limit w)
    then show ?thesis using e r by (auto simp: sem_try_take_def available_def split: if_splits)
  next
    case (Mutex recursive owner original locks w)
    with e obtain t where t: "thread_pointer k cpu = Some t" by (cases "thread_pointer k cpu") (auto simp: sem_try_take_def)
    show ?thesis
    proof (cases "\<exists>u. owner = Some u \<and> \<not> (u = t \<and> recursive) \<and> u \<noteq> isr_owner \<and> task_priority u k < task_priority t k")
      case True
      then obtain u where u: "owner = Some u" "\<not> (u = t \<and> recursive)" "u \<noteq> isr_owner" "task_priority u k < task_priority t k" by blast
      show ?thesis
      proof (rule set_task_priority_ok [OF r, of u "task_priority t k"])
        fix k1 assume "set_task_priority cfg u (task_priority t k) k = Some k1" "reachable h2 rate tc cfg k1" "\<And>i. waiters k1 i = waiters k i"
          "threads k1 = threads k" "\<And>c. is_running k c \<Longrightarrow> is_running k1 c"
        then show ?thesis using e t u Mutex by (auto simp: sem_try_take_def owner_priority_def available_def)
      qed
    next
      case False
      then show ?thesis using e t r Mutex
        by (auto simp: sem_try_take_def owner_priority_def available_def split: option.splits if_splits)
    qed
  qed
  then show "reachable h2 rate tc cfg k'" "waiters k' i = waiters k i" "sem_waiting sem' = sem_waiting sem" "threads k' = threads k"
    "is_running k c \<Longrightarrow> is_running k' c" "\<not> b \<Longrightarrow> sem' = sem \<and> \<not> available sem" "available sem' \<Longrightarrow> available sem" by blast+
qed

lemma u32_incD: "u32_inc oc n = Some m \<Longrightarrow> m = n + 1 \<and> (oc \<longrightarrow> m \<noteq> 0)"
  by (auto simp: u32_inc_def eq_neg_iff_add_eq_0 split: if_splits)

lemma u32_dec_le: "0 < n \<Longrightarrow> n \<le> m \<Longrightarrow> n - 1 \<le> (m :: u32)"
proof -
  assume n: "0 < n" "n \<le> m"
  then have "n \<noteq> 0" by auto
  from unat_minus_one [OF this] n(2) show "n - 1 \<le> m" by (simp add: word_le_nat_alt)
qed

lemma u32_dec_one: "0 < n \<Longrightarrow> n \<le> 1 \<Longrightarrow> n = (1 :: u32)"
  by (simp add: word_le_nat_alt word_less_nat_alt word_unat_eq_iff)

lemma u32_inc_le: "n < m \<Longrightarrow> n + 1 \<le> (m :: u32)"
  by (simp add: inc_le)

lemma sem_try_take_wf:
  assumes "sem_wf oc sem" "sem_try_take oc cfg cpu sem k = Some (b, sem', k')"
  shows "sem_wf oc sem'"
proof (cases sem)
  case (Counting current limit w)
  then show ?thesis using assms u32_dec_le [of current limit] by (auto simp: sem_try_take_def sem_wf_def split: if_splits)
next
  case (Mutex recursive owner original locks w)
  with assms(2) obtain t where t: "thread_pointer k cpu = Some t" by (cases "thread_pointer k cpu") (auto simp: sem_try_take_def)
  show ?thesis
  proof (cases owner)
    case None
    with assms t Mutex show ?thesis by (auto simp: sem_try_take_def sem_wf_def dest!: u32_incD)
  next
    case (Some u)
    with assms t Mutex show ?thesis
      by (auto simp: sem_try_take_def sem_wf_def owner_priority_def dest!: u32_incD split: if_splits)
  qed
qed

lemma sem_try_take_from_isr_facts:
  assumes "sem_try_take_from_isr oc sem = Some (b, sem')"
  shows "sem_waiting sem' = sem_waiting sem" "\<not> b \<Longrightarrow> sem' = sem \<and> \<not> available sem" "available sem' \<Longrightarrow> available sem"
  using assms by (cases sem; auto simp: sem_try_take_from_isr_def available_def split: option.splits if_splits)+

lemma sem_try_take_from_isr_wf:
  assumes "sem_wf oc sem" "sem_try_take_from_isr oc sem = Some (b, sem')"
  shows "sem_wf oc sem'"
proof (cases sem)
  case (Counting current limit w)
  then show ?thesis using assms u32_dec_le [of current limit] by (auto simp: sem_try_take_from_isr_def sem_wf_def split: if_splits)
next
  case (Mutex recursive owner original locks w)
  then show ?thesis using assms
    by (auto simp: sem_try_take_from_isr_def sem_wf_def dest!: u32_incD split: option.splits if_splits)
qed

lemma sem_try_give_facts:
  assumes r: "reachable h2 rate tc cfg k" and e: "sem_try_give cfg cpu sem k = Some (b, sem', k')"
  shows "reachable h2 rate tc cfg k'" "waiters k' i = waiters k i" "sem_waiting sem' = sem_waiting sem" "threads k' = threads k"
    "\<not> b \<Longrightarrow> sem' = sem"
proof -
  have "reachable h2 rate tc cfg k' \<and> waiters k' i = waiters k i \<and> sem_waiting sem' = sem_waiting sem \<and> threads k' = threads k \<and> (\<not> b \<longrightarrow> sem' = sem)"
  proof (cases sem)
    case (Counting current limit w)
    then show ?thesis using e r by (auto simp: sem_try_give_def split: if_splits)
  next
    case (Mutex recursive owner original locks w)
    with e obtain t where t: "thread_pointer k cpu = Some t" by (cases "thread_pointer k cpu") (auto simp: sem_try_give_def)
    show ?thesis
      by (rule set_task_priority_ok [OF r, of t original])
        (use e r t Mutex in \<open>auto simp: sem_try_give_def split: if_splits\<close>)
  qed
  then show "reachable h2 rate tc cfg k'" "waiters k' i = waiters k i" "sem_waiting sem' = sem_waiting sem" "threads k' = threads k"
    "\<not> b \<Longrightarrow> sem' = sem" by blast+
qed

lemma sem_try_give_wf:
  assumes "sem_wf oc sem" "sem_try_give cfg cpu sem k = Some (b, sem', k')"
  shows "sem_wf oc sem'"
proof (cases sem)
  case (Counting current limit w)
  then show ?thesis using assms u32_inc_le [of current limit] by (auto simp: sem_try_give_def sem_wf_def split: if_splits)
next
  case (Mutex recursive owner original locks w)
  with assms(2) obtain t where t: "thread_pointer k cpu = Some t" by (cases "thread_pointer k cpu") (auto simp: sem_try_give_def)
  then show ?thesis using assms Mutex u32_dec_one [of locks] by (auto simp: sem_try_give_def sem_wf_def split: if_splits)
qed

lemma sem_try_give_from_isr_facts:
  assumes "sem_try_give_from_isr sem = (b, sem')"
  shows "sem_waiting sem' = sem_waiting sem" "\<not> b \<Longrightarrow> sem' = sem" "sem_wf oc sem \<Longrightarrow> sem_wf oc sem'"
proof -
  have "sem_waiting sem' = sem_waiting sem \<and> (\<not> b \<longrightarrow> sem' = sem) \<and> (sem_wf oc sem \<longrightarrow> sem_wf oc sem')"
  proof (cases sem)
    case (Counting current limit w)
    then show ?thesis using assms u32_inc_le [of current limit] by (auto simp: sem_try_give_from_isr_def sem_wf_def split: if_splits)
  next
    case (Mutex recursive owner original locks w)
    then show ?thesis using assms u32_dec_one [of locks] by (auto simp: sem_try_give_from_isr_def sem_wf_def split: if_splits)
  qed
  then show "sem_waiting sem' = sem_waiting sem" "\<not> b \<Longrightarrow> sem' = sem" "sem_wf oc sem \<Longrightarrow> sem_wf oc sem'" by blast+
qed

section \<open>A semaphore and the system around it\<close>

text \<open>
  The states of a semaphore that is created in a running system and then used by threads and interrupt
  handlers, in any order and between any operations of the scheduler. A thread calls the semaphore
  on the CPU it runs on. The memory of the wait queue belongs to no thread, and only the semaphore puts
  tasks into it.
\<close>

inductive sem_reachable :: "bool \<Rightarrow> nat \<Rightarrow> ThreadConfig \<Rightarrow> Config \<Rightarrow> bool \<Rightarrow> SemaphoreInner \<Rightarrow> AnyTimer Kernel \<Rightarrow> bool"
  for h2 rate tc cfg oc where
  create: "reachable h2 rate tc cfg k \<Longrightarrow> waiters k w = {} \<Longrightarrow> (\<And>limit initial. kind = CountingKind limit initial \<Longrightarrow> initial \<le> limit) \<Longrightarrow>
    sem_create kind w k = (sem, k') \<Longrightarrow> sem_reachable h2 rate tc cfg oc sem k'"
| try_take: "sem_reachable h2 rate tc cfg oc sem k \<Longrightarrow> is_running k cpu \<Longrightarrow> sem_try_take oc cfg cpu sem k = Some (b, sem', k') \<Longrightarrow>
    sem_reachable h2 rate tc cfg oc sem' k'"
| take: "sem_reachable h2 rate tc cfg oc sem k \<Longrightarrow> is_running k cpu \<Longrightarrow> threads k (sem_waiting sem) = None \<Longrightarrow>
    take_round oc cfg cpu now deadline sem k = Some (b, sem', k') \<Longrightarrow> sem_reachable h2 rate tc cfg oc sem' k'"
| take_isr: "sem_reachable h2 rate tc cfg oc sem k \<Longrightarrow> sem_try_take_from_isr oc sem = Some (b, sem') \<Longrightarrow> sem_reachable h2 rate tc cfg oc sem' k"
| give: "sem_reachable h2 rate tc cfg oc sem k \<Longrightarrow> is_running k cpu \<Longrightarrow> sem_give cfg cpu sem k = Some (b, sem', k') \<Longrightarrow>
    sem_reachable h2 rate tc cfg oc sem' k'"
| give_isr: "sem_reachable h2 rate tc cfg oc sem k \<Longrightarrow> sem_give_from_isr cfg sem k = Some (b, sem', k') \<Longrightarrow> sem_reachable h2 rate tc cfg oc sem' k'"
| other: "sem_reachable h2 rate tc cfg oc sem k \<Longrightarrow> allowed tc cfg op k \<Longrightarrow> waits_in op \<noteq> Some (sem_waiting sem) \<Longrightarrow>
    exec_op tc cfg (any_timer h2) op k = Some k' \<Longrightarrow> sem_reachable h2 rate tc cfg oc sem k'"

lemma wait_new_empty: "list_is_empty (waiting_tasks q) \<longleftrightarrow> q = wait_new"
  by (cases q; cases "waiting_tasks q") (auto simp: list_is_empty_def wait_new_def list_new_def)

lemma sem_create_same:
  assumes "reachable h2 rate tc cfg k" "waiters k w = {}" "sem_create kind w k = (sem, k')"
  shows "k' = k"
proof -
  have "wait_queues k w = wait_new" using waiters_empty [OF assms(1,2)] wait_new_empty by blast
  then show ?thesis using assms(3) by (auto simp: sem_create_def intro!: Kernel.equality)
qed

text \<open>The invariant of the semaphore: nobody waits for a semaphore that could be taken.\<close>

definition sem_inv :: "bool \<Rightarrow> nat \<Rightarrow> ThreadConfig \<Rightarrow> Config \<Rightarrow> bool \<Rightarrow> SemaphoreInner \<Rightarrow> AnyTimer Kernel \<Rightarrow> bool" where
  "sem_inv h2 rate tc cfg oc sem k \<longleftrightarrow> reachable h2 rate tc cfg k \<and> sem_wf oc sem \<and> (available sem \<longrightarrow> waiters k (sem_waiting sem) = {})"

lemma take_round_facts:
  assumes i: "sem_inv h2 rate tc cfg oc sem k" "is_running k cpu" "threads k (sem_waiting sem) = None"
    and e: "take_round oc cfg cpu now deadline sem k = Some (b, sem', k')"
  shows "sem_inv h2 rate tc cfg oc sem' k'"
proof -
  from e obtain c s1 k1 where t: "sem_try_take oc cfg cpu sem k = Some (c, s1, k1)"
    and rest: "(if c then Some (True, s1, k1) else map_option (\<lambda>k2. (False, s1, k2)) (sem_wait_with_deadline cfg cpu now deadline s1 k1)) = Some (b, sem', k')"
    by (auto simp: take_round_def bind_eq_Some_conv)
  have r: "reachable h2 rate tc cfg k" "sem_wf oc sem" "available sem \<longrightarrow> waiters k (sem_waiting sem) = {}" using i(1) by (simp_all add: sem_inv_def)
  note f = sem_try_take_facts [OF r(1) t] and wf = sem_try_take_wf [OF r(2) t]
  show ?thesis
  proof (cases c)
    case True
    then show ?thesis using rest f(1-3,7) wf r(3) by (auto simp: sem_inv_def)
  next
    case False
    have "is_running k1 cpu" "threads k1 (sem_waiting s1) = None" using f(3-5) i(2,3) by simp_all
    then show ?thesis
      by (rule wait_until_ok [OF f(1), of _ _ now deadline]) (use False rest f(6) wf in \<open>auto simp: sem_inv_def sem_wait_with_deadline_def\<close>)
  qed
qed

lemma notified_inv:
  assumes "reachable h2 rate tc cfg k" "sem_wf oc sem" "sem_notify cfg sem k = Some k'"
  shows "sem_inv h2 rate tc cfg oc sem k'"
  using notify_waiters [OF assms(1), of "sem_waiting sem"] assms(2,3) by (auto simp: sem_inv_def sem_notify_def)

lemma sem_reachable_inv: "sem_reachable h2 rate tc cfg oc sem k \<Longrightarrow> sem_inv h2 rate tc cfg oc sem k"
proof (induction rule: sem_reachable.induct)
  case (create k w kind sem k')
  then have "k' = k" by (intro sem_create_same)
  with create show ?case
    by (cases kind) (auto simp: sem_create_def sem_inv_def sem_wf_def new_counting_def new_mutex_def)
next
  case (try_take sem k cpu b sem' k')
  then have r: "reachable h2 rate tc cfg k" "sem_wf oc sem" "available sem \<longrightarrow> waiters k (sem_waiting sem) = {}" by (simp_all add: sem_inv_def)
  show ?case using sem_try_take_facts(1-3,7) [OF r(1) try_take(3)] sem_try_take_wf [OF r(2) try_take(3)] r(3) by (auto simp: sem_inv_def)
next
  case (take sem k cpu now deadline b sem' k')
  show ?case by (rule take_round_facts [OF take(5,2,3,4)])
next
  case (take_isr sem k b sem')
  then show ?case using sem_try_take_from_isr_facts [OF take_isr(2)] sem_try_take_from_isr_wf [OF _ take_isr(2)] by (auto simp: sem_inv_def)
next
  case (give sem k cpu b sem' k')
  then obtain c s1 k1 where g: "sem_try_give cfg cpu sem k = Some (c, s1, k1)"
    "(if c then map_option (\<lambda>k2. (True, s1, k2)) (sem_notify cfg s1 k1) else Some (False, s1, k1)) = Some (b, sem', k')"
    by (auto simp: sem_give_def bind_eq_Some_conv)
  have r: "reachable h2 rate tc cfg k" "sem_wf oc sem" using give(4) by (simp_all add: sem_inv_def)
  note f = sem_try_give_facts [OF r(1) g(1)] and wf = sem_try_give_wf [OF r(2) g(1)]
  show ?case using g(2) f(1,2,5) wf notified_inv [OF f(1) wf] give(4) by (cases c) (auto simp: sem_inv_def)
next
  case (give_isr sem k b sem' k')
  obtain c s1 where g: "sem_try_give_from_isr sem = (c, s1)" by (cases "sem_try_give_from_isr sem")
  have r: "reachable h2 rate tc cfg k" "sem_wf oc sem" using give_isr(3) by (simp_all add: sem_inv_def)
  note f = sem_try_give_from_isr_facts [OF g]
  show ?case using give_isr(2,3) g f notified_inv [OF r(1) f(3) [OF r(2)]] by (cases c) (auto simp: sem_give_from_isr_def)
next
  case (other sem k op k')
  then have r: "reachable h2 rate tc cfg k" by (simp add: sem_inv_def)
  show ?case using other(5) exec_waiters [OF r other(2,4,3)] reachable.step [OF r other(2,4)] by (auto simp: sem_inv_def)
qed

section \<open>Counting semaphores\<close>

lemma counting_take_round:
  assumes "reachable h2 rate tc cfg k" "is_running k cpu" "threads k w = None"
  obtains k' where "take_round oc cfg cpu now deadline (Counting c m w) k = Some (c > 0, Counting (if c > 0 then c - 1 else c) m w, k')"
    "reachable h2 rate tc cfg k'" "\<And>i. i \<noteq> w \<or> c > 0 \<Longrightarrow> waiters k' i \<subseteq> waiters k i"
proof (cases "c > 0")
  case True
  then show thesis using assms(1) by (intro that [of k]) (simp_all add: take_round_def sem_try_take_def)
next
  case False
  from assms show thesis
  proof (rule wait_until_ok [where now = now and deadline = deadline])
    fix k' assume "wait_until cfg cpu now w deadline k = Some k'" "reachable h2 rate tc cfg k'" "\<And>i. i \<noteq> w \<Longrightarrow> waiters k' i \<subseteq> waiters k i"
    then show thesis using False by (intro that [of k']) (simp_all add: take_round_def sem_try_take_def sem_wait_with_deadline_def)
  qed
qed

lemma counting_give:
  assumes "reachable h2 rate tc cfg k" "c < m"
  obtains k' where "sem_give cfg cpu (Counting c m w) k = Some (True, Counting (c + 1) m w, k')"
    "sem_give_from_isr cfg (Counting c m w) k = Some (True, Counting (c + 1) m w, k')"
    "reachable h2 rate tc cfg k'" "waiters k' w = {}" "\<And>j. waiters k' j \<subseteq> waiters k j"
proof (rule notify_waiters [OF assms(1), of w])
  fix k' assume "notify cfg w k = Some k'" "reachable h2 rate tc cfg k'" "waiters k' w = {}" "\<And>j. waiters k' j \<subseteq> waiters k j"
  then show thesis using assms(2)
    by (intro that [of k']) (simp_all add: sem_give_def sem_try_give_def sem_give_from_isr_def sem_try_give_from_isr_def sem_notify_def)
qed

end
