(* ===== verification/Radio_Ring.thy ===== *)
theory Radio_Ring
  imports Prelude
begin

text \<open>
  \<open>QueueInner\<close> of \<open>esp-radio-rtos-driver/src/queue.rs\<close>: a ring buffer of items of equal size in one byte
  array. The lemmas show that it refines a bounded list of items: the buffer is well-formed after every
  operation, both ends work, and \<open>remove\<close>, which cycles every item through the buffer, removes the first
  item that is equal to the given one and keeps the order of the others.

  \<open>usize\<close> has 32 bits. \<open>None\<close> is a panic: a slice out of range, a remainder by zero, an overflow in a build with
  overflow checks (\<open>oc\<close>), or an allocation of more than \<open>isize::MAX\<close> bytes.
\<close>

section \<open>The buffer\<close>

record QueueInner =
  storage :: "u8 list"
  item_size :: nat
  capacity :: nat
  item_count :: nat
  current_read :: nat
  current_write :: nat

definition usize_wrap :: "bool \<Rightarrow> nat \<Rightarrow> nat option" where
  "usize_wrap oc n = (if n < 2 ^ 32 then Some n else if oc then None else Some (n mod 2 ^ 32))"

definition queue_inner_new :: "bool \<Rightarrow> nat \<Rightarrow> nat \<Rightarrow> QueueInner option" where
  "queue_inner_new oc cap isize =
     Option.bind (usize_wrap oc (cap * isize)) (\<lambda>bytes.
     if bytes \<ge> 2 ^ 31 then None
     else Some \<lparr>storage = replicate bytes 0, item_size = isize, capacity = cap, item_count = 0, current_read = 0, current_write = 0\<rparr>)"

text \<open>The range of \<open>get\<close> and \<open>get_mut\<close>: the start of the item, when the slice exists.\<close>

definition item_start :: "bool \<Rightarrow> nat \<Rightarrow> QueueInner \<Rightarrow> nat option" where
  "item_start oc index q =
     Option.bind (usize_wrap oc (item_size q * index)) (\<lambda>start.
     if start + item_size q \<le> length (storage q) then Some start else None)"

definition queue_get :: "bool \<Rightarrow> nat \<Rightarrow> QueueInner \<Rightarrow> u8 list option" where
  "queue_get oc index q = map_option (\<lambda>start. slice start (item_size q) (storage q)) (item_start oc index q)"

text \<open>\<open>get_mut\<close> with the \<open>copy_from_slice\<close> that follows it; \<open>item\<close> has \<open>item_size\<close> bytes.\<close>

definition queue_put :: "bool \<Rightarrow> nat \<Rightarrow> u8 list \<Rightarrow> QueueInner \<Rightarrow> QueueInner option" where
  "queue_put oc index item q = map_option (\<lambda>start.
     q\<lparr>storage := take start (storage q) @ item @ drop (start + item_size q) (storage q)\<rparr>) (item_start oc index q)"

definition queue_len :: "QueueInner \<Rightarrow> nat" where
  "queue_len q = item_count q"

definition queue_rem :: "nat \<Rightarrow> QueueInner \<Rightarrow> nat option" where
  "queue_rem n q = (if capacity q = 0 then None else Some (n mod capacity q))"

definition ring_send_to_back :: "bool \<Rightarrow> u8 list \<Rightarrow> QueueInner \<Rightarrow> QueueInner option" where
  "ring_send_to_back oc item q =
     Option.bind (queue_put oc (current_write q) item q) (\<lambda>q1.
     Option.bind (usize_wrap oc (current_write q1 + 1)) (\<lambda>n.
     Option.bind (queue_rem n q1) (\<lambda>w.
     Option.bind (usize_wrap oc (item_count q1 + 1)) (\<lambda>c.
     Some (q1\<lparr>current_write := w, item_count := c\<rparr>)))))"

definition ring_send_to_front :: "bool \<Rightarrow> u8 list \<Rightarrow> QueueInner \<Rightarrow> QueueInner option" where
  "ring_send_to_front oc item q =
     Option.bind (usize_wrap oc (current_read q + capacity q)) (\<lambda>n.
     Option.bind (if n = 0 then if oc then None else Some (2 ^ 32 - 1) else Some (n - 1)) (\<lambda>n'.
     Option.bind (queue_rem n' q) (\<lambda>r.
     let q1 = q\<lparr>current_read := r\<rparr> in
     Option.bind (queue_put oc (current_read q1) item q1) (\<lambda>q2.
     Option.bind (usize_wrap oc (item_count q2 + 1)) (\<lambda>c.
     Some (q2\<lparr>item_count := c\<rparr>))))))"

definition ring_read_from_front :: "bool \<Rightarrow> QueueInner \<Rightarrow> (u8 list \<times> QueueInner) option" where
  "ring_read_from_front oc q =
     Option.bind (queue_get oc (current_read q) q) (\<lambda>item.
     Option.bind (usize_wrap oc (current_read q + 1)) (\<lambda>n.
     Option.bind (queue_rem n q) (\<lambda>r.
     Option.bind (if item_count q = 0 then if oc then None else Some (2 ^ 32 - 1) else Some (item_count q - 1)) (\<lambda>c.
     Some (item, q\<lparr>current_read := r, item_count := c\<rparr>)))))"

fun ring_remove_loop :: "bool \<Rightarrow> nat \<Rightarrow> bool \<Rightarrow> u8 list \<Rightarrow> QueueInner \<Rightarrow> (bool \<times> QueueInner) option" where
  "ring_remove_loop oc 0 found item q = Some (found, q)"
| "ring_remove_loop oc (Suc n) found item q =
     Option.bind (ring_read_from_front oc q) (\<lambda>(tmp_item, q1).
     if found \<or> tmp_item \<noteq> item
     then Option.bind (ring_send_to_back oc tmp_item q1) (ring_remove_loop oc n found item)
     else ring_remove_loop oc n True item q1)"

definition ring_remove :: "bool \<Rightarrow> u8 list \<Rightarrow> QueueInner \<Rightarrow> (bool \<times> QueueInner) option" where
  "ring_remove oc item q = (if queue_len q = 0 then Some (False, q) else ring_remove_loop oc (queue_len q) False item q)"

section \<open>The list of items\<close>

definition ring_item :: "QueueInner \<Rightarrow> nat \<Rightarrow> u8 list" where
  "ring_item q i = slice (item_size q * i) (item_size q) (storage q)"

definition ring_slot :: "QueueInner \<Rightarrow> nat \<Rightarrow> nat" where
  "ring_slot q i = (current_read q + i) mod capacity q"

definition ring_items :: "QueueInner \<Rightarrow> u8 list list" where
  "ring_items q = map (\<lambda>i. ring_item q (ring_slot q i)) [0..<item_count q]"

definition ring_wf :: "QueueInner \<Rightarrow> bool" where
  "ring_wf q \<longleftrightarrow> 0 < capacity q \<and> capacity q < 2 ^ 31 \<and> capacity q * item_size q < 2 ^ 31 \<and> length (storage q) = capacity q * item_size q \<and>
     item_count q \<le> capacity q \<and> current_read q < capacity q \<and> current_write q = ring_slot q (item_count q)"

definition ring_shape :: "QueueInner \<Rightarrow> nat \<times> nat" where
  "ring_shape q = (capacity q, item_size q)"

lemma queue_inner_new_ok:
  assumes "0 < cap" "cap < 2 ^ 31" "cap * isize < 2 ^ 31"
  obtains q where "queue_inner_new oc cap isize = Some q" "ring_wf q" "ring_items q = []" "ring_shape q = (cap, isize)"
  using assms by (auto simp: queue_inner_new_def usize_wrap_def ring_wf_def ring_items_def ring_slot_def ring_shape_def)

lemma ring_items_length [simp]: "length (ring_items q) = item_count q"
  by (simp add: ring_items_def)

lemma item_end_le:
  assumes "i < cap"
  shows "(isize :: nat) * i + isize \<le> cap * isize"
proof -
  have "isize * Suc i \<le> isize * cap" using assms by (intro mult_le_mono2) simp
  then show ?thesis by (simp add: mult.commute algebra_simps)
qed

lemma item_start_ok:
  assumes "ring_wf q" "i < capacity q"
  shows "item_start oc i q = Some (item_size q * i)" "item_size q * i + item_size q \<le> length (storage q)"
proof -
  show le: "item_size q * i + item_size q \<le> length (storage q)" using item_end_le [OF assms(2), of "item_size q"] assms(1) by (simp add: ring_wf_def)
  have "item_size q * i < 2 ^ 32" using le assms(1) by (simp add: ring_wf_def)
  then show "item_start oc i q = Some (item_size q * i)" using le by (simp add: item_start_def usize_wrap_def)
qed

lemma slice_replaced:
  assumes "a + n \<le> length xs" "length ys = n" "b = a \<or> b + n \<le> a \<or> a + n \<le> b" "b + n \<le> length xs"
  shows "slice b n (take a xs @ ys @ drop (a + n) xs) = (if b = a then ys else slice b n xs)"
proof (rule nth_equalityI)
  let ?zs = "take a xs @ ys @ drop (a + n) xs"
  have len: "length ?zs = length xs" using assms(1,2) by simp
  have l: "length (slice b n ?zs) = n" by (rule length_slice) (simp only: len assms(4))
  then show "length (slice b n ?zs) = length (if b = a then ys else slice b n xs)" unfolding l using assms(2,4) by simp
  fix i assume "i < length (slice b n ?zs)"
  then have "i < n" unfolding l .
  then show "slice b n ?zs ! i = (if b = a then ys else slice b n xs) ! i"
    using assms by (auto simp: slice_def nth_append)
qed

lemma item_apart:
  assumes "i \<noteq> j"
  shows "(n :: nat) * j + n \<le> n * i \<or> n * i + n \<le> n * j"
proof (cases "j < i")
  case True
  then have "n * Suc j \<le> n * i" by (intro mult_le_mono2) simp
  then show ?thesis by simp
next
  case False
  with assms have "n * Suc i \<le> n * j" by (intro mult_le_mono2) simp
  then show ?thesis by simp
qed

lemma queue_put_ok:
  assumes "ring_wf q" "i < capacity q" "length item = item_size q"
  obtains xs where "queue_put oc i item q = Some (q\<lparr>storage := xs\<rparr>)" "length xs = length (storage q)"
    "\<And>j. j < capacity q \<Longrightarrow> slice (item_size q * j) (item_size q) xs = (if j = i then item else ring_item q j)"
proof -
  let ?a = "item_size q * i" and ?n = "item_size q"
  let ?xs = "take ?a (storage q) @ item @ drop (?a + ?n) (storage q)"
  note st = item_start_ok [OF assms(1,2)]
  have "slice (?n * j) ?n ?xs = (if j = i then item else ring_item q j)" if "j < capacity q" for j
  proof (cases "j = i")
    case True
    then show ?thesis using slice_replaced [OF st(2) assms(3), of ?a] st(2) by simp
  next
    case False
    then have "?n * j = ?a \<or> ?n * j + ?n \<le> ?a \<or> ?a + ?n \<le> ?n * j" using item_apart [of i j ?n] by auto
    from slice_replaced [OF st(2) assms(3) this item_start_ok(2) [OF assms(1) that]] False assms(3) show ?thesis
      by (cases "?n = 0") (auto simp: ring_item_def slice_def)
  qed
  with st assms(3) show thesis by (intro that [of ?xs]) (simp_all add: queue_put_def)
qed

lemma ring_slot_lt [simp]: "ring_wf q \<Longrightarrow> ring_slot q i < capacity q"
  by (simp add: ring_slot_def ring_wf_def)

lemma mod_add_inj:
  assumes "(r + i) mod c = (r + j) mod c" "i < c" "j < (c :: nat)"
  shows "i = j"
proof -
  have *: "b \<le> a" if "(r + a) mod c = (r + b) mod c" "a < c" "b < c" for a b
  proof (rule ccontr)
    assume "\<not> b \<le> a"
    then have "c dvd b - a" "0 < b - a" using mod_eq_dvd_iff_nat [of "r + a" "r + b" c] that(1) by simp_all
    then show False using that(3) by (auto dest: dvd_imp_le)
  qed
  show ?thesis using * [OF assms] * [OF assms(1) [symmetric] assms(3,2)] by simp
qed

lemma ring_send_to_back_ok:
  assumes wf: "ring_wf q" and room: "item_count q < capacity q" and item: "length item = item_size q"
  obtains q' where "ring_send_to_back oc item q = Some q'" "ring_wf q'" "ring_items q' = ring_items q @ [item]" "ring_shape q' = ring_shape q"
proof -
  have w: "current_write q = ring_slot q (item_count q)" "current_write q < capacity q" and cap: "0 < capacity q" "capacity q < 2 ^ 31"
    using wf ring_slot_lt [OF wf] by (simp_all add: ring_wf_def)
  show thesis
  proof (rule queue_put_ok [OF wf w(2) item, of oc])
    fix xs assume p: "queue_put oc (current_write q) item q = Some (q\<lparr>storage := xs\<rparr>)" "length xs = length (storage q)"
      "\<And>j. j < capacity q \<Longrightarrow> slice (item_size q * j) (item_size q) xs = (if j = current_write q then item else ring_item q j)"
    let ?q = "q\<lparr>storage := xs, current_write := (current_write q + 1) mod capacity q, item_count := item_count q + 1\<rparr>"
    have other: "ring_slot q i \<noteq> current_write q" if "i < item_count q" for i
      using that room w(1) mod_add_inj [of "current_read q" i "capacity q" "item_count q"] by (auto simp: ring_slot_def)
    have "ring_items ?q = map (\<lambda>i. if ring_slot q i = current_write q then item else ring_item q (ring_slot q i)) [0..<item_count q + 1]"
      using p(3) ring_slot_lt [OF wf] by (simp add: ring_items_def ring_item_def ring_slot_def)
    also have "\<dots> = ring_items q @ [item]" using other w(1) by (simp add: ring_items_def)
    finally have "ring_items ?q = ring_items q @ [item]" .
    moreover have "ring_wf ?q" using wf room p(2) w(1) by (simp add: ring_wf_def ring_slot_def mod_Suc_eq)
    moreover have "ring_send_to_back oc item q = Some ?q"
      using p(1) cap w(2) room by (simp add: ring_send_to_back_def usize_wrap_def queue_rem_def)
    ultimately show thesis by (intro that [of ?q]) (simp_all add: ring_shape_def)
  qed
qed

lemma upt_0_Suc: "[0..<Suc n] = 0 # map Suc [0..<n]"
  by (simp add: map_Suc_upt upt_conv_Cons del: upt_Suc)

lemma ring_send_to_front_ok:
  assumes wf: "ring_wf q" and room: "item_count q < capacity q" and item: "length item = item_size q"
  obtains q' where "ring_send_to_front oc item q = Some q'" "ring_wf q'" "ring_items q' = item # ring_items q" "ring_shape q' = ring_shape q"
proof -
  let ?r = "(current_read q + capacity q - 1) mod capacity q"
  let ?q1 = "q\<lparr>current_read := ?r, item_count := item_count q + 1, current_write := current_write q\<rparr>"
  have cap: "0 < capacity q" "capacity q < 2 ^ 31" "current_read q < capacity q" using wf by (simp_all add: ring_wf_def)
  have r: "?r < capacity q" using cap(1) by simp
  have slot: "(?r + Suc i) mod capacity q = ring_slot q i" for i
  proof -
    have "(?r + Suc i) mod capacity q = (current_read q + capacity q - 1 + Suc i) mod capacity q" by (simp only: mod_add_left_eq)
    also have "current_read q + capacity q - 1 + Suc i = current_read q + i + capacity q" using cap(1) by simp
    finally show ?thesis by (simp add: ring_slot_def)
  qed
  show thesis
  proof (rule queue_put_ok [OF wf r item, of oc])
    fix xs assume p: "queue_put oc ?r item q = Some (q\<lparr>storage := xs\<rparr>)" "length xs = length (storage q)"
      "\<And>j. j < capacity q \<Longrightarrow> slice (item_size q * j) (item_size q) xs = (if j = ?r then item else ring_item q j)"
    let ?q = "q\<lparr>storage := xs, current_read := ?r, item_count := item_count q + 1\<rparr>"
    have s0: "ring_slot ?q 0 = ?r" and sS: "ring_slot ?q (Suc i) = ring_slot q i" for i using slot [of i] by (simp_all add: ring_slot_def)
    have other: "ring_slot q i \<noteq> ?r" if "i < item_count q" for i
      using that room r mod_add_inj [of ?r "Suc i" "capacity q" 0] slot [of i] by auto
    have "ring_items ?q = map (\<lambda>i. ring_item ?q (ring_slot ?q i)) (0 # map Suc [0..<item_count q])"
      unfolding upt_0_Suc [symmetric] by (simp add: ring_items_def del: upt_Suc)
    also have "\<dots> = item # map (\<lambda>i. ring_item ?q (ring_slot q i)) [0..<item_count q]"
      unfolding list.map map_map comp_def s0 sS using p(3) [OF r] by (simp add: ring_item_def)
    also have "\<dots> = item # ring_items q" using other p(3) ring_slot_lt [OF wf] by (simp add: ring_items_def ring_item_def)
    finally have "ring_items ?q = item # ring_items q" .
    moreover have "ring_wf ?q"
      using wf room p(2) r sS [of "item_count q"] by (simp add: ring_wf_def) 
    moreover have "queue_put oc ?r item (q\<lparr>current_read := ?r\<rparr>) = Some (q\<lparr>storage := xs, current_read := ?r\<rparr>)"
      using p(1) by (auto simp: queue_put_def item_start_def dest!: arg_cong [where f = storage])
    then have "ring_send_to_front oc item q = Some ?q"
      using cap room by (simp add: ring_send_to_front_def usize_wrap_def queue_rem_def Let_def)
    ultimately show thesis by (intro that [of ?q]) (simp_all add: ring_shape_def)
  qed
qed

lemma ring_read_from_front_ok:
  assumes wf: "ring_wf q" and some: "ring_items q = item # items"
  obtains q' where "ring_read_from_front oc q = Some (item, q')" "ring_wf q'" "ring_items q' = items" "ring_shape q' = ring_shape q"
    "length item = item_size q" "item_count q' < capacity q'"
proof -
  have cap: "0 < capacity q" "capacity q < 2 ^ 31" "current_read q < capacity q" and w: "current_write q = ring_slot q (item_count q)"
    using wf by (simp_all add: ring_wf_def)
  obtain n where n: "item_count q = Suc n" using arg_cong [OF some, of length] by (cases "item_count q") simp_all
  let ?q = "q\<lparr>current_read := Suc (current_read q) mod capacity q, item_count := n\<rparr>"
  have slot: "ring_slot ?q i = ring_slot q (Suc i)" for i using mod_add_left_eq [of "Suc (current_read q)" "capacity q" i] by (simp add: ring_slot_def)
  have split: "ring_items q = ring_item q (ring_slot q 0) # ring_items ?q"
    unfolding ring_items_def n upt_0_Suc by (simp add: slot comp_def ring_item_def)
  have "ring_slot q 0 = current_read q" using cap(3) by (simp add: ring_slot_def)
  with split some have i: "item = ring_item q (current_read q)" "ring_items ?q = items" by simp_all
  note st = item_start_ok [OF wf cap(3)]
  have "ring_wf ?q" using wf n slot [of n] by (simp add: ring_wf_def)
  moreover have "ring_read_from_front oc q = Some (item, ?q)"
    using st(1) i(1) cap n by (simp add: ring_read_from_front_def queue_get_def usize_wrap_def queue_rem_def ring_item_def)
  moreover have "length item = item_size q" using i(1) st(2) by (simp add: ring_item_def)
  moreover have "item_count ?q < capacity ?q" using wf n by (simp add: ring_wf_def)
  ultimately show thesis using i(2) by (intro that [of ?q]) (simp_all add: ring_shape_def)
qed

text \<open>After \<open>n\<close> of the rounds of \<open>remove\<close> the items that it has kept stand behind those it has not seen.\<close>

lemma ring_remove_loop_ok:
  assumes "ring_wf q" "ring_items q = todo @ kept" "length todo = n"
  shows "\<exists>q'. ring_remove_loop oc n found item q = Some (found \<or> item \<in> set todo, q') \<and> ring_wf q' \<and> ring_shape q' = ring_shape q \<and>
    ring_items q' = kept @ (if found then todo else remove1 item todo)"
  using assms
proof (induction n arbitrary: q todo kept found)
  case (Suc n)
  then obtain x todo' where todo: "todo = x # todo'" by (cases todo) simp_all
  then have items: "ring_items q = x # todo' @ kept" "length todo' = n" using Suc.prems by simp_all
  show ?case
  proof (rule ring_read_from_front_ok [OF Suc.prems(1) items(1), of oc])
    fix q1 assume r: "ring_read_from_front oc q = Some (x, q1)" "ring_wf q1" "ring_items q1 = todo' @ kept" "ring_shape q1 = ring_shape q"
      "length x = item_size q" "item_count q1 < capacity q1"
    show ?thesis
    proof (cases "found \<or> x \<noteq> item")
      case True
      have "length x = item_size q1" using r(4,5) by (simp add: ring_shape_def)
      with r(2,6) show ?thesis
      proof (rule ring_send_to_back_ok [of _ _ oc])
        fix q2 assume b: "ring_send_to_back oc x q1 = Some q2" "ring_wf q2" "ring_items q2 = ring_items q1 @ [x]" "ring_shape q2 = ring_shape q1"
        have "ring_items q2 = todo' @ (kept @ [x])" using b(3) r(3) by simp
        from Suc.IH [OF b(2) this items(2), of found] show ?thesis using True r(1,4) b(1,4) todo by auto
      qed
    next
      case False
      from Suc.IH [OF r(2,3) items(2), of True] show ?thesis using False r(1,4) todo by auto
    qed
  qed
qed simp

lemma ring_remove_ok:
  assumes "ring_wf q"
  obtains q' where "ring_remove oc item q = Some (item \<in> set (ring_items q), q')" "ring_wf q'" "ring_items q' = remove1 item (ring_items q)"
    "ring_shape q' = ring_shape q"
proof (cases "item_count q = 0")
  case True
  then show thesis using assms by (intro that [of q]) (simp_all add: ring_remove_def queue_len_def ring_items_def)
next
  case False
  have "\<exists>q'. ring_remove_loop oc (item_count q) False item q = Some (False \<or> item \<in> set (ring_items q), q') \<and> ring_wf q' \<and> ring_shape q' = ring_shape q \<and>
    ring_items q' = [] @ (if False then ring_items q else remove1 item (ring_items q))"
    by (rule ring_remove_loop_ok [OF assms]) simp_all
  then show thesis using False that by (auto simp: ring_remove_def queue_len_def)
qed

lemma ring_count_le: "ring_wf q \<Longrightarrow> length (ring_items q) \<le> fst (ring_shape q)"
  by (simp add: ring_wf_def ring_shape_def)

end
