(* ===== verification/Radio_Queue.thy ===== *)
theory Radio_Queue
  imports Radio_Semaphore Radio_Ring "HOL-Library.Multiset"
begin

text \<open>
  \<open>CompatQueue\<close> of \<open>esp-radio-rtos-driver/src/queue.rs\<close>: a bounded queue of items between threads and interrupt
  handlers, built from a ring buffer and two counting semaphores. A call to the queue is a sequence of
  critical sections, between which anything else may run; \<open>QueueCall\<close> says what a call does next and
  \<open>queue_step\<close> is that critical section. The lemmas show for every interleaving that the buffer is never
  written when it is full or read when it is empty, that nothing panics, and that no wakeup is lost.
\<close>

section \<open>Data and operations\<close>

record CompatQueue =
  cq_inner :: QueueInner
  semaphore_empty :: SemaphoreInner
  semaphore_full :: SemaphoreInner

text \<open>\<open>w_empty\<close> and \<open>w_full\<close> are the addresses of the wait queues of the two semaphores.\<close>

definition compat_queue_new :: "bool \<Rightarrow> nat \<Rightarrow> nat \<Rightarrow> nat \<Rightarrow> nat \<Rightarrow> 't Kernel \<Rightarrow> (CompatQueue \<times> 't Kernel) option" where
  "compat_queue_new oc cap isize w_empty w_full k =
     Option.bind (queue_inner_new oc cap isize) (\<lambda>inner.
     case sem_create (CountingKind (word_of_nat cap) (word_of_nat cap)) w_empty k of (e, k1) \<Rightarrow>
     case sem_create (CountingKind (word_of_nat cap) 0) w_full k1 of (f, k2) \<Rightarrow>
     Some (\<lparr>cq_inner = inner, semaphore_empty = e, semaphore_full = f\<rparr>, k2))"

definition queue_delete :: "Config \<Rightarrow> CompatQueue \<Rightarrow> 't Kernel \<Rightarrow> 't Kernel option" where
  "queue_delete cfg q k = Option.bind (sem_delete cfg (semaphore_empty q) k) (sem_delete cfg (semaphore_full q))"

definition messages_waiting :: "CompatQueue \<Rightarrow> nat option" where
  "messages_waiting q = map_option unat (sem_current_count (semaphore_full q))"

text \<open>
  A call in progress: sending an item, to the front or to the back, receiving one, and removing one that
  is equal to a given one. \<open>Take\<close> is the loop that takes a semaphore up to a deadline; the flag of the other constructors
  tells a call from an interrupt handler, which tries once.
\<close>

datatype QueueCall =
    SendTake bool "u8 list" "u64 option"
  | SendTakeIsr bool "u8 list"
  | SendPut bool bool "u8 list"
  | SendGive bool
  | RecvTake "u64 option"
  | RecvTakeIsr
  | RecvGet bool
  | RecvGive bool "u8 list"
  | RemoveTake "u8 list" "u64 option"
  | RemoveScan "u8 list"
  | RemoveGive bool
  | Returned bool "u8 list option"

definition queue_give :: "Config \<Rightarrow> bool \<Rightarrow> Cpu \<Rightarrow> SemaphoreInner \<Rightarrow> 't Kernel \<Rightarrow> (SemaphoreInner \<times> 't Kernel) option" where
  "queue_give cfg isr cpu sem k = map_option snd (if isr then sem_give_from_isr cfg sem k else sem_give cfg cpu sem k)"

definition send_take :: "bool \<Rightarrow> Config \<Rightarrow> Cpu \<Rightarrow> u64 \<Rightarrow> bool \<Rightarrow> u8 list \<Rightarrow> u64 option \<Rightarrow> CompatQueue \<Rightarrow> 't Kernel \<Rightarrow> (QueueCall \<times> CompatQueue \<times> 't Kernel) option" where
  "send_take oc cfg cpu now front item deadline q k =
     Option.bind (take_round oc cfg cpu now deadline (semaphore_empty q) k) (\<lambda>(taken, s, k').
     Some (if taken then SendPut False front item else SendTake front item deadline, q\<lparr>semaphore_empty := s\<rparr>, k'))"

definition send_take_from_isr :: "bool \<Rightarrow> bool \<Rightarrow> u8 list \<Rightarrow> CompatQueue \<Rightarrow> (QueueCall \<times> CompatQueue) option" where
  "send_take_from_isr oc front item q =
     Option.bind (sem_try_take_from_isr oc (semaphore_empty q)) (\<lambda>(taken, s).
     Some (if taken then SendPut True front item else Returned False None, q\<lparr>semaphore_empty := s\<rparr>))"

definition send_put :: "bool \<Rightarrow> bool \<Rightarrow> bool \<Rightarrow> u8 list \<Rightarrow> CompatQueue \<Rightarrow> (QueueCall \<times> CompatQueue) option" where
  "send_put oc isr front item q =
     map_option (\<lambda>inner. (SendGive isr, q\<lparr>cq_inner := inner\<rparr>))
       (if front then ring_send_to_front oc item (cq_inner q) else ring_send_to_back oc item (cq_inner q))"

definition send_give :: "Config \<Rightarrow> Cpu \<Rightarrow> bool \<Rightarrow> CompatQueue \<Rightarrow> 't Kernel \<Rightarrow> (QueueCall \<times> CompatQueue \<times> 't Kernel) option" where
  "send_give cfg cpu isr q k = map_option (\<lambda>(s, k'). (Returned True None, q\<lparr>semaphore_full := s\<rparr>, k')) (queue_give cfg isr cpu (semaphore_full q) k)"

definition recv_take :: "bool \<Rightarrow> Config \<Rightarrow> Cpu \<Rightarrow> u64 \<Rightarrow> u64 option \<Rightarrow> CompatQueue \<Rightarrow> 't Kernel \<Rightarrow> (QueueCall \<times> CompatQueue \<times> 't Kernel) option" where
  "recv_take oc cfg cpu now deadline q k =
     Option.bind (take_round oc cfg cpu now deadline (semaphore_full q) k) (\<lambda>(taken, s, k').
     Some (if taken then RecvGet False else RecvTake deadline, q\<lparr>semaphore_full := s\<rparr>, k'))"

definition recv_take_from_isr :: "bool \<Rightarrow> CompatQueue \<Rightarrow> (QueueCall \<times> CompatQueue) option" where
  "recv_take_from_isr oc q =
     Option.bind (sem_try_take_from_isr oc (semaphore_full q)) (\<lambda>(taken, s).
     Some (if taken then RecvGet True else Returned False None, q\<lparr>semaphore_full := s\<rparr>))"

definition recv_get :: "bool \<Rightarrow> bool \<Rightarrow> CompatQueue \<Rightarrow> (QueueCall \<times> CompatQueue) option" where
  "recv_get oc isr q = map_option (\<lambda>(item, inner). (RecvGive isr item, q\<lparr>cq_inner := inner\<rparr>)) (ring_read_from_front oc (cq_inner q))"

definition recv_give :: "Config \<Rightarrow> Cpu \<Rightarrow> bool \<Rightarrow> u8 list \<Rightarrow> CompatQueue \<Rightarrow> 't Kernel \<Rightarrow> (QueueCall \<times> CompatQueue \<times> 't Kernel) option" where
  "recv_give cfg cpu isr item q k =
     map_option (\<lambda>(s, k'). (Returned True (Some item), q\<lparr>semaphore_empty := s\<rparr>, k')) (queue_give cfg isr cpu (semaphore_empty q) k)"

definition remove_take :: "bool \<Rightarrow> Config \<Rightarrow> Cpu \<Rightarrow> u64 \<Rightarrow> u8 list \<Rightarrow> u64 option \<Rightarrow> CompatQueue \<Rightarrow> 't Kernel \<Rightarrow> (QueueCall \<times> CompatQueue \<times> 't Kernel) option" where
  "remove_take oc cfg cpu now item deadline q k =
     Option.bind (take_round oc cfg cpu now deadline (semaphore_full q) k) (\<lambda>(taken, s, k').
     Some (if taken then RemoveScan item else RemoveTake item deadline, q\<lparr>semaphore_full := s\<rparr>, k'))"

definition remove_scan :: "bool \<Rightarrow> u8 list \<Rightarrow> CompatQueue \<Rightarrow> (QueueCall \<times> CompatQueue) option" where
  "remove_scan oc item q = map_option (\<lambda>(found, inner). (RemoveGive found, q\<lparr>cq_inner := inner\<rparr>)) (ring_remove oc item (cq_inner q))"

definition remove_give :: "Config \<Rightarrow> Cpu \<Rightarrow> bool \<Rightarrow> CompatQueue \<Rightarrow> 't Kernel \<Rightarrow> (QueueCall \<times> CompatQueue \<times> 't Kernel) option" where
  "remove_give cfg cpu found q k =
    (if found
     then map_option (\<lambda>(s, k'). (Returned True None, q\<lparr>semaphore_empty := s\<rparr>, k')) (queue_give cfg False cpu (semaphore_empty q) k)
     else map_option (\<lambda>(s, k'). (Returned False None, q\<lparr>semaphore_full := s\<rparr>, k')) (queue_give cfg False cpu (semaphore_full q) k))"

definition with_kernel :: "'t Kernel \<Rightarrow> (QueueCall \<times> CompatQueue) option \<Rightarrow> (QueueCall \<times> CompatQueue \<times> 't Kernel) option" where
  "with_kernel k = map_option (\<lambda>(c, q). (c, q, k))"

fun queue_step :: "bool \<Rightarrow> Config \<Rightarrow> Cpu \<Rightarrow> u64 \<Rightarrow> QueueCall \<Rightarrow> CompatQueue \<Rightarrow> 't Kernel \<Rightarrow> (QueueCall \<times> CompatQueue \<times> 't Kernel) option" where
  "queue_step oc cfg cpu now (SendTake front item deadline) q k = send_take oc cfg cpu now front item deadline q k"
| "queue_step oc cfg cpu now (SendTakeIsr front item) q k = with_kernel k (send_take_from_isr oc front item q)"
| "queue_step oc cfg cpu now (SendPut isr front item) q k = with_kernel k (send_put oc isr front item q)"
| "queue_step oc cfg cpu now (SendGive isr) q k = send_give cfg cpu isr q k"
| "queue_step oc cfg cpu now (RecvTake deadline) q k = recv_take oc cfg cpu now deadline q k"
| "queue_step oc cfg cpu now RecvTakeIsr q k = with_kernel k (recv_take_from_isr oc q)"
| "queue_step oc cfg cpu now (RecvGet isr) q k = with_kernel k (recv_get oc isr q)"
| "queue_step oc cfg cpu now (RecvGive isr item) q k = recv_give cfg cpu isr item q k"
| "queue_step oc cfg cpu now (RemoveTake item deadline) q k = remove_take oc cfg cpu now item deadline q k"
| "queue_step oc cfg cpu now (RemoveScan item) q k = with_kernel k (remove_scan oc item q)"
| "queue_step oc cfg cpu now (RemoveGive found) q k = remove_give cfg cpu found q k"
| "queue_step oc cfg cpu now (Returned b r) q k = Some (Returned b r, q, k)"

text \<open>The check of the clock that follows a round in which the semaphore was not taken.\<close>

definition queue_timeout :: "u64 \<Rightarrow> QueueCall \<Rightarrow> QueueCall" where
  "queue_timeout now call =
    (let late = (\<lambda>deadline. now > (case deadline of None \<Rightarrow> U64_MAX | Some d \<Rightarrow> d)) in
     case call of
       SendTake front item deadline \<Rightarrow> if late deadline then Returned False None else call
     | RecvTake deadline \<Rightarrow> if late deadline then Returned False None else call
     | RemoveTake item deadline \<Rightarrow> if late deadline then Returned False None else call
     | _ \<Rightarrow> call)"

section \<open>Tokens\<close>

text \<open>
  The state of the queue and the kernel when the calls in progress hold \<open>a\<close> items and \<open>b\<close> free places:
  every item of the buffer is counted by \<open>semaphore_full\<close> or held, every free place by \<open>semaphore_empty\<close>
  or held, and nobody waits for a semaphore that can be taken.
\<close>

definition q_state ::
  "bool \<Rightarrow> nat \<Rightarrow> ThreadConfig \<Rightarrow> Config \<Rightarrow> CompatQueue \<Rightarrow> AnyTimer Kernel \<Rightarrow> u32 \<Rightarrow> u32 \<Rightarrow> nat \<Rightarrow> nat \<Rightarrow> nat \<Rightarrow> nat \<Rightarrow> bool"
where
  "q_state h2 rate tc cfg q k e f w1 w2 a b \<longleftrightarrow> reachable h2 rate tc cfg k \<and> ring_wf (cq_inner q) \<and> w1 \<noteq> w2 \<and>
     semaphore_empty q = Counting e (word_of_nat (capacity (cq_inner q))) w1 \<and>
     semaphore_full q = Counting f (word_of_nat (capacity (cq_inner q))) w2 \<and>
     unat f + a = item_count (cq_inner q) \<and> item_count (cq_inner q) + unat e + b = capacity (cq_inner q) \<and>
     (e > 0 \<longrightarrow> waiters k w1 = {}) \<and> (f > 0 \<longrightarrow> waiters k w2 = {})"

lemma unat_capacity: "ring_wf q \<Longrightarrow> unat (word_of_nat (capacity q) :: u32) = capacity q"
  by (simp add: ring_wf_def unsigned_of_nat take_bit_nat_eq_self)

lemma u32_dec: "c > 0 \<Longrightarrow> unat ((c :: u32) - 1) = unat c - 1 \<and> unat c > 0"
  by (metis unat_gt_0 unat_minus_one word_neq_0_conv)

lemma u32_inc: "c < m \<Longrightarrow> unat ((c :: u32) + 1) = unat c + 1"
proof -
  assume "c < m"
  then have "unat c + 1 < 2 ^ 32" using unsigned_less [of m, where ?'a = nat] by (simp add: word_less_nat_alt)
  then show ?thesis by (simp add: unat_word_ariths)
qed

lemma take_empty_ok:
  assumes s: "q_state h2 rate tc cfg q k e f w1 w2 a b" and run: "is_running k cpu" "threads k w1 = None"
  obtains k' e' where "take_round oc cfg cpu now deadline (semaphore_empty q) k = Some (e > 0, e', k')"
    "\<exists>n. q_state h2 rate tc cfg (q\<lparr>semaphore_empty := e'\<rparr>) k' n f w1 w2 a (if e > 0 then Suc b else b)"
proof -
  let ?m = "word_of_nat (capacity (cq_inner q))" and ?n = "if e > 0 then e - 1 else e"
  have r: "reachable h2 rate tc cfg k" and q: "semaphore_empty q = Counting e ?m w1" using s by (simp_all add: q_state_def)
  show thesis
  proof (rule counting_take_round [OF r run, of oc now deadline e ?m])
    fix k' assume t: "take_round oc cfg cpu now deadline (Counting e ?m w1) k = Some (e > 0, Counting ?n ?m w1, k')"
      "reachable h2 rate tc cfg k'" "\<And>i. i \<noteq> w1 \<or> e > 0 \<Longrightarrow> waiters k' i \<subseteq> waiters k i"
    have "q_state h2 rate tc cfg (q\<lparr>semaphore_empty := Counting ?n ?m w1\<rparr>) k' ?n f w1 w2 a (if e > 0 then Suc b else b)"
    proof (cases "e > 0")
      case True
      then show ?thesis using s t(2) t(3) [of w1] t(3) [of w2] u32_dec [of e] by (auto simp: q_state_def)
    next
      case False
      then show ?thesis using s t(2) t(3) [of w2] by (auto simp: q_state_def)
    qed
    then show thesis using t(1) q by (intro that) (simp, blast)
  qed
qed

lemma take_full_ok:
  assumes s: "q_state h2 rate tc cfg q k e f w1 w2 a b" and run: "is_running k cpu" "threads k w2 = None"
  obtains k' f' where "take_round oc cfg cpu now deadline (semaphore_full q) k = Some (f > 0, f', k')"
    "\<exists>n. q_state h2 rate tc cfg (q\<lparr>semaphore_full := f'\<rparr>) k' e n w1 w2 (if f > 0 then Suc a else a) b"
proof -
  let ?m = "word_of_nat (capacity (cq_inner q))" and ?n = "if f > 0 then f - 1 else f"
  have r: "reachable h2 rate tc cfg k" and q: "semaphore_full q = Counting f ?m w2" using s by (simp_all add: q_state_def)
  show thesis
  proof (rule counting_take_round [OF r run, of oc now deadline f ?m])
    fix k' assume t: "take_round oc cfg cpu now deadline (Counting f ?m w2) k = Some (f > 0, Counting ?n ?m w2, k')"
      "reachable h2 rate tc cfg k'" "\<And>i. i \<noteq> w2 \<or> f > 0 \<Longrightarrow> waiters k' i \<subseteq> waiters k i"
    have "q_state h2 rate tc cfg (q\<lparr>semaphore_full := Counting ?n ?m w2\<rparr>) k' e ?n w1 w2 (if f > 0 then Suc a else a) b"
    proof (cases "f > 0")
      case True
      then show ?thesis using s t(2) t(3) [of w1] t(3) [of w2] u32_dec [of f] by (auto simp: q_state_def)
    next
      case False
      then show ?thesis using s t(2) t(3) [of w1] by (auto simp: q_state_def)
    qed
    then show thesis using t(1) q by (intro that) (simp, blast)
  qed
qed

lemma take_isr_ok:
  assumes s: "q_state h2 rate tc cfg q k e f w1 w2 a b"
  obtains e' f' where "sem_try_take_from_isr oc (semaphore_empty q) = Some (e > 0, e')" "sem_try_take_from_isr oc (semaphore_full q) = Some (f > 0, f')"
    "\<exists>n. q_state h2 rate tc cfg (q\<lparr>semaphore_empty := e'\<rparr>) k n f w1 w2 a (if e > 0 then Suc b else b)"
    "\<exists>n. q_state h2 rate tc cfg (q\<lparr>semaphore_full := f'\<rparr>) k e n w1 w2 (if f > 0 then Suc a else a) b"
proof -
  let ?m = "word_of_nat (capacity (cq_inner q))" and ?e = "if e > 0 then e - 1 else e" and ?f = "if f > 0 then f - 1 else f"
  have "q_state h2 rate tc cfg (q\<lparr>semaphore_empty := Counting ?e ?m w1\<rparr>) k ?e f w1 w2 a (if e > 0 then Suc b else b)"
    using s u32_dec [of e] by (cases "e > 0") (auto simp: q_state_def)
  moreover have "q_state h2 rate tc cfg (q\<lparr>semaphore_full := Counting ?f ?m w2\<rparr>) k e ?f w1 w2 (if f > 0 then Suc a else a) b"
    using s u32_dec [of f] by (cases "f > 0") (auto simp: q_state_def)
  moreover have "sem_try_take_from_isr oc (semaphore_empty q) = Some (e > 0, Counting ?e ?m w1)"
    "sem_try_take_from_isr oc (semaphore_full q) = Some (f > 0, Counting ?f ?m w2)"
    using s by (simp_all add: q_state_def sem_try_take_from_isr_def)
  ultimately show thesis by (intro that) blast+
qed

lemma give_full_ok:
  assumes s: "q_state h2 rate tc cfg q k e f w1 w2 (Suc a) b"
  obtains k' f' where "queue_give cfg isr cpu (semaphore_full q) k = Some (f', k')" "\<exists>n. q_state h2 rate tc cfg (q\<lparr>semaphore_full := f'\<rparr>) k' e n w1 w2 a b"
proof -
  let ?m = "word_of_nat (capacity (cq_inner q))"
  have wf: "ring_wf (cq_inner q)" and r: "reachable h2 rate tc cfg k" and q: "semaphore_full q = Counting f ?m w2" using s by (simp_all add: q_state_def)
  have lt: "f < ?m" using s unat_capacity [OF wf] by (simp add: q_state_def word_less_nat_alt)
  show thesis
  proof (rule counting_give [OF r lt, of cpu w2])
    fix k' assume g: "sem_give cfg cpu (Counting f ?m w2) k = Some (True, Counting (f + 1) ?m w2, k')"
      "sem_give_from_isr cfg (Counting f ?m w2) k = Some (True, Counting (f + 1) ?m w2, k')"
      "reachable h2 rate tc cfg k'" "waiters k' w2 = {}" "\<And>j. waiters k' j \<subseteq> waiters k j"
    have "q_state h2 rate tc cfg (q\<lparr>semaphore_full := Counting (f + 1) ?m w2\<rparr>) k' e (f + 1) w1 w2 a b"
      using s g(3,4) g(5) [of w1] u32_inc [OF lt] by (auto simp: q_state_def)
    moreover have "queue_give cfg isr cpu (semaphore_full q) k = Some (Counting (f + 1) ?m w2, k')" using g(1,2) q by (cases isr) (simp_all add: queue_give_def)
    ultimately show thesis by (intro that) blast+
  qed
qed

lemma give_empty_ok:
  assumes s: "q_state h2 rate tc cfg q k e f w1 w2 a (Suc b)"
  obtains k' e' where "queue_give cfg isr cpu (semaphore_empty q) k = Some (e', k')" "\<exists>n. q_state h2 rate tc cfg (q\<lparr>semaphore_empty := e'\<rparr>) k' n f w1 w2 a b"
proof -
  let ?m = "word_of_nat (capacity (cq_inner q))"
  have wf: "ring_wf (cq_inner q)" and r: "reachable h2 rate tc cfg k" and q: "semaphore_empty q = Counting e ?m w1" using s by (simp_all add: q_state_def)
  have lt: "e < ?m" using s unat_capacity [OF wf] by (simp add: q_state_def word_less_nat_alt)
  show thesis
  proof (rule counting_give [OF r lt, of cpu w1])
    fix k' assume g: "sem_give cfg cpu (Counting e ?m w1) k = Some (True, Counting (e + 1) ?m w1, k')"
      "sem_give_from_isr cfg (Counting e ?m w1) k = Some (True, Counting (e + 1) ?m w1, k')"
      "reachable h2 rate tc cfg k'" "waiters k' w1 = {}" "\<And>j. waiters k' j \<subseteq> waiters k j"
    have "q_state h2 rate tc cfg (q\<lparr>semaphore_empty := Counting (e + 1) ?m w1\<rparr>) k' (e + 1) f w1 w2 a b"
      using s g(3,4) g(5) [of w2] u32_inc [OF lt] by (auto simp: q_state_def)
    moreover have "queue_give cfg isr cpu (semaphore_empty q) k = Some (Counting (e + 1) ?m w1, k')" using g(1,2) q by (cases isr) (simp_all add: queue_give_def)
    ultimately show thesis by (intro that) blast+
  qed
qed

lemma ring_send_ok:
  assumes "ring_wf q" "item_count q < capacity q" "length item = item_size q"
  obtains q' where "(if front then ring_send_to_front oc item q else ring_send_to_back oc item q) = Some q'" "ring_wf q'"
    "ring_items q' = (if front then item # ring_items q else ring_items q @ [item])" "ring_shape q' = ring_shape q"
proof (cases front)
  case True
  show thesis by (rule ring_send_to_front_ok [OF assms, of oc]) (use True in \<open>simp add: that\<close>)
next
  case False
  show thesis by (rule ring_send_to_back_ok [OF assms, of oc]) (use False in \<open>simp add: that\<close>)
qed

lemma send_put_ok:
  assumes s: "q_state h2 rate tc cfg q k e f w1 w2 a (Suc b)" and item: "length item = item_size (cq_inner q)"
  obtains inner where "send_put oc isr front item q = Some (SendGive isr, q\<lparr>cq_inner := inner\<rparr>)"
    "q_state h2 rate tc cfg (q\<lparr>cq_inner := inner\<rparr>) k e f w1 w2 (Suc a) b" "ring_shape inner = ring_shape (cq_inner q)"
    "ring_items inner = (if front then item # ring_items (cq_inner q) else ring_items (cq_inner q) @ [item])"
proof -
  have wf: "ring_wf (cq_inner q)" and room: "item_count (cq_inner q) < capacity (cq_inner q)" using s by (auto simp: q_state_def)
  from wf room item show thesis
  proof (rule ring_send_ok [of _ _ front oc])
    fix inner assume r: "(if front then ring_send_to_front oc item (cq_inner q) else ring_send_to_back oc item (cq_inner q)) = Some inner" "ring_wf inner"
      "ring_items inner = (if front then item # ring_items (cq_inner q) else ring_items (cq_inner q) @ [item])" "ring_shape inner = ring_shape (cq_inner q)"
    have "item_count inner = Suc (item_count (cq_inner q))" using arg_cong [OF r(3), of length] by (simp split: if_splits)
    then have "q_state h2 rate tc cfg (q\<lparr>cq_inner := inner\<rparr>) k e f w1 w2 (Suc a) b" using s r(2,4) by (auto simp: q_state_def ring_shape_def)
    moreover have "send_put oc isr front item q = Some (SendGive isr, q\<lparr>cq_inner := inner\<rparr>)" using r(1) by (simp only: send_put_def option.map)
    ultimately show thesis using r(3,4) by (intro that [of inner])
  qed
qed

lemma recv_get_ok:
  assumes s: "q_state h2 rate tc cfg q k e f w1 w2 (Suc a) b"
  obtains item items inner where "recv_get oc isr q = Some (RecvGive isr item, q\<lparr>cq_inner := inner\<rparr>)"
    "q_state h2 rate tc cfg (q\<lparr>cq_inner := inner\<rparr>) k e f w1 w2 a (Suc b)" "ring_shape inner = ring_shape (cq_inner q)"
    "ring_items (cq_inner q) = item # items" "ring_items inner = items"
proof -
  have wf: "ring_wf (cq_inner q)" and "item_count (cq_inner q) > 0" using s by (auto simp: q_state_def)
  then obtain item items where i: "ring_items (cq_inner q) = item # items" by (metis length_greater_0_conv neq_Nil_conv ring_items_length)
  from wf i show thesis
  proof (rule ring_read_from_front_ok [of _ _ _ oc])
    fix inner assume r: "ring_read_from_front oc (cq_inner q) = Some (item, inner)" "ring_wf inner" "ring_items inner = items"
      "ring_shape inner = ring_shape (cq_inner q)"
    have "Suc (item_count inner) = item_count (cq_inner q)" using arg_cong [OF i, of length] arg_cong [OF r(3), of length] by simp
    then have "q_state h2 rate tc cfg (q\<lparr>cq_inner := inner\<rparr>) k e f w1 w2 a (Suc b)" using s r(2,4) by (auto simp: q_state_def ring_shape_def)
    with r i show thesis by (intro that [of item inner items]) (simp_all add: recv_get_def)
  qed
qed

lemma remove_scan_ok:
  assumes s: "q_state h2 rate tc cfg q k e f w1 w2 (Suc a) b"
  obtains inner found where "remove_scan oc item q = Some (RemoveGive found, q\<lparr>cq_inner := inner\<rparr>)" "found \<longleftrightarrow> item \<in> set (ring_items (cq_inner q))"
    "q_state h2 rate tc cfg (q\<lparr>cq_inner := inner\<rparr>) k e f w1 w2 (if found then a else Suc a) (if found then Suc b else b)"
    "ring_shape inner = ring_shape (cq_inner q)" "ring_items inner = remove1 item (ring_items (cq_inner q))"
proof -
  let ?found = "item \<in> set (ring_items (cq_inner q))"
  have wf: "ring_wf (cq_inner q)" using s by (simp add: q_state_def)
  then show thesis
  proof (rule ring_remove_ok [of _ oc item])
    fix inner assume r: "ring_remove oc item (cq_inner q) = Some (?found, inner)" "ring_wf inner" "ring_items inner = remove1 item (ring_items (cq_inner q))"
      "ring_shape inner = ring_shape (cq_inner q)"
    have "item_count inner = (if ?found then item_count (cq_inner q) - 1 else item_count (cq_inner q))"
      using arg_cong [OF r(3), of length] by (simp add: length_remove1)
    then have "q_state h2 rate tc cfg (q\<lparr>cq_inner := inner\<rparr>) k e f w1 w2 (if ?found then a else Suc a) (if ?found then Suc b else b)"
      using s r(2,4) by (cases ?found) (auto simp: q_state_def ring_shape_def)
    with r show thesis by (intro that [of ?found inner]) (simp_all add: remove_scan_def)
  qed
qed

section \<open>Calls in progress\<close>

fun holds_item :: "QueueCall \<Rightarrow> nat" where
  "holds_item (SendGive isr) = 1"
| "holds_item (RecvGet isr) = 1"
| "holds_item (RemoveScan item) = 1"
| "holds_item (RemoveGive found) = (if found then 0 else 1)"
| "holds_item _ = 0"

fun holds_room :: "QueueCall \<Rightarrow> nat" where
  "holds_room (SendPut isr front item) = 1"
| "holds_room (RecvGive isr item) = 1"
| "holds_room (RemoveGive found) = (if found then 1 else 0)"
| "holds_room _ = 0"

text \<open>What a caller passes: an item has the size of the items of the queue.\<close>

fun call_ok :: "nat \<Rightarrow> QueueCall \<Rightarrow> bool" where
  "call_ok n (SendTake front item deadline) = (length item = n)"
| "call_ok n (SendTakeIsr front item) = (length item = n)"
| "call_ok n (SendPut isr front item) = (length item = n)"
| "call_ok n _ = True"

fun call_start :: "QueueCall \<Rightarrow> bool" where
  "call_start (SendTake front item deadline) = True"
| "call_start (SendTakeIsr front item) = True"
| "call_start (RecvTake deadline) = True"
| "call_start RecvTakeIsr = True"
| "call_start (RemoveTake item deadline) = True"
| "call_start _ = False"

text \<open>A call that may wait is made by a thread, on the CPU it runs on.\<close>

fun may_wait :: "QueueCall \<Rightarrow> bool" where
  "may_wait (SendTake front item deadline) = True"
| "may_wait (RecvTake deadline) = True"
| "may_wait (RemoveTake item deadline) = True"
| "may_wait _ = False"

definition queue_ready :: "QueueCall \<Rightarrow> Cpu \<Rightarrow> CompatQueue \<Rightarrow> 't Kernel \<Rightarrow> bool" where
  "queue_ready call cpu q k \<longleftrightarrow>
     (may_wait call \<longrightarrow> is_running k cpu \<and> threads k (sem_waiting (semaphore_empty q)) = None \<and> threads k (sem_waiting (semaphore_full q)) = None)"

text \<open>
  The states of a queue that is created in a running system and then used by any number of calls, whose
  critical sections interleave with each other and with all operations of the scheduler.
\<close>

inductive queue_reachable ::
  "bool \<Rightarrow> nat \<Rightarrow> ThreadConfig \<Rightarrow> Config \<Rightarrow> bool \<Rightarrow> CompatQueue \<Rightarrow> AnyTimer Kernel \<Rightarrow> QueueCall multiset \<Rightarrow> bool"
  for h2 rate tc cfg oc where
  create: "reachable h2 rate tc cfg k \<Longrightarrow> waiters k w1 = {} \<Longrightarrow> waiters k w2 = {} \<Longrightarrow> w1 \<noteq> w2 \<Longrightarrow> 0 < cap \<Longrightarrow> cap < 2 ^ 31 \<Longrightarrow>
    cap * isize < 2 ^ 31 \<Longrightarrow> compat_queue_new oc cap isize w1 w2 k = Some (q, k') \<Longrightarrow> queue_reachable h2 rate tc cfg oc q k' {#}"
| call: "queue_reachable h2 rate tc cfg oc q k M \<Longrightarrow> call_start c \<Longrightarrow> call_ok (item_size (cq_inner q)) c \<Longrightarrow>
    queue_reachable h2 rate tc cfg oc q k (add_mset c M)"
| step: "queue_reachable h2 rate tc cfg oc q k (add_mset c M) \<Longrightarrow> queue_ready c cpu q k \<Longrightarrow>
    queue_step oc cfg cpu now c q k = Some (c', q', k') \<Longrightarrow> queue_reachable h2 rate tc cfg oc q' k' (add_mset c' M)"
| timeout: "queue_reachable h2 rate tc cfg oc q k (add_mset c M) \<Longrightarrow> queue_reachable h2 rate tc cfg oc q k (add_mset (queue_timeout now c) M)"
| return: "queue_reachable h2 rate tc cfg oc q k (add_mset (Returned b r) M) \<Longrightarrow> queue_reachable h2 rate tc cfg oc q k M"
| other: "queue_reachable h2 rate tc cfg oc q k M \<Longrightarrow> allowed tc cfg op k \<Longrightarrow>
    waits_in op \<noteq> Some (sem_waiting (semaphore_empty q)) \<Longrightarrow> waits_in op \<noteq> Some (sem_waiting (semaphore_full q)) \<Longrightarrow>
    exec_op tc cfg (any_timer h2) op k = Some k' \<Longrightarrow> queue_reachable h2 rate tc cfg oc q k' M"

text \<open>What a critical section does to the list of items.\<close>

fun queue_effect :: "QueueCall \<Rightarrow> QueueCall \<Rightarrow> u8 list list \<Rightarrow> u8 list list \<Rightarrow> bool" where
  "queue_effect (SendPut isr front item) c' xs ys \<longleftrightarrow> c' = SendGive isr \<and> ys = (if front then item # xs else xs @ [item])"
| "queue_effect (RecvGet isr) c' xs ys \<longleftrightarrow> (\<exists>item. c' = RecvGive isr item \<and> xs = item # ys)"
| "queue_effect (RemoveScan item) c' xs ys \<longleftrightarrow> c' = RemoveGive (item \<in> set xs) \<and> ys = remove1 item xs"
| "queue_effect _ c' xs ys \<longleftrightarrow> ys = xs"

definition queue_inv :: "bool \<Rightarrow> nat \<Rightarrow> ThreadConfig \<Rightarrow> Config \<Rightarrow> CompatQueue \<Rightarrow> AnyTimer Kernel \<Rightarrow> QueueCall multiset \<Rightarrow> bool" where
  "queue_inv h2 rate tc cfg q k M \<longleftrightarrow>
     (\<exists>e f w1 w2. q_state h2 rate tc cfg q k e f w1 w2 (sum_mset (image_mset holds_item M)) (sum_mset (image_mset holds_room M))) \<and>
     (\<forall>c \<in># M. call_ok (item_size (cq_inner q)) c)"

abbreviation held_items :: "QueueCall multiset \<Rightarrow> nat" where
  "held_items M \<equiv> sum_mset (image_mset holds_item M)"

abbreviation held_room :: "QueueCall multiset \<Rightarrow> nat" where
  "held_room M \<equiv> sum_mset (image_mset holds_room M)"

lemma queue_invI:
  assumes "q_state h2 rate tc cfg q k e f w1 w2 (holds_item c + held_items M) (holds_room c + held_room M)"
    and "\<forall>d \<in># M. call_ok (item_size (cq_inner q)) d" "call_ok (item_size (cq_inner q)) c"
  shows "queue_inv h2 rate tc cfg q k (add_mset c M)"
  using assms by (auto simp: queue_inv_def)

lemma queue_step_ok:
  assumes inv: "queue_inv h2 rate tc cfg q k (add_mset c M)" and ready: "queue_ready c cpu q k"
  shows "\<exists>c' q' k'. queue_step oc cfg cpu now c q k = Some (c', q', k') \<and> queue_inv h2 rate tc cfg q' k' (add_mset c' M) \<and>
    queue_effect c c' (ring_items (cq_inner q)) (ring_items (cq_inner q')) \<and> ring_shape (cq_inner q') = ring_shape (cq_inner q)"
proof -
  from inv obtain e f w1 w2 where s: "q_state h2 rate tc cfg q k e f w1 w2 (holds_item c + held_items M) (holds_room c + held_room M)"
    and all: "\<forall>d \<in># M. call_ok (item_size (cq_inner q)) d" and ok: "call_ok (item_size (cq_inner q)) c" by (auto simp: queue_inv_def)
  have w: "sem_waiting (semaphore_empty q) = w1" "sem_waiting (semaphore_full q) = w2" using s by (simp_all add: q_state_def)
  show ?thesis
  proof (cases c)
    case (SendTake front item deadline)
    then have run: "is_running k cpu" "threads k w1 = None" using ready w by (simp_all add: queue_ready_def)
    show ?thesis
      by (rule take_empty_ok [OF s run, of oc now deadline]) (use SendTake all ok in \<open>auto simp: send_take_def intro: queue_invI\<close>)
  next
    case (SendTakeIsr front item)
    show ?thesis by (rule take_isr_ok [OF s, of oc]) (use SendTakeIsr all ok in \<open>auto simp: send_take_from_isr_def with_kernel_def intro: queue_invI\<close>)
  next
    case (SendPut isr front item)
    then have s': "q_state h2 rate tc cfg q k e f w1 w2 (held_items M) (Suc (held_room M))" and l: "length item = item_size (cq_inner q)" using s ok by simp_all
    show ?thesis
      by (rule send_put_ok [OF s' l, of oc isr front])
        (use SendPut all in \<open>auto simp: with_kernel_def ring_shape_def intro: queue_invI\<close>)
  next
    case (SendGive isr)
    then have s': "q_state h2 rate tc cfg q k e f w1 w2 (Suc (held_items M)) (held_room M)" using s by simp
    show ?thesis by (rule give_full_ok [OF s', of isr cpu]) (use SendGive all in \<open>auto simp: send_give_def intro: queue_invI\<close>)
  next
    case (RecvTake deadline)
    then have run: "is_running k cpu" "threads k w2 = None" using ready w by (simp_all add: queue_ready_def)
    show ?thesis
      by (rule take_full_ok [OF s run, of oc now deadline]) (use RecvTake all ok in \<open>auto simp: recv_take_def intro: queue_invI\<close>)
  next
    case RecvTakeIsr
    show ?thesis by (rule take_isr_ok [OF s, of oc]) (use RecvTakeIsr all ok in \<open>auto simp: recv_take_from_isr_def with_kernel_def intro: queue_invI\<close>)
  next
    case (RecvGet isr)
    then have s': "q_state h2 rate tc cfg q k e f w1 w2 (Suc (held_items M)) (held_room M)" using s by simp
    show ?thesis
      by (rule recv_get_ok [OF s', of oc isr])
        (use RecvGet all in \<open>auto simp: with_kernel_def ring_shape_def intro: queue_invI\<close>)
  next
    case (RecvGive isr item)
    then have s': "q_state h2 rate tc cfg q k e f w1 w2 (held_items M) (Suc (held_room M))" using s by simp
    show ?thesis by (rule give_empty_ok [OF s', of isr cpu]) (use RecvGive all in \<open>auto simp: recv_give_def intro: queue_invI\<close>)
  next
    case (RemoveTake item deadline)
    then have run: "is_running k cpu" "threads k w2 = None" using ready w by (simp_all add: queue_ready_def)
    show ?thesis
      by (rule take_full_ok [OF s run, of oc now deadline]) (use RemoveTake all ok in \<open>auto simp: remove_take_def intro: queue_invI\<close>)
  next
    case (RemoveScan item)
    then have s': "q_state h2 rate tc cfg q k e f w1 w2 (Suc (held_items M)) (held_room M)" using s by simp
    show ?thesis
      by (rule remove_scan_ok [OF s', of oc item])
        (use RemoveScan all in \<open>auto simp: with_kernel_def ring_shape_def intro: queue_invI split: if_splits\<close>)
  next
    case (RemoveGive found)
    show ?thesis
    proof (cases found)
      case True
      then have s': "q_state h2 rate tc cfg q k e f w1 w2 (held_items M) (Suc (held_room M))" using s RemoveGive by simp
      show ?thesis by (rule give_empty_ok [OF s', of False cpu]) (use RemoveGive True all in \<open>auto simp: remove_give_def intro: queue_invI\<close>)
    next
      case False
      then have s': "q_state h2 rate tc cfg q k e f w1 w2 (Suc (held_items M)) (held_room M)" using s RemoveGive by simp
      show ?thesis by (rule give_full_ok [OF s', of False cpu]) (use RemoveGive False all in \<open>auto simp: remove_give_def intro: queue_invI\<close>)
    qed
  next
    case (Returned b r)
    then show ?thesis using inv by auto
  qed
qed

lemma queue_new_inv:
  assumes "reachable h2 rate tc cfg k" "waiters k w1 = {}" "waiters k w2 = {}" "w1 \<noteq> w2" "0 < cap" "cap < 2 ^ 31" "cap * isize < 2 ^ 31"
    and "compat_queue_new oc cap isize w1 w2 k = Some (q, k')"
  shows "queue_inv h2 rate tc cfg q k' {#}" "ring_items (cq_inner q) = []"
proof -
  have "queue_inv h2 rate tc cfg q k' {#} \<and> ring_items (cq_inner q) = []"
  proof (rule queue_inner_new_ok [OF assms(5-7), of oc])
    fix i assume i: "queue_inner_new oc cap isize = Some i" "ring_wf i" "ring_items i = []" "ring_shape i = (cap, isize)"
    obtain e k1 where e: "sem_create (CountingKind (word_of_nat cap) (word_of_nat cap)) w1 k = (e, k1)"
      by (cases "sem_create (CountingKind (word_of_nat cap) (word_of_nat cap)) w1 k")
    then have k1: "k1 = k" by (rule sem_create_same [OF assms(1,2)])
    obtain f k2 where f: "sem_create (CountingKind (word_of_nat cap) 0) w2 k = (f, k2)" by (cases "sem_create (CountingKind (word_of_nat cap) 0) w2 k")
    then have k2: "k2 = k" by (rule sem_create_same [OF assms(1,3)])
    have q: "q = \<lparr>cq_inner = i, semaphore_empty = e, semaphore_full = f\<rparr>" "k' = k" using assms(8) i(1) e f k1 k2 by (simp_all add: compat_queue_new_def)
    have c: "capacity i = cap" "item_count i = 0" using i(4) arg_cong [OF i(3), of length] by (simp_all add: ring_shape_def)
    have "q_state h2 rate tc cfg q k' (word_of_nat cap) 0 w1 w2 0 0"
      using assms(1-4) q e f c i(2) unat_capacity [OF i(2)] by (simp add: q_state_def sem_create_def new_counting_def)
    then show ?thesis using q(1) i(3) by (auto simp: queue_inv_def)
  qed
  then show "queue_inv h2 rate tc cfg q k' {#}" "ring_items (cq_inner q) = []" by simp_all
qed

lemma queue_timeout_holds [simp]:
  "holds_item (queue_timeout now c) = holds_item c" "holds_room (queue_timeout now c) = holds_room c"
  by (cases c; simp add: queue_timeout_def Let_def)+

lemma queue_timeout_ok: "call_ok n c \<Longrightarrow> call_ok n (queue_timeout now c)"
  by (cases c) (simp_all add: queue_timeout_def Let_def)

lemma queue_reachable_inv: "queue_reachable h2 rate tc cfg oc q k M \<Longrightarrow> queue_inv h2 rate tc cfg q k M"
proof (induction rule: queue_reachable.induct)
  case (create k w1 w2 cap isize q k')
  then show ?case by (intro queue_new_inv(1))
next
  case (call q k M c)
  then have "holds_item c = 0" "holds_room c = 0" by (cases c; simp)+
  then show ?case using call by (auto simp: queue_inv_def)
next
  case (step q k c M cpu now c' q' k')
  from queue_step_ok [OF step(4,2), of oc now] step(3) show ?case by auto
next
  case (timeout q k c M now)
  then show ?case using queue_timeout_ok by (auto simp: queue_inv_def)
next
  case (return q k b r M)
  then show ?case by (auto simp: queue_inv_def)
next
  case (other q k M op k')
  from other(6) obtain e f w1 w2 where s: "q_state h2 rate tc cfg q k e f w1 w2 (held_items M) (held_room M)"
    and ok: "\<forall>c \<in># M. call_ok (item_size (cq_inner q)) c" by (auto simp: queue_inv_def)
  then have r: "reachable h2 rate tc cfg k" and w: "sem_waiting (semaphore_empty q) = w1" "sem_waiting (semaphore_full q) = w2" by (simp_all add: q_state_def)
  have "waiters k' w1 \<subseteq> waiters k w1" "waiters k' w2 \<subseteq> waiters k w2"
    using exec_waiters [OF r other(2,5)] other(3,4) w by blast+
  then have "q_state h2 rate tc cfg q k' e f w1 w2 (held_items M) (held_room M)"
    using s reachable.step [OF r other(2,5)] by (auto simp: q_state_def)
  with ok show ?case by (auto simp: queue_inv_def)
qed

end
