(* ===== verification/Radio_Timer.thy ===== *)
theory Radio_Timer
  imports Radio_Semaphore
begin

text \<open>
  \<open>esp-radio-rtos-driver/src/timer.rs\<close>: software timers that one background task triggers. The timers are
  records in a heap, linked into the queue. A caller arms, disarms and deletes timers in critical
  sections of the queue; the timer task detaches the whole list, looks at every timer in a critical
  section of its own, runs its callback outside, and puts it back. The callbacks are calls of the closed
  radio libraries: what they do to timers are operations that interleave with the timer task. The
  lemmas show that the lists stay well-formed, that no active timer is forgotten, and that the task never
  sleeps past the time of an active timer. \<open>None\<close> is a panic or a loop that does not end.
\<close>

section \<open>Timers and the queue\<close>

type_synonym TimerPtr = nat

record TimerProperties =
  is_active :: bool
  next_due :: u64
  period :: u64
  periodic :: bool
  enqueued :: bool
  next_timer :: "TimerPtr option"

type_synonym timer_heap = "TimerPtr \<Rightarrow> TimerProperties"

record TimerQueueInner =
  tq_head :: "TimerPtr option"
  next_wakeup_at :: u64
  processing :: bool
  scheduled_for_drop :: "TimerPtr list"

definition timer_queue_inner_new :: TimerQueueInner where
  "timer_queue_inner_new = \<lparr>tq_head = None, next_wakeup_at = U64_MAX, processing = False, scheduled_for_drop = []\<rparr>"

definition soft_timer_new :: TimerProperties where
  "soft_timer_new = \<lparr>is_active = False, next_due = 0, period = 0, periodic = False, enqueued = False, next_timer = None\<rparr>"

text \<open>\<open>enqueue\<close>; the flag tells whether the semaphore of the queue should be given.\<close>

definition timer_enqueue :: "TimerPtr \<Rightarrow> timer_heap \<times> TimerQueueInner \<Rightarrow> bool \<times> timer_heap \<times> TimerQueueInner" where
  "timer_enqueue t s = (case s of (h, q) \<Rightarrow>
     let due = next_due (h t);
         (h1, q1) = (if \<not> enqueued (h t)
           then (h(t := (h t)\<lparr>enqueued := True, next_timer := tq_head q\<rparr>), q\<lparr>tq_head := Some t\<rparr>) else (h, q))
     in if due < next_wakeup_at q1 then (True, h1, q1\<lparr>next_wakeup_at := due\<rparr>) else (False, h1, q1))"

partial_function (option) dequeue_loop ::
  "TimerPtr \<Rightarrow> TimerPtr option \<Rightarrow> TimerPtr option \<Rightarrow> timer_heap \<Rightarrow> TimerQueueInner \<Rightarrow> (bool \<times> timer_heap \<times> TimerQueueInner) option"
where
  "dequeue_loop t prev current h q = (case current of
      None \<Rightarrow> Some (False, h, q)
    | Some c \<Rightarrow>
        if c = t then
          let next = next_timer (h t);
              h1 = h(t := (h t)\<lparr>next_timer := None, enqueued := False\<rparr>)
          in Some (True, case prev of
              Some p \<Rightarrow> (h1(p := (h1 p)\<lparr>next_timer := next\<rparr>), q)
            | None \<Rightarrow> (h1, q\<lparr>tq_head := next\<rparr>))
        else dequeue_loop t (Some c) (next_timer (h c)) h q)"

definition timer_dequeue :: "TimerPtr \<Rightarrow> timer_heap \<times> TimerQueueInner \<Rightarrow> (bool \<times> timer_heap \<times> TimerQueueInner) option" where
  "timer_dequeue t s = (case s of (h, q) \<Rightarrow> dequeue_loop t None (tq_head q) h q)"

definition u64_plus :: "bool \<Rightarrow> u64 \<Rightarrow> u64 \<Rightarrow> u64 option" where
  "u64_plus oc a b = (if oc \<and> unat a + unat b \<ge> 2 ^ 64 then None else Some (a + b))"

definition timer_arm :: "bool \<Rightarrow> u64 \<Rightarrow> u64 \<Rightarrow> bool \<Rightarrow> TimerPtr \<Rightarrow> timer_heap \<times> TimerQueueInner \<Rightarrow> (bool \<times> timer_heap \<times> TimerQueueInner) option" where
  "timer_arm oc now timeout repeat t s = (case s of (h, q) \<Rightarrow>
     map_option (\<lambda>due. timer_enqueue t (h(t := (h t)\<lparr>is_active := True, next_due := due, period := timeout, periodic := repeat\<rparr>), q))
       (u64_plus oc now timeout))"

definition timer_is_active :: "TimerPtr \<Rightarrow> timer_heap \<Rightarrow> bool" where
  "timer_is_active t h = is_active (h t)"

definition timer_disarm :: "TimerPtr \<Rightarrow> timer_heap \<times> TimerQueueInner \<Rightarrow> timer_heap \<times> TimerQueueInner" where
  "timer_disarm t s = (case s of (h, q) \<Rightarrow> (h(t := (h t)\<lparr>is_active := False\<rparr>), q))"

definition timer_delete :: "TimerPtr \<Rightarrow> timer_heap \<times> TimerQueueInner \<Rightarrow> bool \<times> timer_heap \<times> TimerQueueInner" where
  "timer_delete t s = (case s of (h, q) \<Rightarrow>
     let q1 = q\<lparr>scheduled_for_drop := scheduled_for_drop q @ [t]\<rparr>;
         wake = (\<not> processing q1 \<and> next_wakeup_at q1 = U64_MAX);
         q2 = (if wake then q1\<lparr>next_wakeup_at := 0\<rparr> else q1)
     in (wake, h(t := (h t)\<lparr>is_active := False\<rparr>), q2))"

text \<open>
  \<open>ensure_initialized\<close>: \<open>loaded\<close> is the pointer that the first read of the static finds, \<open>global\<close> its value at
  the compare-exchange, \<open>boxed\<close> the queue of this caller. A compare-exchange does not fail on a null
  pointer, so the loop ends in its first round. The flag tells that this caller creates the timer task.
\<close>

definition initialize_queue :: "nat \<Rightarrow> nat option \<Rightarrow> (nat \<times> bool) \<times> nat option" where
  "initialize_queue boxed global = (case global of
      None \<Rightarrow> ((boxed, True), Some boxed)
    | Some queue \<Rightarrow> ((queue, False), global))"

definition ensure_initialized :: "nat option \<Rightarrow> nat \<Rightarrow> nat option \<Rightarrow> (nat \<times> bool) \<times> nat option" where
  "ensure_initialized loaded boxed global = (case loaded of
      Some queue \<Rightarrow> ((queue, False), global)
    | None \<Rightarrow> initialize_queue boxed global)"

text \<open>Callers in the order of their compare-exchanges; each has read the static at some time before.\<close>

fun initialize_all :: "(nat option \<times> nat) list \<Rightarrow> nat option \<Rightarrow> (nat \<times> bool) list" where
  "initialize_all [] global = []"
| "initialize_all ((loaded, boxed) # callers) global =
    (case ensure_initialized loaded boxed global of (r, global') \<Rightarrow> r # initialize_all callers global')"

text \<open>All callers use the queue of the first, which alone creates the timer task.\<close>

lemma initialize_all_later:
  "set (map fst callers) \<subseteq> {None, Some queue} \<Longrightarrow> initialize_all callers (Some queue) = replicate (length callers) (queue, False)"
  by (induction callers) (auto simp: ensure_initialized_def initialize_queue_def split: option.splits)

lemma initialize_once:
  assumes "set (map fst callers) \<subseteq> {None, Some boxed}"
  shows "initialize_all ((None, boxed) # callers) None = (boxed, True) # replicate (length callers) (boxed, False)"
  using initialize_all_later [OF assms] by (simp add: ensure_initialized_def initialize_queue_def)

section \<open>The timer task\<close>

definition process_start :: "TimerQueueInner \<Rightarrow> TimerPtr option \<times> TimerQueueInner" where
  "process_start q = (tq_head q, q\<lparr>processing := True, next_wakeup_at := U64_MAX, tq_head := None\<rparr>)"

text \<open>The first closure of the loop: whether to run the callback, and the rest of the detached list.\<close>

definition process_check :: "bool \<Rightarrow> u64 \<Rightarrow> TimerPtr \<Rightarrow> timer_heap \<Rightarrow> (bool \<times> TimerPtr option \<times> timer_heap) option" where
  "process_check oc now t h =
    (let timers = next_timer (h t);
         p = (h t)\<lparr>next_timer := None, enqueued := False\<rparr>
     in if \<not> is_active p then Some (False, timers, h(t := p))
        else if next_due p > now then Some (False, timers, h(t := p))
        else
          Option.bind (if periodic p then u64_plus oc (next_due p) (period p) else Some (next_due p)) (\<lambda>due.
          Some (True, timers, h(t := p\<lparr>next_due := due, is_active := periodic p\<rparr>))))"

definition process_rearm :: "TimerPtr \<Rightarrow> timer_heap \<times> TimerQueueInner \<Rightarrow> timer_heap \<times> TimerQueueInner" where
  "process_rearm t s = (if is_active (fst s t) then snd (timer_enqueue t s) else s)"

text \<open>The last closure: \<open>alloc\<close> are the timers in memory, \<open>drops\<close> the scheduled ones, last first.\<close>

fun drop_timers :: "TimerPtr list \<Rightarrow> TimerPtr set \<Rightarrow> timer_heap \<times> TimerQueueInner \<Rightarrow> (TimerPtr set \<times> timer_heap \<times> TimerQueueInner) option" where
  "drop_timers [] alloc s = Some (alloc, s)"
| "drop_timers (t # ts) alloc s = Option.bind (timer_dequeue t s) (\<lambda>(found, s'). drop_timers ts (alloc - {t}) s')"

definition process_finish :: "TimerPtr set \<Rightarrow> timer_heap \<times> TimerQueueInner \<Rightarrow> (u64 \<times> TimerPtr set \<times> timer_heap \<times> TimerQueueInner) option" where
  "process_finish alloc s = (case s of (h, q) \<Rightarrow>
     Option.bind (drop_timers (rev (scheduled_for_drop q)) alloc (h, q\<lparr>scheduled_for_drop := []\<rparr>)) (\<lambda>(alloc', h', q').
     Some (next_wakeup_at q', alloc', h', q'\<lparr>processing := False\<rparr>)))"

section \<open>Lists of timers\<close>

fun timer_path :: "timer_heap \<Rightarrow> TimerPtr option \<Rightarrow> TimerPtr list \<Rightarrow> bool" where
  "timer_path h p [] \<longleftrightarrow> p = None"
| "timer_path h p (x # xs) \<longleftrightarrow> p = Some x \<and> timer_path h (next_timer (h x)) xs"

lemma timer_path_cong: "(\<And>x. x \<in> set xs \<Longrightarrow> next_timer (h' x) = next_timer (h x)) \<Longrightarrow> timer_path h' p xs = timer_path h p xs"
  by (induction xs arbitrary: p) auto

lemma timer_path_upd [simp]: "t \<notin> set xs \<Longrightarrow> timer_path (h(t := y)) p xs = timer_path h p xs"
  by (rule timer_path_cong) auto

lemma timer_path_same [simp]: "next_timer y = next_timer (h t) \<Longrightarrow> timer_path (h(t := y)) p xs = timer_path h p xs"
  by (rule timer_path_cong) simp

text \<open>The pointer that leads to the current timer of \<open>dequeue\<close>.\<close>

definition link_to :: "timer_heap \<Rightarrow> TimerQueueInner \<Rightarrow> TimerPtr option \<Rightarrow> TimerPtr option" where
  "link_to h q prev = (case prev of None \<Rightarrow> tq_head q | Some p \<Rightarrow> next_timer (h p))"

text \<open>Apart from the links, \<open>dequeue\<close> changes only the flag of the timer it removes.\<close>

definition dequeued :: "TimerPtr \<Rightarrow> bool \<Rightarrow> timer_heap \<Rightarrow> timer_heap \<Rightarrow> bool" where
  "dequeued t found h h' \<longleftrightarrow> (\<forall>y. (h' y)\<lparr>next_timer := None\<rparr> =
     (if y = t \<and> found then (h y)\<lparr>enqueued := False, next_timer := None\<rparr> else (h y)\<lparr>next_timer := None\<rparr>))"

lemma dequeue_loop_ok:
  assumes "timer_path h (link_to h q prev) xs" "distinct xs" "prev \<notin> Some ` set xs" "prev \<noteq> Some t"
  shows "\<exists>h' q'. dequeue_loop t prev (link_to h q prev) h q = Some (t \<in> set xs, h', q') \<and> timer_path h' (link_to h' q' prev) (remove1 t xs) \<and>
    dequeued t (t \<in> set xs) h h' \<and> q' = q\<lparr>tq_head := tq_head q'\<rparr> \<and> (prev \<noteq> None \<longrightarrow> q' = q) \<and>
    (\<forall>y. y \<notin> set xs \<and> prev \<noteq> Some y \<longrightarrow> h' y = h y)"
  using assms
proof (induction xs arbitrary: prev)
  case Nil
  then show ?case by (subst dequeue_loop.simps) (auto simp: dequeued_def)
next
  case (Cons x xs)
  have l: "link_to h q prev = Some x" and p: "timer_path h (next_timer (h x)) xs" using Cons.prems(1) by simp_all
  show ?case
  proof (cases "x = t")
    case True
    let ?h1 = "h(t := (h t)\<lparr>next_timer := None, enqueued := False\<rparr>)"
    show ?thesis
    proof (cases prev)
      case None
      then have "dequeue_loop t prev (link_to h q prev) h q = Some (True, ?h1, q\<lparr>tq_head := next_timer (h t)\<rparr>)"
        using l True by (subst dequeue_loop.simps) simp
      then show ?thesis using None True p Cons.prems by (auto simp: link_to_def dequeued_def)
    next
      case (Some u)
      let ?h2 = "?h1(u := (?h1 u)\<lparr>next_timer := next_timer (h t)\<rparr>)"
      have "dequeue_loop t prev (link_to h q prev) h q = Some (True, ?h2, q)" using l True Some by (subst dequeue_loop.simps) simp
      moreover have "u \<notin> set xs" "u \<noteq> t" "t \<notin> set xs" using Cons.prems Some True by auto
      ultimately show ?thesis using Some True p by (auto simp: link_to_def dequeued_def)
    qed
  next
    case False
    have p': "timer_path h (link_to h q (Some x)) xs" using p by (simp add: link_to_def)
    from Cons.IH [OF p'] Cons.prems False obtain h' q' where ih: "dequeue_loop t (Some x) (next_timer (h x)) h q = Some (t \<in> set xs, h', q')"
      "timer_path h' (next_timer (h' x)) (remove1 t xs)" "dequeued t (t \<in> set xs) h h'" "q' = q"
      "\<forall>y. y \<notin> set xs \<and> Some x \<noteq> Some y \<longrightarrow> h' y = h y" by (auto simp: link_to_def)
    have "link_to h' q' prev = Some x" using l ih(4,5) Cons.prems(3) by (cases prev) (auto simp: link_to_def)
    moreover have "dequeue_loop t prev (link_to h q prev) h q = Some (t \<in> set (x # xs), h', q')"
      using l False ih(1) by (subst dequeue_loop.simps) simp
    ultimately show ?thesis using ih False by auto
  qed
qed

section \<open>Well-formed lists\<close>

text \<open>
  \<open>qs\<close> is the list of the queue, \<open>ts\<close> what is left of the list that the timer task has detached, \<open>current\<close> the
  timer it works on. Every active timer is in one of them.
\<close>

definition timers_wf :: "timer_heap \<Rightarrow> TimerQueueInner \<Rightarrow> TimerPtr set \<Rightarrow> TimerPtr option \<Rightarrow> TimerPtr option \<Rightarrow> TimerPtr list \<Rightarrow> TimerPtr list \<Rightarrow> bool" where
  "timers_wf h q alloc timers current qs ts \<longleftrightarrow> timer_path h (tq_head q) qs \<and> timer_path h timers ts \<and> distinct (qs @ ts) \<and>
     set qs \<union> set ts \<subseteq> alloc \<and> set_option current \<subseteq> alloc \<and> set_option current \<inter> set ts = {} \<and>
     (\<forall>t \<in> alloc. (enqueued (h t) \<longleftrightarrow> t \<in> set qs \<union> set ts) \<and> (is_active (h t) \<longrightarrow> t \<in> set qs \<union> set ts \<union> set_option current)) \<and>
     distinct (scheduled_for_drop q) \<and> set (scheduled_for_drop q) \<subseteq> alloc \<and> (\<forall>t \<in> set (scheduled_for_drop q). \<not> is_active (h t))"

text \<open>The queue knows a time that is not after the time of any active timer of its list.\<close>

definition due_ok :: "timer_heap \<Rightarrow> TimerQueueInner \<Rightarrow> TimerPtr set \<Rightarrow> bool" where
  "due_ok h q S \<longleftrightarrow> (\<forall>t \<in> S. is_active (h t) \<longrightarrow> next_wakeup_at q \<le> next_due (h t))"

lemma timers_wfD:
  assumes "timers_wf h q alloc timers current qs ts"
  shows "timer_path h (tq_head q) qs" "timer_path h timers ts" "distinct qs" "distinct ts" "set qs \<inter> set ts = {}" "set qs \<subseteq> alloc" "set ts \<subseteq> alloc"
    "set_option current \<subseteq> alloc" "set_option current \<inter> set ts = {}"
    "t \<in> alloc \<Longrightarrow> enqueued (h t) \<longleftrightarrow> t \<in> set qs \<union> set ts" "t \<in> alloc \<Longrightarrow> is_active (h t) \<Longrightarrow> t \<in> set qs \<union> set ts \<union> set_option current"
    "distinct (scheduled_for_drop q)" "set (scheduled_for_drop q) \<subseteq> alloc" "t \<in> set (scheduled_for_drop q) \<Longrightarrow> \<not> is_active (h t)"
  using assms by (auto simp: timers_wf_def)

lemma timer_enqueue_eq:
  "timer_enqueue t (h, q) = (next_due (h t) < next_wakeup_at q,
     if enqueued (h t) then h else h(t := (h t)\<lparr>enqueued := True, next_timer := tq_head q\<rparr>),
     q\<lparr>tq_head := (if enqueued (h t) then tq_head q else Some t), next_wakeup_at := min (next_due (h t)) (next_wakeup_at q)\<rparr>)"
  by (auto simp: timer_enqueue_def Let_def min_def)

text \<open>The timer may have been changed before it is enqueued: \<open>h0\<close> is the heap before.\<close>

lemma timer_enqueue_wf:
  assumes wf: "timers_wf h0 q alloc timers current qs ts" "due_ok h0 q (set qs)" and t: "t \<in> alloc" "t \<notin> set (scheduled_for_drop q)"
    and same: "next_timer p = next_timer (h0 t)" "enqueued p = enqueued (h0 t)" and h: "h = h0(t := p)"
    and e: "timer_enqueue t (h, q) = (g, h', q')"
  obtains qs' where "timers_wf h' q' alloc timers current qs' ts" "due_ok h' q' (set qs')" "t \<in> set qs' \<union> set ts" "g \<longleftrightarrow> next_due p < next_wakeup_at q"
    "next_wakeup_at q' = min (next_due p) (next_wakeup_at q)" "processing q' = processing q"
proof -
  note w = timers_wfD [OF wf(1)]
  have q': "q' = q\<lparr>tq_head := (if enqueued p then tq_head q else Some t), next_wakeup_at := min (next_due p) (next_wakeup_at q)\<rparr>"
    and h': "h' = (if enqueued p then h else h(t := p\<lparr>enqueued := True, next_timer := tq_head q\<rparr>))" and g: "g \<longleftrightarrow> next_due p < next_wakeup_at q"
    using e h by (auto simp: timer_enqueue_eq)
  have due: "due_ok h' q' (insert t (set qs))" using wf(2) by (auto simp: due_ok_def q' h' h min_le_iff_disj)
  show thesis
  proof (cases "enqueued p")
    case True
    then have in_list: "t \<in> set qs \<union> set ts" using w(10) [OF t(1)] same(2) by simp
    have "timers_wf h' q' alloc timers current qs ts" using wf(1) True same t h by (auto simp: timers_wf_def q' h')
    moreover have "due_ok h' q' (set qs)" using due by (simp add: due_ok_def)
    ultimately show thesis using in_list g q' by (intro that [of qs]) simp_all
  next
    case False
    then have n: "t \<notin> set qs" "t \<notin> set ts" using w(10) [OF t(1)] same(2) by simp_all
    have "timers_wf h' q' alloc timers current (t # qs) ts" using wf(1) False n t h by (auto simp: timers_wf_def q' h')
    then show thesis using due g q' by (intro that [of "t # qs"]) simp_all
  qed
qed

lemma timer_disarm_wf:
  assumes "timers_wf h q alloc timers current qs ts" "due_ok h q (set qs)"
  shows "timers_wf (h(t := (h t)\<lparr>is_active := False\<rparr>)) q alloc timers current qs ts" "due_ok (h(t := (h t)\<lparr>is_active := False\<rparr>)) q (set qs)"
  using assms by (auto simp: timers_wf_def due_ok_def)

lemma timer_delete_wf:
  assumes wf: "timers_wf h q alloc timers current qs ts" "due_ok h q (set qs)" and t: "t \<in> alloc" "t \<notin> set (scheduled_for_drop q)"
    and e: "timer_delete t (h, q) = (g, h', q')"
  shows "timers_wf h' q' alloc timers current qs ts" "due_ok h' q' (set qs)" "processing q' = processing q"
    "next_wakeup_at q' = (if g then 0 else next_wakeup_at q)"
proof -
  have h': "h' = h(t := (h t)\<lparr>is_active := False\<rparr>)" and q': "tq_head q' = tq_head q" "processing q' = processing q"
    "scheduled_for_drop q' = scheduled_for_drop q @ [t]" "next_wakeup_at q' = (if g then 0 else next_wakeup_at q)"
    using e by (auto simp: timer_delete_def Let_def split: if_splits)
  show "timers_wf h' q' alloc timers current qs ts" using wf(1) t by (auto simp: timers_wf_def h' q')
  show "due_ok h' q' (set qs)" using wf(2) by (auto simp: due_ok_def h' q')
  show "processing q' = processing q" "next_wakeup_at q' = (if g then 0 else next_wakeup_at q)" by (rule q')+
qed

lemma process_start_wf:
  assumes wf: "timers_wf h q alloc None None qs []" and e: "process_start q = (timers, q')"
  shows "timers_wf h q' alloc timers None [] qs" "due_ok h q' {}" "processing q'"
  using assms by (auto simp: process_start_def timers_wf_def due_ok_def)

lemma process_check_cases:
  assumes "process_check oc now t h = Some (run, timers, h')"
  obtains p where "h' = h(t := p)" "next_timer p = None" "\<not> enqueued p" "is_active p \<longrightarrow> is_active (h t)" "timers = next_timer (h t)"
    "run \<longleftrightarrow> is_active (h t) \<and> next_due (h t) \<le> now"
proof -
  have "h' = h(t := h' t) \<and> next_timer (h' t) = None \<and> \<not> enqueued (h' t) \<and> (is_active (h' t) \<longrightarrow> is_active (h t)) \<and> timers = next_timer (h t) \<and>
    (run \<longleftrightarrow> is_active (h t) \<and> next_due (h t) \<le> now)"
    using assms by (auto simp: process_check_def Let_def bind_eq_Some_conv split: if_splits)
  then show thesis by (intro that [of "h' t"]) simp_all
qed

lemma process_check_wf:
  assumes wf: "timers_wf h q alloc (Some t) None qs (t # ts)" "due_ok h q (set qs)" and e: "process_check oc now t h = Some (run, timers, h')"
  shows "timers_wf h' q alloc timers (Some t) qs ts" "due_ok h' q (set qs)" "run \<longleftrightarrow> is_active (h t) \<and> next_due (h t) \<le> now"
proof -
  note w = timers_wfD [OF wf(1)]
  have t: "t \<in> alloc" "t \<notin> set qs" "t \<notin> set ts" using w(3-7) by auto
  obtain p where h: "h' = h(t := p)" "next_timer p = None" "\<not> enqueued p" "is_active p \<longrightarrow> is_active (h t)" and tm: "timers = next_timer (h t)"
    and run: "run \<longleftrightarrow> is_active (h t) \<and> next_due (h t) \<le> now"
    by (rule process_check_cases [OF e])
  show "timers_wf h' q alloc timers (Some t) qs ts" using wf(1) t h(2-4) by (auto simp: timers_wf_def h(1) tm)
  show "due_ok h' q (set qs)" using wf(2) t(2) by (auto simp: due_ok_def h(1))
  show "run \<longleftrightarrow> is_active (h t) \<and> next_due (h t) \<le> now" by (rule run)
qed

lemma process_rearm_wf:
  assumes wf: "timers_wf h q alloc timers (Some t) qs ts" "due_ok h q (set qs)" and e: "process_rearm t (h, q) = (h', q')"
  obtains qs' where "timers_wf h' q' alloc timers None qs' ts" "due_ok h' q' (set qs')" "processing q' = processing q"
proof (cases "is_active (h t)")
  case True
  obtain g where en: "timer_enqueue t (h, q) = (g, h', q')" using e True by (cases "timer_enqueue t (h, q)") (simp add: process_rearm_def)
  have t: "t \<in> alloc" "t \<notin> set (scheduled_for_drop q)" using timers_wfD(8) [OF wf(1)] timers_wfD(14) [OF wf(1), of t] True by auto
  show thesis
  proof (rule timer_enqueue_wf [OF wf t refl refl _ en])
    fix qs' assume a: "timers_wf h' q' alloc timers (Some t) qs' ts" "due_ok h' q' (set qs')" "t \<in> set qs' \<union> set ts" "processing q' = processing q"
    have "timers_wf h' q' alloc timers None qs' ts" using a(1,3) by (auto simp: timers_wf_def)
    then show thesis using a(2,4) by (intro that [of qs'])
  qed simp
next
  case False
  then have "timers_wf h q alloc timers None qs ts" using wf(1) by (auto simp: timers_wf_def)
  then show thesis using False e wf(2) by (intro that [of qs]) (simp_all add: process_rearm_def)
qed

lemma dequeuedD:
  assumes "dequeued t found h h'"
  shows "is_active (h' y) = is_active (h y)" "next_due (h' y) = next_due (h y)" "enqueued (h' y) \<longleftrightarrow> enqueued (h y) \<and> \<not> (y = t \<and> found)"
proof -
  note d = assms [unfolded dequeued_def, rule_format, of y]
  show "is_active (h' y) = is_active (h y)" "next_due (h' y) = next_due (h y)" "enqueued (h' y) \<longleftrightarrow> enqueued (h y) \<and> \<not> (y = t \<and> found)"
    using arg_cong [OF d, of is_active] arg_cong [OF d, of next_due] arg_cong [OF d, of enqueued] by (auto split: if_splits)
qed

lemma timer_dequeue_wf:
  assumes wf: "timers_wf h q alloc None None qs []" "due_ok h q (set qs)" and t: "\<not> is_active (h t)" "t \<notin> set (scheduled_for_drop q)"
  obtains found h' q' where "timer_dequeue t (h, q) = Some (found, h', q')" "timers_wf h' q' (alloc - {t}) None None (remove1 t qs) []"
    "due_ok h' q' (set (remove1 t qs))" "q' = q\<lparr>tq_head := tq_head q'\<rparr>" "\<And>y. is_active (h' y) = is_active (h y)"
proof -
  note w = timers_wfD [OF wf(1)]
  have "timer_path h (link_to h q None) qs" using w(1) by (simp add: link_to_def)
  from dequeue_loop_ok [OF this w(3), of t] obtain h' q' where d: "dequeue_loop t None (tq_head q) h q = Some (t \<in> set qs, h', q')"
    "timer_path h' (tq_head q') (remove1 t qs)" "dequeued t (t \<in> set qs) h h'" "q' = q\<lparr>tq_head := tq_head q'\<rparr>" by (auto simp: link_to_def)
  note f = dequeuedD [OF d(3)] and q' = arg_cong [OF d(4), of scheduled_for_drop] arg_cong [OF d(4), of next_wakeup_at]
  have "timers_wf h' q' (alloc - {t}) None None (remove1 t qs) []"
    using wf(1) d(2) t w(3) q'(1) by (auto simp: timers_wf_def f)
  moreover have "due_ok h' q' (set (remove1 t qs))" using wf(2) w(3) q'(2) by (auto simp: due_ok_def f)
  ultimately show thesis using d(1,4) f(1) by (intro that [of "t \<in> set qs" h' q']) (simp_all add: timer_dequeue_def)
qed

lemma drop_timers_ok:
  assumes "timers_wf h q alloc None None qs []" "due_ok h q (set qs)" "scheduled_for_drop q = []" "set ds \<subseteq> alloc" "distinct ds" "\<forall>t \<in> set ds. \<not> is_active (h t)"
  shows "\<exists>h' q' qs'. drop_timers ds alloc (h, q) = Some (alloc - set ds, h', q') \<and> timers_wf h' q' (alloc - set ds) None None qs' [] \<and>
    due_ok h' q' (set qs') \<and> next_wakeup_at q' = next_wakeup_at q \<and> scheduled_for_drop q' = []"
  using assms
proof (induction ds arbitrary: h q alloc qs)
  case (Cons t ds)
  have t: "\<not> is_active (h t)" "t \<notin> set (scheduled_for_drop q)" using Cons.prems by simp_all
  show ?case
  proof (rule timer_dequeue_wf [OF Cons.prems(1,2) t])
    fix found h1 q1 assume d: "timer_dequeue t (h, q) = Some (found, h1, q1)" "timers_wf h1 q1 (alloc - {t}) None None (remove1 t qs) []"
      "due_ok h1 q1 (set (remove1 t qs))" "q1 = q\<lparr>tq_head := tq_head q1\<rparr>" "\<And>y. is_active (h1 y) = is_active (h y)"
    have q1: "scheduled_for_drop q1 = []" "next_wakeup_at q1 = next_wakeup_at q"
      using arg_cong [OF d(4), of scheduled_for_drop] arg_cong [OF d(4), of next_wakeup_at] Cons.prems(3) by simp_all
    have ds: "set ds \<subseteq> alloc - {t}" "distinct ds" "\<forall>t \<in> set ds. \<not> is_active (h1 t)" using Cons.prems(4-6) d(5) by auto
    have al: "alloc - {t} - set ds = alloc - set (t # ds)" by auto
    from Cons.IH [OF d(2,3) q1(1) ds] q1(2) d(1) show ?thesis unfolding al by auto
  qed
qed auto

lemma process_finish_ok:
  assumes "timers_wf h q alloc None None qs []" "due_ok h q (set qs)"
  obtains h' q' qs' alloc' where "process_finish alloc (h, q) = Some (next_wakeup_at q', alloc', h', q')" "timers_wf h' q' alloc' None None qs' []"
    "due_ok h' q' (set qs')" "\<not> processing q'"
proof -
  let ?q = "q\<lparr>scheduled_for_drop := []\<rparr>" and ?ds = "rev (scheduled_for_drop q)"
  note w = timers_wfD [OF assms(1)]
  have wf: "timers_wf h ?q alloc None None qs []" "due_ok h ?q (set qs)" using assms by (auto simp: timers_wf_def due_ok_def)
  have "\<exists>h' q' qs'. drop_timers ?ds alloc (h, ?q) = Some (alloc - set ?ds, h', q') \<and> timers_wf h' q' (alloc - set ?ds) None None qs' [] \<and>
    due_ok h' q' (set qs') \<and> next_wakeup_at q' = next_wakeup_at ?q \<and> scheduled_for_drop q' = []"
    by (rule drop_timers_ok [OF wf]) (use w(12-14) in auto)
  then obtain h' q' qs' where d: "drop_timers ?ds alloc (h, ?q) = Some (alloc - set ?ds, h', q')" "timers_wf h' q' (alloc - set ?ds) None None qs' []"
    "due_ok h' q' (set qs')" by blast
  let ?q' = "q'\<lparr>processing := False\<rparr>"
  have "timers_wf h' ?q' (alloc - set ?ds) None None qs' []" "due_ok h' ?q' (set qs')" using d(2,3) by (auto simp: timers_wf_def due_ok_def)
  then show thesis using d(1) by (intro that [of ?q' "alloc - set ?ds" h' qs']) (simp_all add: process_finish_def)
qed

section \<open>The timer task and its callers\<close>

text \<open>
  Where the timer task is: taking the semaphore, at the start without a deadline; about to process the
  queue; before a timer of the detached list; before the callback of a timer; after it.
\<close>

datatype TimerTask =
    TimerWait "u64 option"
  | TimerProcess
  | TimerCheck "TimerPtr option"
  | TimerCall TimerPtr "TimerPtr option"
  | TimerRearm TimerPtr "TimerPtr option"

text \<open>
  \<open>ts_alloc\<close> are the timers in memory, \<open>ts_gives\<close> the callers that have left the critical section of the queue
  and still have to give its semaphore.
\<close>

record TimerSystem =
  ts_heap :: timer_heap
  ts_queue :: TimerQueueInner
  ts_alloc :: "TimerPtr set"
  ts_task :: TimerTask
  ts_gives :: nat
  ts_sem :: SemaphoreInner
  ts_kernel :: "AnyTimer Kernel"

definition timer_task_step :: "bool \<Rightarrow> Config \<Rightarrow> Cpu \<Rightarrow> u64 \<Rightarrow> TimerSystem \<Rightarrow> TimerSystem option" where
  "timer_task_step oc cfg cpu now s = (case ts_task s of
      TimerWait deadline \<Rightarrow>
        Option.bind (take_round oc cfg cpu now deadline (ts_sem s) (ts_kernel s)) (\<lambda>(taken, sem, k).
        Some (s\<lparr>ts_task := (if taken then TimerProcess else TimerWait deadline), ts_sem := sem, ts_kernel := k\<rparr>))
    | TimerProcess \<Rightarrow> (case process_start (ts_queue s) of (timers, q) \<Rightarrow> Some (s\<lparr>ts_task := TimerCheck timers, ts_queue := q\<rparr>))
    | TimerCheck (Some t) \<Rightarrow>
        Option.bind (process_check oc now t (ts_heap s)) (\<lambda>(run, timers, h).
        Some (s\<lparr>ts_task := (if run then TimerCall t timers else TimerRearm t timers), ts_heap := h\<rparr>))
    | TimerCheck None \<Rightarrow>
        Option.bind (process_finish (ts_alloc s) (ts_heap s, ts_queue s)) (\<lambda>(wakeup, alloc, h, q).
        Some (s\<lparr>ts_task := TimerWait (Some wakeup), ts_alloc := alloc, ts_heap := h, ts_queue := q\<rparr>))
    | TimerCall t timers \<Rightarrow> Some (s\<lparr>ts_task := TimerRearm t timers\<rparr>)
    | TimerRearm t timers \<Rightarrow> (case process_rearm t (ts_heap s, ts_queue s) of (h, q) \<Rightarrow>
        Some (s\<lparr>ts_task := TimerCheck timers, ts_heap := h, ts_queue := q\<rparr>)))"

definition deadline_time :: "u64 option \<Rightarrow> u64" where
  "deadline_time deadline = (case deadline of None \<Rightarrow> U64_MAX | Some d \<Rightarrow> d)"

definition task_ready :: "Cpu \<Rightarrow> TimerSystem \<Rightarrow> bool" where
  "task_ready cpu s = (case ts_task s of
      TimerWait deadline \<Rightarrow> is_running (ts_kernel s) cpu \<and> threads (ts_kernel s) (sem_waiting (ts_sem s)) = None
    | _ \<Rightarrow> True)"

text \<open>A timer that its owner may still use.\<close>

definition usable_timer :: "TimerSystem \<Rightarrow> TimerPtr \<Rightarrow> bool" where
  "usable_timer s t \<longleftrightarrow> t \<in> ts_alloc s \<and> t \<notin> set (scheduled_for_drop (ts_queue s))"

definition caller_gives :: "bool \<Rightarrow> TimerSystem \<Rightarrow> TimerSystem" where
  "caller_gives g s = s\<lparr>ts_gives := ts_gives s + (if g then 1 else 0)\<rparr>"

inductive timer_reachable :: "bool \<Rightarrow> nat \<Rightarrow> ThreadConfig \<Rightarrow> Config \<Rightarrow> bool \<Rightarrow> TimerSystem \<Rightarrow> bool" for h2 rate tc cfg oc where
  init: "reachable h2 rate tc cfg k \<Longrightarrow> waiters k w = {} \<Longrightarrow> sem_create (CountingKind 1 0) w k = (sem, k') \<Longrightarrow>
    timer_reachable h2 rate tc cfg oc \<lparr>ts_heap = h, ts_queue = timer_queue_inner_new, ts_alloc = {}, ts_task = TimerWait None, ts_gives = 0, ts_sem = sem, ts_kernel = k'\<rparr>"
| create: "timer_reachable h2 rate tc cfg oc s \<Longrightarrow> t \<notin> ts_alloc s \<Longrightarrow>
    timer_reachable h2 rate tc cfg oc (s\<lparr>ts_heap := (ts_heap s)(t := soft_timer_new), ts_alloc := insert t (ts_alloc s)\<rparr>)"
| arm: "timer_reachable h2 rate tc cfg oc s \<Longrightarrow> usable_timer s t \<Longrightarrow> timer_arm oc now timeout repeat t (ts_heap s, ts_queue s) = Some (g, h, q) \<Longrightarrow>
    timer_reachable h2 rate tc cfg oc (caller_gives g (s\<lparr>ts_heap := h, ts_queue := q\<rparr>))"
| disarm: "timer_reachable h2 rate tc cfg oc s \<Longrightarrow> usable_timer s t \<Longrightarrow> timer_disarm t (ts_heap s, ts_queue s) = (h, q) \<Longrightarrow>
    timer_reachable h2 rate tc cfg oc (s\<lparr>ts_heap := h, ts_queue := q\<rparr>)"
| delete: "timer_reachable h2 rate tc cfg oc s \<Longrightarrow> usable_timer s t \<Longrightarrow> timer_delete t (ts_heap s, ts_queue s) = (g, h, q) \<Longrightarrow>
    timer_reachable h2 rate tc cfg oc (caller_gives g (s\<lparr>ts_heap := h, ts_queue := q\<rparr>))"
| give: "timer_reachable h2 rate tc cfg oc s \<Longrightarrow> ts_gives s = Suc n \<Longrightarrow> sem_give cfg cpu (ts_sem s) (ts_kernel s) = Some (b, sem, k) \<Longrightarrow>
    timer_reachable h2 rate tc cfg oc (s\<lparr>ts_gives := n, ts_sem := sem, ts_kernel := k\<rparr>)"
| task: "timer_reachable h2 rate tc cfg oc s \<Longrightarrow> task_ready cpu s \<Longrightarrow> timer_task_step oc cfg cpu now s = Some s' \<Longrightarrow> timer_reachable h2 rate tc cfg oc s'"
| timeout: "timer_reachable h2 rate tc cfg oc s \<Longrightarrow> ts_task s = TimerWait deadline \<Longrightarrow> deadline_time deadline < now \<Longrightarrow>
    timer_reachable h2 rate tc cfg oc (s\<lparr>ts_task := TimerProcess\<rparr>)"
| other: "timer_reachable h2 rate tc cfg oc s \<Longrightarrow> allowed tc cfg op (ts_kernel s) \<Longrightarrow> waits_in op \<noteq> Some (sem_waiting (ts_sem s)) \<Longrightarrow>
    exec_op tc cfg (any_timer h2) op (ts_kernel s) = Some k \<Longrightarrow> timer_reachable h2 rate tc cfg oc (s\<lparr>ts_kernel := k\<rparr>)"

section \<open>No timer is forgotten\<close>

fun task_list :: "TimerTask \<Rightarrow> TimerPtr option" where
  "task_list (TimerCheck timers) = timers"
| "task_list (TimerCall t timers) = timers"
| "task_list (TimerRearm t timers) = timers"
| "task_list _ = None"

fun task_timer :: "TimerTask \<Rightarrow> TimerPtr option" where
  "task_timer (TimerCall t timers) = Some t"
| "task_timer (TimerRearm t timers) = Some t"
| "task_timer _ = None"

definition lists_inv :: "TimerSystem \<Rightarrow> bool" where
  "lists_inv s \<longleftrightarrow> (\<exists>qs ts. timers_wf (ts_heap s) (ts_queue s) (ts_alloc s) (task_list (ts_task s)) (task_timer (ts_task s)) qs ts \<and>
     due_ok (ts_heap s) (ts_queue s) (set qs))"

text \<open>While the task waits, an earlier wakeup than its deadline comes with a semaphore that was given or is about to be.\<close>

definition wake_inv :: "bool \<Rightarrow> nat \<Rightarrow> ThreadConfig \<Rightarrow> Config \<Rightarrow> TimerSystem \<Rightarrow> bool" where
  "wake_inv h2 rate tc cfg s \<longleftrightarrow> reachable h2 rate tc cfg (ts_kernel s) \<and>
     (\<exists>c w. ts_sem s = Counting c 1 w \<and> c \<le> 1 \<and> (c > 0 \<longrightarrow> waiters (ts_kernel s) w = {}) \<and>
        (\<forall>d. ts_task s = TimerWait d \<and> next_wakeup_at (ts_queue s) < deadline_time d \<longrightarrow> ts_gives s > 0 \<or> c > 0))"

lemma lists_invI: "timers_wf (ts_heap s) (ts_queue s) (ts_alloc s) (task_list (ts_task s)) (task_timer (ts_task s)) qs ts \<Longrightarrow>
  due_ok (ts_heap s) (ts_queue s) (set qs) \<Longrightarrow> lists_inv s"
  by (auto simp: lists_inv_def)

lemma task_lists_step:
  assumes inv: "lists_inv s" and e: "timer_task_step oc cfg cpu now s = Some s'"
  shows "lists_inv s'"
proof -
  from inv obtain qs ts where wf: "timers_wf (ts_heap s) (ts_queue s) (ts_alloc s) (task_list (ts_task s)) (task_timer (ts_task s)) qs ts"
    "due_ok (ts_heap s) (ts_queue s) (set qs)" by (auto simp: lists_inv_def)
  show ?thesis
  proof (cases "ts_task s")
    case (TimerWait d)
    then show ?thesis using e wf by (auto simp: timer_task_step_def bind_eq_Some_conv intro: lists_invI)
  next
    case TimerProcess
    then have "ts = []" using timers_wfD(2) [OF wf(1)] by (cases ts) simp_all
    then have wf': "timers_wf (ts_heap s) (ts_queue s) (ts_alloc s) None None qs []" using wf(1) TimerProcess by simp
    obtain timers q where p: "process_start (ts_queue s) = (timers, q)" by (cases "process_start (ts_queue s)")
    from process_start_wf [OF wf' p] show ?thesis using e TimerProcess p by (auto simp: timer_task_step_def intro!: lists_invI)
  next
    case (TimerCheck timers)
    show ?thesis
    proof (cases timers)
      case None
      then have "ts = []" using timers_wfD(2) [OF wf(1)] TimerCheck by (cases ts) simp_all
      then have wf': "timers_wf (ts_heap s) (ts_queue s) (ts_alloc s) None None qs []" using wf(1) TimerCheck None by simp
      show ?thesis
        by (rule process_finish_ok [OF wf' wf(2)]) (use e TimerCheck None in \<open>auto simp: timer_task_step_def intro!: lists_invI\<close>)
    next
      case (Some t)
      then obtain ts' where ts: "ts = t # ts'" using timers_wfD(2) [OF wf(1)] TimerCheck by (cases ts) simp_all
      from e Some TimerCheck obtain run timers' h where c: "process_check oc now t (ts_heap s) = Some (run, timers', h)"
        and s': "s' = s\<lparr>ts_task := (if run then TimerCall t timers' else TimerRearm t timers'), ts_heap := h\<rparr>"
        by (auto simp: timer_task_step_def bind_eq_Some_conv)
      have wf': "timers_wf (ts_heap s) (ts_queue s) (ts_alloc s) (Some t) None qs (t # ts')" using wf(1) TimerCheck Some ts by simp
      from process_check_wf [OF wf' wf(2) c] show ?thesis unfolding s' by (intro lists_invI [of _ qs ts']) simp_all
    qed
  next
    case (TimerCall t timers)
    then show ?thesis using e wf by (auto simp: timer_task_step_def intro: lists_invI)
  next
    case (TimerRearm t timers)
    obtain h q where p: "process_rearm t (ts_heap s, ts_queue s) = (h, q)" by (cases "process_rearm t (ts_heap s, ts_queue s)")
    have wf': "timers_wf (ts_heap s) (ts_queue s) (ts_alloc s) timers (Some t) qs ts" using wf(1) TimerRearm by simp
    show ?thesis
      by (rule process_rearm_wf [OF wf' wf(2) p]) (use e TimerRearm p in \<open>auto simp: timer_task_step_def intro: lists_invI\<close>)
  qed
qed

lemma task_step_ok:
  assumes inv: "lists_inv s" "wake_inv h2 rate tc cfg s" and ready: "task_ready cpu s" and oc: "\<not> oc"
  shows "\<exists>s'. timer_task_step oc cfg cpu now s = Some s'"
proof -
  from inv(1) obtain qs ts where wf: "timers_wf (ts_heap s) (ts_queue s) (ts_alloc s) (task_list (ts_task s)) (task_timer (ts_task s)) qs ts"
    "due_ok (ts_heap s) (ts_queue s) (set qs)" by (auto simp: lists_inv_def)
  show ?thesis
  proof (cases "ts_task s")
    case (TimerWait d)
    from inv(2) obtain c w where k: "reachable h2 rate tc cfg (ts_kernel s)" "ts_sem s = Counting c 1 w" by (auto simp: wake_inv_def)
    with ready TimerWait have "is_running (ts_kernel s) cpu" "threads (ts_kernel s) w = None" by (simp_all add: task_ready_def)
    then show ?thesis
      by (rule counting_take_round [OF k(1), where oc = oc and now = now and deadline = d and c = c and m = 1]) (simp add: timer_task_step_def TimerWait k(2))
  next
    case (TimerCheck timers)
    show ?thesis
    proof (cases timers)
      case None
      then have "ts = []" using timers_wfD(2) [OF wf(1)] TimerCheck by (cases ts) simp_all
      then have wf': "timers_wf (ts_heap s) (ts_queue s) (ts_alloc s) None None qs []" using wf(1) TimerCheck None by simp
      show ?thesis by (rule process_finish_ok [OF wf' wf(2)]) (simp add: timer_task_step_def TimerCheck None)
    next
      case (Some t)
      then show ?thesis using oc TimerCheck by (auto simp: timer_task_step_def process_check_def Let_def u64_plus_def)
    qed
  qed (simp_all add: timer_task_step_def split_beta)
qed

lemma wake_invD:
  assumes "wake_inv h2 rate tc cfg s"
  obtains c w where "reachable h2 rate tc cfg (ts_kernel s)" "ts_sem s = Counting c 1 w" "c \<le> 1" "c > 0 \<Longrightarrow> waiters (ts_kernel s) w = {}"
    "\<And>d. ts_task s = TimerWait d \<Longrightarrow> next_wakeup_at (ts_queue s) < deadline_time d \<Longrightarrow> ts_gives s > 0 \<or> c > 0"
  using assms by (auto simp: wake_inv_def)

lemma wake_inv_task:
  assumes "wake_inv h2 rate tc cfg s" "ts_kernel s' = ts_kernel s" "ts_sem s' = ts_sem s"
    "\<And>d. ts_task s' = TimerWait d \<Longrightarrow> deadline_time d \<le> next_wakeup_at (ts_queue s')"
  shows "wake_inv h2 rate tc cfg s'"
  by (rule wake_invD [OF assms(1)]) (use assms(2-4) in \<open>fastforce simp: wake_inv_def\<close>)

text \<open>A caller that lowers the wakeup has to give the semaphore.\<close>

lemma wake_inv_caller:
  assumes "wake_inv h2 rate tc cfg s" "g \<or> next_wakeup_at q = next_wakeup_at (ts_queue s)"
  shows "wake_inv h2 rate tc cfg (caller_gives g (s\<lparr>ts_heap := h, ts_queue := q\<rparr>))"
  by (rule wake_invD [OF assms(1)]) (use assms(2) in \<open>auto simp: wake_inv_def caller_gives_def\<close>)

lemma wake_inv_give:
  assumes inv: "wake_inv h2 rate tc cfg s" and e: "sem_give cfg cpu (ts_sem s) (ts_kernel s) = Some (b, sem, k)"
  shows "wake_inv h2 rate tc cfg (s\<lparr>ts_gives := n, ts_sem := sem, ts_kernel := k\<rparr>)"
proof (rule wake_invD [OF inv])
  fix c w assume s: "reachable h2 rate tc cfg (ts_kernel s)" "ts_sem s = Counting c 1 w" "c \<le> 1" "c > 0 \<Longrightarrow> waiters (ts_kernel s) w = {}"
  show ?thesis
  proof (cases "c < 1")
    case True
    then have c: "c = 0" by (simp add: word_less_nat_alt unat_eq_0)
    show ?thesis
      by (rule counting_give [OF s(1) True, where cpu = cpu and w = w]) (use e s(2) c in \<open>auto simp: wake_inv_def\<close>)
  next
    case False
    then have "c > 0" by (simp add: word_less_nat_alt)
    then have "sem = Counting c 1 w" "k = ts_kernel s" "c > 0" using e s(2) False by (auto simp: sem_give_def sem_try_give_def)
    then show ?thesis using s(1,3,4) by (auto simp: wake_inv_def)
  qed
qed

lemma wake_inv_step:
  assumes inv: "lists_inv s" "wake_inv h2 rate tc cfg s" and ready: "task_ready cpu s" and e: "timer_task_step oc cfg cpu now s = Some s'"
  shows "wake_inv h2 rate tc cfg s'"
proof (cases "ts_task s")
  case (TimerWait d)
  show ?thesis
  proof (rule wake_invD [OF inv(2)])
    fix c w assume s: "reachable h2 rate tc cfg (ts_kernel s)" "ts_sem s = Counting c 1 w" "c \<le> 1" "c > 0 \<Longrightarrow> waiters (ts_kernel s) w = {}"
      "\<And>d. ts_task s = TimerWait d \<Longrightarrow> next_wakeup_at (ts_queue s) < deadline_time d \<Longrightarrow> ts_gives s > 0 \<or> c > 0"
    have run: "is_running (ts_kernel s) cpu" "threads (ts_kernel s) w = None" using ready TimerWait s(2) by (simp_all add: task_ready_def)
    show ?thesis
    proof (rule counting_take_round [OF s(1) run, of oc now d c 1])
      fix k1 assume t: "take_round oc cfg cpu now d (Counting c 1 w) (ts_kernel s) = Some (c > 0, Counting (if c > 0 then c - 1 else c) 1 w, k1)"
        "reachable h2 rate tc cfg k1"
      have s': "s' = s\<lparr>ts_task := (if c > 0 then TimerProcess else TimerWait d), ts_sem := Counting (if c > 0 then c - 1 else c) 1 w, ts_kernel := k1\<rparr>"
        using e t(1) TimerWait s(2) by (simp add: timer_task_step_def)
      have "c = 1" if "c > 0" by (rule u32_dec_one [OF that s(3)])
      then show ?thesis using s(3,5) t(2) TimerWait by (auto simp: wake_inv_def s')
    qed
  qed
next
  case TimerProcess
  then show ?thesis using e by (intro wake_inv_task [OF inv(2)]) (auto simp: timer_task_step_def process_start_def)
next
  case (TimerCheck timers)
  show ?thesis
  proof (cases timers)
    case None
    then show ?thesis using e TimerCheck
      by (intro wake_inv_task [OF inv(2)]) (auto simp: timer_task_step_def process_finish_def bind_eq_Some_conv deadline_time_def)
  next
    case (Some t)
    then show ?thesis using e TimerCheck
      by (intro wake_inv_task [OF inv(2)]) (auto simp: timer_task_step_def bind_eq_Some_conv split: if_splits)
  qed
next
  case (TimerCall t timers)
  then show ?thesis using e by (intro wake_inv_task [OF inv(2)]) (auto simp: timer_task_step_def)
next
  case (TimerRearm t timers)
  then show ?thesis using e by (intro wake_inv_task [OF inv(2)]) (auto simp: timer_task_step_def split_beta)
qed

lemma lists_inv_arm:
  assumes inv: "lists_inv s" and t: "usable_timer s t" and e: "timer_arm oc now timeout repeat t (ts_heap s, ts_queue s) = Some (g, h, q)"
  shows "lists_inv (caller_gives g (s\<lparr>ts_heap := h, ts_queue := q\<rparr>))" "g \<or> next_wakeup_at q = next_wakeup_at (ts_queue s)"
proof -
  from inv obtain qs ts where wf: "timers_wf (ts_heap s) (ts_queue s) (ts_alloc s) (task_list (ts_task s)) (task_timer (ts_task s)) qs ts"
    "due_ok (ts_heap s) (ts_queue s) (set qs)" by (auto simp: lists_inv_def)
  from e obtain due where d: "timer_enqueue t ((ts_heap s)(t := (ts_heap s t)\<lparr>is_active := True, next_due := due, period := timeout, periodic := repeat\<rparr>), ts_queue s) = (g, h, q)"
    by (auto simp: timer_arm_def)
  have t': "t \<in> ts_alloc s" "t \<notin> set (scheduled_for_drop (ts_queue s))" using t by (simp_all add: usable_timer_def)
  have "lists_inv (caller_gives g (s\<lparr>ts_heap := h, ts_queue := q\<rparr>)) \<and> (g \<or> next_wakeup_at q = next_wakeup_at (ts_queue s))"
    by (rule timer_enqueue_wf [OF wf t' _ _ refl d]) (auto simp: caller_gives_def min_def intro: lists_invI)
  then show "lists_inv (caller_gives g (s\<lparr>ts_heap := h, ts_queue := q\<rparr>))" "g \<or> next_wakeup_at q = next_wakeup_at (ts_queue s)" by simp_all
qed

lemma lists_inv_delete:
  assumes inv: "lists_inv s" and t: "usable_timer s t" and e: "timer_delete t (ts_heap s, ts_queue s) = (g, h, q)"
  shows "lists_inv (caller_gives g (s\<lparr>ts_heap := h, ts_queue := q\<rparr>))" "g \<or> next_wakeup_at q = next_wakeup_at (ts_queue s)"
proof -
  from inv obtain qs ts where wf: "timers_wf (ts_heap s) (ts_queue s) (ts_alloc s) (task_list (ts_task s)) (task_timer (ts_task s)) qs ts"
    "due_ok (ts_heap s) (ts_queue s) (set qs)" by (auto simp: lists_inv_def)
  have t': "t \<in> ts_alloc s" "t \<notin> set (scheduled_for_drop (ts_queue s))" using t by (simp_all add: usable_timer_def)
  note d = timer_delete_wf [OF wf t' e]
  show "lists_inv (caller_gives g (s\<lparr>ts_heap := h, ts_queue := q\<rparr>))" using d(1,2) by (intro lists_invI [of _ qs ts]) (simp_all add: caller_gives_def)
  show "g \<or> next_wakeup_at q = next_wakeup_at (ts_queue s)" using d(4) by simp
qed

lemma lists_inv_create:
  assumes "lists_inv s" "t \<notin> ts_alloc s"
  shows "lists_inv (s\<lparr>ts_heap := (ts_heap s)(t := soft_timer_new), ts_alloc := insert t (ts_alloc s)\<rparr>)"
proof -
  from assms(1) obtain qs ts where wf: "timers_wf (ts_heap s) (ts_queue s) (ts_alloc s) (task_list (ts_task s)) (task_timer (ts_task s)) qs ts"
    "due_ok (ts_heap s) (ts_queue s) (set qs)" by (auto simp: lists_inv_def)
  have n: "t \<notin> set qs" "t \<notin> set ts" "t \<notin> set (scheduled_for_drop (ts_queue s))" using assms(2) timers_wfD(6,7,13) [OF wf(1)] by auto
  show ?thesis using wf n assms(2) by (intro lists_invI [of _ qs ts]) (auto simp: timers_wf_def due_ok_def soft_timer_new_def)
qed

lemma lists_inv_disarm:
  assumes "lists_inv s" "timer_disarm t (ts_heap s, ts_queue s) = (h, q)"
  shows "lists_inv (s\<lparr>ts_heap := h, ts_queue := q\<rparr>)" "q = ts_queue s"
proof -
  from assms(1) obtain qs ts where wf: "timers_wf (ts_heap s) (ts_queue s) (ts_alloc s) (task_list (ts_task s)) (task_timer (ts_task s)) qs ts"
    "due_ok (ts_heap s) (ts_queue s) (set qs)" by (auto simp: lists_inv_def)
  have d: "h = (ts_heap s)(t := (ts_heap s t)\<lparr>is_active := False\<rparr>)" "q = ts_queue s" using assms(2) by (simp_all add: timer_disarm_def)
  show "lists_inv (s\<lparr>ts_heap := h, ts_queue := q\<rparr>)" using timer_disarm_wf [OF wf, of t] d by (intro lists_invI [of _ qs ts]) simp_all
  show "q = ts_queue s" by (rule d)
qed

lemma lists_inv_task: "lists_inv s \<Longrightarrow> ts_task s = TimerWait d \<Longrightarrow> lists_inv (s\<lparr>ts_task := TimerProcess\<rparr>)"
  by (simp add: lists_inv_def)

lemma timer_reachable_inv: "timer_reachable h2 rate tc cfg oc s \<Longrightarrow> lists_inv s \<and> wake_inv h2 rate tc cfg s"
proof (induction rule: timer_reachable.induct)
  case (init k w sem k' h)
  then have "k' = k" "sem = Counting 0 1 w" by (auto intro: sem_create_same simp: sem_create_def new_counting_def)
  with init show ?case
    by (auto simp: lists_inv_def timers_wf_def due_ok_def wake_inv_def timer_queue_inner_new_def deadline_time_def intro!: exI [of _ "[]"])
next
  case (create s t)
  then show ?case using lists_inv_create wake_inv_def by auto
next
  case (arm s t now timeout repeat g h q)
  then show ?case using lists_inv_arm [OF _ arm(2,3)] wake_inv_caller by blast
next
  case (disarm s t h q)
  then show ?case using lists_inv_disarm [OF _ disarm(3)] wake_inv_def by auto
next
  case (delete s t g h q)
  then show ?case using lists_inv_delete [OF _ delete(2,3)] wake_inv_caller by blast
next
  case (give s n cpu b sem k)
  then show ?case using wake_inv_give [OF _ give(3)] by (auto simp: lists_inv_def)
next
  case (task s cpu now s')
  then show ?case using task_lists_step [OF _ task(3)] wake_inv_step [OF _ _ task(2,3)] by blast
next
  case (timeout s d now)
  then show ?case using lists_inv_task by (auto intro: wake_inv_task)
next
  case (other s op k)
  then have inv: "lists_inv s" "wake_inv h2 rate tc cfg s" by simp_all
  have "wake_inv h2 rate tc cfg (s\<lparr>ts_kernel := k\<rparr>)"
  proof (rule wake_invD [OF inv(2)])
    fix c w assume s: "reachable h2 rate tc cfg (ts_kernel s)" "ts_sem s = Counting c 1 w" "c \<le> 1" "c > 0 \<Longrightarrow> waiters (ts_kernel s) w = {}"
      "\<And>d. ts_task s = TimerWait d \<Longrightarrow> next_wakeup_at (ts_queue s) < deadline_time d \<Longrightarrow> ts_gives s > 0 \<or> c > 0"
    have "waiters k w \<subseteq> waiters (ts_kernel s) w" using exec_waiters [OF s(1) other(2,4)] other(3) s(2) by simp
    then show ?thesis using s reachable.step [OF s(1) other(2,4)] by (auto simp: wake_inv_def)
  qed
  then show ?case using inv(1) by (simp add: lists_inv_def)
qed

section \<open>What follows for the timers\<close>

lemma waiting_task_due:
  assumes "lists_inv s" "ts_task s = TimerWait d" "t \<in> ts_alloc s" "is_active (ts_heap s t)"
  shows "next_wakeup_at (ts_queue s) \<le> next_due (ts_heap s t)"
proof -
  from assms(1) obtain qs ts where wf: "timers_wf (ts_heap s) (ts_queue s) (ts_alloc s) (task_list (ts_task s)) (task_timer (ts_task s)) qs ts"
    "due_ok (ts_heap s) (ts_queue s) (set qs)" by (auto simp: lists_inv_def)
  have "ts = []" using timers_wfD(2) [OF wf(1)] assms(2) by (cases ts) simp_all
  then show ?thesis using timers_wfD(11) [OF wf(1) assms(3,4)] wf(2) assms(2,4) by (simp add: due_ok_def)
qed

lemma lists_inv_alloc:
  assumes "lists_inv s"
  shows "set_option (task_list (ts_task s)) \<subseteq> ts_alloc s" "set_option (task_timer (ts_task s)) \<subseteq> ts_alloc s"
proof -
  from assms obtain qs ts where wf: "timers_wf (ts_heap s) (ts_queue s) (ts_alloc s) (task_list (ts_task s)) (task_timer (ts_task s)) qs ts"
    by (auto simp: lists_inv_def)
  show "set_option (task_list (ts_task s)) \<subseteq> ts_alloc s" using timers_wfD(2,7) [OF wf] by (cases ts) auto
  show "set_option (task_timer (ts_task s)) \<subseteq> ts_alloc s" by (rule timers_wfD(8) [OF wf])
qed

lemma task_step_call:
  assumes inv: "lists_inv s" and e: "timer_task_step oc cfg cpu now s = Some s'" and c: "ts_task s' = TimerCall t timers"
  shows "usable_timer s t" "is_active (ts_heap s t)" "next_due (ts_heap s t) \<le> now"
proof -
  from inv obtain qs ts where wf: "timers_wf (ts_heap s) (ts_queue s) (ts_alloc s) (task_list (ts_task s)) (task_timer (ts_task s)) qs ts"
    by (auto simp: lists_inv_def)
  from e c obtain timers' h where s: "ts_task s = TimerCheck (Some t)" "process_check oc now t (ts_heap s) = Some (True, timers', h)"
    by (auto simp: timer_task_step_def bind_eq_Some_conv split_beta split: TimerTask.splits option.splits if_splits)
  show a: "is_active (ts_heap s t)" "next_due (ts_heap s t) \<le> now" by (rule process_check_cases [OF s(2)]; simp)+
  then show "usable_timer s t" using lists_inv_alloc(1) [OF inv] s(1) timers_wfD(14) [OF wf, of t] by (auto simp: usable_timer_def)
qed

end
