(* ===== verification/Radio_Guarantees.thy ===== *)
theory Radio_Guarantees
  imports Radio_Queue Radio_Timer
begin

text \<open>
  What the semaphores, queues and software timers of \<open>esp-radio-rtos-driver\<close> guarantee on the scheduler of \<open>esp-rtos\<close>, for
  every interleaving of their callers with each other and with the scheduler.
\<close>

section \<open>Samples\<close>

lemma sample_no_waiters: "waiters sample_run i = {}"
proof -
  have m: "sample_mains ProCpu \<noteq> sample_mains AppCpu" by (simp add: sample_mains_def)
  have "waiters sample_start i = {}"
  proof (rule start_first_core_sys [OF m, where cfg = sample_config and T = "any_timer False" and timer = sample_timer and bottom = 4096 and words = 1024 and
      off = 60 and val = "0xDEEDBAAD" and mem = "\<lambda>_. 0"])
    fix k v assume k: "start_first_core sample_config (any_timer False) ProCpu sample_timer 4096 1024 60 0xDEEDBAAD (scheduler_new sample_mains (\<lambda>_. 0)) = Some k"
      "sys_ok k v" "map_option td_timer (time_driver k) = Some (tm_enable_interrupt (any_timer False) True sample_timer)" "v_all v = {sample_mains ProCpu}"
    have s: "sample_start = k" using k(1) by (simp add: sample_start_def)
    have g: "any.good False 1000000 sample_start v" using k(2,3) any.valid_ops sample_valid by (auto simp: s any.good_def any.timed_def)
    have pol: "policy_inv UNIV sample_start v" using any.good_sys [OF g] by (simp add: sys_inv_def)
    have "t \<notin> v_wait v i" for t
      using policy_invD(3,4) [OF pol] k(4) sample_main(1) by (fastforce simp: sample_mains_def)
    then show ?thesis using waiters_view [OF g, of i] by blast
  qed
  moreover have "waiters sample_run i \<subseteq> waiters sample_start i"
    by (rule exec_waiters [OF sample_start_facts(1) sample_allowed]) (simp_all add: sample_run_facts(1))
  ultimately show ?thesis by simp
qed

lemma sample_no_threads: "threads sample_run i = None"
  using sample_run_kept(1) by simp

section \<open>Semaphores\<close>

text \<open>C31. No wakeup is lost: in every state of a semaphore in a running system, a semaphore that could be taken, because its
counter is positive or the mutex has no owner, has no waiting task. The counter of a semaphore is at most its maximum; a
mutex that is not recursive is locked at most once, and exactly when it has an owner.\<close>

theorem semaphore_no_lost_wakeup:
  assumes "sem_reachable h2 rate tc cfg oc sem k"
  shows "(available sem \<longrightarrow> waiters k (sem_waiting sem) = {}) \<and> sem_wf oc sem"
  using sem_reachable_inv [OF assms] by (simp add: sem_inv_def)

lemma sample_semaphore:
  obtains k1 k2 where "take_round True sample_config ProCpu 0 None (Counting 0 1 300) sample_run = Some (False, Counting 0 1 300, k1)"
    "sem_give_from_isr sample_config (Counting 0 1 300) k1 = Some (True, Counting 1 1 300, k2)"
    "sem_reachable False 1000000 sample_threads sample_config True (Counting 1 1 300) k2"
proof -
  let ?sem = "Counting 0 1 300" and ?reach = "sem_reachable False 1000000 sample_threads sample_config True"
  have c: "sem_create (CountingKind 1 0) 300 sample_run = (?sem, sample_run)"
    using sem_create_same [OF sample_run_facts(2) sample_no_waiters, of "CountingKind 1 0" 300] by (simp add: sem_create_def new_counting_def)
  have r0: "?reach ?sem sample_run" by (rule sem_reachable.create [OF sample_run_facts(2) sample_no_waiters _ c]) simp
  show thesis
  proof (rule counting_take_round [OF sample_run_facts(2) sample_running sample_no_threads, of True 0 None 0 1])
    fix k1 assume t: "take_round True sample_config ProCpu 0 None ?sem sample_run = Some ((0 :: u32) > 0, Counting (if (0 :: u32) > 0 then 0 - 1 else 0) 1 300, k1)"
      "sample_reachable k1"
    have t': "take_round True sample_config ProCpu 0 None ?sem sample_run = Some (False, ?sem, k1)" using t(1) by simp
    have r1: "?reach ?sem k1" by (rule sem_reachable.take [OF r0 sample_running _ t']) (simp add: sample_no_threads)
    have lt: "(0 :: u32) < 1" by simp
    show thesis
    proof (rule counting_give [OF t(2) lt, of ProCpu 300])
      fix k2 assume g: "sem_give_from_isr sample_config ?sem k1 = Some (True, Counting (0 + 1) 1 300, k2)"
      then have g': "sem_give_from_isr sample_config ?sem k1 = Some (True, Counting 1 1 300, k2)" by simp
      show thesis by (rule that [OF t' g' sem_reachable.give_isr [OF r1 g']])
    qed
  qed
qed

theorem semaphore_no_lost_wakeup_witness:
  "\<exists>k1 k2. take_round True sample_config ProCpu 0 None (Counting 0 1 300) sample_run = Some (False, Counting 0 1 300, k1) \<and>
    sem_give_from_isr sample_config (Counting 0 1 300) k1 = Some (True, Counting 1 1 300, k2) \<and> waiters k2 300 = {}"
proof (rule sample_semaphore)
  fix k1 k2 assume s: "take_round True sample_config ProCpu 0 None (Counting 0 1 300) sample_run = Some (False, Counting 0 1 300, k1)"
    "sem_give_from_isr sample_config (Counting 0 1 300) k1 = Some (True, Counting 1 1 300, k2)"
    "sem_reachable False 1000000 sample_threads sample_config True (Counting 1 1 300) k2"
  from semaphore_no_lost_wakeup [OF s(3)] have "waiters k2 300 = {}" by (simp add: available_def)
  with s(1,2) show ?thesis by blast
qed

text \<open>C32. Priority inheritance: a task that fails to take a mutex leaves its owner with at least its own priority, so the owner is
not kept from running by tasks that are less important than the one that waits.\<close>

theorem mutex_inherits_priority:
  assumes "reachable h2 rate tc cfg k" "thread_pointer k cpu = Some t" "u \<noteq> isr_owner" "u \<noteq> t \<or> \<not> recursive"
  shows "\<exists>k'. sem_try_take oc cfg cpu (Mutex recursive (Some u) original locks w) k = Some (False, Mutex recursive (Some u) original locks w, k') \<and>
    reachable h2 rate tc cfg k' \<and> priority (tasks k t) \<le> priority (tasks k' u)"
proof (cases "task_priority u k < task_priority t k")
  case True
  show ?thesis
  proof (rule set_task_priority_ok [OF assms(1), of u "task_priority t k"])
    fix k' assume "set_task_priority cfg u (task_priority t k) k = Some k'" "reachable h2 rate tc cfg k'"
      "priority (tasks k' u) = priority_new (unat (task_priority t k))"
    then show ?thesis using True assms(2-4) priority_of_task_priority(1) [OF assms(1), of t]
      by (intro exI [of _ k']) (auto simp: sem_try_take_def owner_priority_def)
  qed
next
  case False
  then have "priority (tasks k t) \<le> priority (tasks k u)"
    using priority_of_task_priority(2) [OF assms(1)] by (simp add: word_less_nat_alt)
  then show ?thesis using False assms by (intro exI [of _ k]) (auto simp: sem_try_take_def owner_priority_def)
qed

lemma sample_pointer: "thread_pointer sample_run ProCpu = Some sample_task"
  using is_runningD [OF sample_running] by (auto simp: sample_task_def)

theorem mutex_inherits_priority_witness:
  "\<exists>k'. sem_try_take True sample_config ProCpu (Mutex True (Some (sample_task + 2)) 0 1 300) sample_run =
      Some (False, Mutex True (Some (sample_task + 2)) 0 1 300, k') \<and>
    sample_reachable k' \<and> priority (tasks sample_run sample_task) \<le> priority (tasks k' (sample_task + 2))"
  by (rule mutex_inherits_priority [OF sample_run_facts(2) sample_pointer]) (simp_all add: isr_owner_def)

text \<open>C33. The inherited priority ends with the mutex: a task takes a free mutex at once, and whenever it gives the mutex back, whatever
has happened to its priority in between, the mutex is free again, everybody who waited for it is woken, and the task has the priority it had when it
took the mutex.\<close>

theorem mutex_restores_priority:
  assumes "reachable h2 rate tc cfg k" "thread_pointer k cpu = Some t" "reachable h2 rate tc cfg k2" "thread_pointer k2 cpu2 = Some t"
  shows "\<exists>sem k3. sem_try_take oc cfg cpu (Mutex recursive None original 0 w) k = Some (True, sem, k) \<and>
    sem_give cfg cpu2 sem k2 = Some (True, Mutex recursive None (task_priority t k) 0 w, k3) \<and>
    priority (tasks k3 t) = priority (tasks k t) \<and> waiters k3 w = {}"
proof (rule set_task_priority_ok [OF assms(3), of t "task_priority t k"])
  fix k' assume p: "set_task_priority cfg t (task_priority t k) k2 = Some k'" "reachable h2 rate tc cfg k'"
    "priority (tasks k' t) = priority_new (unat (task_priority t k))"
  let ?sem = "Mutex recursive (Some t) (task_priority t k) 1 w"
  have one: "u32_inc oc 0 = Some 1" by (simp add: u32_inc_def)
  show ?thesis
  proof (rule notify_waiters [OF p(2), of w])
    fix k3 assume n: "notify cfg w k' = Some k3" "waiters k3 w = {}"
    have "priority (tasks k3 t) = priority (tasks k' t)" by (rule notify_priority [OF p(2) n(1)])
    then have pr: "priority (tasks k3 t) = priority (tasks k t)" using p(3) priority_of_task_priority(1) [OF assms(1), of t] by simp
    have "sem_try_take oc cfg cpu (Mutex recursive None original 0 w) k = Some (True, ?sem, k)" using assms(2) one by (simp add: sem_try_take_def)
    moreover have "sem_give cfg cpu2 ?sem k2 = Some (True, Mutex recursive None (task_priority t k) 0 w, k3)"
      using assms(4) p(1) n(1) by (simp add: sem_give_def sem_try_give_def sem_notify_def)
    ultimately show ?thesis using pr n(2) by blast
  qed
qed

theorem mutex_restores_priority_witness:
  "\<exists>sem k3. sem_try_take True sample_config ProCpu (Mutex False None 0 0 300) sample_run = Some (True, sem, sample_run) \<and>
    sem_give sample_config ProCpu sem sample_run = Some (True, Mutex False None (task_priority sample_task sample_run) 0 300, k3) \<and>
    priority (tasks k3 sample_task) = priority (tasks sample_run sample_task) \<and> waiters k3 300 = {}"
  by (rule mutex_restores_priority [OF sample_run_facts(2) sample_pointer sample_run_facts(2) sample_pointer])

text \<open>
  The rounds of a blocked \<open>take_with_deadline\<close> as the scheduler allows them: when a round runs, its task runs
  on that CPU, and what happens between two rounds keeps the semaphore and the scheduler in order.
\<close>

fun rounds_ok :: "bool \<Rightarrow> nat \<Rightarrow> ThreadConfig \<Rightarrow> Config \<Rightarrow> u32 \<Rightarrow> nat \<Rightarrow> AnyTimer round list \<Rightarrow> AnyTimer Kernel \<Rightarrow> bool" where
  "rounds_ok h2 rate tc cfg m w [] k \<longleftrightarrow> reachable h2 rate tc cfg k"
| "rounds_ok h2 rate tc cfg m w ((cpu, now, others, now') # rounds) k \<longleftrightarrow>
     reachable h2 rate tc cfg k \<and> is_running k cpu \<and> threads k w = None \<and>
     (\<forall>k1. reachable h2 rate tc cfg k1 \<longrightarrow>
        (\<exists>c k2. others (Counting 0 m w, k1) = (Counting c m w, k2) \<and> rounds_ok h2 rate tc cfg m w rounds k2))"

definition round_late :: "u64 option \<Rightarrow> 't round \<Rightarrow> bool" where
  "round_late deadline r = (case r of (cpu, now, others, now') \<Rightarrow> now' > (case deadline of None \<Rightarrow> U64_MAX | Some d \<Rightarrow> d))"





section \<open>Queues\<close>

text \<open>C36. No call to a queue panics or spoils the buffer: in every state that any number of senders, receivers, removers and
interrupt handlers reach, the next critical section of every call that may run returns, so nothing is written to a full buffer or read from an
empty one, and the buffer never holds more items than its capacity.\<close>

theorem queue_never_panics:
  assumes "queue_reachable h2 rate tc cfg oc q k (add_mset c M)" "queue_ready c cpu q k"
  shows "\<exists>c' q' k'. queue_step oc cfg cpu now c q k = Some (c', q', k') \<and> queue_reachable h2 rate tc cfg oc q' k' (add_mset c' M) \<and>
    length (ring_items (cq_inner q')) \<le> capacity (cq_inner q') \<and> capacity (cq_inner q') = capacity (cq_inner q)"
proof -
  from queue_step_ok [OF queue_reachable_inv [OF assms(1)] assms(2), of oc now] obtain c' q' k' where s: "queue_step oc cfg cpu now c q k = Some (c', q', k')"
    "queue_inv h2 rate tc cfg q' k' (add_mset c' M)" "ring_shape (cq_inner q') = ring_shape (cq_inner q)" by blast
  have "ring_wf (cq_inner q')" using s(2) by (auto simp: queue_inv_def q_state_def)
  then have "length (ring_items (cq_inner q')) \<le> capacity (cq_inner q')" by (simp add: ring_wf_def)
  then show ?thesis using s(1,3) queue_reachable.step [OF assms s(1)] by (auto simp: ring_shape_def)
qed

definition sample_queue :: CompatQueue where
  "sample_queue = fst (the (compat_queue_new True 2 4 300 400 sample_run))"

lemma sample_queue_facts: "queue_reachable False 1000000 sample_threads sample_config True sample_queue sample_run {#}" "item_size (cq_inner sample_queue) = 4"
  "ring_items (cq_inner sample_queue) = []"
proof -
  have n: "waiters sample_run 300 = {}" "waiters sample_run 400 = {}" by (rule sample_no_waiters)+
  have c: "snd (sem_create kind 300 sample_run) = sample_run" "snd (sem_create kind 400 sample_run) = sample_run" for kind
    using sem_create_same [OF sample_run_facts(2) n(1), of kind] sem_create_same [OF sample_run_facts(2) n(2), of kind] by (metis prod.collapse)+
  obtain q where q: "compat_queue_new True 2 4 300 400 sample_run = Some (q, sample_run)" "item_size (cq_inner q) = 4"
    by (simp add: compat_queue_new_def queue_inner_new_def usize_wrap_def split_beta c)
  then have "sample_queue = q" by (simp add: sample_queue_def)
  moreover have "queue_reachable False 1000000 sample_threads sample_config True q sample_run {#}"
    by (rule queue_reachable.create [OF sample_run_facts(2) n _ _ _ _ q(1)]) simp_all
  moreover have "ring_items (cq_inner q) = []"
    by (rule queue_new_inv(2) [OF sample_run_facts(2) n _ _ _ _ q(1)]) simp_all
  ultimately show "queue_reachable False 1000000 sample_threads sample_config True sample_queue sample_run {#}" "item_size (cq_inner sample_queue) = 4"
    "ring_items (cq_inner sample_queue) = []" using q(2) by simp_all
qed

lemma sample_calls:
  "queue_reachable False 1000000 sample_threads sample_config True sample_queue sample_run {#SendTakeIsr False [1, 2, 3, 4], RecvTake None#}"
  "queue_ready (SendTakeIsr False [1, 2, 3, 4]) ProCpu sample_queue sample_run"
proof -
  have "queue_reachable False 1000000 sample_threads sample_config True sample_queue sample_run {#RecvTake None#}"
    by (rule queue_reachable.call [OF sample_queue_facts(1)]) simp_all
  then show "queue_reachable False 1000000 sample_threads sample_config True sample_queue sample_run {#SendTakeIsr False [1, 2, 3, 4], RecvTake None#}"
    by (rule queue_reachable.call) (simp_all add: sample_queue_facts)
  show "queue_ready (SendTakeIsr False [1, 2, 3, 4]) ProCpu sample_queue sample_run" by (simp add: queue_ready_def)
qed

theorem queue_never_panics_witness:
  "\<exists>c' q' k'. queue_step True sample_config ProCpu 0 (SendTakeIsr False [1, 2, 3, 4]) sample_queue sample_run = Some (c', q', k') \<and>
    queue_reachable False 1000000 sample_threads sample_config True q' k' (add_mset c' {#RecvTake None#}) \<and>
    length (ring_items (cq_inner q')) \<le> capacity (cq_inner q') \<and> capacity (cq_inner q') = capacity (cq_inner sample_queue)"
  by (rule queue_never_panics [OF sample_calls])

text \<open>C37. The queue implements a list of items: a new queue is empty; of the critical sections of a call only those that work on the buffer change the
list; they append the sent item at the requested end, take the first item and hand it to the receiver, or remove the first item equal to the given one
and keep the order of the others.\<close>

theorem queue_refines_list:
  assumes "queue_reachable h2 rate tc cfg oc q k (add_mset c M)" "queue_ready c cpu q k" "queue_step oc cfg cpu now c q k = Some (c', q', k')"
  shows "queue_effect c c' (ring_items (cq_inner q)) (ring_items (cq_inner q'))"
  using queue_step_ok [OF queue_reachable_inv [OF assms(1)] assms(2), of oc now] assms(3) by auto

theorem queue_refines_list_witness:
  "\<exists>c' q' k'. queue_step True sample_config ProCpu 0 (SendTakeIsr False [1, 2, 3, 4]) sample_queue sample_run = Some (c', q', k') \<and>
    queue_effect (SendTakeIsr False [1, 2, 3, 4]) c' (ring_items (cq_inner sample_queue)) (ring_items (cq_inner q'))"
proof -
  from queue_step_ok [OF queue_reachable_inv [OF sample_calls(1)] sample_calls(2), of True 0] obtain c' q' k' where
    s: "queue_step True sample_config ProCpu 0 (SendTakeIsr False [1, 2, 3, 4]) sample_queue sample_run = Some (c', q', k')" by blast
  from queue_refines_list [OF sample_calls s] s show ?thesis by blast
qed

text \<open>C38. The two semaphores of a queue account for the buffer: the items that \<open>messages_waiting\<close> reports and those that calls in progress hold are
the items of the buffer, and nobody waits for an item while one is left, nor for room while there is some that no call holds.\<close>

theorem queue_accounts:
  assumes "queue_reachable h2 rate tc cfg oc q k M"
  shows "\<exists>n. messages_waiting q = Some n \<and> n + held_items M = length (ring_items (cq_inner q)) \<and>
    (n > 0 \<longrightarrow> waiters k (sem_waiting (semaphore_full q)) = {}) \<and>
    (length (ring_items (cq_inner q)) + held_room M < capacity (cq_inner q) \<longrightarrow> waiters k (sem_waiting (semaphore_empty q)) = {})"
proof -
  from queue_reachable_inv [OF assms] obtain e f w1 w2 where s: "q_state h2 rate tc cfg q k e f w1 w2 (held_items M) (held_room M)"
    by (auto simp: queue_inv_def)
  have "0 < e" if "length (ring_items (cq_inner q)) + held_room M < capacity (cq_inner q)"
    using s that by (auto simp: q_state_def intro!: word_gt_0 [THEN iffD2])
  moreover have "0 < f" if "0 < unat f" using that by (simp add: unat_gt_0 word_gt_0)
  ultimately show ?thesis using s by (auto simp: q_state_def messages_waiting_def sem_current_count_def)
qed

theorem queue_accounts_witness:
  "\<exists>n. messages_waiting sample_queue = Some n \<and> n + held_items {#} = length (ring_items (cq_inner sample_queue))"
  using queue_accounts [OF sample_queue_facts(1)] by blast

section \<open>Software timers\<close>

text \<open>C39. The timer task does not sleep past a timer: while it waits and every caller has finished, each active timer is due no earlier than
the deadline that the task sleeps for, unless the semaphore has been given, and then the task has been woken.\<close>

theorem timer_task_wakes_in_time:
  assumes "timer_reachable h2 rate tc cfg oc s" "ts_task s = TimerWait d" "ts_gives s = 0" "t \<in> ts_alloc s" "timer_is_active t (ts_heap s)"
  shows "deadline_time d \<le> next_due (ts_heap s t) \<or> sem_current_count (ts_sem s) = Some 1 \<and> waiters (ts_kernel s) (sem_waiting (ts_sem s)) = {}"
proof -
  from timer_reachable_inv [OF assms(1)] have inv: "lists_inv s" "wake_inv h2 rate tc cfg s" by simp_all
  have due: "next_wakeup_at (ts_queue s) \<le> next_due (ts_heap s t)"
    using inv(1) assms(2,4,5) by (intro waiting_task_due) (simp_all add: timer_is_active_def)
  show ?thesis
  proof (rule wake_invD [OF inv(2)])
    fix c w assume c: "ts_sem s = Counting c 1 w" "c \<le> 1" "c > 0 \<Longrightarrow> waiters (ts_kernel s) w = {}"
      "\<And>d. ts_task s = TimerWait d \<Longrightarrow> next_wakeup_at (ts_queue s) < deadline_time d \<Longrightarrow> ts_gives s > 0 \<or> c > 0"
    show ?thesis
    proof (cases "c > 0")
      case True
      then show ?thesis using c(1,3) u32_dec_one [OF True c(2)] by (simp add: sem_current_count_def)
    next
      case False
      then have "deadline_time d \<le> next_wakeup_at (ts_queue s)" using c(4) [OF assms(2)] assms(3) by (cases "next_wakeup_at (ts_queue s) < deadline_time d") (simp_all add: not_less)
      then have "deadline_time d \<le> next_due (ts_heap s t)" using due by (rule order_trans)
      then show ?thesis by simp
    qed
  qed
qed

text \<open>A timer at 500 is armed at the time 7 with a timeout of 10; its caller has given the semaphore.\<close>

definition sample_armed :: TimerSystem where
  "sample_armed = (let (g, h, q) = the (timer_arm False 7 10 False 500 ((\<lambda>_. soft_timer_new), timer_queue_inner_new))
     in \<lparr>ts_heap = h, ts_queue = q, ts_alloc = {500}, ts_task = TimerWait None, ts_gives = 0, ts_sem = Counting 1 1 300, ts_kernel = sample_run\<rparr>)"

lemma sample_armed_reachable: "timer_reachable False 1000000 sample_threads sample_config False sample_armed"
proof -
  let ?s = "\<lparr>ts_heap = (\<lambda>_. soft_timer_new), ts_queue = timer_queue_inner_new, ts_alloc = {}, ts_task = TimerWait None, ts_gives = 0,
     ts_sem = Counting 0 1 300, ts_kernel = sample_run\<rparr>"
  have c: "sem_create (CountingKind 1 0) 300 sample_run = (Counting 0 1 300, sample_run)"
    using sem_create_same [OF sample_run_facts(2) sample_no_waiters, of "CountingKind 1 0" 300] by (simp add: sem_create_def new_counting_def)
  have "timer_reachable False 1000000 sample_threads sample_config False ?s"
    by (rule timer_reachable.init [OF sample_run_facts(2) sample_no_waiters c])
  from timer_reachable.create [OF this, of 500] have r: "timer_reachable False 1000000 sample_threads sample_config False (?s\<lparr>ts_alloc := {500}\<rparr>)"
    by (simp add: fun_upd_idem)
  obtain h q where a: "timer_arm False 7 10 False 500 ((\<lambda>_. soft_timer_new), timer_queue_inner_new) = Some (True, h, q)"
    by (simp add: timer_arm_def timer_enqueue_def u64_plus_def timer_queue_inner_new_def soft_timer_new_def U64_MAX_def)
  have "list_is_empty (waiting_tasks (wait_queues sample_run 300))" by (rule waiters_empty [OF sample_run_facts(2) sample_no_waiters])
  then have g: "sem_give sample_config ProCpu (Counting 0 1 300) sample_run = Some (True, Counting 1 1 300, sample_run)"
    by (subst sem_give_def) (simp add: sem_try_give_def sem_notify_def notify_nobody)
  have "timer_reachable False 1000000 sample_threads sample_config False (caller_gives True (?s\<lparr>ts_alloc := {500}, ts_heap := h, ts_queue := q\<rparr>))"
    using timer_reachable.arm [OF r, of 500 7 10 False True h q] a by (simp add: usable_timer_def timer_queue_inner_new_def)
  from timer_reachable.give [OF this, of 0 ProCpu True "Counting 1 1 300" sample_run] g a show ?thesis
    by (simp add: sample_armed_def caller_gives_def)
qed

lemma sample_armed_facts: "ts_task sample_armed = TimerWait None" "ts_gives sample_armed = 0" "ts_alloc sample_armed = {500}" "is_active (ts_heap sample_armed 500)"
  "next_due (ts_heap sample_armed 500) = 17" "next_timer (ts_heap sample_armed 500) = None" "\<not> periodic (ts_heap sample_armed 500)"
  "tq_head (ts_queue sample_armed) = Some 500"
  "ts_sem sample_armed = Counting 1 1 300" "ts_kernel sample_armed = sample_run"
  by (simp_all add: sample_armed_def timer_arm_def timer_enqueue_def u64_plus_def timer_queue_inner_new_def soft_timer_new_def U64_MAX_def)

theorem timer_task_wakes_in_time_witness:
  "deadline_time None \<le> next_due (ts_heap sample_armed 500) \<or>
    sem_current_count (ts_sem sample_armed) = Some 1 \<and> waiters (ts_kernel sample_armed) (sem_waiting (ts_sem sample_armed)) = {}"
  by (rule timer_task_wakes_in_time [OF sample_armed_reachable sample_armed_facts(1,2)]) (simp_all add: sample_armed_facts timer_is_active_def)

text \<open>C40. Without overflow checks the timer task never gets stuck: whenever it may run, its next step returns. The timers it goes on with are
in memory, so it never touches a timer that was freed, whatever callers and callbacks have armed, disarmed and deleted meanwhile; and
it runs a callback only of an active timer that is due and not deleted.\<close>

theorem timer_task_goes_on:
  assumes "timer_reachable h2 rate tc cfg False s" "task_ready cpu s"
  shows "\<exists>s'. timer_task_step False cfg cpu now s = Some s' \<and> timer_reachable h2 rate tc cfg False s' \<and>
    set_option (task_list (ts_task s')) \<union> set_option (task_timer (ts_task s')) \<subseteq> ts_alloc s' \<and>
    (\<forall>t timers. ts_task s' = TimerCall t timers \<longrightarrow> usable_timer s t \<and> timer_is_active t (ts_heap s) \<and> next_due (ts_heap s t) \<le> now)"
proof -
  from timer_reachable_inv [OF assms(1)] have inv: "lists_inv s" "wake_inv h2 rate tc cfg s" by simp_all
  from task_step_ok [OF inv assms(2)] obtain s' where s: "timer_task_step False cfg cpu now s = Some s'" by blast
  have "timer_reachable h2 rate tc cfg False s'" by (rule timer_reachable.task [OF assms s])
  then show ?thesis using s lists_inv_alloc [of s'] timer_reachable_inv task_step_call [OF inv(1) s] by (auto simp: timer_is_active_def)
qed

definition sample_processing :: TimerSystem where
  "sample_processing = sample_armed\<lparr>ts_sem := Counting 0 1 300, ts_task := TimerCheck (Some 500), ts_queue := snd (process_start (ts_queue sample_armed))\<rparr>"

lemma sample_processing_reachable: "timer_reachable False 1000000 sample_threads sample_config False sample_processing"
proof -
  let ?s = "sample_armed\<lparr>ts_sem := Counting 0 1 300, ts_task := TimerProcess\<rparr>"
  have "timer_reachable False 1000000 sample_threads sample_config False ?s"
    by (rule timer_reachable.task [OF sample_armed_reachable, of ProCpu 9])
      (simp_all add: task_ready_def timer_task_step_def sample_armed_facts sample_running sample_no_threads take_round_def sem_try_take_def)
  then show ?thesis
    by (rule timer_reachable.task [where cpu = ProCpu and now = 9])
      (simp_all add: task_ready_def timer_task_step_def sample_processing_def process_start_def sample_armed_facts)
qed

theorem timer_task_goes_on_witness:
  "\<exists>s'. timer_task_step False sample_config ProCpu 20 sample_processing = Some s' \<and> ts_task s' = TimerCall 500 None \<and>
    timer_reachable False 1000000 sample_threads sample_config False s' \<and> set_option (task_timer (ts_task s')) \<subseteq> ts_alloc s' \<and>
    usable_timer sample_processing 500 \<and> next_due (ts_heap sample_processing 500) \<le> 20"
proof -
  have "task_ready ProCpu sample_processing" by (simp add: task_ready_def sample_processing_def)
  from timer_task_goes_on [OF sample_processing_reachable this, of 20] obtain s' where s: "timer_task_step False sample_config ProCpu 20 sample_processing = Some s'"
    "timer_reachable False 1000000 sample_threads sample_config False s'"
    "set_option (task_list (ts_task s')) \<union> set_option (task_timer (ts_task s')) \<subseteq> ts_alloc s'"
    "\<And>t timers. ts_task s' = TimerCall t timers \<Longrightarrow> usable_timer sample_processing t \<and> timer_is_active t (ts_heap sample_processing) \<and> next_due (ts_heap sample_processing t) \<le> 20"
    by blast
  moreover from s(1) have "ts_task s' = TimerCall 500 None"
    by (auto simp: timer_task_step_def sample_processing_def process_check_def sample_armed_facts)
  ultimately show ?thesis by auto
qed

end
