(* ===== verification/Sync_Mutex.thy ===== *)
theory Sync_Mutex
  imports Task_Lists "HOL-Library.Multiset"
begin

text \<open>
  \<open>esp-sync\<close>: the locks under all critical sections. \<open>raw.rs\<close> masks the interrupts of one CPU;
  \<open>GenericRawMutex\<close> of \<open>lib.rs\<close> adds the owner and the count of nested calls in the token; \<open>RawMutex\<close>
  and \<open>NonReentrantMutex\<close> are uses of it. The machine is two CPUs with nested interrupts and tasks that are
  switched by interrupt handlers, any number of mutexes, and every instruction of a lock that others can
  observe as a step of its own. The lemmas show that a mutex is held by one context at a time, that
  the interrupts are restored, and which calls panic. \<open>None\<close> is a panic.
\<close>

section \<open>Tokens\<close>

definition REENTRY_FLAG :: u32 where
  "REENTRY_FLAG = push_bit 31 1"

definition mark_reentry :: "u32 \<Rightarrow> u32" where
  "mark_reentry token = token OR REENTRY_FLAG"

definition is_reentry :: "u32 \<Rightarrow> bool" where
  "is_reentry token \<longleftrightarrow> token AND REENTRY_FLAG \<noteq> 0"

lemma is_reentry_bit: "is_reentry token \<longleftrightarrow> bit token 31"
  by (simp add: is_reentry_def REENTRY_FLAG_def bit_iff_and_push_bit_not_eq_0)

lemma mark_reentry_is_reentry [simp]: "is_reentry (mark_reentry token)"
  by (simp add: is_reentry_bit mark_reentry_def REENTRY_FLAG_def bit_or_iff bit_push_bit_iff)

section \<open>\<open>RawLock\<close>\<close>

record 'r RawLock =
  raw_enter :: "'r \<Rightarrow> u32 \<times> 'r"
  raw_exit :: "u32 \<Rightarrow> 'r \<Rightarrow> 'r option"

text \<open>The registers that mask interrupts: \<open>PS\<close> on Xtensa, \<open>mstatus\<close> and the threshold of the CLIC on RISC-V.\<close>

datatype Arch = Xtensa | RiscV | RiscVZcmp

record CpuRegs =
  ps :: u32
  mstatus :: u32
  mintthresh :: u32

definition RESERVED_MASK :: u32 where
  "RESERVED_MASK = 0xFFF8F000"

definition interrupt_enter :: "Arch \<Rightarrow> bool \<Rightarrow> CpuRegs \<Rightarrow> u32 \<times> CpuRegs" where
  "interrupt_enter arch dbg r = (case arch of
      RiscVZcmp \<Rightarrow> ((mstatus r AND 8) OR push_bit 8 (mintthresh r AND 0xFF), r\<lparr>mintthresh := 0xFF, mstatus := mstatus r AND NOT 8\<rparr>)
    | RiscV \<Rightarrow> (mstatus r AND 8, r\<lparr>mstatus := mstatus r AND NOT 8\<rparr>)
    | Xtensa \<Rightarrow> (if dbg then ps r AND NOT RESERVED_MASK else ps r, r\<lparr>ps := (ps r AND NOT 0xF) OR 5\<rparr>))"

definition interrupt_exit :: "Arch \<Rightarrow> bool \<Rightarrow> u32 \<Rightarrow> CpuRegs \<Rightarrow> CpuRegs option" where
  "interrupt_exit arch dbg token r = (case arch of
      RiscVZcmp \<Rightarrow>
        let r1 = (if token AND 8 \<noteq> 0 then r\<lparr>mstatus := mstatus r OR 8\<rparr> else r)
        in Some (r1\<lparr>mintthresh := drop_bit 8 token AND 0xFF\<rparr>)
    | RiscV \<Rightarrow> Some (if token \<noteq> 0 then r\<lparr>mstatus := mstatus r OR 8\<rparr> else r)
    | Xtensa \<Rightarrow> if dbg \<and> token AND RESERVED_MASK \<noteq> 0 then None else Some (r\<lparr>ps := token\<rparr>))"

definition SingleCoreInterruptLock :: "Arch \<Rightarrow> bool \<Rightarrow> CpuRegs RawLock" where
  "SingleCoreInterruptLock arch dbg = \<lparr>raw_enter = interrupt_enter arch dbg, raw_exit = interrupt_exit arch dbg\<rparr>"

text \<open>
  Whether the CPU takes no interrupt, and the values that the registers can have: the reserved bits of
  \<open>PS\<close> are zero, its interrupt level is at most the one of the lock, and the threshold is a byte.
\<close>

definition interrupts_masked :: "Arch \<Rightarrow> CpuRegs \<Rightarrow> bool" where
  "interrupts_masked arch r = (case arch of
      RiscVZcmp \<Rightarrow> mstatus r AND 8 = 0 \<and> mintthresh r = 0xFF
    | RiscV \<Rightarrow> mstatus r AND 8 = 0
    | Xtensa \<Rightarrow> 5 \<le> ps r AND 0xF)"

definition regs_ok :: "Arch \<Rightarrow> CpuRegs \<Rightarrow> bool" where
  "regs_ok arch r = (case arch of
      RiscVZcmp \<Rightarrow> mintthresh r AND 0xFF = mintthresh r
    | RiscV \<Rightarrow> True
    | Xtensa \<Rightarrow> ps r AND RESERVED_MASK = 0 \<and> ps r AND 0xF \<le> 5)"

text \<open>What a mutex needs of its raw lock.\<close>

locale raw_lock =
  fixes L :: "'r RawLock" and masked :: "'r \<Rightarrow> bool" and ok :: "'r \<Rightarrow> bool"
  assumes enter_masks: "ok r \<Longrightarrow> raw_enter L r = (t, r') \<Longrightarrow> masked r' \<and> ok r' \<and> \<not> is_reentry t"
    and exit_restores: "ok r \<Longrightarrow> raw_enter L r = (t, r') \<Longrightarrow> raw_exit L t r' = Some r"
    and enter_again: "ok r \<Longrightarrow> masked r \<Longrightarrow> snd (raw_enter L r) = r"

lemma and_not_self: "x AND c = 0 \<Longrightarrow> x AND NOT c = (x :: 'a::len word)"
  by (auto simp: bit_eq_iff bit_simps)

lemma and_not_or: "x AND c = d \<Longrightarrow> (x AND NOT c) OR d = (x :: 'a::len word)"
  by (auto simp: bit_eq_iff bit_simps)

lemma and_not_or_and: "d AND c = d \<Longrightarrow> ((x AND NOT c) OR d) AND c = (d :: 'a::len word)"
  by (auto simp: bit_eq_iff bit_simps)

lemma and_not_or_disjoint: "x AND e = 0 \<Longrightarrow> d AND e = 0 \<Longrightarrow> ((x AND NOT c) OR d) AND e = (0 :: 'a::len word)"
  by (auto simp: bit_eq_iff bit_simps)

lemma and_not_and: "(x AND NOT c) AND c = (0 :: 'a::len word)"
  by (simp add: and.assoc)

lemma and_one_bit: "x AND push_bit n 1 = 0 \<or> x AND push_bit n 1 = (push_bit n 1 :: 'a::len word)"
proof (cases "bit x n")
  case True
  then have "x AND push_bit n 1 = push_bit n 1" by (intro bit_word_eqI) (auto simp: bit_simps)
  then show ?thesis ..
next
  case False
  then have "x AND push_bit n 1 = 0" by (intro bit_word_eqI) (auto simp: bit_simps)
  then show ?thesis ..
qed

lemma packed_token:
  fixes m t :: u32
  assumes "n < 8"
  shows "((m AND push_bit n 1) OR push_bit 8 (t AND mask 8)) AND push_bit n 1 = m AND push_bit n 1"
    "drop_bit 8 ((m AND push_bit n 1) OR push_bit 8 (t AND mask 8)) AND mask 8 = t AND mask 8"
    "\<not> bit ((m AND push_bit n 1) OR push_bit 8 (t AND mask 8)) 31"
  using assms by (auto intro!: bit_word_eqI simp: bit_simps)

lemma regs_numerals: "(8 :: u32) = push_bit 3 1" "(0xFF :: u32) = mask 8"
  by (simp_all add: push_bit_eq_mult mask_eq_exp_minus_1)

lemmas lock_defs = SingleCoreInterruptLock_def interrupt_enter_def interrupt_exit_def interrupts_masked_def regs_ok_def

lemma xtensa_lock:
  assumes "regs_ok Xtensa r" "raw_enter (SingleCoreInterruptLock Xtensa dbg) r = (t, r')"
  shows "t = ps r" "ps r' AND 0xF = 5" "ps r' AND RESERVED_MASK = 0" "r' = r\<lparr>ps := ps r'\<rparr>" "\<not> is_reentry t"
proof -
  have x: "ps r AND RESERVED_MASK = 0" and r': "ps r' = (ps r AND NOT 0xF) OR 5" "r' = r\<lparr>ps := ps r'\<rparr>"
    and t: "t = (if dbg then ps r AND NOT RESERVED_MASK else ps r)" using assms by (auto simp: lock_defs)
  show tok: "t = ps r" using t and_not_self [OF x] by simp
  show "ps r' AND 0xF = 5" unfolding r'(1) by (rule and_not_or_and) simp
  show "ps r' AND RESERVED_MASK = 0" unfolding r'(1) by (rule and_not_or_disjoint [OF x]) (simp add: RESERVED_MASK_def)
  show "r' = r\<lparr>ps := ps r'\<rparr>" by (rule r'(2))
  have "bit RESERVED_MASK 31" by (simp add: RESERVED_MASK_def)
  then have "\<not> bit (ps r) 31" using x by (auto simp: bit_eq_iff bit_simps)
  then show "\<not> is_reentry t" using tok by (simp add: is_reentry_bit)
qed

lemma riscv_lock:
  assumes "raw_enter (SingleCoreInterruptLock RiscV dbg) r = (t, r')"
  shows "t = mstatus r AND push_bit 3 1" "r' = r\<lparr>mstatus := mstatus r AND NOT (push_bit 3 1)\<rparr>"
  using assms unfolding lock_defs regs_numerals by (simp_all only: Arch.case RawLock.simps prod.inject)

lemma zcmp_lock:
  assumes "raw_enter (SingleCoreInterruptLock RiscVZcmp dbg) r = (t, r')"
  shows "t = (mstatus r AND push_bit 3 1) OR push_bit 8 (mintthresh r AND mask 8)"
    "r' = r\<lparr>mintthresh := mask 8, mstatus := mstatus r AND NOT (push_bit 3 1)\<rparr>"
  using assms unfolding lock_defs regs_numerals by (simp_all only: Arch.case RawLock.simps prod.inject)

text \<open>Setting the enable bit again after it was cleared gives the old status.\<close>

lemma mie_restored:
  fixes m :: u32
  shows "(if m AND push_bit n 1 \<noteq> 0 then (m AND NOT (push_bit n 1)) OR push_bit n 1 else m AND NOT (push_bit n 1)) = m"
  using and_one_bit [of m n] and_not_or [of m "push_bit n 1" "push_bit n 1"] and_not_self [of m "push_bit n 1"] by auto

lemma mie_token: "\<not> is_reentry (m AND push_bit 3 1)"
  by (simp add: is_reentry_bit bit_simps del: push_bit_of_1)

interpretation interrupt_lock: raw_lock "SingleCoreInterruptLock arch dbg" "interrupts_masked arch" "regs_ok arch" for arch dbg
proof
  fix r r' :: CpuRegs and t :: u32 assume ok: "regs_ok arch r" and e: "raw_enter (SingleCoreInterruptLock arch dbg) r = (t, r')"
  show "interrupts_masked arch r' \<and> regs_ok arch r' \<and> \<not> is_reentry t"
  proof (cases arch)
    case Xtensa
    then show ?thesis using xtensa_lock [of r dbg t r'] ok e by (simp add: interrupts_masked_def regs_ok_def)
  next
    case RiscV
    then show ?thesis using riscv_lock [of dbg r t r'] e mie_token [of "mstatus r"] and_not_and [of "mstatus r" 8]
      by (simp add: interrupts_masked_def regs_ok_def)
  next
    case RiscVZcmp
    then show ?thesis using zcmp_lock [of dbg r t r'] e packed_token(3) [of 3 "mstatus r" "mintthresh r"] and_not_and [of "mstatus r" 8]
      by (simp add: interrupts_masked_def regs_ok_def is_reentry_bit mask_eq_exp_minus_1)
  qed
  show "raw_exit (SingleCoreInterruptLock arch dbg) t r' = Some r"
  proof (cases arch)
    case Xtensa
    then show ?thesis using xtensa_lock [of r dbg t r'] ok e by (auto simp: lock_defs intro!: CpuRegs.equality)
  next
    case RiscV
    then show ?thesis using riscv_lock [of dbg r t r'] e mie_restored [of "mstatus r" 3]
      by (auto simp: lock_defs intro!: CpuRegs.equality split: if_splits)
  next
    case RiscVZcmp
    note z = zcmp_lock [OF e [unfolded RiscVZcmp]]
    have "t AND 8 = mstatus r AND 8" "drop_bit 8 t AND 0xFF = mintthresh r AND 0xFF"
      unfolding z(1) regs_numerals by (rule packed_token; simp)+
    then show ?thesis using RiscVZcmp z(2) ok mie_restored [of "mstatus r" 3]
      by (auto simp: lock_defs Let_def mask_eq_exp_minus_1 intro!: CpuRegs.equality split: if_splits)
  qed
next
  fix r :: CpuRegs assume ok: "regs_ok arch r" and m: "interrupts_masked arch r"
  show "snd (raw_enter (SingleCoreInterruptLock arch dbg) r) = r"
    using ok m and_not_self [of "mstatus r" 8] and_not_or [of "ps r" 15 5]
    by (cases arch) (auto simp: lock_defs intro!: CpuRegs.equality)
qed

section \<open>\<open>LockedState\<close> and \<open>GenericRawMutex\<close>\<close>

definition UNUSED_THREAD_ID_VALUE :: u32 where
  "UNUSED_THREAD_ID_VALUE = 0"

text \<open>The register \<open>PRID\<close> of the two Xtensa CPUs, and \<open>mhartid + 1\<close>.\<close>

definition thread_id :: "Arch \<Rightarrow> Cpu \<Rightarrow> u32" where
  "thread_id arch cpu = (case arch of
      Xtensa \<Rightarrow> (case cpu of ProCpu \<Rightarrow> 0xCDCD | AppCpu \<Rightarrow> 0xABAB)
    | _ \<Rightarrow> (case cpu of ProCpu \<Rightarrow> 0 | AppCpu \<Rightarrow> 1) + 1)"

text \<open>The compare-exchange of \<open>lock\<close> and what is made of its result: the token if the lock was taken, and the new owner.\<close>

definition try_lock_owner :: "u32 \<Rightarrow> u32 \<Rightarrow> u32 \<Rightarrow> u32 option \<times> u32" where
  "try_lock_owner current_thread_id tkn owner =
    (if owner = UNUSED_THREAD_ID_VALUE then (Some tkn, current_thread_id)
     else if owner = current_thread_id then (Some (mark_reentry tkn), owner)
     else (None, owner))"

definition locked_state_unlock :: "bool \<Rightarrow> u32 \<Rightarrow> u32 \<Rightarrow> u32 option" where
  "locked_state_unlock dbg current_thread_id owner = (if dbg \<and> owner \<noteq> current_thread_id then None else Some UNUSED_THREAD_ID_VALUE)"

text \<open>The variant for chips with one CPU.\<close>

definition single_core_lock :: "'r RawLock \<Rightarrow> bool \<Rightarrow> 'r \<Rightarrow> u32 \<times> bool \<times> 'r" where
  "single_core_lock L locked r = (case raw_enter L r of (tkn, r') \<Rightarrow> (if locked then mark_reentry tkn else tkn, True, r'))"

definition single_core_unlock :: "bool \<Rightarrow> bool" where
  "single_core_unlock locked = False"

text \<open>
  What a context, that is a task or an interrupt handler, does about locks: it runs its own code; it is about to
  enter the raw lock, to exchange the owner, or to leave the raw lock because the mutex is taken; it has
  unlocked a mutex and is about to leave the raw lock. The flag tells whether the mutex may be taken
  again by the context that has it.
\<close>

datatype LockPc =
    Running
  | Entering nat bool
  | Entered nat bool u32
  | Refused nat bool u32
  | Leaving u32

text \<open>The guards that a context has, newest first, each with the address of its mutex and its token.\<close>

record 'r Context =
  guards :: "(nat \<times> u32) list"
  lock_pc :: LockPc
  regs :: 'r

definition acquire_step :: "'r RawLock \<Rightarrow> u32 \<Rightarrow> (nat \<Rightarrow> u32) \<Rightarrow> 'r Context \<Rightarrow> ((nat \<Rightarrow> u32) \<times> 'r Context) option" where
  "acquire_step L tid ow x = (case lock_pc x of
      Running \<Rightarrow> None
    | Entering m reentrant \<Rightarrow> (case raw_enter L (regs x) of (tkn, r) \<Rightarrow> Some (ow, x\<lparr>lock_pc := Entered m reentrant tkn, regs := r\<rparr>))
    | Entered m reentrant tkn \<Rightarrow> (case try_lock_owner tid tkn (ow m) of
          (Some token, owner) \<Rightarrow>
            if \<not> reentrant \<and> is_reentry token then None
            else Some (ow(m := owner), x\<lparr>guards := (m, token) # guards x, lock_pc := Running\<rparr>)
        | (None, owner) \<Rightarrow> Some (ow(m := owner), x\<lparr>lock_pc := Refused m reentrant tkn\<rparr>))
    | Refused m reentrant tkn \<Rightarrow> map_option (\<lambda>r. (ow, x\<lparr>lock_pc := Entering m reentrant, regs := r\<rparr>)) (raw_exit L tkn (regs x))
    | Leaving token \<Rightarrow> map_option (\<lambda>r. (ow, x\<lparr>lock_pc := Running, regs := r\<rparr>)) (raw_exit L token (regs x)))"

text \<open>\<open>release\<close> of the newest guard, when it is dropped; the raw lock is left in a step of its own.\<close>

definition release_step :: "bool \<Rightarrow> u32 \<Rightarrow> (nat \<Rightarrow> u32) \<Rightarrow> 'r Context \<Rightarrow> ((nat \<Rightarrow> u32) \<times> 'r Context) option" where
  "release_step dbg tid ow x = (case guards x of
      [] \<Rightarrow> None
    | (m, token) # gs \<Rightarrow>
        if \<not> is_reentry token
        then map_option (\<lambda>owner. (ow(m := owner), x\<lparr>guards := gs, lock_pc := Leaving token\<rparr>)) (locked_state_unlock dbg tid (ow m))
        else Some (ow, x\<lparr>guards := gs\<rparr>))"

section \<open>Two CPUs\<close>

record 'r LockSystem =
  owners :: "nat \<Rightarrow> u32"
  stacks :: "Cpu \<Rightarrow> 'r Context list"
  suspended :: "'r Context multiset"

definition fresh_context :: "'r \<Rightarrow> 'r Context" where
  "fresh_context r = \<lparr>guards = [], lock_pc = Running, regs = r\<rparr>"

text \<open>
  The contexts of a CPU, the running one first, and the tasks that are not on a CPU. An interrupt is taken when it
  is not masked, whatever the running context does. A handler returns with no guard left. A handler
  that runs directly above a task may exchange it for another one, which is a context switch.
\<close>

inductive lock_reachable :: "'r RawLock \<Rightarrow> ('r \<Rightarrow> bool) \<Rightarrow> ('r \<Rightarrow> bool) \<Rightarrow> (Cpu \<Rightarrow> u32) \<Rightarrow> bool \<Rightarrow> 'r LockSystem \<Rightarrow> bool"
  for L masked ok tid dbg where
  init: "(\<And>cpu. \<exists>r. ok r \<and> st cpu = [fresh_context r]) \<Longrightarrow>
    lock_reachable L masked ok tid dbg \<lparr>owners = (\<lambda>_. UNUSED_THREAD_ID_VALUE), stacks = st, suspended = {#}\<rparr>"
| call: "lock_reachable L masked ok tid dbg s \<Longrightarrow> stacks s cpu = x # xs \<Longrightarrow> lock_pc x = Running \<Longrightarrow>
    lock_reachable L masked ok tid dbg (s\<lparr>stacks := (stacks s)(cpu := x\<lparr>lock_pc := Entering m reentrant\<rparr> # xs)\<rparr>)"
| acquire: "lock_reachable L masked ok tid dbg s \<Longrightarrow> stacks s cpu = x # xs \<Longrightarrow> acquire_step L (tid cpu) (owners s) x = Some (ow, x') \<Longrightarrow>
    lock_reachable L masked ok tid dbg (s\<lparr>owners := ow, stacks := (stacks s)(cpu := x' # xs)\<rparr>)"
| release: "lock_reachable L masked ok tid dbg s \<Longrightarrow> stacks s cpu = x # xs \<Longrightarrow> lock_pc x = Running \<Longrightarrow>
    release_step dbg (tid cpu) (owners s) x = Some (ow, x') \<Longrightarrow>
    lock_reachable L masked ok tid dbg (s\<lparr>owners := ow, stacks := (stacks s)(cpu := x' # xs)\<rparr>)"
| interrupt: "lock_reachable L masked ok tid dbg s \<Longrightarrow> stacks s cpu = x # xs \<Longrightarrow> \<not> masked (regs x) \<Longrightarrow> ok r \<Longrightarrow>
    lock_reachable L masked ok tid dbg (s\<lparr>stacks := (stacks s)(cpu := fresh_context r # x # xs)\<rparr>)"
| return: "lock_reachable L masked ok tid dbg s \<Longrightarrow> stacks s cpu = x # y # xs \<Longrightarrow> lock_pc x = Running \<Longrightarrow> guards x = [] \<Longrightarrow>
    lock_reachable L masked ok tid dbg (s\<lparr>stacks := (stacks s)(cpu := y # xs)\<rparr>)"
| switch: "lock_reachable L masked ok tid dbg s \<Longrightarrow> stacks s cpu = [x, y] \<Longrightarrow> suspended s = add_mset z S \<Longrightarrow>
    lock_reachable L masked ok tid dbg (s\<lparr>stacks := (stacks s)(cpu := [x, z]), suspended := add_mset y S\<rparr>)"
| spawn: "lock_reachable L masked ok tid dbg s \<Longrightarrow> ok r \<Longrightarrow>
    lock_reachable L masked ok tid dbg (s\<lparr>suspended := add_mset (fresh_context r) (suspended s)\<rparr>)"

section \<open>The invariant\<close>

text \<open>A context that an interrupt can find: it has no guard and is not inside a raw lock.\<close>

definition at_rest :: "'r Context \<Rightarrow> bool" where
  "at_rest x \<longleftrightarrow> guards x = [] \<and> (lock_pc x = Running \<or> (\<exists>m reentrant. lock_pc x = Entering m reentrant))"

text \<open>Exactly the first guard of a mutex is not marked as a reentry.\<close>

fun nested :: "(nat \<times> u32) list \<Rightarrow> bool" where
  "nested [] \<longleftrightarrow> True"
| "nested ((m, t) # gs) \<longleftrightarrow> (is_reentry t \<longleftrightarrow> m \<in> fst ` set gs) \<and> nested gs"

text \<open>The registers came from those before by the raw locks of the guards.\<close>

fun chain :: "'r RawLock \<Rightarrow> ('r \<Rightarrow> bool) \<Rightarrow> 'r \<Rightarrow> (nat \<times> u32) list \<Rightarrow> bool" where
  "chain L ok r [] \<longleftrightarrow> ok r"
| "chain L ok r ((m, t) # gs) \<longleftrightarrow> (if is_reentry t then chain L ok r gs else \<exists>r0. raw_enter L r0 = (t, r) \<and> chain L ok r0 gs)"

fun pc_token :: "LockPc \<Rightarrow> u32 option" where
  "pc_token (Entered m reentrant t) = Some t"
| "pc_token (Refused m reentrant t) = Some t"
| "pc_token (Leaving t) = Some t"
| "pc_token _ = None"

definition context_ok :: "'r RawLock \<Rightarrow> ('r \<Rightarrow> bool) \<Rightarrow> 'r Context \<Rightarrow> bool" where
  "context_ok L ok x \<longleftrightarrow> nested (guards x) \<and> (case pc_token (lock_pc x) of
      None \<Rightarrow> chain L ok (regs x) (guards x)
    | Some t \<Rightarrow> \<exists>r0. raw_enter L r0 = (t, regs x) \<and> chain L ok r0 (guards x))"

definition lock_inv :: "'r RawLock \<Rightarrow> ('r \<Rightarrow> bool) \<Rightarrow> (Cpu \<Rightarrow> u32) \<Rightarrow> 'r LockSystem \<Rightarrow> bool" where
  "lock_inv L ok tid s \<longleftrightarrow>
    (\<forall>cpu. \<exists>x xs. stacks s cpu = x # xs \<and> context_ok L ok x \<and> (\<forall>y \<in> set xs. context_ok L ok y \<and> at_rest y) \<and>
       (\<forall>m. owners s m = tid cpu \<longleftrightarrow> m \<in> fst ` set (guards x))) \<and>
    (\<forall>y \<in># suspended s. context_ok L ok y \<and> at_rest y) \<and>
    (\<forall>m. owners s m \<in> insert UNUSED_THREAD_ID_VALUE (range tid))"

lemma lock_invD:
  assumes "lock_inv L ok tid s" "stacks s cpu = x # xs"
  shows "context_ok L ok x" "y \<in> set xs \<Longrightarrow> context_ok L ok y \<and> at_rest y" "owners s m = tid cpu \<longleftrightarrow> m \<in> fst ` set (guards x)"
    "y \<in># suspended s \<Longrightarrow> context_ok L ok y \<and> at_rest y" "owners s m \<in> insert UNUSED_THREAD_ID_VALUE (range tid)"
proof -
  obtain x' xs' where "stacks s cpu = x' # xs'" "context_ok L ok x'" "\<forall>y \<in> set xs'. context_ok L ok y \<and> at_rest y"
    "\<forall>m. owners s m = tid cpu \<longleftrightarrow> m \<in> fst ` set (guards x')" using assms(1) unfolding lock_inv_def by blast
  then show "context_ok L ok x" "y \<in> set xs \<Longrightarrow> context_ok L ok y \<and> at_rest y" "owners s m = tid cpu \<longleftrightarrow> m \<in> fst ` set (guards x)"
    using assms(2) by auto
  show "y \<in># suspended s \<Longrightarrow> context_ok L ok y \<and> at_rest y" "owners s m \<in> insert UNUSED_THREAD_ID_VALUE (range tid)"
    using assms(1) by (simp_all add: lock_inv_def)
qed

lemma lock_inv_stack:
  assumes inv: "lock_inv L ok tid s"
    and new: "context_ok L ok x" "\<And>y. y \<in> set xs \<Longrightarrow> context_ok L ok y \<and> at_rest y" "\<And>m. ow m = tid cpu \<longleftrightarrow> m \<in> fst ` set (guards x)"
    and others: "\<And>c m. c \<noteq> cpu \<Longrightarrow> ow m = tid c \<longleftrightarrow> owners s m = tid c" "\<And>m. ow m \<in> insert UNUSED_THREAD_ID_VALUE (range tid)"
    and sus: "\<And>y. y \<in># S \<Longrightarrow> context_ok L ok y \<and> at_rest y"
  shows "lock_inv L ok tid (s\<lparr>owners := ow, stacks := (stacks s)(cpu := x # xs), suspended := S\<rparr>)"
proof -
  have "\<exists>z zs. ((stacks s)(cpu := x # xs)) c = z # zs \<and> context_ok L ok z \<and> (\<forall>y \<in> set zs. context_ok L ok y \<and> at_rest y) \<and>
    (\<forall>m. ow m = tid c \<longleftrightarrow> m \<in> fst ` set (guards z))" for c
  proof (cases "c = cpu")
    case True
    then show ?thesis using new by auto
  next
    case False
    obtain z zs where "stacks s c = z # zs" "context_ok L ok z" "\<forall>y \<in> set zs. context_ok L ok y \<and> at_rest y"
      "\<forall>m. owners s m = tid c \<longleftrightarrow> m \<in> fst ` set (guards z)" using inv unfolding lock_inv_def by blast
    then show ?thesis using False others(1) by auto
  qed
  then show ?thesis using others(2) sus by (simp add: lock_inv_def)
qed

lemma lock_inv_top:
  assumes inv: "lock_inv L ok tid s" "stacks s cpu = x # xs" and "context_ok L ok x'" "\<And>m. ow m = tid cpu \<longleftrightarrow> m \<in> fst ` set (guards x')"
    and "\<And>c m. c \<noteq> cpu \<Longrightarrow> ow m = tid c \<longleftrightarrow> owners s m = tid c" "\<And>m. ow m \<in> insert UNUSED_THREAD_ID_VALUE (range tid)"
  shows "lock_inv L ok tid (s\<lparr>owners := ow, stacks := (stacks s)(cpu := x' # xs)\<rparr>)"
proof -
  have "lock_inv L ok tid (s\<lparr>owners := ow, stacks := (stacks s)(cpu := x' # xs), suspended := suspended s\<rparr>)"
    by (rule lock_inv_stack [OF inv(1) assms(3) _ assms(4-6)]) (use lock_invD(2,4) [OF inv] in blast)+
  then show ?thesis by simp
qed

context raw_lock
begin

lemma chain_ok: "chain L ok r gs \<Longrightarrow> ok r"
proof (induction gs arbitrary: r)
  case (Cons g gs)
  obtain m t where g: "g = (m, t)" by (cases g)
  show ?case
  proof (cases "is_reentry t")
    case True
    then show ?thesis using Cons g by simp
  next
    case False
    then obtain r0 where "raw_enter L r0 = (t, r)" "chain L ok r0 gs" using Cons.prems g by auto
    then show ?thesis using enter_masks Cons.IH by blast
  qed
qed simp

lemma chain_masked: "chain L ok r gs \<Longrightarrow> nested gs \<Longrightarrow> gs \<noteq> [] \<Longrightarrow> masked r"
proof (induction gs)
  case (Cons g gs)
  obtain m t where g: "g = (m, t)" by (cases g)
  show ?case
  proof (cases "is_reentry t")
    case True
    then have "gs \<noteq> []" using Cons.prems(2) g by auto
    then show ?thesis using Cons g True by simp
  next
    case False
    then obtain r0 where "raw_enter L r0 = (t, r)" "chain L ok r0 gs" using Cons.prems(1) g by auto
    then show ?thesis using enter_masks chain_ok by blast
  qed
qed simp

lemma context_ok_rest:
  assumes "context_ok L ok x" "\<not> masked (regs x)"
  shows "at_rest x"
proof (cases "pc_token (lock_pc x)")
  case None
  then have "guards x = []" using assms chain_masked by (auto simp: context_ok_def)
  then show ?thesis using None by (cases "lock_pc x") (auto simp: at_rest_def)
next
  case (Some t)
  then obtain r0 where "raw_enter L r0 = (t, regs x)" "chain L ok r0 (guards x)" using assms(1) by (auto simp: context_ok_def)
  then show ?thesis using assms(2) enter_masks chain_ok by blast
qed

end

text \<open>A mutex also needs that the CPUs have different identifiers, none of which is that of a free mutex.\<close>

locale raw_mutex = raw_lock L masked ok
  for L :: "'r RawLock" and masked ok +
  fixes tid :: "Cpu \<Rightarrow> u32"
  assumes tid_inj: "tid c = tid d \<longleftrightarrow> c = d" and tid_used: "tid c \<noteq> UNUSED_THREAD_ID_VALUE"

lemma thread_id_inj: "thread_id arch c = thread_id arch d \<longleftrightarrow> c = d"
  by (cases arch; cases c; cases d) (simp_all add: thread_id_def)

lemma thread_id_used: "thread_id arch c \<noteq> UNUSED_THREAD_ID_VALUE"
  by (cases arch; cases c) (simp_all add: thread_id_def UNUSED_THREAD_ID_VALUE_def)

interpretation interrupt_mutex: raw_mutex "SingleCoreInterruptLock arch dbg" "interrupts_masked arch" "regs_ok arch" "thread_id arch" for arch dbg
  by unfold_locales (rule thread_id_inj thread_id_used)+

context raw_mutex
begin

lemma entered_token:
  assumes "context_ok L ok x" "pc_token (lock_pc x) = Some t"
  obtains r0 where "raw_enter L r0 = (t, regs x)" "chain L ok r0 (guards x)" "raw_exit L t (regs x) = Some r0" "\<not> is_reentry t"
proof -
  from assms obtain r0 where r: "raw_enter L r0 = (t, regs x)" "chain L ok r0 (guards x)" by (auto simp: context_ok_def)
  then show thesis using exit_restores enter_masks chain_ok that by blast
qed

lemma entered_free:
  assumes inv: "lock_inv L ok tid s" "stacks s cpu = x # xs" and pc: "lock_pc x = Entered m reentrant t" and free: "owners s m = UNUSED_THREAD_ID_VALUE"
  shows "lock_inv L ok tid (s\<lparr>owners := (owners s)(m := tid cpu), stacks := (stacks s)(cpu := x\<lparr>guards := (m, t) # guards x, lock_pc := Running\<rparr> # xs)\<rparr>)"
proof -
  note i = lock_invD [OF inv]
  have t: "pc_token (lock_pc x) = Some t" by (simp add: pc)
  show ?thesis
  proof (rule entered_token [OF i(1) t])
    fix r0 assume r: "raw_enter L r0 = (t, regs x)" "chain L ok r0 (guards x)" "\<not> is_reentry t"
    have "m \<notin> fst ` set (guards x)" using i(3) [of m] free tid_used [of cpu] by simp
    then have "context_ok L ok (x\<lparr>guards := (m, t) # guards x, lock_pc := Running\<rparr>)" using i(1) r by (auto simp: context_ok_def)
    then show ?thesis
      by (rule lock_inv_top [OF inv]) (use i(3,5) tid_inj free tid_used not_sym [OF tid_used] in \<open>auto split: if_splits\<close>)
  qed
qed

lemma entered_own:
  assumes inv: "lock_inv L ok tid s" "stacks s cpu = x # xs" and pc: "lock_pc x = Entered m reentrant t" and own: "owners s m = tid cpu"
  shows "lock_inv L ok tid (s\<lparr>owners := (owners s)(m := tid cpu), stacks := (stacks s)(cpu := x\<lparr>guards := (m, mark_reentry t) # guards x, lock_pc := Running\<rparr> # xs)\<rparr>)"
proof -
  note i = lock_invD [OF inv]
  have t: "pc_token (lock_pc x) = Some t" by (simp add: pc)
  show ?thesis
  proof (rule entered_token [OF i(1) t])
    fix r0 assume r: "raw_enter L r0 = (t, regs x)" "chain L ok r0 (guards x)"
    have m: "m \<in> fst ` set (guards x)" and n: "nested (guards x)" using i(1,3) own by (simp_all add: context_ok_def)
    then have "masked r0" by (intro chain_masked [OF r(2)]) auto
    then have "regs x = r0" using enter_again [OF chain_ok [OF r(2)]] r(1) by simp
    then have "context_ok L ok (x\<lparr>guards := (m, mark_reentry t) # guards x, lock_pc := Running\<rparr>)" using m n r(2) by (simp add: context_ok_def)
    then show ?thesis
      by (rule lock_inv_top [OF inv]) (use i(3,5) m own in \<open>auto simp: fun_upd_idem\<close>)
  qed
qed

text \<open>A step that changes neither the guards nor the owners.\<close>

lemma same_guards:
  assumes inv: "lock_inv L ok tid s" "stacks s cpu = x # xs" and "context_ok L ok x'" "guards x' = guards x"
  shows "lock_inv L ok tid (s\<lparr>stacks := (stacks s)(cpu := x' # xs)\<rparr>)"
  using lock_inv_top [OF inv assms(3), of "owners s"] lock_invD(3,5) [OF inv] assms(4) by simp

lemma acquire_step_inv:
  assumes inv: "lock_inv L ok tid s" "stacks s cpu = x # xs" and e: "acquire_step L (tid cpu) (owners s) x = Some (ow, x')"
  shows "lock_inv L ok tid (s\<lparr>owners := ow, stacks := (stacks s)(cpu := x' # xs)\<rparr>)"
proof -
  note i = lock_invD [OF inv]
  have same: "lock_inv L ok tid (s\<lparr>owners := owners s, stacks := (stacks s)(cpu := y # xs)\<rparr>)" if "context_ok L ok y" "guards y = guards x" for y
    using same_guards [OF inv that] by simp
  show ?thesis
  proof (cases "lock_pc x")
    case (Entering m reentrant)
    then show ?thesis using e i(1) by (auto simp: acquire_step_def context_ok_def split: prod.splits intro!: same)
  next
    case (Entered m reentrant t)
    consider "owners s m = UNUSED_THREAD_ID_VALUE" | "owners s m = tid cpu" | "owners s m \<noteq> UNUSED_THREAD_ID_VALUE" "owners s m \<noteq> tid cpu" by blast
    then show ?thesis
    proof cases
      case 1
      then show ?thesis using e Entered entered_free [OF inv Entered 1] by (auto simp: acquire_step_def try_lock_owner_def split: if_splits)
    next
      case 2
      then show ?thesis using e Entered entered_own [OF inv Entered 2] tid_used [of cpu] by (auto simp: acquire_step_def try_lock_owner_def split: if_splits)
    next
      case 3
      then show ?thesis using e Entered i(1) by (auto simp: acquire_step_def try_lock_owner_def context_ok_def intro!: same)
    qed
  next
    case (Refused m reentrant t)
    then have t: "pc_token (lock_pc x) = Some t" by simp
    show ?thesis by (rule entered_token [OF i(1) t]) (use e i(1) Refused in \<open>auto simp: acquire_step_def context_ok_def intro!: same\<close>)
  next
    case (Leaving t)
    then have t: "pc_token (lock_pc x) = Some t" by simp
    show ?thesis by (rule entered_token [OF i(1) t]) (use e i(1) Leaving in \<open>auto simp: acquire_step_def context_ok_def intro!: same\<close>)
  qed (use e in \<open>simp add: acquire_step_def\<close>)
qed

lemma release_step_inv:
  assumes inv: "lock_inv L ok tid s" "stacks s cpu = x # xs" and pc: "lock_pc x = Running" and g: "guards x = (m, t) # gs"
  shows "\<exists>ow x'. release_step dbg (tid cpu) (owners s) x = Some (ow, x') \<and> lock_inv L ok tid (s\<lparr>owners := ow, stacks := (stacks s)(cpu := x' # xs)\<rparr>)"
proof -
  note i = lock_invD [OF inv]
  have n: "is_reentry t \<longleftrightarrow> m \<in> fst ` set gs" "nested gs" using i(1) g by (simp_all add: context_ok_def)
  show ?thesis
  proof (cases "is_reentry t")
    case True
    then have "context_ok L ok (x\<lparr>guards := gs\<rparr>)" using i(1) g pc by (simp add: context_ok_def)
    then have "lock_inv L ok tid (s\<lparr>owners := owners s, stacks := (stacks s)(cpu := x\<lparr>guards := gs\<rparr> # xs)\<rparr>)"
      by (rule lock_inv_top [OF inv]) (use i(3,5) n(1) g True in \<open>auto simp: image_iff\<close>)
    then show ?thesis using g True by (simp add: release_step_def)
  next
    case False
    let ?x = "x\<lparr>guards := gs, lock_pc := Leaving t\<rparr>" and ?ow = "(owners s)(m := UNUSED_THREAD_ID_VALUE)"
    have own: "owners s m = tid cpu" using i(3) [of m] g by simp
    then have own': "owners s m = tid c \<longleftrightarrow> c = cpu" for c using tid_inj by auto
    have "context_ok L ok ?x" using i(1) g pc False by (simp add: context_ok_def)
    then have "lock_inv L ok tid (s\<lparr>owners := ?ow, stacks := (stacks s)(cpu := ?x # xs)\<rparr>)"
      by (rule lock_inv_top [OF inv]) (use i(3,5) n(1) g False own' not_sym [OF tid_used] in \<open>auto simp: image_iff split: if_splits\<close>)
    then show ?thesis using g False own by (simp add: release_step_def locked_state_unlock_def)
  qed
qed

lemma lock_reachable_inv: "lock_reachable L masked ok tid dbg s \<Longrightarrow> lock_inv L ok tid s"
proof (induction rule: lock_reachable.induct)
  case (init st)
  have "\<exists>x xs. st cpu = x # xs \<and> context_ok L ok x \<and> (\<forall>y \<in> set xs. context_ok L ok y \<and> at_rest y) \<and> guards x = []" for cpu
    using init [of cpu] by (auto simp: fresh_context_def context_ok_def)
  then show ?case using not_sym [OF tid_used] by (fastforce simp: lock_inv_def)
next
  case (call s cpu x xs m reentrant)
  then show ?case using lock_invD(1) [OF call(4,2)] by (intro same_guards [OF call(4,2)]) (simp_all add: context_ok_def)
next
  case (acquire s cpu x xs ow x')
  show ?case by (rule acquire_step_inv [OF acquire(4,2,3)])
next
  case (release s cpu x xs ow x')
  then obtain m t gs where g: "guards x = (m, t) # gs" by (cases "guards x") (auto simp: release_step_def)
  from release_step_inv [OF release(5,2,3) g, of dbg] release(4) show ?case by auto
next
  case (interrupt s cpu x xs r)
  note i = lock_invD [OF interrupt(5,2)]
  have rest: "at_rest x" by (rule context_ok_rest [OF i(1) interrupt(3)])
  have "lock_inv L ok tid (s\<lparr>owners := owners s, stacks := (stacks s)(cpu := fresh_context r # x # xs), suspended := suspended s\<rparr>)"
    by (rule lock_inv_stack [OF interrupt(5)]) (use i rest interrupt(4) in \<open>auto simp: fresh_context_def context_ok_def at_rest_def\<close>)
  then show ?case by simp
next
  case (return s cpu x y xs)
  note i = lock_invD [OF return(5,2)]
  have y: "context_ok L ok y" "guards y = []" using i(2) [of y] by (auto simp: at_rest_def)
  have "lock_inv L ok tid (s\<lparr>owners := owners s, stacks := (stacks s)(cpu := y # xs), suspended := suspended s\<rparr>)"
    by (rule lock_inv_stack [OF return(5) y(1)]) (use i(2-5) y(2) return(4) in auto)
  then show ?case by simp
next
  case (switch s cpu x y z S)
  note i = lock_invD [OF switch(4,2)]
  have "lock_inv L ok tid (s\<lparr>owners := owners s, stacks := (stacks s)(cpu := [x, z]), suspended := add_mset y S\<rparr>)"
    by (rule lock_inv_stack [OF switch(4) i(1)]) (use i(2-5) switch(3) in auto)
  then show ?case by simp
next
  case (spawn s r)
  then show ?case by (auto simp: lock_inv_def context_ok_def fresh_context_def at_rest_def)
qed

lemma holder_on_top:
  assumes "lock_inv L ok tid s" "i < length (stacks s cpu)" "(m, t) \<in> set (guards (stacks s cpu ! i))"
  shows "i = 0" "owners s m = tid cpu" "masked (regs (stacks s cpu ! i))"
proof -
  obtain x xs where s: "stacks s cpu = x # xs" using assms(2) by (cases "stacks s cpu") auto
  note d = lock_invD [OF assms(1) s]
  show i0: "i = 0"
  proof (rule ccontr)
    assume "i \<noteq> 0"
    then have "stacks s cpu ! i \<in> set xs" using assms(2) s by (cases i) auto
    then show False using d(2) assms(3) by (force simp: at_rest_def)
  qed
  then have g: "(m, t) \<in> set (guards x)" using assms(3) s by simp
  then show "owners s m = tid cpu" using d(3) by force
  have "guards x \<noteq> []" using g by auto
  then have "\<not> at_rest x" by (simp add: at_rest_def)
  then show "masked (regs (stacks s cpu ! i))" using context_ok_rest [OF d(1)] s i0 by auto
qed

lemma acquire_panics:
  assumes "lock_inv L ok tid s" "stacks s cpu = x # xs" "lock_pc x \<noteq> Running"
  shows "acquire_step L (tid cpu) (owners s) x = None \<longleftrightarrow> (\<exists>m t. lock_pc x = Entered m False t \<and> m \<in> fst ` set (guards x))"
proof -
  note i = lock_invD [OF assms(1,2)]
  show ?thesis
  proof (cases "pc_token (lock_pc x)")
    case None
    then show ?thesis using assms(3) by (cases "lock_pc x") (auto simp: acquire_step_def split: prod.splits)
  next
    case (Some t)
    show ?thesis
    proof (rule entered_token [OF i(1) Some])
      fix r0 assume "raw_exit L t (regs x) = Some r0" "\<not> is_reentry t"
      then show ?thesis using Some tid_used [of cpu]
        by (cases "lock_pc x") (auto simp: acquire_step_def try_lock_owner_def simp del: set_map simp flip: i(3))
    qed
  qed
qed

end

section \<open>What the locks guarantee\<close>

text \<open>A run of the machine with the locks of an architecture.\<close>

abbreviation mutex_reachable :: "Arch \<Rightarrow> bool \<Rightarrow> CpuRegs LockSystem \<Rightarrow> bool" where
  "mutex_reachable arch dbg \<equiv> lock_reachable (SingleCoreInterruptLock arch dbg) (interrupts_masked arch) (regs_ok arch) (thread_id arch) dbg"

text \<open>C9. A mutex is held by one context at a time: if two contexts of the machine, anywhere on the stacks of the two CPUs, have a guard of the same
mutex, they are the same context, which is the one that runs on its CPU, and its interrupts are masked. A task that is not on a CPU has no guard. So
nobody else sees or changes protected data while a closure runs with the lock.\<close>

theorem mutex_exclusive:
  assumes "mutex_reachable arch dbg s"
    and "i < length (stacks s c)" "(m, t) \<in> set (guards (stacks s c ! i))"
    and "j < length (stacks s d)" "(m, u) \<in> set (guards (stacks s d ! j))"
  shows "c = d \<and> i = 0 \<and> j = 0 \<and> interrupts_masked arch (regs (stacks s c ! i)) \<and> (\<forall>z \<in># suspended s. guards z = [])"
proof -
  note inv = interrupt_mutex.lock_reachable_inv [OF assms(1)]
  note a = interrupt_mutex.holder_on_top [OF inv assms(2,3)] and b = interrupt_mutex.holder_on_top [OF inv assms(4,5)]
  have "c = d" using a(2) b(2) thread_id_inj [of arch c d] by simp
  moreover have "\<forall>z \<in># suspended s. guards z = []" using inv by (auto simp: lock_inv_def at_rest_def)
  ultimately show ?thesis using a b by simp
qed

text \<open>A machine with two RISC-V CPUs on which the first one takes the mutex 7, and takes it again.\<close>

definition sample_regs :: CpuRegs where
  "sample_regs = \<lparr>ps = 0, mstatus = 8, mintthresh = 0\<rparr>"

definition sample_lock_context :: "(nat \<times> u32) list \<Rightarrow> LockPc \<Rightarrow> CpuRegs Context" where
  "sample_lock_context gs pc = \<lparr>guards = gs, lock_pc = pc, regs = sample_regs\<lparr>mstatus := 0\<rparr>\<rparr>"

definition sample_machine :: "nat list \<Rightarrow> CpuRegs Context \<Rightarrow> CpuRegs LockSystem" where
  "sample_machine held x = \<lparr>owners = (\<lambda>m. if m \<in> set held then 1 else 0), stacks = (\<lambda>_. [fresh_context sample_regs])(ProCpu := [x]), suspended = {#}\<rparr>"

lemmas sample_lock_simps = sample_machine_def sample_lock_context_def sample_regs_def fresh_context_def acquire_step_def try_lock_owner_def lock_defs
  thread_id_def UNUSED_THREAD_ID_VALUE_def

lemma sample_locks:
  "mutex_reachable RiscV True (sample_machine [7] (sample_lock_context [(7, 8)] Running))"
  "mutex_reachable RiscV True (sample_machine [7] (sample_lock_context [(7, 8)] (Entered 7 reentrant 0)))"
  "mutex_reachable RiscV True (sample_machine [7] (sample_lock_context [(7, mark_reentry 0), (7, 8)] Running))"
proof -
  have "mutex_reachable RiscV True (sample_machine [] (fresh_context sample_regs))"
    unfolding sample_machine_def using lock_reachable.init [of "regs_ok RiscV" "(\<lambda>_. [fresh_context sample_regs])(ProCpu := [fresh_context sample_regs])"]
    by (simp add: regs_ok_def UNUSED_THREAD_ID_VALUE_def exI [of _ sample_regs])
  from lock_reachable.call [OF this, of ProCpu "fresh_context sample_regs" "[]" 7 True]
  have "mutex_reachable RiscV True (sample_machine [] (fresh_context sample_regs\<lparr>lock_pc := Entering 7 True\<rparr>))"
    by (simp add: sample_machine_def fresh_context_def)
  from lock_reachable.acquire [OF this, of ProCpu _ "[]" "owners (sample_machine [] undefined)" "sample_lock_context [] (Entered 7 True 8)"]
  have "mutex_reachable RiscV True (sample_machine [] (sample_lock_context [] (Entered 7 True 8)))" by (simp add: sample_lock_simps)
  from lock_reachable.acquire [OF this, of ProCpu _ "[]" "owners (sample_machine [7] undefined)" "sample_lock_context [(7, 8)] Running"]
  show held: "mutex_reachable RiscV True (sample_machine [7] (sample_lock_context [(7, 8)] Running))" by (simp add: sample_lock_simps fun_eq_iff is_reentry_def REENTRY_FLAG_def)
  have entered: "mutex_reachable RiscV True (sample_machine [7] (sample_lock_context [(7, 8)] (Entered 7 reentrant 0)))" for reentrant
  proof -
    from lock_reachable.call [OF held, of ProCpu "sample_lock_context [(7, 8)] Running" "[]" 7 reentrant]
    have "mutex_reachable RiscV True (sample_machine [7] (sample_lock_context [(7, 8)] (Entering 7 reentrant)))"
      by (simp add: sample_machine_def sample_lock_context_def)
    from lock_reachable.acquire [OF this, of ProCpu _ "[]" "owners (sample_machine [7] undefined)" "sample_lock_context [(7, 8)] (Entered 7 reentrant 0)"]
    show ?thesis by (simp add: sample_lock_simps)
  qed
  then show "mutex_reachable RiscV True (sample_machine [7] (sample_lock_context [(7, 8)] (Entered 7 reentrant 0)))" .
  from lock_reachable.acquire [OF entered [of True], of ProCpu _ "[]" "owners (sample_machine [7] undefined)" "sample_lock_context [(7, mark_reentry 0), (7, 8)] Running"]
  show "mutex_reachable RiscV True (sample_machine [7] (sample_lock_context [(7, mark_reentry 0), (7, 8)] Running))"
    by (simp add: sample_lock_simps fun_eq_iff)
qed

theorem mutex_exclusive_witness:
  "interrupts_masked RiscV (regs (stacks (sample_machine [7] (sample_lock_context [(7, mark_reentry 0), (7, 8)] Running)) ProCpu ! 0))"
  using mutex_exclusive [OF sample_locks(3), of 0 ProCpu 7 8 0 ProCpu "mark_reentry 0"] by (simp add: sample_machine_def sample_lock_context_def)

text \<open>C25. A lock panics only where its documentation says so: a step of \<open>acquire\<close> panics exactly when a context takes a mutex with \<open>lock_non_reentrant\<close>
that it already has; no debug assertion of \<open>release\<close> or of the raw lock ever fails.\<close>

theorem lock_panics_on_reentry:
  assumes "mutex_reachable arch dbg s" "stacks s cpu = x # xs"
  shows "(lock_pc x \<noteq> Running \<longrightarrow>
      (acquire_step (SingleCoreInterruptLock arch dbg) (thread_id arch cpu) (owners s) x = None \<longleftrightarrow>
        (\<exists>m t. lock_pc x = Entered m False t \<and> m \<in> fst ` set (guards x)))) \<and>
    (lock_pc x = Running \<and> guards x \<noteq> [] \<longrightarrow> release_step dbg (thread_id arch cpu) (owners s) x \<noteq> None)"
proof -
  note inv = interrupt_mutex.lock_reachable_inv [OF assms(1)]
  have "release_step dbg (thread_id arch cpu) (owners s) x \<noteq> None" if r: "lock_pc x = Running" "guards x \<noteq> []"
  proof -
    obtain m t gs where "guards x = (m, t) # gs" using r(2) by (cases "guards x") auto
    from interrupt_mutex.release_step_inv [OF inv assms(2) r(1) this, of dbg] show ?thesis by auto
  qed
  then show ?thesis using interrupt_mutex.acquire_panics [OF inv assms(2)] by blast
qed

theorem lock_panics_on_reentry_witness:
  "acquire_step (SingleCoreInterruptLock RiscV True) (thread_id RiscV ProCpu) (owners (sample_machine [7] (sample_lock_context [(7, 8)] (Entered 7 False 0))))
    (sample_lock_context [(7, 8)] (Entered 7 False 0)) = None"
  using lock_panics_on_reentry [OF sample_locks(2) [of False], of ProCpu "sample_lock_context [(7, 8)] (Entered 7 False 0)" "[]"]
  by (simp add: sample_machine_def sample_lock_context_def)

text \<open>C26. A critical section leaves no trace: from any state of the interrupts, a context that takes a free mutex runs its closure with the
interrupts masked, and after the guard is dropped its registers, its guards and the owner are what they were before. An attempt that finds the mutex taken by the other CPU
restores the interrupts before it tries again.\<close>

theorem lock_restores_interrupts:
  assumes "regs_ok arch (regs x)" "lock_pc x = Running"
  shows "\<exists>tkn x1 x2 x3. acquire_step (SingleCoreInterruptLock arch dbg) tid ow (x\<lparr>lock_pc := Entering m reentrant\<rparr>) = Some (ow, x1) \<and>
    (ow m = UNUSED_THREAD_ID_VALUE \<longrightarrow>
       acquire_step (SingleCoreInterruptLock arch dbg) tid ow x1 = Some (ow(m := tid), x2) \<and>
       lock_pc x2 = Running \<and> guards x2 = (m, tkn) # guards x \<and> interrupts_masked arch (regs x2) \<and>
       release_step dbg tid (ow(m := tid)) x2 = Some (ow, x3) \<and>
       acquire_step (SingleCoreInterruptLock arch dbg) tid ow x3 = Some (ow, x)) \<and>
    (ow m \<noteq> UNUSED_THREAD_ID_VALUE \<and> ow m \<noteq> tid \<longrightarrow>
       acquire_step (SingleCoreInterruptLock arch dbg) tid ow x1 = Some (ow, x2) \<and>
       acquire_step (SingleCoreInterruptLock arch dbg) tid ow x2 = Some (ow, x\<lparr>lock_pc := Entering m reentrant\<rparr>))"
proof -
  let ?L = "SingleCoreInterruptLock arch dbg"
  obtain t r where e: "raw_enter ?L (regs x) = (t, r)" by (cases "raw_enter ?L (regs x)")
  note l = interrupt_lock.enter_masks [OF assms(1) e] interrupt_lock.exit_restores [OF assms(1) e]
  let ?x1 = "x\<lparr>lock_pc := Entered m reentrant t, regs := r\<rparr>"
  have x1: "acquire_step ?L tid ow (x\<lparr>lock_pc := Entering m reentrant\<rparr>) = Some (ow, ?x1)" using e by (simp add: acquire_step_def)
  show ?thesis
  proof (cases "ow m = UNUSED_THREAD_ID_VALUE")
    case True
    let ?x2 = "x\<lparr>guards := (m, t) # guards x, lock_pc := Running, regs := r\<rparr>" and ?x3 = "x\<lparr>lock_pc := Leaving t, regs := r\<rparr>"
    have "ow(m := UNUSED_THREAD_ID_VALUE) = ow" using True by (simp add: fun_upd_idem)
    then have "release_step dbg tid (ow(m := tid)) ?x2 = Some (ow, ?x3)" using l(1) by (simp add: release_step_def locked_state_unlock_def)
    moreover have "acquire_step ?L tid ow ?x1 = Some (ow(m := tid), ?x2)" using True l(1) by (simp add: acquire_step_def try_lock_owner_def)
    moreover have "acquire_step ?L tid ow ?x3 = Some (ow, x)" using l(2) assms(2) by (simp add: acquire_step_def)
    ultimately show ?thesis using x1 True l(1) by (intro exI [of _ t] exI [of _ ?x1] exI [of _ ?x2] exI [of _ ?x3]) simp
  next
    case False
    let ?x2 = "x\<lparr>lock_pc := Refused m reentrant t, regs := r\<rparr>"
    have "acquire_step ?L tid ow ?x1 = Some (ow, ?x2)" if "ow m \<noteq> tid" using False that by (simp add: acquire_step_def try_lock_owner_def fun_upd_idem)
    moreover have "acquire_step ?L tid ow ?x2 = Some (ow, x\<lparr>lock_pc := Entering m reentrant\<rparr>)" using l(2) by (simp add: acquire_step_def)
    ultimately show ?thesis using x1 False by (intro exI [of _ t] exI [of _ ?x1] exI [of _ ?x2] exI [of _ ?x2]) simp
  qed
qed

theorem lock_restores_interrupts_witness:
  "\<exists>tkn x1 x2 x3. acquire_step (SingleCoreInterruptLock RiscV True) 1 (\<lambda>_. 0) ((fresh_context sample_regs)\<lparr>lock_pc := Entering 7 False\<rparr>) = Some (\<lambda>_. 0, x1) \<and>
    acquire_step (SingleCoreInterruptLock RiscV True) 1 (\<lambda>_. 0) x1 = Some ((\<lambda>_. 0)(7 := 1), x2) \<and> guards x2 = [(7, tkn)] \<and>
    interrupts_masked RiscV (regs x2) \<and> release_step True 1 ((\<lambda>_. 0)(7 := 1)) x2 = Some (\<lambda>_. 0, x3) \<and>
    acquire_step (SingleCoreInterruptLock RiscV True) 1 (\<lambda>_. 0) x3 = Some (\<lambda>_. 0, fresh_context sample_regs)"
proof -
  have "regs_ok RiscV (regs (fresh_context sample_regs))" "lock_pc (fresh_context sample_regs) = Running" by (simp_all add: regs_ok_def fresh_context_def)
  from lock_restores_interrupts [OF this, of True 1 "\<lambda>_. 0" 7 False] show ?thesis by (auto simp: UNUSED_THREAD_ID_VALUE_def fresh_context_def)
qed

text \<open>On a chip with one CPU, where the flag replaces the owner, the lock gives the same tokens.\<close>

lemma single_core_same:
  assumes "owner \<in> {UNUSED_THREAD_ID_VALUE, tid}" "tid \<noteq> UNUSED_THREAD_ID_VALUE" "raw_enter L r = (tkn, r')"
  shows "single_core_lock L (owner \<noteq> UNUSED_THREAD_ID_VALUE) r = (the (fst (try_lock_owner tid tkn owner)), snd (try_lock_owner tid tkn owner) \<noteq> UNUSED_THREAD_ID_VALUE, r')"
  using assms by (auto simp: single_core_lock_def try_lock_owner_def)

end
