(* ===== verification/Dma_Descriptors.thy ===== *)
theory Dma_Descriptors
  imports Prelude
begin

text \<open>
  \<open>esp-hal/src/dma/mod.rs\<close>: DMA descriptors and the sets of them that describe a buffer, with the alignment rules
  of \<open>dma/buffers/mod.rs\<close> and the memory checks of \<open>soc/mod.rs\<close>. A descriptor tells the DMA engine where a
  chunk of the buffer lies, how large it is, how many bytes of it are valid, and which descriptor is next. A
  pointer to a descriptor is its index in the slice that holds it. The lemmas show that the chunks of a
  set tile the buffer.
\<close>

section \<open>Memory regions and alignment\<close>

text \<open>The properties of a chip: its features and the address ranges of its memories.\<close>

record DmaSoc =
  dma_can_access_psram :: bool
  is_esp32 :: bool
  is_esp32p4 :: bool
  dram_range :: "nat \<times> nat"
  psram_range :: "nat \<times> nat"
  uncached_ram_range :: "nat \<times> nat"

definition addr_in_range :: "nat \<Rightarrow> nat \<times> nat \<Rightarrow> bool" where
  "addr_in_range addr r \<longleftrightarrow> fst r \<le> addr \<and> addr < snd r"

definition slice_in_range :: "nat \<Rightarrow> nat \<Rightarrow> nat \<times> nat \<Rightarrow> bool" where
  "slice_in_range start len r \<longleftrightarrow> addr_in_range start r \<and> start + len \<le> snd r"

definition is_slice_in_dram :: "DmaSoc \<Rightarrow> nat \<Rightarrow> nat \<Rightarrow> bool" where
  "is_slice_in_dram soc start len \<longleftrightarrow>
    (if is_esp32p4 soc \<and> slice_in_range start len (uncached_ram_range soc) then True else slice_in_range start len (dram_range soc))"

definition is_valid_psram_address :: "DmaSoc \<Rightarrow> nat \<Rightarrow> bool" where
  "is_valid_psram_address soc addr = addr_in_range addr (psram_range soc)"

definition is_slice_in_psram :: "DmaSoc \<Rightarrow> nat \<Rightarrow> nat \<Rightarrow> bool" where
  "is_slice_in_psram soc start len = slice_in_range start len (psram_range soc)"

datatype DmaAlignmentError = AlignAddress | AlignSize

datatype DmaBufError =
    BufferTooSmall
  | InsufficientDescriptors
  | UnsupportedMemoryRegion
  | InvalidAlignment DmaAlignmentError
  | InvalidChunkSize

datatype TransferDirection = In | Out

datatype ExternalBurstConfig = Size16 | Size32 | Size64

datatype InternalBurstConfig = BurstDisabled | BurstEnabled

record BurstConfig =
  external_memory :: ExternalBurstConfig
  internal_memory :: InternalBurstConfig

definition burst_default :: BurstConfig where
  "burst_default = \<lparr>external_memory = Size16, internal_memory = BurstDisabled\<rparr>"

fun external_size :: "ExternalBurstConfig \<Rightarrow> nat" where
  "external_size Size16 = 16"
| "external_size Size32 = 32"
| "external_size Size64 = 64"

definition min_psram_alignment :: "ExternalBurstConfig \<Rightarrow> TransferDirection \<Rightarrow> nat" where
  "min_psram_alignment ext direction = (case direction of In \<Rightarrow> external_size ext | Out \<Rightarrow> 1)"

definition min_dram_alignment :: "DmaSoc \<Rightarrow> InternalBurstConfig \<Rightarrow> TransferDirection \<Rightarrow> nat" where
  "min_dram_alignment soc burst direction = (case direction of
      In \<Rightarrow> if is_esp32 soc then 4 else if burst \<noteq> BurstDisabled then 4 else 1
    | Out \<Rightarrow> if is_esp32 soc then 4 else 1)"

definition min_compatible_alignment :: "DmaSoc \<Rightarrow> BurstConfig \<Rightarrow> nat" where
  "min_compatible_alignment soc burst =
    (let alignment = max (min_dram_alignment soc (internal_memory burst) In) (min_dram_alignment soc (internal_memory burst) Out)
     in if dma_can_access_psram soc then max alignment (external_size (external_memory burst)) else alignment)"

definition chunk_size_for_alignment :: "nat \<Rightarrow> nat" where
  "chunk_size_for_alignment alignment = 4096 - alignment"

definition max_compatible_chunk_size :: "DmaSoc \<Rightarrow> BurstConfig \<Rightarrow> nat" where
  "max_compatible_chunk_size soc burst = chunk_size_for_alignment (min_compatible_alignment soc burst)"

definition min_alignment :: "DmaSoc \<Rightarrow> BurstConfig \<Rightarrow> nat \<Rightarrow> TransferDirection \<Rightarrow> nat" where
  "min_alignment soc burst addr direction =
    (let alignment = min_dram_alignment soc (internal_memory burst) direction
     in if dma_can_access_psram soc \<and> is_valid_psram_address soc addr
        then max alignment (min_psram_alignment (external_memory burst) direction) else alignment)"

definition max_chunk_size_for :: "DmaSoc \<Rightarrow> BurstConfig \<Rightarrow> nat \<Rightarrow> TransferDirection \<Rightarrow> nat" where
  "max_chunk_size_for soc burst addr direction = chunk_size_for_alignment (min_alignment soc burst addr direction)"

definition ensure_buffer_aligned :: "DmaSoc \<Rightarrow> BurstConfig \<Rightarrow> nat \<Rightarrow> nat \<Rightarrow> TransferDirection \<Rightarrow> (DmaBufError, unit) result" where
  "ensure_buffer_aligned soc burst addr len direction =
    (let alignment = min_alignment soc burst addr direction
     in if \<not> alignment dvd addr then Err (InvalidAlignment AlignAddress)
        else if direction = In \<and> \<not> alignment dvd len then Err (InvalidAlignment AlignSize)
        else Ok ())"

definition ensure_buffer_compatible :: "DmaSoc \<Rightarrow> BurstConfig \<Rightarrow> nat \<Rightarrow> nat \<Rightarrow> TransferDirection \<Rightarrow> (DmaBufError, unit) result" where
  "ensure_buffer_compatible soc burst addr len direction =
    (if len = 0 then Ok ()
     else if \<not> (is_slice_in_dram soc addr len \<or> dma_can_access_psram soc \<and> is_slice_in_psram soc addr len) then Err UnsupportedMemoryRegion
     else ensure_buffer_aligned soc burst addr len direction)"

lemma min_alignment_bounds: "1 \<le> min_alignment soc burst addr direction" "min_alignment soc burst addr direction \<le> 64"
  by (cases direction; cases "external_memory burst"; auto simp: min_alignment_def Let_def min_dram_alignment_def min_psram_alignment_def)+

lemma chunk_bounds: "4032 \<le> max_chunk_size_for soc burst addr direction" "max_chunk_size_for soc burst addr direction \<le> 4095"
  using min_alignment_bounds [of soc burst addr direction] by (auto simp: max_chunk_size_for_def chunk_size_for_alignment_def)

lemma chunk_pos [simp]: "max_chunk_size_for soc burst addr direction \<noteq> 0" "0 < max_chunk_size_for soc burst addr direction"
  using chunk_bounds(1) [of soc burst addr direction] by simp_all

section \<open>Descriptors\<close>

datatype Owner = OwnerCpu | OwnerDma

text \<open>The flag word of a descriptor as its fields: two of 12 bits, and two bits.\<close>

record DmaDescriptor =
  d_size :: nat
  d_length :: nat
  d_suc_eof :: bool
  d_owner :: Owner
  d_buffer :: nat
  d_next :: "nat option"

definition DESCRIPTOR_EMPTY :: DmaDescriptor where
  "DESCRIPTOR_EMPTY = \<lparr>d_size = 0, d_length = 0, d_suc_eof = False, d_owner = OwnerCpu, d_buffer = 0, d_next = None\<rparr>"

definition set_size :: "nat \<Rightarrow> DmaDescriptor \<Rightarrow> DmaDescriptor" where
  "set_size len d = d\<lparr>d_size := len mod 2 ^ 16 mod 2 ^ 12\<rparr>"

definition set_length :: "nat \<Rightarrow> DmaDescriptor \<Rightarrow> DmaDescriptor" where
  "set_length len d = d\<lparr>d_length := len mod 2 ^ 16 mod 2 ^ 12\<rparr>"

definition set_suc_eof :: "bool \<Rightarrow> DmaDescriptor \<Rightarrow> DmaDescriptor" where
  "set_suc_eof b d = d\<lparr>d_suc_eof := b\<rparr>"

definition set_owner :: "Owner \<Rightarrow> DmaDescriptor \<Rightarrow> DmaDescriptor" where
  "set_owner ow d = d\<lparr>d_owner := ow\<rparr>"

definition reset_for_rx :: "DmaDescriptor \<Rightarrow> DmaDescriptor" where
  "reset_for_rx d = set_length 0 (set_suc_eof False (set_owner OwnerDma d))"

definition reset_for_tx :: "bool \<Rightarrow> DmaDescriptor \<Rightarrow> DmaDescriptor" where
  "reset_for_tx set_eof d = set_suc_eof set_eof (set_owner OwnerDma d)"

lemmas descriptor_defs = set_size_def set_length_def set_suc_eof_def set_owner_def reset_for_rx_def reset_for_tx_def

section \<open>\<open>DescriptorSet\<close>\<close>

definition descriptor_count :: "nat \<Rightarrow> nat \<Rightarrow> nat" where
  "descriptor_count buffer_size chunk_size = (if buffer_size < chunk_size then 1 else (buffer_size + chunk_size - 1) div chunk_size)"

text \<open>\<open>new\<close>: the descriptors must lie in internal memory, except on the ESP32-P4.\<close>

definition descriptor_set_new :: "DmaSoc \<Rightarrow> nat \<Rightarrow> nat \<Rightarrow> DmaDescriptor list \<Rightarrow> (DmaBufError, DmaDescriptor list) result" where
  "descriptor_set_new soc addr bytes ds =
    (if \<not> is_esp32p4 soc \<and> \<not> is_slice_in_dram soc addr bytes then Err UnsupportedMemoryRegion
     else Ok (replicate (length ds) DESCRIPTOR_EMPTY))"

fun linked_iter :: "DmaDescriptor list \<Rightarrow> DmaDescriptor list" where
  "linked_iter [] = []"
| "linked_iter (d # ds) = (if d_next d = None then [d] else d # linked_iter ds)"

text \<open>A loop over \<open>linked_iter_mut\<close>.\<close>

fun for_linked :: "(DmaDescriptor \<Rightarrow> DmaDescriptor) \<Rightarrow> DmaDescriptor list \<Rightarrow> DmaDescriptor list" where
  "for_linked f [] = []"
| "for_linked f (d # ds) = (if d_next d = None then f d # ds else f d # for_linked f ds)"

text \<open>The number of descriptors for a buffer; a chunk size of zero is a division by zero.\<close>

definition descriptors_for_buffer_len :: "DmaDescriptor list \<Rightarrow> nat \<Rightarrow> nat \<Rightarrow> (DmaBufError, nat) result" where
  "descriptors_for_buffer_len ds len chunk_size =
    (if chunk_size = 0 then Panic
     else if length ds < descriptor_count len chunk_size then Err InsufficientDescriptors
     else Ok (descriptor_count len chunk_size))"

text \<open>The first loop of \<open>set_up_descriptors\<close>: each descriptor points to the one after it. \<open>i\<close> is the index of the first.\<close>

fun link_descriptors :: "nat \<Rightarrow> DmaDescriptor list \<Rightarrow> DmaDescriptor list" where
  "link_descriptors i [] = []"
| "link_descriptors i (d # ds) = d\<lparr>d_next := (if ds = [] then None else Some (Suc i))\<rparr> # link_descriptors (Suc i) ds"

text \<open>The second loop, with the length that remains at its end.\<close>

fun prepare_descriptors :: "(nat \<Rightarrow> DmaDescriptor \<Rightarrow> DmaDescriptor) \<Rightarrow> nat \<Rightarrow> nat \<Rightarrow> DmaDescriptor list \<Rightarrow> DmaDescriptor list \<times> nat" where
  "prepare_descriptors prepare chunk_size remaining [] = ([], remaining)"
| "prepare_descriptors prepare chunk_size remaining (d # ds) =
    (let chunk = min chunk_size remaining; (ds', r) = prepare_descriptors prepare chunk_size (remaining - chunk) ds
     in (prepare chunk d # ds', r))"

definition set_up_descriptors ::
  "bool \<Rightarrow> DmaDescriptor list \<Rightarrow> nat \<Rightarrow> nat \<Rightarrow> (nat \<Rightarrow> DmaDescriptor \<Rightarrow> DmaDescriptor) \<Rightarrow> (DmaBufError, DmaDescriptor list) result"
where
  "set_up_descriptors dbg ds len chunk_size prepare =
     bind_result (descriptors_for_buffer_len ds len chunk_size) (\<lambda>n.
     case prepare_descriptors prepare chunk_size len (link_descriptors 0 (take n ds)) of (ds', remaining) \<Rightarrow>
       if dbg \<and> remaining \<noteq> 0 then Panic else Ok (ds' @ drop n ds))"

definition set_rx_length :: "bool \<Rightarrow> DmaDescriptor list \<Rightarrow> nat \<Rightarrow> nat \<Rightarrow> (DmaBufError, DmaDescriptor list) result" where
  "set_rx_length dbg ds len chunk_size = set_up_descriptors dbg ds len chunk_size set_size"

definition set_tx_length :: "bool \<Rightarrow> DmaDescriptor list \<Rightarrow> nat \<Rightarrow> nat \<Rightarrow> (DmaBufError, DmaDescriptor list) result" where
  "set_tx_length dbg ds len chunk_size = set_up_descriptors dbg ds len chunk_size set_length"

text \<open>The loop of \<open>set_up_buffer_ptrs\<close> over the descriptors and the chunks of the buffer of \<open>len\<close> bytes at \<open>addr\<close>.\<close>

fun point_to_chunks :: "nat \<Rightarrow> nat \<Rightarrow> nat \<Rightarrow> DmaDescriptor list \<Rightarrow> DmaDescriptor list" where
  "point_to_chunks addr len chunk_size [] = []"
| "point_to_chunks addr len chunk_size (d # ds) =
    (if len = 0 then d # ds
     else let chunk = min chunk_size len
       in (set_size chunk d)\<lparr>d_buffer := addr\<rparr> # point_to_chunks (addr + chunk) (len - chunk) chunk_size ds)"

definition link_with_buffer :: "nat \<Rightarrow> nat \<Rightarrow> DmaDescriptor list \<Rightarrow> nat \<Rightarrow> (DmaBufError, DmaDescriptor list) result" where
  "link_with_buffer addr len ds chunk_size =
     bind_result (descriptors_for_buffer_len ds len chunk_size) (\<lambda>n.
     Ok (point_to_chunks addr len chunk_size (take n ds) @ drop n ds))"

section \<open>The loops, descriptor by descriptor\<close>

lemma set_fields_small: "len \<le> 4095 \<Longrightarrow> set_size len d = d\<lparr>d_size := len\<rparr>" "len \<le> 4095 \<Longrightarrow> set_length len d = d\<lparr>d_length := len\<rparr>"
  by (simp_all add: descriptor_defs)

lemma length_link [simp]: "length (link_descriptors i ds) = length ds"
  by (induction ds arbitrary: i) auto

lemma link_nth:
  assumes "k < length ds"
  shows "link_descriptors i ds ! k = (ds ! k)\<lparr>d_next := (if Suc k < length ds then Some (i + Suc k) else None)\<rparr>"
  using assms
proof (induction ds arbitrary: i k)
  case (Cons d ds)
  then show ?case by (cases k) auto
qed simp

lemma length_prepare [simp]: "length (fst (prepare_descriptors f c r ds)) = length ds"
  by (induction ds arbitrary: r) (auto simp: Let_def split_beta)

lemma prepare_rest: "snd (prepare_descriptors f c r ds) = r - length ds * c"
  by (induction ds arbitrary: r) (auto simp: Let_def min_def split_beta)

lemma min_diff_mult: "min c (r - min c r - k * c) = min c (r - Suc k * c)" for c r k :: nat
  by (auto simp: min_def)

lemma prepare_nth:
  assumes "k < length ds"
  shows "fst (prepare_descriptors f c r ds) ! k = f (min c (r - k * c)) (ds ! k)"
  using assms
proof (induction ds arbitrary: r k)
  case (Cons d ds)
  then show ?case by (cases k) (auto simp: Let_def min_diff_mult [simplified] split_beta)
qed simp

lemma length_point [simp]: "length (point_to_chunks addr len c ds) = length ds"
  by (induction ds arbitrary: addr len) (auto simp: Let_def)

lemma point_nth:
  assumes "k < length ds" "0 < c"
  shows "point_to_chunks addr len c ds ! k =
    (if k * c < len then (set_size (min c (len - k * c)) (ds ! k))\<lparr>d_buffer := addr + k * c\<rparr> else ds ! k)"
  using assms
proof (induction ds arbitrary: addr len k)
  case (Cons d ds)
  then show ?case
  proof (cases k)
    case (Suc j)
    have "j * c < len - min c len \<longleftrightarrow> Suc j * c < len" using Cons.prems(2) by (auto simp: min_def)
    moreover have "addr + min c len + j * c = addr + Suc j * c" if "Suc j * c < len" using that by (simp add: min_def)
    ultimately show ?thesis using Cons Suc by (auto simp: Let_def min_diff_mult)
  qed (auto simp: Let_def)
qed simp

lemma descriptor_count_bounds:
  assumes "0 < c"
  shows "1 \<le> descriptor_count len c" "len \<le> descriptor_count len c * c" "len = 0 \<or> (descriptor_count len c - 1) * c < len"
proof -
  let ?q = "(len + c - 1) div c"
  have q: "?q * c \<le> len + c - 1" "len + c - 1 < Suc ?q * c"
    using div_times_less_eq_dividend [of "len + c - 1" c] dividend_less_div_times [OF assms, of "len + c - 1"] by simp_all
  show "1 \<le> descriptor_count len c"
  proof (cases "len < c")
    case False
    then have "c div c \<le> ?q" using assms by (intro div_le_mono) simp
    then show ?thesis using False assms by (simp add: descriptor_count_def)
  qed (simp add: descriptor_count_def)
  show "len \<le> descriptor_count len c * c" using q(2) by (auto simp: descriptor_count_def)
  show "len = 0 \<or> (descriptor_count len c - 1) * c < len"
  proof (cases "len < c")
    case False
    have "(?q - 1) * c = ?q * c - c" by (simp add: diff_mult_distrib)
    then have "(?q - 1) * c < len" using q(1) False assms by arith
    then show ?thesis using False by (simp add: descriptor_count_def)
  qed (auto simp: descriptor_count_def)
qed

lemma descriptor_count_mono: "0 < c \<Longrightarrow> len \<le> len' \<Longrightarrow> descriptor_count len c \<le> descriptor_count len' c"
  using div_le_mono [of "len + c - 1" "len' + c - 1" c] div_le_mono [of c "len' + c - 1" c] by (auto simp: descriptor_count_def)

section \<open>Chains\<close>

text \<open>The first \<open>n\<close> descriptors are linked to a list.\<close>

definition chained :: "DmaDescriptor list \<Rightarrow> nat \<Rightarrow> bool" where
  "chained ds n \<longleftrightarrow> 1 \<le> n \<and> n \<le> length ds \<and> (\<forall>k < n. d_next (ds ! k) = (if Suc k < n then Some (Suc k) else None))"

lemma chained_linked:
  assumes "\<forall>k < n. (d_next (ds ! k) = None) \<longleftrightarrow> Suc k = n" "1 \<le> n" "n \<le> length ds"
  shows "linked_iter ds = take n ds" "for_linked f ds = map f (take n ds) @ drop n ds"
proof -
  have "linked_iter ds = take n ds \<and> for_linked f ds = map f (take n ds) @ drop n ds"
    using assms
  proof (induction ds arbitrary: n)
    case (Cons d ds)
    show ?case
    proof (cases "n = 1")
      case True
      then show ?thesis using Cons.prems(1) by simp
    next
      case False
      then obtain m where m: "n = Suc m" "1 \<le> m" using Cons.prems(2) by (cases n) auto
      have "d_next d \<noteq> None" using Cons.prems(1) m by (auto dest: spec [of _ 0])
      moreover have "\<forall>k < m. (d_next (ds ! k) = None) \<longleftrightarrow> Suc k = m" using Cons.prems(1) m by (auto dest: spec [of _ "Suc _"])
      ultimately show ?thesis using Cons.IH [of m] Cons.prems(3) m by auto
    qed
  qed simp
  then show "linked_iter ds = take n ds" "for_linked f ds = map f (take n ds) @ drop n ds" by simp_all
qed

lemma chained_iter:
  assumes "chained ds n"
  shows "linked_iter ds = take n ds" "for_linked f ds = map f (take n ds) @ drop n ds"
  using chained_linked [of n ds] assms by (auto simp: chained_def)

text \<open>What setting up descriptors does when it succeeds.\<close>

lemma set_up_ok:
  assumes "set_up_descriptors dbg ds len c f = Ok ds'" "0 < c" "\<And>m d. d_next (f m d) = d_next d"
  shows "chained ds' (descriptor_count len c)" "length ds' = length ds"
    "k < descriptor_count len c \<Longrightarrow> ds' ! k = f (min c (len - k * c)) ((ds ! k)\<lparr>d_next := (if Suc k < descriptor_count len c then Some (Suc k) else None)\<rparr>)"
    "descriptor_count len c \<le> k \<Longrightarrow> k < length ds \<Longrightarrow> ds' ! k = ds ! k"
proof -
  let ?n = "descriptor_count len c"
  let ?p = "fst (prepare_descriptors f c len (link_descriptors 0 (take ?n ds)))"
  have n: "?n \<le> length ds" and ds': "ds' = ?p @ drop ?n ds" using assms(1,2)
    by (auto simp: set_up_descriptors_def descriptors_for_buffer_len_def split_beta split: if_splits)
  have lp: "length ?p = ?n" using n by simp
  show "length ds' = length ds" using n by (simp add: ds')
  show nth: "ds' ! k = f (min c (len - k * c)) ((ds ! k)\<lparr>d_next := (if Suc k < ?n then Some (Suc k) else None)\<rparr>)" if "k < ?n" for k
    using that n lp by (simp add: ds' nth_append prepare_nth link_nth)
  show "ds' ! k = ds ! k" if "?n \<le> k" "k < length ds" for k using that lp by (simp add: ds' nth_append)
  show "chained ds' ?n" using nth n descriptor_count_bounds(1) [OF assms(2)] assms(3) by (simp add: chained_def ds' lp)
qed

lemma set_up_succeeds: "0 < c \<Longrightarrow> descriptor_count len c \<le> length ds \<Longrightarrow> \<exists>ds'. set_up_descriptors dbg ds len c f = Ok ds'"
  using descriptor_count_bounds(2) [of c len]
  by (auto simp: set_up_descriptors_def descriptors_for_buffer_len_def split_beta prepare_rest)

lemma link_with_buffer_ok:
  assumes "link_with_buffer addr len ds c = Ok ds'" "0 < c"
  shows "length ds' = length ds" "descriptor_count len c \<le> length ds"
    "k < length ds \<Longrightarrow> ds' ! k = (if k * c < len then (set_size (min c (len - k * c)) (ds ! k))\<lparr>d_buffer := addr + k * c\<rparr> else ds ! k)"
proof -
  let ?n = "descriptor_count len c"
  show n: "?n \<le> length ds" using assms by (auto simp: link_with_buffer_def descriptors_for_buffer_len_def split: if_splits)
  have ds': "ds' = point_to_chunks addr len c (take ?n ds) @ drop ?n ds"
    using assms by (auto simp: link_with_buffer_def descriptors_for_buffer_len_def split: if_splits)
  show "length ds' = length ds" using n by (simp add: ds')
  show "ds' ! k = (if k * c < len then (set_size (min c (len - k * c)) (ds ! k))\<lparr>d_buffer := addr + k * c\<rparr> else ds ! k)" if k: "k < length ds"
  proof (cases "k < ?n")
    case True
    then show ?thesis using n by (simp add: ds' nth_append point_nth assms(2))
  next
    case False
    then have "?n * c \<le> k * c" by (intro mult_le_mono1) simp
    then have "\<not> k * c < len" using descriptor_count_bounds(2) [OF assms(2), of len] by linarith
    then show ?thesis using False n k by (simp add: ds' nth_append)
  qed
qed

end
