(* ===== verification/Dma_Buffers.thy ===== *)
theory Dma_Buffers
  imports Dma_Descriptors
begin

text \<open>
  \<open>esp-hal/src/dma/buffers/scoped.rs\<close>: the buffers that \<open>DmaTxBuf\<close> and \<open>DmaRxBuf\<close> wrap. A buffer is a region of memory with a set of
  descriptors. The DMA engine is described as the documentation of the descriptors tells: it follows the
  chain, sends the valid bytes of each chunk, or fills each chunk up to its size and stores the number
  of bytes. The lemmas show that what the program and the engine do to a buffer fits together. \<open>dbg\<close> selects a build with
  debug assertions. Cache maintenance is not modelled: the memory is what the engine sees.
\<close>

section \<open>Transmit buffers\<close>

record DmaBuf =
  db_descriptors :: "DmaDescriptor list"
  db_addr :: nat
  db_capacity :: nat
  db_burst :: BurstConfig

type_synonym buf_exec = "(DmaBuf, DmaBufError, unit) exec"

definition put_descriptors :: "(DmaBufError, DmaDescriptor list) result \<Rightarrow> buf_exec" where
  "put_descriptors r = bind_exec (lift r) (\<lambda>ds b. (Ok (), b\<lparr>db_descriptors := ds\<rparr>))"

definition unwrap :: "buf_exec \<Rightarrow> buf_exec" where
  "unwrap f b = (case f b of (Err e, b') \<Rightarrow> (Panic, b') | r \<Rightarrow> r)"

text \<open>The value of a constructor: the buffer, unless configuring it failed.\<close>

definition finish_new :: "(DmaBufError, unit) result \<times> DmaBuf \<Rightarrow> (DmaBufError, DmaBuf) result" where
  "finish_new p = bind_result (fst p) (\<lambda>_. Ok (snd p))"

lemma finish_new_ok: "finish_new p = Ok b \<longleftrightarrow> p = (Ok (), b)"
  by (cases p) (auto simp: finish_new_def)

definition tx_set_length_fallible :: "bool \<Rightarrow> DmaSoc \<Rightarrow> nat \<Rightarrow> BurstConfig \<Rightarrow> buf_exec" where
  "tx_set_length_fallible dbg soc len burst b =
    (if len > db_capacity b then fail BufferTooSmall b
     else bind_exec (lift (ensure_buffer_compatible soc burst (db_addr b) len Out)) (\<lambda>_.
       bind_exec (put_descriptors (set_tx_length dbg (db_descriptors b) len (max_chunk_size_for soc burst (db_addr b) Out))) (\<lambda>_ b.
       (Ok (), b\<lparr>db_descriptors := for_linked (\<lambda>d. reset_for_tx (d_next d = None) d) (db_descriptors b)\<rparr>))) b)"

definition tx_configure :: "bool \<Rightarrow> DmaSoc \<Rightarrow> BurstConfig \<Rightarrow> nat \<Rightarrow> buf_exec" where
  "tx_configure dbg soc burst len =
     bind_exec (tx_set_length_fallible dbg soc len burst) (\<lambda>_.
     bind_exec (\<lambda>b. put_descriptors (link_with_buffer (db_addr b) (db_capacity b) (db_descriptors b) (max_chunk_size_for soc burst (db_addr b) Out)) b) (\<lambda>_ b.
     (Ok (), b\<lparr>db_burst := burst\<rparr>)))"

text \<open>\<open>new_with_config\<close>: \<open>daddr\<close> and \<open>dbytes\<close> are the address and the size of the slice \<open>ds\<close> of descriptors.\<close>

definition tx_new_with_config :: "bool \<Rightarrow> DmaSoc \<Rightarrow> nat \<Rightarrow> nat \<Rightarrow> DmaDescriptor list \<Rightarrow> nat \<Rightarrow> nat \<Rightarrow> BurstConfig \<Rightarrow> (DmaBufError, DmaBuf) result" where
  "tx_new_with_config dbg soc daddr dbytes ds addr len burst =
     bind_result (descriptor_set_new soc daddr dbytes ds) (\<lambda>ds0.
     finish_new (tx_configure dbg soc burst len \<lparr>db_descriptors = ds0, db_addr = addr, db_capacity = len, db_burst = burst_default\<rparr>))"

definition tx_len :: "DmaBuf \<Rightarrow> nat" where
  "tx_len b = sum_list (map d_length (linked_iter (db_descriptors b)))"

definition tx_set_burst_config :: "bool \<Rightarrow> DmaSoc \<Rightarrow> BurstConfig \<Rightarrow> buf_exec" where
  "tx_set_burst_config dbg soc burst b = tx_configure dbg soc burst (tx_len b) b"

definition tx_set_length :: "bool \<Rightarrow> DmaSoc \<Rightarrow> nat \<Rightarrow> buf_exec" where
  "tx_set_length dbg soc len b = unwrap (tx_set_length_fallible dbg soc len (db_burst b)) b"

definition tx_fill :: "bool \<Rightarrow> DmaSoc \<Rightarrow> u8 list \<Rightarrow> mem \<times> DmaBuf \<Rightarrow> (DmaBufError, unit) result \<times> mem \<times> DmaBuf" where
  "tx_fill dbg soc data s = (case s of (m, b) \<Rightarrow> (case tx_set_length dbg soc (length data) b of
      (Ok _, b') \<Rightarrow> (Ok (), mem_write m (db_addr b') data, b')
    | (r, b') \<Rightarrow> (r, m, b')))"

section \<open>Receive buffers\<close>

definition rx_set_length_fallible :: "bool \<Rightarrow> DmaSoc \<Rightarrow> nat \<Rightarrow> BurstConfig \<Rightarrow> buf_exec" where
  "rx_set_length_fallible dbg soc len burst b =
    (if len > db_capacity b then fail BufferTooSmall b
     else bind_exec (lift (ensure_buffer_compatible soc burst (db_addr b) len In)) (\<lambda>_.
       put_descriptors (set_rx_length dbg (db_descriptors b) len (max_chunk_size_for soc burst (db_addr b) In))) b)"

definition rx_configure :: "bool \<Rightarrow> DmaSoc \<Rightarrow> BurstConfig \<Rightarrow> nat \<Rightarrow> buf_exec" where
  "rx_configure dbg soc burst len =
     bind_exec (rx_set_length_fallible dbg soc len burst) (\<lambda>_.
     bind_exec (\<lambda>b. put_descriptors (link_with_buffer (db_addr b) (db_capacity b) (db_descriptors b) (max_chunk_size_for soc burst (db_addr b) In)) b) (\<lambda>_ b.
     (Ok (), b\<lparr>db_burst := burst\<rparr>)))"

definition rx_new_with_config :: "bool \<Rightarrow> DmaSoc \<Rightarrow> nat \<Rightarrow> nat \<Rightarrow> DmaDescriptor list \<Rightarrow> nat \<Rightarrow> nat \<Rightarrow> BurstConfig \<Rightarrow> (DmaBufError, DmaBuf) result" where
  "rx_new_with_config dbg soc daddr dbytes ds addr len burst =
     bind_result (descriptor_set_new soc daddr dbytes ds) (\<lambda>ds0.
     finish_new (rx_configure dbg soc burst len \<lparr>db_descriptors = ds0, db_addr = addr, db_capacity = len, db_burst = burst_default\<rparr>))"

definition rx_len :: "DmaBuf \<Rightarrow> nat" where
  "rx_len b = sum_list (map d_size (linked_iter (db_descriptors b)))"

definition rx_set_burst_config :: "bool \<Rightarrow> DmaSoc \<Rightarrow> BurstConfig \<Rightarrow> buf_exec" where
  "rx_set_burst_config dbg soc burst b = rx_configure dbg soc burst (rx_len b) b"

definition rx_set_length :: "bool \<Rightarrow> DmaSoc \<Rightarrow> nat \<Rightarrow> buf_exec" where
  "rx_set_length dbg soc len b = unwrap (rx_set_length_fallible dbg soc len (db_burst b)) b"

definition rx_prepare :: "DmaBuf \<Rightarrow> DmaBuf" where
  "rx_prepare b = b\<lparr>db_descriptors := for_linked reset_for_rx (db_descriptors b)\<rparr>"

definition number_of_received_bytes :: "DmaBuf \<Rightarrow> nat" where
  "number_of_received_bytes b = sum_list (map d_length (linked_iter (db_descriptors b)))"

definition received_data :: "mem \<Rightarrow> DmaBuf \<Rightarrow> u8 list list" where
  "received_data m b = map (\<lambda>d. mem_read m (d_buffer d) (d_length d)) (linked_iter (db_descriptors b))"

text \<open>The loop of \<open>read_received_data\<close> for a slice of \<open>n\<close> bytes; \<open>split_at_mut\<close> panics when the slice is too short.\<close>

fun copy_chunks :: "nat \<Rightarrow> u8 list list \<Rightarrow> (DmaBufError, u8 list) result" where
  "copy_chunks n [] = Ok []"
| "copy_chunks n (chunk # chunks) =
    (if n = 0 then Ok []
     else if length chunk > n then Panic
     else bind_result (copy_chunks (n - length chunk) chunks) (\<lambda>bs. Ok (chunk @ bs)))"

definition read_received_data :: "mem \<Rightarrow> DmaBuf \<Rightarrow> nat \<Rightarrow> (DmaBufError, u8 list) result" where
  "read_received_data m b n = copy_chunks n (received_data m b)"

section \<open>The engine\<close>

text \<open>What the engine sends from the descriptor at \<open>i\<close>, for chains of at most \<open>n\<close> descriptors.\<close>

primrec dma_transmit :: "nat \<Rightarrow> mem \<Rightarrow> DmaDescriptor list \<Rightarrow> nat option \<Rightarrow> u8 list" where
  "dma_transmit 0 m ds i = []"
| "dma_transmit (Suc n) m ds i = (case i of
      None \<Rightarrow> []
    | Some k \<Rightarrow> mem_read m (d_buffer (ds ! k)) (d_length (ds ! k)) @ dma_transmit n m ds (d_next (ds ! k)))"

text \<open>How the engine stores received bytes; it marks the descriptor of the last ones.\<close>

primrec dma_receive :: "nat \<Rightarrow> u8 list \<Rightarrow> mem \<Rightarrow> DmaDescriptor list \<Rightarrow> nat option \<Rightarrow> mem \<times> DmaDescriptor list" where
  "dma_receive 0 bs m ds i = (m, ds)"
| "dma_receive (Suc n) bs m ds i = (case i of
      None \<Rightarrow> (m, ds)
    | Some k \<Rightarrow>
        let d = ds ! k; here = take (d_size d) bs; rest = drop (d_size d) bs;
            m' = mem_write m (d_buffer d) here;
            ds' = ds[k := d\<lparr>d_length := length here, d_owner := OwnerCpu, d_suc_eof := (rest = [])\<rparr>]
        in if rest = [] then (m', ds') else dma_receive n rest m' ds' (d_next d))"

section \<open>Chunks that tile a buffer\<close>

text \<open>The first \<open>n\<close> descriptors are chained, and \<open>f\<close> of them, in chunks of \<open>c\<close>, adds up to \<open>len\<close> bytes.\<close>

definition tiles :: "(DmaDescriptor \<Rightarrow> nat) \<Rightarrow> nat \<Rightarrow> DmaDescriptor list \<Rightarrow> nat \<Rightarrow> nat \<Rightarrow> bool" where
  "tiles f c ds n len \<longleftrightarrow> chained ds n \<and> len \<le> n * c \<and> (\<forall>k < n. f (ds ! k) = min c (len - k * c))"

text \<open>The descriptors point to the chunks of a buffer of \<open>len\<close> bytes at \<open>addr\<close>.\<close>

definition pointed :: "DmaDescriptor list \<Rightarrow> nat \<Rightarrow> nat \<Rightarrow> nat \<Rightarrow> bool" where
  "pointed ds addr c len \<longleftrightarrow> (\<forall>k. k * c < len \<longrightarrow> k < length ds \<and> d_buffer (ds ! k) = addr + k * c)"

lemma pointed_less: "pointed ds addr c len \<Longrightarrow> len' \<le> len \<Longrightarrow> pointed ds addr c len'"
  by (simp add: pointed_def)

lemma min_step: "min len (n * c) + min c (len - n * c) = min len (Suc n * c)" for c len n :: nat
  by (auto simp: min_def)

lemma sum_chunks:
  assumes "n \<le> length ds" "\<And>k. k < n \<Longrightarrow> f (ds ! k) = min c (len - k * c)"
  shows "sum_list (map f (take n ds)) = min len (n * c)"
  using assms
proof (induction n)
  case (Suc n)
  then have "sum_list (map f (take (Suc n) ds)) = min len (n * c) + min c (len - n * c)" by (simp add: take_Suc_conv_app_nth)
  then show ?case by (simp only: min_step)
qed simp

lemma concat_chunks:
  assumes "n \<le> length ds" "\<And>k. k < n \<Longrightarrow> d_length (ds ! k) = min c (len - k * c)" "pointed ds addr c len"
  shows "concat (map (\<lambda>d. mem_read m (d_buffer d) (d_length d)) (take n ds)) = mem_read m addr (min len (n * c))"
  using assms(1,2)
proof (induction n)
  case (Suc n)
  let ?r = "\<lambda>d. mem_read m (d_buffer d) (d_length d)"
  have "?r (ds ! n) = mem_read m (addr + min len (n * c)) (min c (len - n * c))"
  proof (cases "n * c < len")
    case True
    then show ?thesis using Suc.prems assms(3) by (simp add: pointed_def min_def)
  next
    case False
    then show ?thesis using Suc.prems by simp
  qed
  then have "concat (map ?r (take (Suc n) ds)) = mem_read m addr (min len (n * c)) @ mem_read m (addr + min len (n * c)) (min c (len - n * c))"
    using Suc by (simp add: take_Suc_conv_app_nth)
  also have "\<dots> = mem_read m addr (min len (n * c) + min c (len - n * c))" by (simp only: mem_read_append)
  finally show ?case by (simp only: min_step)
qed simp

lemma tiles_iter:
  assumes "tiles f c ds n len"
  shows "sum_list (map f (linked_iter ds)) = len"
  using sum_chunks [of n ds f c len] assms chained_iter(1) [of ds n] by (simp add: tiles_def chained_def min_def)

lemma tiles_concat:
  assumes "tiles d_length c ds n len" "pointed ds addr c len"
  shows "concat (map (\<lambda>d. mem_read m (d_buffer d) (d_length d)) (linked_iter ds)) = mem_read m addr len"
  using concat_chunks [of n ds c len addr m] assms chained_iter(1) [of ds n] by (simp add: tiles_def chained_def min_def)

section \<open>The engine on a chain\<close>

lemma transmit_chain:
  assumes "chained ds n" "k < n" "n - k \<le> N"
  shows "dma_transmit N m ds (Some k) = concat (map (\<lambda>d. mem_read m (d_buffer d) (d_length d)) (drop k (take n ds)))"
  using assms(2,3)
proof (induction N arbitrary: k)
  case (Suc N)
  have n: "n \<le> length ds" and nx: "d_next (ds ! k) = (if Suc k < n then Some (Suc k) else None)" using assms(1) Suc.prems by (auto simp: chained_def)
  have dr: "drop k (take n ds) = ds ! k # drop (Suc k) (take n ds)" using Suc.prems n by (simp add: Cons_nth_drop_Suc [symmetric])
  show ?case
  proof (cases "Suc k < n")
    case True
    then show ?thesis using Suc nx dr by simp
  next
    case False
    then have "drop (Suc k) (take n ds) = []" by simp
    then show ?thesis using False nx dr by (cases N) simp_all
  qed
qed simp

lemma transmit_tiles:
  assumes "tiles d_length c ds n len" "pointed ds addr c len"
  shows "dma_transmit (length ds) m ds (Some 0) = mem_read m addr len"
proof -
  have c: "chained ds n" "1 \<le> n" "n \<le> length ds" using assms(1) by (simp_all add: tiles_def chained_def)
  then show ?thesis using transmit_chain [OF c(1), of 0 "length ds" m] tiles_concat [OF assms, of m] chained_iter(1) [OF c(1)] by simp
qed

text \<open>What receiving leaves of the descriptors.\<close>

definition same_links :: "DmaDescriptor list \<Rightarrow> DmaDescriptor list \<Rightarrow> bool" where
  "same_links ds ds' \<longleftrightarrow> length ds' = length ds \<and>
    (\<forall>k < length ds. d_next (ds' ! k) = d_next (ds ! k) \<and> d_buffer (ds' ! k) = d_buffer (ds ! k) \<and> d_size (ds' ! k) = d_size (ds ! k))"

lemma receive_chain:
  assumes "tiles d_size c ds n len" "pointed ds addr c len" "k < n" "n - k \<le> N" "length bs \<le> len - k * c" "\<And>j. k \<le> j \<Longrightarrow> j < n \<Longrightarrow> d_length (ds ! j) = 0"
  shows "\<exists>ds'. dma_receive N bs m ds (Some k) = (mem_write m (addr + k * c) bs, ds') \<and> same_links ds ds' \<and>
    (\<forall>j < n. d_length (ds' ! j) = (if j < k then d_length (ds ! j) else min c (length bs - (j - k) * c)))"
  using assms
proof (induction N arbitrary: k bs m ds)
  case (Suc N)
  have ch: "n \<le> length ds" "d_next (ds ! k) = (if Suc k < n then Some (Suc k) else None)" "d_size (ds ! k) = min c (len - k * c)" "len \<le> n * c"
    using Suc.prems(1,3) by (auto simp: tiles_def chained_def)
  let ?d = "ds ! k" and ?s = "d_size (ds ! k)"
  let ?e = "?d\<lparr>d_length := length (take ?s bs), d_owner := OwnerCpu, d_suc_eof := (drop ?s bs = [])\<rparr>"
  let ?ds = "ds[k := ?e]"
  have kl: "k < length ds" using ch(1) Suc.prems(3) by simp
  have links: "same_links ds ?ds" using kl by (auto simp: same_links_def nth_list_update)
  have buf: "d_buffer ?d = addr + k * c" if "bs \<noteq> []"
  proof -
    have "k * c < len" using Suc.prems(5) that by (cases bs) auto
    then show ?thesis using Suc.prems(2) by (simp add: pointed_def)
  qed
  have wr: "mem_write m (d_buffer ?d) (take ?s bs) = mem_write m (addr + k * c) (take ?s bs)"
    using buf by (cases "bs = []") simp_all
  show ?case
  proof (cases "drop ?s bs = []")
    case True
    then have "length bs \<le> c" "take ?s bs = bs" using ch(3) by auto
    moreover have "min c (length bs - (j - k) * c) = 0" if "k < j" for j
    proof -
      have "c \<le> (j - k) * c" using that by (cases "j - k") simp_all
      then have "length bs \<le> (j - k) * c" using \<open>length bs \<le> c\<close> by (rule order_trans [rotated])
      then show ?thesis by simp
    qed
    ultimately show ?thesis using True wr links kl ch(1) Suc.prems(6) by (auto simp: Let_def nth_list_update)
  next
    case False
    then have s: "?s < length bs" by simp
    then have c: "?s = c" "c < length bs" "c < len - k * c" using ch(3) Suc.prems(5) by auto
    have "Suc k < n"
    proof (rule ccontr)
      assume "\<not> Suc k < n"
      then have "n = Suc k" using Suc.prems(3) by simp
      then show False using ch(4) c(3) by simp
    qed
    have t: "tiles d_size c ?ds n len" "pointed ?ds addr c len"
      using Suc.prems(1,2) links by (auto simp: tiles_def chained_def pointed_def same_links_def)
    have z: "\<And>j. Suc k \<le> j \<Longrightarrow> j < n \<Longrightarrow> d_length (?ds ! j) = 0" using Suc.prems(6) by simp
    have l: "length (drop c bs) \<le> len - Suc k * c" "n - Suc k \<le> N" using Suc.prems(4,5) by auto
    from Suc.IH [OF t \<open>Suc k < n\<close> l(2,1) z, of "mem_write m (addr + k * c) (take c bs)"] obtain ds' where
      r: "dma_receive N (drop c bs) (mem_write m (addr + k * c) (take c bs)) ?ds (Some (Suc k)) =
        (mem_write (mem_write m (addr + k * c) (take c bs)) (addr + Suc k * c) (drop c bs), ds')" "same_links ?ds ds'"
      "\<forall>j < n. d_length (ds' ! j) = (if j < Suc k then d_length (?ds ! j) else min c (length (drop c bs) - (j - Suc k) * c))" by blast
    have "mem_write (mem_write m (addr + k * c) (take c bs)) (addr + Suc k * c) (drop c bs) = mem_write m (addr + k * c) bs"
      using c(2) mem_write_append [of m "addr + k * c" "take c bs" "drop c bs"] by (simp add: min_def algebra_simps)
    then have "dma_receive (Suc N) bs m ds (Some k) = (mem_write m (addr + k * c) bs, ds')"
      using r(1) c(1) False wr ch(2) \<open>Suc k < n\<close> by (simp add: Let_def)
    moreover have "same_links ds ds'" using links r(2) by (simp add: same_links_def)
    moreover have "d_length (ds' ! j) = (if j < k then d_length (ds ! j) else min c (length bs - (j - k) * c))" if j: "j < n" for j
    proof (cases "j \<le> k")
      case True
      then show ?thesis using r(3) j c kl by (auto simp: nth_list_update)
    next
      case False
      then obtain i where i: "j = Suc k + i" by (metis add_Suc less_eqE not_less_eq_eq)
      then show ?thesis using r(3) j by auto
    qed
    ultimately show ?thesis by blast
  qed
qed simp

section \<open>The operations of a transmit buffer\<close>

lemma put_descriptors_eq [simp]: "put_descriptors r b = (case r of Ok ds \<Rightarrow> (Ok (), b\<lparr>db_descriptors := ds\<rparr>) | Err e \<Rightarrow> (Err e, b) | Panic \<Rightarrow> (Panic, b))"
  by (cases r) (simp_all add: put_descriptors_def exec_simps)

lemma chunk_le: "min (max_chunk_size_for soc burst addr direction) n \<le> 4095"
  using chunk_bounds(2) [of soc burst addr direction] by simp

definition tx_wf :: "DmaSoc \<Rightarrow> DmaBuf \<Rightarrow> bool" where
  "tx_wf soc b \<longleftrightarrow> (let c = max_chunk_size_for soc (db_burst b) (db_addr b) Out; ds = db_descriptors b in
     pointed ds (db_addr b) c (db_capacity b) \<and> descriptor_count (db_capacity b) c \<le> length ds \<and>
     ensure_buffer_compatible soc (db_burst b) (db_addr b) (db_capacity b) Out = Ok () \<and>
     (\<exists>n len. tiles d_length c ds n len \<and> len \<le> db_capacity b \<and>
        (\<forall>k < n. d_owner (ds ! k) = OwnerDma \<and> (d_suc_eof (ds ! k) \<longleftrightarrow> Suc k = n))))"

lemma tx_set_length_ok:
  assumes e: "tx_set_length_fallible dbg soc len burst b = (Ok (), b')"
  defines "c \<equiv> max_chunk_size_for soc burst (db_addr b) Out" and "ds' \<equiv> db_descriptors b'"
  shows "len \<le> db_capacity b" "b' = b\<lparr>db_descriptors := ds'\<rparr>" "length ds' = length (db_descriptors b)" "tiles d_length c ds' (descriptor_count len c) len"
    "k < length ds' \<Longrightarrow> d_buffer (ds' ! k) = d_buffer (db_descriptors b ! k)"
    "k < descriptor_count len c \<Longrightarrow> d_owner (ds' ! k) = OwnerDma \<and> (d_suc_eof (ds' ! k) \<longleftrightarrow> Suc k = descriptor_count len c)"
proof -
  let ?n = "descriptor_count len c"
  have c: "0 < c" "c \<le> 4095" using chunk_bounds(2) by (simp_all add: c_def)
  from e obtain ds1 where l: "len \<le> db_capacity b" and u: "set_up_descriptors dbg (db_descriptors b) len c set_length = Ok ds1"
    and b': "b' = b\<lparr>db_descriptors := for_linked (\<lambda>d. reset_for_tx (d_next d = None) d) ds1\<rparr>"
    by (auto simp: tx_set_length_fallible_def exec_simps bind_exec_def lift_def set_tx_length_def c_def split: if_splits result.splits)
  have nx: "d_next (set_length m d) = d_next d" for m d by (simp add: set_length_def)
  note s = set_up_ok [OF u c(1) nx]
  have n: "?n \<le> length ds1" "1 \<le> ?n" using s(1) by (simp_all add: chained_def)
  have ds': "ds' = map (\<lambda>d. reset_for_tx (d_next d = None) d) (take ?n ds1) @ drop ?n ds1"
    using b' chained_iter(2) [OF s(1)] by (simp add: ds'_def)
  have nth: "ds' ! k = reset_for_tx (Suc k = ?n) ((db_descriptors b ! k)\<lparr>d_next := (if Suc k < ?n then Some (Suc k) else None), d_length := min c (len - k * c)\<rparr>)"
    if "k < ?n" for k
    using that n s(3) [OF that] c(2) by (auto simp: ds' nth_append set_fields_small)
  have later: "ds' ! k = db_descriptors b ! k" if "?n \<le> k" "k < length ds'" for k
    using that n s(2) s(4) [of k] by (simp add: ds' nth_append)
  show "len \<le> db_capacity b" by (rule l)
  show "b' = b\<lparr>db_descriptors := ds'\<rparr>" using b' by (simp add: ds'_def)
  show ln: "length ds' = length (db_descriptors b)" using n s(2) by (simp add: ds')
  show "tiles d_length c ds' ?n len"
    using nth n ln s(2) descriptor_count_bounds(2) [OF c(1)] by (simp add: tiles_def chained_def descriptor_defs)
  show "d_buffer (ds' ! k) = d_buffer (db_descriptors b ! k)" if "k < length ds'"
    using nth [of k] later [of k] that by (cases "k < ?n") (simp_all add: descriptor_defs)
  show "d_owner (ds' ! k) = OwnerDma \<and> (d_suc_eof (ds' ! k) \<longleftrightarrow> Suc k = ?n)" if "k < ?n"
    using nth [OF that] by (simp add: descriptor_defs)
qed

lemma tx_configure_wf:
  assumes e: "tx_configure dbg soc burst len b = (Ok (), b')" and compat: "ensure_buffer_compatible soc burst (db_addr b) (db_capacity b) Out = Ok ()"
  shows "tx_wf soc b'" "db_addr b' = db_addr b" "db_capacity b' = db_capacity b"
proof -
  let ?c = "max_chunk_size_for soc burst (db_addr b) Out"
  from e obtain b1 where s: "tx_set_length_fallible dbg soc len burst b = (Ok (), b1)"
    and k: "(case put_descriptors (link_with_buffer (db_addr b1) (db_capacity b1) (db_descriptors b1) (max_chunk_size_for soc burst (db_addr b1) Out)) b1 of
      (Ok _, b2) \<Rightarrow> b' = b2\<lparr>db_burst := burst\<rparr> | _ \<Rightarrow> False)"
    by (auto simp: tx_configure_def elim!: bind_exec_OkE)
  note t = tx_set_length_ok [OF s]
  have b1: "db_addr b1 = db_addr b" "db_capacity b1 = db_capacity b" using t(2) by (metis DmaBuf.select_convs DmaBuf.surjective DmaBuf.update_convs(1))+
  from k b1 obtain ds2 where l: "link_with_buffer (db_addr b) (db_capacity b) (db_descriptors b1) ?c = Ok ds2" and b': "b' = b1\<lparr>db_descriptors := ds2, db_burst := burst\<rparr>"
    by (auto split: result.splits)
  note p = link_with_buffer_ok [OF l chunk_pos(2)]
  show "db_addr b' = db_addr b" "db_capacity b' = db_capacity b" using b' b1 by simp_all
  have same: "d_length (ds2 ! k) = d_length (db_descriptors b1 ! k) \<and> d_next (ds2 ! k) = d_next (db_descriptors b1 ! k) \<and>
    d_owner (ds2 ! k) = d_owner (db_descriptors b1 ! k) \<and> d_suc_eof (ds2 ! k) = d_suc_eof (db_descriptors b1 ! k)" if "k < length ds2" for k
    using p(1) p(3) [of k] that by (simp add: set_size_def)
  have n: "descriptor_count len ?c \<le> length ds2" using t(4) p(1) by (simp add: tiles_def chained_def)
  have "pointed ds2 (db_addr b) ?c (db_capacity b)" unfolding pointed_def
  proof (intro allI impI)
    fix k assume kc: "k * ?c < db_capacity b"
    then have "k * ?c < descriptor_count (db_capacity b) ?c * ?c"
      using descriptor_count_bounds(2) [OF chunk_pos(2) [of soc burst "db_addr b" Out], of "db_capacity b"] by linarith
    then have "k < length ds2" using p(1,2) by simp
    then show "k < length ds2 \<and> d_buffer (ds2 ! k) = db_addr b + k * ?c" using p(1) p(3) [of k] kc by simp
  qed
  moreover have "tiles d_length ?c ds2 (descriptor_count len ?c) len" using t(4) same n by (simp add: tiles_def chained_def)
  moreover have "\<forall>k < descriptor_count len ?c. d_owner (ds2 ! k) = OwnerDma \<and> (d_suc_eof (ds2 ! k) \<longleftrightarrow> Suc k = descriptor_count len ?c)"
    using t(6) same n by simp
  ultimately show "tx_wf soc b'" using b' b1 t(1) p(1,2) compat unfolding tx_wf_def Let_def by auto
qed

text \<open>Buffers that a program can have: made, resized and reconfigured without an error.\<close>

inductive tx_buf :: "bool \<Rightarrow> DmaSoc \<Rightarrow> DmaBuf \<Rightarrow> bool" for dbg soc where
  new: "tx_new_with_config dbg soc daddr dbytes ds addr len burst = Ok b \<Longrightarrow> tx_buf dbg soc b"
| resize: "tx_buf dbg soc b \<Longrightarrow> tx_set_length dbg soc len b = (Ok (), b') \<Longrightarrow> tx_buf dbg soc b'"
| reconfigure: "tx_buf dbg soc b \<Longrightarrow> tx_set_burst_config dbg soc burst b = (Ok (), b') \<Longrightarrow> tx_buf dbg soc b'"

lemma out_alignment: "min_alignment soc burst addr Out = min_alignment soc burst' addr Out"
  by (simp add: min_alignment_def Let_def min_dram_alignment_def min_psram_alignment_def)

lemma out_compatible: "ensure_buffer_compatible soc burst addr len Out = ensure_buffer_compatible soc burst' addr len Out"
  using out_alignment [of soc burst addr burst'] by (simp add: ensure_buffer_compatible_def ensure_buffer_aligned_def Let_def)

lemma slice_in_range_less: "slice_in_range start len r \<Longrightarrow> len' \<le> len \<Longrightarrow> slice_in_range start len' r"
  by (simp add: slice_in_range_def)

lemma slice_in_memory_less:
  assumes "len' \<le> len"
  shows "is_slice_in_dram soc addr len \<Longrightarrow> is_slice_in_dram soc addr len'" "is_slice_in_psram soc addr len \<Longrightarrow> is_slice_in_psram soc addr len'"
  using slice_in_range_less [OF _ assms] by (auto simp: is_slice_in_dram_def is_slice_in_psram_def split: if_splits)

lemma out_compatible_less:
  assumes "ensure_buffer_compatible soc burst addr len Out = Ok ()" "len' \<le> len"
  shows "ensure_buffer_compatible soc burst addr len' Out = Ok ()"
  using assms slice_in_memory_less [OF assms(2), of soc addr]
  by (auto simp: ensure_buffer_compatible_def ensure_buffer_aligned_def Let_def split: if_splits)

lemma unwrap_ok: "unwrap f b = (Ok (), b') \<longleftrightarrow> f b = (Ok (), b')"
  by (auto simp: unwrap_def split: prod.splits result.splits)

lemma update_eqD: "b' = b\<lparr>db_descriptors := ds\<rparr> \<Longrightarrow> db_addr b' = db_addr b \<and> db_capacity b' = db_capacity b \<and> db_burst b' = db_burst b"
  by simp

lemma tx_resize_wf:
  assumes wf: "tx_wf soc b" and e: "tx_set_length_fallible dbg soc len (db_burst b) b = (Ok (), b')"
  shows "tx_wf soc b'" "tx_len b' = len" "db_addr b' = db_addr b" "db_capacity b' = db_capacity b"
    "pointed (db_descriptors b') (db_addr b) (max_chunk_size_for soc (db_burst b) (db_addr b) Out) len"
    "\<exists>n. tiles d_length (max_chunk_size_for soc (db_burst b) (db_addr b) Out) (db_descriptors b') n len"
proof -
  let ?c = "max_chunk_size_for soc (db_burst b) (db_addr b) Out"
  note t = tx_set_length_ok [OF e] and u = update_eqD [OF tx_set_length_ok(2) [OF e]]
  have w: "pointed (db_descriptors b) (db_addr b) ?c (db_capacity b)" "descriptor_count (db_capacity b) ?c \<le> length (db_descriptors b)"
    "ensure_buffer_compatible soc (db_burst b) (db_addr b) (db_capacity b) Out = Ok ()" using wf by (auto simp: tx_wf_def Let_def)
  have p: "pointed (db_descriptors b') (db_addr b) ?c (db_capacity b)" using w(1) t(3,5) by (simp add: pointed_def)
  show "tx_wf soc b'" unfolding tx_wf_def Let_def using u p w(2,3) t(1,3,4,6) by auto
  show "tx_len b' = len" unfolding tx_len_def by (rule tiles_iter [OF t(4)])
  show "pointed (db_descriptors b') (db_addr b) ?c len" using pointed_less [OF p t(1)] .
  show "db_addr b' = db_addr b" "db_capacity b' = db_capacity b" using u by simp_all
  show "\<exists>n. tiles d_length ?c (db_descriptors b') n len" using t(4) by blast
qed

lemma tx_buf_wf: "tx_buf dbg soc b \<Longrightarrow> tx_wf soc b"
proof (induction rule: tx_buf.induct)
  case (new daddr dbytes ds addr len burst b)
  then obtain ds0 where c: "tx_configure dbg soc burst len \<lparr>db_descriptors = ds0, db_addr = addr, db_capacity = len, db_burst = burst_default\<rparr> = (Ok (), b)"
    by (auto simp: tx_new_with_config_def finish_new_ok)
  then have "ensure_buffer_compatible soc burst addr len Out = Ok ()"
    by (auto simp: tx_configure_def tx_set_length_fallible_def lift_def bind_exec_def split: prod.splits result.splits)
  with tx_configure_wf(1) [OF c] show ?case by simp
next
  case (resize b len b')
  then have "tx_set_length_fallible dbg soc len (db_burst b) b = (Ok (), b')" by (simp add: tx_set_length_def unwrap_ok)
  then show ?case using tx_resize_wf(1) resize by blast
next
  case (reconfigure b burst b')
  have "ensure_buffer_compatible soc burst (db_addr b) (db_capacity b) Out = Ok ()"
    using reconfigure(3) out_compatible [of soc burst "db_addr b" "db_capacity b" "db_burst b"] by (simp add: tx_wf_def Let_def)
  with tx_configure_wf(1) reconfigure(2) show ?case by (simp add: tx_set_burst_config_def)
qed

lemma tx_set_length_succeeds:
  assumes "tx_wf soc b" "len \<le> db_capacity b"
  shows "\<exists>b'. tx_set_length_fallible dbg soc len (db_burst b) b = (Ok (), b')"
proof -
  let ?c = "max_chunk_size_for soc (db_burst b) (db_addr b) Out"
  have w: "descriptor_count (db_capacity b) ?c \<le> length (db_descriptors b)"
    "ensure_buffer_compatible soc (db_burst b) (db_addr b) (db_capacity b) Out = Ok ()" using assms(1) by (simp_all add: tx_wf_def Let_def)
  have "descriptor_count len ?c \<le> length (db_descriptors b)" using descriptor_count_mono [OF chunk_pos(2) assms(2)] w(1) by (rule order_trans)
  from set_up_succeeds [OF chunk_pos(2) this] obtain ds' where "set_tx_length dbg (db_descriptors b) len ?c = Ok ds'"
    unfolding set_tx_length_def by blast
  then show ?thesis using out_compatible_less [OF w(2) assms(2)] assms(2) by (simp add: tx_set_length_fallible_def lift_def bind_exec_def)
qed

section \<open>The operations of a receive buffer\<close>

definition rx_wf :: "DmaSoc \<Rightarrow> DmaBuf \<Rightarrow> bool" where
  "rx_wf soc b \<longleftrightarrow> (let c = max_chunk_size_for soc (db_burst b) (db_addr b) In; ds = db_descriptors b in
     pointed ds (db_addr b) c (db_capacity b) \<and> descriptor_count (db_capacity b) c \<le> length ds \<and> (\<exists>n len. tiles d_size c ds n len \<and> len \<le> db_capacity b))"

lemma rx_set_length_ok:
  assumes e: "rx_set_length_fallible dbg soc len burst b = (Ok (), b')"
  defines "c \<equiv> max_chunk_size_for soc burst (db_addr b) In" and "ds' \<equiv> db_descriptors b'"
  shows "len \<le> db_capacity b" "b' = b\<lparr>db_descriptors := ds'\<rparr>" "length ds' = length (db_descriptors b)" "tiles d_size c ds' (descriptor_count len c) len"
    "k < length ds' \<Longrightarrow> d_buffer (ds' ! k) = d_buffer (db_descriptors b ! k)"
proof -
  let ?n = "descriptor_count len c"
  have c: "0 < c" "c \<le> 4095" using chunk_bounds(2) by (simp_all add: c_def)
  from e have l: "len \<le> db_capacity b" and u: "set_up_descriptors dbg (db_descriptors b) len c set_size = Ok ds'"
    and b': "b' = b\<lparr>db_descriptors := ds'\<rparr>"
    by (auto simp: rx_set_length_fallible_def exec_simps bind_exec_def lift_def set_rx_length_def c_def ds'_def split: if_splits result.splits)
  have nx: "d_next (set_size m d) = d_next d" for m d by (simp add: set_size_def)
  note s = set_up_ok [OF u c(1) nx]
  have nth: "ds' ! k = (db_descriptors b ! k)\<lparr>d_next := (if Suc k < ?n then Some (Suc k) else None), d_size := min c (len - k * c)\<rparr>" if "k < ?n" for k
    using s(3) [OF that] c(2) by (simp add: set_fields_small)
  show "len \<le> db_capacity b" by (rule l)
  show "b' = b\<lparr>db_descriptors := ds'\<rparr>" by (rule b')
  show "length ds' = length (db_descriptors b)" by (rule s(2))
  show "tiles d_size c ds' ?n len" using s(1) nth descriptor_count_bounds(2) [OF c(1)] by (simp add: tiles_def)
  show "d_buffer (ds' ! k) = d_buffer (db_descriptors b ! k)" if "k < length ds'"
    using nth [of k] s(2) s(4) [of k] that by (cases "k < ?n") simp_all
qed

text \<open>Configuring sets the sizes of the chunks anew, so the length is rounded up to whole chunks.\<close>

lemma rx_configure_wf:
  assumes e: "rx_configure dbg soc burst len b = (Ok (), b')"
  defines "c \<equiv> max_chunk_size_for soc burst (db_addr b) In"
  shows "rx_wf soc b'" "db_addr b' = db_addr b" "db_capacity b' = db_capacity b" "rx_len b' = min (db_capacity b) (descriptor_count len c * c)"
proof -
  let ?n = "descriptor_count len c" and ?l = "min (db_capacity b) (descriptor_count len c * c)"
  have c: "0 < c" "c \<le> 4095" using chunk_bounds(2) by (simp_all add: c_def)
  from e obtain b1 where s: "rx_set_length_fallible dbg soc len burst b = (Ok (), b1)"
    and k: "(case put_descriptors (link_with_buffer (db_addr b1) (db_capacity b1) (db_descriptors b1) (max_chunk_size_for soc burst (db_addr b1) In)) b1 of
      (Ok _, b2) \<Rightarrow> b' = b2\<lparr>db_burst := burst\<rparr> | _ \<Rightarrow> False)"
    by (auto simp: rx_configure_def elim!: bind_exec_OkE)
  note t = rx_set_length_ok [OF s, folded c_def] and b1 = update_eqD [OF rx_set_length_ok(2) [OF s]]
  from k b1 obtain ds2 where l: "link_with_buffer (db_addr b) (db_capacity b) (db_descriptors b1) c = Ok ds2" and b': "b' = b1\<lparr>db_descriptors := ds2, db_burst := burst\<rparr>"
    by (auto simp: c_def split: result.splits)
  note p = link_with_buffer_ok [OF l c(1)]
  show "db_addr b' = db_addr b" "db_capacity b' = db_capacity b" using b' b1 by simp_all
  have ch: "chained (db_descriptors b1) ?n" and sz: "\<And>k. k < ?n \<Longrightarrow> d_size (db_descriptors b1 ! k) = min c (len - k * c)" using t(4) by (auto simp: tiles_def)
  have "chained ds2 ?n" using ch p(1,3) by (simp add: chained_def set_size_def)
  moreover have "d_size (ds2 ! k) = min c (?l - k * c)" if k: "k < ?n" for k
  proof (cases "k * c < db_capacity b")
    case True
    have "Suc k * c \<le> ?n * c" using k by (intro mult_le_mono1) simp
    then have "min c (?l - k * c) = min c (db_capacity b - k * c)" by (auto simp: min_def)
    then show ?thesis using True p(3) [of k] k ch c(2) by (simp add: chained_def set_fields_small)
  next
    case False
    then show ?thesis using p(3) [of k] k ch sz [OF k] t(1) by (simp add: chained_def)
  qed
  ultimately have ti: "tiles d_size c ds2 ?n ?l" by (simp add: tiles_def)
  have "pointed ds2 (db_addr b) c (db_capacity b)" unfolding pointed_def
  proof (intro allI impI)
    fix k assume kc: "k * c < db_capacity b"
    then have "k * c < descriptor_count (db_capacity b) c * c" using descriptor_count_bounds(2) [OF c(1), of "db_capacity b"] by linarith
    then have "k < length ds2" using p(1,2) by simp
    then show "k < length ds2 \<and> d_buffer (ds2 ! k) = db_addr b + k * c" using p(1) p(3) [of k] kc by simp
  qed
  moreover have "db_descriptors b' = ds2" "db_addr b' = db_addr b" "db_capacity b' = db_capacity b" "db_burst b' = burst" using b' b1 by simp_all
  moreover have "descriptor_count (db_capacity b) c \<le> length ds2" using p(1,2) by simp
  moreover have "\<exists>n l. tiles d_size c ds2 n l \<and> l \<le> db_capacity b" using ti by (intro exI [of _ ?n] exI [of _ ?l]) simp
  ultimately show "rx_wf soc b'" by (simp add: rx_wf_def c_def)
  show "rx_len b' = ?l" using tiles_iter [OF ti] b' by (simp add: rx_len_def)
qed

inductive rx_buf :: "bool \<Rightarrow> DmaSoc \<Rightarrow> DmaBuf \<Rightarrow> bool" for dbg soc where
  new: "rx_new_with_config dbg soc daddr dbytes ds addr len burst = Ok b \<Longrightarrow> rx_buf dbg soc b"
| resize: "rx_buf dbg soc b \<Longrightarrow> rx_set_length dbg soc len b = (Ok (), b') \<Longrightarrow> rx_buf dbg soc b'"
| reconfigure: "rx_buf dbg soc b \<Longrightarrow> rx_set_burst_config dbg soc burst b = (Ok (), b') \<Longrightarrow> rx_buf dbg soc b'"

lemma rx_buf_wf: "rx_buf dbg soc b \<Longrightarrow> rx_wf soc b"
proof (induction rule: rx_buf.induct)
  case (new daddr dbytes ds addr len burst b)
  then obtain ds0 where "rx_configure dbg soc burst len \<lparr>db_descriptors = ds0, db_addr = addr, db_capacity = len, db_burst = burst_default\<rparr> = (Ok (), b)"
    by (auto simp: rx_new_with_config_def finish_new_ok)
  then show ?case by (rule rx_configure_wf(1))
next
  case (resize b len b')
  then have e: "rx_set_length_fallible dbg soc len (db_burst b) b = (Ok (), b')" by (simp add: rx_set_length_def unwrap_ok)
  note t = rx_set_length_ok [OF e] and u = update_eqD [OF rx_set_length_ok(2) [OF e]]
  show ?case using resize(3) t(1,3-5) u unfolding rx_wf_def Let_def by (auto simp: pointed_def)
next
  case (reconfigure b burst b')
  then show ?case using rx_configure_wf(1) by (simp add: rx_set_burst_config_def)
qed

text \<open>A whole reception.\<close>

definition rx_receive :: "u8 list \<Rightarrow> mem \<times> DmaBuf \<Rightarrow> mem \<times> DmaBuf" where
  "rx_receive bs s = (case s of (m, b) \<Rightarrow>
     case dma_receive (length (db_descriptors b)) bs m (db_descriptors b) (Some 0) of (m', ds) \<Rightarrow> (m', b\<lparr>db_descriptors := ds\<rparr>))"

lemma rx_receive_ok:
  assumes wf: "rx_wf soc b" and len: "length bs \<le> rx_len b"
  shows "\<exists>ds n. rx_receive bs (m, rx_prepare b) = (mem_write m (db_addr b) bs, b\<lparr>db_descriptors := ds\<rparr>) \<and> rx_len b \<le> db_capacity b \<and>
    tiles d_length (max_chunk_size_for soc (db_burst b) (db_addr b) In) ds n (length bs) \<and>
    pointed ds (db_addr b) (max_chunk_size_for soc (db_burst b) (db_addr b) In) (length bs)"
proof -
  let ?c = "max_chunk_size_for soc (db_burst b) (db_addr b) In" and ?ds = "db_descriptors b"
  from wf obtain n l where p: "pointed ?ds (db_addr b) ?c (db_capacity b)" and t: "tiles d_size ?c ?ds n l" and l: "l \<le> db_capacity b"
    by (auto simp: rx_wf_def Let_def)
  have rl: "rx_len b = l" unfolding rx_len_def by (rule tiles_iter [OF t])
  have ch: "chained ?ds n" using t by (simp add: tiles_def)
  let ?d1 = "db_descriptors (rx_prepare b)"
  have d1: "?d1 = map reset_for_rx (take n ?ds) @ drop n ?ds" using chained_iter(2) [OF ch] by (simp add: rx_prepare_def)
  have n: "n \<le> length ?ds" "1 \<le> n" using ch by (simp_all add: chained_def)
  have nth: "?d1 ! k = (if k < n then reset_for_rx (?ds ! k) else ?ds ! k)" if "k < length ?ds" for k using that n by (simp add: d1 nth_append)
  have ln: "length ?d1 = length ?ds" using n by (simp add: d1)
  have t1: "tiles d_size ?c ?d1 n l" using t nth ln n by (simp add: tiles_def chained_def descriptor_defs)
  have p1: "pointed ?d1 (db_addr b) ?c l" using pointed_less [OF p l] nth ln by (simp add: pointed_def descriptor_defs)
  have z: "\<And>j. 0 \<le> j \<Longrightarrow> j < n \<Longrightarrow> d_length (?d1 ! j) = 0" using nth n by (simp add: descriptor_defs)
  from receive_chain [OF t1 p1, of 0 "length ?ds" bs m] z n len rl obtain ds where
    r: "dma_receive (length ?ds) bs m ?d1 (Some 0) = (mem_write m (db_addr b) bs, ds)" "same_links ?d1 ds" "\<forall>j < n. d_length (ds ! j) = min ?c (length bs - j * ?c)"
    by auto
  have "tiles d_length ?c ds n (length bs)"
    using t1 r(2,3) n ln len rl by (auto simp: tiles_def chained_def same_links_def)
  moreover have "pointed ds (db_addr b) ?c (length bs)" using pointed_less [OF p1, of "length bs"] r(2) len rl by (simp add: pointed_def same_links_def)
  moreover have "rx_receive bs (m, rx_prepare b) = (mem_write m (db_addr b) bs, b\<lparr>db_descriptors := ds\<rparr>)"
    using r(1) ln by (simp add: rx_receive_def rx_prepare_def)
  ultimately show ?thesis using rl l by blast
qed

lemma copy_chunks_all: "sum_list (map length cs) \<le> n \<Longrightarrow> copy_chunks n cs = Ok (concat cs) \<or> n = 0"
proof (induction cs arbitrary: n)
  case (Cons c cs)
  have "sum_list (map length cs) \<le> n - length c" using Cons.prems by simp
  then have "copy_chunks (n - length c) cs = Ok (concat cs) \<or> n - length c = 0" by (rule Cons.IH)
  moreover have "copy_chunks 0 cs = Ok []" by (cases cs) simp_all
  moreover have "concat cs = []" if "n - length c = 0" using \<open>sum_list (map length cs) \<le> n - length c\<close> that by simp
  ultimately have "copy_chunks (n - length c) cs = Ok (concat cs)" by auto
  moreover have "length c \<le> n" using Cons.prems by simp
  ultimately show ?case by simp
qed simp

section \<open>A sample\<close>

text \<open>An ESP32-C3, and buffers of 12280 bytes with three descriptors; \<open>s0\<close> to \<open>s2\<close> are the sizes of the chunks.\<close>

definition sample_soc :: DmaSoc where
  "sample_soc = \<lparr>dma_can_access_psram = False, is_esp32 = False, is_esp32p4 = False, dram_range = (0x3FC80000, 0x3FCE0000), psram_range = (0, 0), uncached_ram_range = (0, 0)\<rparr>"

definition burst_enabled :: BurstConfig where
  "burst_enabled = \<lparr>external_memory = Size16, internal_memory = BurstEnabled\<rparr>"

definition sample_rx :: "nat \<Rightarrow> nat \<Rightarrow> nat \<Rightarrow> DmaBuf" where
  "sample_rx s0 s1 s2 = \<lparr>db_descriptors =
      [\<lparr>d_size = s0, d_length = 0, d_suc_eof = False, d_owner = OwnerCpu, d_buffer = 0x3FC81000, d_next = Some 1\<rparr>,
       \<lparr>d_size = s1, d_length = 0, d_suc_eof = False, d_owner = OwnerCpu, d_buffer = 0x3FC81000 + 4095, d_next = Some 2\<rparr>,
       \<lparr>d_size = s2, d_length = 0, d_suc_eof = False, d_owner = OwnerCpu, d_buffer = 0x3FC81000 + 8190, d_next = None\<rparr>],
     db_addr = 0x3FC81000, db_capacity = 12280, db_burst = burst_default\<rparr>"

definition sample_tx :: DmaBuf where
  "sample_tx = \<lparr>db_descriptors =
      [\<lparr>d_size = 4095, d_length = 4095, d_suc_eof = False, d_owner = OwnerDma, d_buffer = 0x3FC81000, d_next = Some 1\<rparr>,
       \<lparr>d_size = 4095, d_length = 4095, d_suc_eof = False, d_owner = OwnerDma, d_buffer = 0x3FC81000 + 4095, d_next = Some 2\<rparr>,
       \<lparr>d_size = 4090, d_length = 4090, d_suc_eof = True, d_owner = OwnerDma, d_buffer = 0x3FC81000 + 8190, d_next = None\<rparr>],
     db_addr = 0x3FC81000, db_capacity = 12280, db_burst = burst_default\<rparr>"

lemma sample_chunk: "max_chunk_size_for sample_soc burst_default addr direction = 4095" "max_chunk_size_for sample_soc burst_enabled addr In = 4092"
  by (cases direction; simp add: max_chunk_size_for_def chunk_size_for_alignment_def min_alignment_def min_dram_alignment_def sample_soc_def burst_default_def)
    (simp add: max_chunk_size_for_def chunk_size_for_alignment_def min_alignment_def min_dram_alignment_def sample_soc_def burst_enabled_def)

lemma sample_compatible:
  assumes "len \<le> 12280"
  shows "ensure_buffer_compatible sample_soc burst_default 0x3FC81000 len direction = Ok ()"
    "4 dvd len \<Longrightarrow> ensure_buffer_compatible sample_soc burst_enabled 0x3FC81000 len In = Ok ()"
  using assms by (cases direction; simp add: ensure_buffer_compatible_def ensure_buffer_aligned_def is_slice_in_dram_def slice_in_range_def addr_in_range_def
    min_alignment_def min_dram_alignment_def sample_soc_def burst_default_def burst_enabled_def)+

lemma sample_descriptors: "descriptor_set_new sample_soc 0x3FC80000 36 ds = Ok (replicate (length ds) DESCRIPTOR_EMPTY)"
  by (simp add: descriptor_set_new_def is_slice_in_dram_def slice_in_range_def addr_in_range_def sample_soc_def)

lemma sample_count: "descriptor_count 12280 4095 = 3" "descriptor_count 12276 4095 = 3" "descriptor_count 12276 4092 = 3" "descriptor_count 12280 4092 = 4"
  by (simp_all add: descriptor_count_def)

lemmas sample_eval = sample_descriptors sample_chunk sample_compatible sample_count bind_exec_def lift_def Let_def finish_new_def unwrap_def
  tx_new_with_config_def tx_configure_def tx_set_length_fallible_def set_tx_length_def
  rx_new_with_config_def rx_configure_def rx_set_length_fallible_def set_rx_length_def rx_set_length_def rx_set_burst_config_def rx_len_def
  set_up_descriptors_def descriptors_for_buffer_len_def link_with_buffer_def descriptor_defs DESCRIPTOR_EMPTY_def

lemma sample_tx_new: "tx_new_with_config True sample_soc 0x3FC80000 36 [DESCRIPTOR_EMPTY, DESCRIPTOR_EMPTY, DESCRIPTOR_EMPTY] 0x3FC81000 12280 burst_default = Ok sample_tx"
  by (simp add: sample_eval sample_tx_def)

lemma sample_rx_new:
  "rx_new_with_config True sample_soc 0x3FC80000 36 [DESCRIPTOR_EMPTY, DESCRIPTOR_EMPTY, DESCRIPTOR_EMPTY] 0x3FC81000 12280 burst_default = Ok (sample_rx 4095 4095 4090)"
  by (simp add: sample_eval sample_rx_def)

lemma sample_rx_steps:
  "rx_set_length True sample_soc 12276 (sample_rx 4095 4095 4090) = (Ok (), sample_rx 4095 4095 4086)"
  "rx_set_burst_config True sample_soc burst_default (sample_rx 4095 4095 4086) = (Ok (), sample_rx 4095 4095 4090)"
  "rx_set_burst_config True sample_soc burst_enabled (sample_rx 4095 4095 4086) = (Err InsufficientDescriptors, sample_rx 4092 4092 4092)"
  by (simp_all add: sample_eval sample_rx_def)

lemma sample_bufs: "tx_buf True sample_soc sample_tx" "rx_buf True sample_soc (sample_rx 4095 4095 4090)" "rx_buf True sample_soc (sample_rx 4095 4095 4086)"
  using tx_buf.new [OF sample_tx_new] rx_buf.new [OF sample_rx_new] rx_buf.resize [OF rx_buf.new [OF sample_rx_new] sample_rx_steps(1)] by simp_all

section \<open>What DMA buffers guarantee\<close>

text \<open>C27. What is put into a transmit buffer is what the DMA engine sends: filling any transmit buffer with data that fits succeeds, writes the data to the
buffer and nothing else, and leaves a chain of descriptors from which the engine sends exactly this data, whatever lengths and burst
configurations the buffer had before.\<close>

theorem dma_transmits_data:
  assumes "tx_buf dbg soc b" "length data \<le> db_capacity b"
  shows "\<exists>b'. tx_fill dbg soc data (m, b) = (Ok (), mem_write m (db_addr b) data, b') \<and> tx_buf dbg soc b' \<and> tx_len b' = length data \<and>
    dma_transmit (length (db_descriptors b')) (mem_write m (db_addr b) data) (db_descriptors b') (Some 0) = data"
proof -
  note wf = tx_buf_wf [OF assms(1)]
  from tx_set_length_succeeds [OF wf assms(2), of dbg] obtain b' where e: "tx_set_length_fallible dbg soc (length data) (db_burst b) b = (Ok (), b')" by blast
  then have e': "tx_set_length dbg soc (length data) b = (Ok (), b')" by (simp add: tx_set_length_def unwrap_ok)
  note r = tx_resize_wf [OF wf e]
  from r(6) obtain n where t: "tiles d_length (max_chunk_size_for soc (db_burst b) (db_addr b) Out) (db_descriptors b') n (length data)" by blast
  show ?thesis using transmit_tiles [OF t r(5)] e' r(2,3) tx_buf.resize [OF assms(1) e'] by (simp add: tx_fill_def)
qed

theorem dma_transmits_data_witness:
  "\<exists>b'. tx_fill True sample_soc [1, 2, 3] (\<lambda>_. 0, sample_tx) = (Ok (), mem_write (\<lambda>_. 0) (db_addr sample_tx) [1, 2, 3], b') \<and>
    tx_buf True sample_soc b' \<and> tx_len b' = length [1 :: u8, 2, 3] \<and>
    dma_transmit (length (db_descriptors b')) (mem_write (\<lambda>_. 0) (db_addr sample_tx) [1, 2, 3]) (db_descriptors b') (Some 0) = [1, 2, 3]"
  by (rule dma_transmits_data [OF sample_bufs(1)]) (simp add: sample_tx_def)



text \<open>C30. Reading into a slice that is shorter than the first chunk of received data panics, although the documentation of \<open>read_received_data\<close>
says that the slice then gets the first bytes.\<close>

theorem read_received_data_short_panics:
  assumes "rx_buf dbg soc b" "length bs \<le> rx_len b" "0 < n" "n < length bs" "n < max_chunk_size_for soc (db_burst b) (db_addr b) In"
  shows "\<exists>m' b'. rx_receive bs (m, rx_prepare b) = (m', b') \<and> read_received_data m' b' n = Panic"
proof -
  let ?c = "max_chunk_size_for soc (db_burst b) (db_addr b) In" and ?m = "mem_write m (db_addr b) bs"
  from rx_receive_ok [OF rx_buf_wf [OF assms(1)] assms(2), of m] obtain ds k where r: "rx_receive bs (m, rx_prepare b) = (?m, b\<lparr>db_descriptors := ds\<rparr>)"
    and t: "tiles d_length ?c ds k (length bs)" by blast
  have k: "1 \<le> k" "k \<le> length ds" "chained ds k" "d_length (ds ! 0) = min ?c (length bs)" using t by (auto simp: tiles_def chained_def)
  then have "linked_iter ds = ds ! 0 # tl (take k ds)" using chained_iter(1) [OF k(3)] by (cases ds) (auto simp: take_Cons')
  then show ?thesis using r assms(3-5) k(4) by (auto simp: read_received_data_def received_data_def)
qed

theorem read_received_data_short_panics_witness:
  "\<exists>m' b'. rx_receive [7, 8] (\<lambda>_. 0, rx_prepare (sample_rx 4095 4095 4086)) = (m', b') \<and> read_received_data m' b' 1 = Panic"
  by (rule read_received_data_short_panics [OF sample_bufs(3)]) (simp_all add: rx_len_def sample_rx_def sample_chunk)

text \<open>Changing the burst configuration of a receive buffer forgets the length that was set: afterwards the buffer receives up to the end of the last chunk
that the length needed, or of the buffer.\<close>

theorem rx_set_burst_config_resets_length:
  assumes "rx_set_burst_config dbg soc burst b = (Ok (), b')"
  shows "rx_len b' = min (db_capacity b) (descriptor_count (rx_len b) (max_chunk_size_for soc burst (db_addr b) In) * max_chunk_size_for soc burst (db_addr b) In)"
  using rx_configure_wf(4) assms by (simp add: rx_set_burst_config_def)

theorem rx_set_burst_config_resets_length_witness: "rx_len (sample_rx 4095 4095 4086) = 12276 \<and> rx_len (sample_rx 4095 4095 4090) = 12280"
  using rx_set_burst_config_resets_length [OF sample_rx_steps(2)] by (simp add: rx_len_def sample_rx_def)


end
