(* ===== verification/Spec2Isabelle.thy ===== *)
theory Spec2Isabelle
  imports Partition_Guarantees Storage_Guarantees Radio_Guarantees Sync_Mutex Dma_Buffers
begin

text \<open>
  Verification of the flash, partition, OTA, scheduler and radio-support code of \<open>esp-hal\<close>.

  \<^bold>\<open>The program.\<close> The repository is a workspace of crates for ESP32 chips. Five groups of them carry
  logic of their own, and the theories follow them.

  \<^item> Flash. \<open>esp-storage\<close> reads, writes and erases the flash chip through functions of the chip's mask ROM.
    \<open>esp-bootloader-esp-idf\<close> works above any flash (trait \<open>FlashAccess\<close>): it parses the partition table, gives
    out views of single partitions, and keeps the OTA data that tells the bootloader which application to boot.
  \<^item> Scheduling. \<open>esp-rtos\<close> is a preemptive priority scheduler for one or two CPUs: ready queues, a queue
    of sleeping tasks, an alarm on a timer of \<open>esp-hal\<close>, wait queues and threads.
  \<^item> DMA. \<open>esp-hal/src/dma\<close> describes memory to the DMA engine by chains of descriptors.
  \<^item> Locks. \<open>esp-sync\<close> provides the mutexes under all critical sections.
  \<^item> Radio support. \<open>esp-radio-rtos-driver\<close> implements the semaphores, mutexes, queues and software timers
    that the radio libraries need on the wait queues and threads of the scheduler.

  \<^bold>\<open>Conventions\<close> (theory \<open>Prelude\<close>). Machine integers are words; \<open>usize\<close> has 32 bits as on all chips. A flag \<open>oc\<close>
  selects a build with overflow checks. In the flash theories an operation returns a value, an error of the
  source or a panic, together with the new state; in the scheduler and radio theories \<open>None\<close> is a panic, or a
  loop that does not end. Loops over pointers are \<open>partial_function\<close>s, and the theorems show that they return;
  the one fuel is that of the binary logarithm, 32 halvings of a 32-bit word. Pointers are addresses in an explicit heap, so aliasing and use after release are
  visible. A critical section of the scheduler and radio theories is one step, which theory \<open>Sync_Mutex\<close> justifies.

  \<^bold>\<open>Flash.\<close>

  \<^item> \<open>Sector_Erase\<close>: the plan of an erase in sectors and blocks (\<open>esp-storage/src/nor_flash.rs\<close>). The locale
    \<open>sector_eraser\<close> states what the two erase functions promise, \<open>reliable_eraser\<close> adds that they do not
    fail; inside, the plan is shown to erase exactly the requested range.
  \<^item> \<open>Storage_Rom\<close>: the chip functions that \<open>hardware.rs\<close> wraps, as a record with the contracts \<open>flash_rom\<close> and
    \<open>reliable_flash_rom\<close>, and the emulation \<open>stub.rs\<close>, which satisfies them.
  \<^item> \<open>Flash_Storage\<close>: the driver (\<open>common.rs\<close>, \<open>storage.rs\<close>, \<open>encrypted.rs\<close>, \<open>nor_flash.rs\<close>, \<open>ll.rs\<close>): aligned and
    unaligned access, read-modify-write, and the treatment of the other CPU during an access. The locale
    \<open>storage_rom\<close> is interpreted on the emulated chip; it is also a \<open>reliable_eraser\<close>.
  \<^item> \<open>Flash_Access\<close>: the trait \<open>FlashAccess\<close> as a record of operations with the contracts \<open>flash_device\<close> and
    \<open>reliable_flash_device\<close>; \<open>Mock_Flash\<close>: the host flash \<open>mock_flash.rs\<close>, which satisfies them.
  \<^item> \<open>Partition_Types\<close>, \<open>Partition_Table\<close>, \<open>Flash_Region\<close>, \<open>Partition_Image\<close>: \<open>partitions/*.rs\<close>, that is types and
    raw entries, the table with its checksum, the views of a partition, and the hash of its image.
  \<^item> \<open>Ota\<close>, \<open>Ota_Updater\<close>: \<open>ota.rs\<close> and \<open>ota_updater.rs\<close>.

  Properties, in \<open>Partition_Guarantees\<close> and \<open>Storage_Guarantees\<close>: an access to a partition leaves the rest of the
  flash alone, and a protected partition unchanged; what is written is read back; write and erase of the
  driver change exactly the requested bytes; a running second CPU blocks modifications and its state is
  restored; a selected OTA application becomes current, the next application is never the booted one,
  and states and types survive encoding. \<open>Partition_Types\<close> and \<open>Partition_Table\<close> state those of parsing and lookup.

  \<^bold>\<open>Scheduling.\<close>

  \<^item> \<open>Task_Lists\<close>: tasks and the intrusive lists through them (\<open>task/mod.rs\<close>), for the four link fields that
    interpret the locale \<open>list_element\<close>. \<open>Run_Queue\<close>: \<open>run_queue.rs\<close> and the wait queue's list.
  \<^item> \<open>Hal_Timer\<close>: the timers of \<open>esp-hal/src/timer\<close>; the locale \<open>one_shot_timer\<close> says when an armed timer fires,
    and the timer group, the system timer and the type that holds either of them satisfy it.
  \<^item> \<open>Timer_Queue\<close>: \<open>esp-rtos/src/timer/mod.rs\<close>; the closure that it calls for a woken task is the locale
    \<open>wakeup_handler\<close>, interpreted in \<open>System_Tick\<close> on the closure of the timer interrupt.
  \<^item> \<open>Scheduler\<close>: \<open>scheduler.rs\<close> with the record \<open>Kernel\<close> for its whole state; \<open>Threads\<close>: \<open>thread.rs\<close>.
  \<^item> \<open>Scheduler_View\<close>, \<open>Scheduler_Invariant\<close>, \<open>Scheduler_Run\<close>, \<open>System_Invariant\<close>, \<open>System_Tick\<close>,
    \<open>System_Operations\<close>, \<open>System_Threads\<close>, \<open>System_Start\<close>: the abstract state, the invariant that relates it to the
    lists, the memory blocks of threads, and that every operation returns and keeps the invariant.
  \<^item> \<open>System_Run\<close>: the scheduler as a state machine, with the type \<open>Op\<close> of all entry points, when each may be
    called (\<open>allowed\<close>), and the reachable states for any sequence of them on both CPUs.

  Properties, in \<open>System_Guarantees\<close>, \<open>Thread_Guarantees\<close> and \<open>Scheduler_Refinement\<close>: no operation panics or
  loops in a reachable state; a context switch runs the first runnable task of the highest level; no ready
  task is lost and none runs on two CPUs; a tick wakes exactly the expired tasks and the alarm is armed for
  the next one; a woken task of higher priority preempts; and the kernel refines the abstract
  scheduler, whose state is lists and sets of tasks.

  \<^bold>\<open>Locks.\<close> \<open>Sync_Mutex\<close> models \<open>esp-sync\<close>, which all crates use for their critical sections: the raw lock that masks
  interrupts (\<open>raw.rs\<close>) for the three architectures, which interpret the locale \<open>raw_lock\<close>, and the mutex with an
  owner (\<open>lib.rs\<close>), in the locale \<open>raw_mutex\<close> that extends it. The machine has two CPUs, nested interrupts,
  context switches and any number of mutexes, and each access to an owner or to the interrupt registers is a
  step. Properties: a mutex is held by one context, which runs with its interrupts masked; locks
  panic only on forbidden reentry; a critical section restores the state of the interrupts.

  \<^bold>\<open>DMA.\<close> \<open>Dma_Descriptors\<close> models the descriptors and descriptor sets of \<open>esp-hal/src/dma/mod.rs\<close>, with the alignment rules of
  \<open>dma/buffers/mod.rs\<close>; a pointer to a descriptor is its index. \<open>Dma_Buffers\<close> models the transmit and receive buffers
  (\<open>dma/buffers/scoped.rs\<close>) and what the engine does with a chain, as the documentation of the fields says; the engine follows at most
  as many descriptors as the slice has, which is enough for a chain. Properties: the engine sends what
  was put into the buffer, the program reads what the engine received, nothing else is touched; and
  two calls that fail to do what their documentation says.

  \<^bold>\<open>Radio support.\<close>

  \<^item> \<open>Radio_Semaphore\<close>: \<open>semaphore.rs\<close> on the wait queues (\<open>esp-rtos/src/esp_radio/mod.rs\<close>). \<open>Radio_Ring\<close> and
    \<open>Radio_Queue\<close>: the buffer of \<open>queue.rs\<close>, and its calls as sequences of critical sections. \<open>Radio_Timer\<close>: \<open>timer.rs\<close>
    with the timer task as a state machine.
  \<^item> In each of them an inductive predicate gives the states that any interleaving of callers, interrupt
    handlers, timeouts and other operations of the scheduler reaches. A blocked call waits in rounds, and
    between two of them anything may happen.

  Properties, in \<open>Radio_Guarantees\<close>: no wakeup is lost; a mutex hands on and restores priorities; a take with a
  deadline returns; a queue never panics, implements a list of items and accounts for it with its two
  semaphores; the timer task never sleeps past a timer, never touches a freed one and triggers only timers that
  are due.

  \<^bold>\<open>Parameters.\<close> MD5, CRC32 and SHA-256, the eFuse, the MMU, the memory allocator, the clock and the configuration are
  arguments of the models. The mask ROM is the record of \<open>Storage_Rom\<close>. The instant that a call reads is an
  argument of its step.

  \<^bold>\<open>Not modelled.\<close> The drivers of \<open>esp-hal\<close> apart from its timers and DMA buffers, the streaming and PSRAM buffers of DMA, caches, start-up and ROM code: register access and
  assembly, whose effect the sources do not describe. Registers in a context switch other than the
  thread and stack pointers, the stack watchpoint, light sleep. The embassy executors and the allocators, which
  wrap third-party crates; the scheduler sees the next wakeup of embassy as an argument. Memory orderings and fences. The radio crates, which bind closed libraries;
  their callbacks are steps of callers. The build tools, macros, generated metadata, logging and examples.
\<close>

end
